(* ===== verification/Tau_Prelude.thy ===== *)
theory Tau_Prelude imports Complex_Main "HOL-Library.Char_ord" "HOL-Library.Signed_Division" "HOL-Library.Monad_Syntax" begin

text \<open>
  What every component of the development shares: the model of the
  \<^verbatim>\<open>result<T>\<close> type of the code (an error with its code and message, or a
  value), the C++ readings of characters, decimal numerals and truncating
  division, and the collections the component theories fill.
\<close>

section \<open>Collections of facts\<close>

named_theorems wf_rules \<open>operations that keep a component's well-formedness invariant\<close>
named_theorems den_simps \<open>what an operation denotes in the abstract model\<close>

section \<open>Results\<close>

text \<open>
  \<^verbatim>\<open>tau_diagnostics.h\<close>: a fallible function returns \<open>result<T>\<close>, an error report
  with a code and a message or a value. The labels of a report are not modelled.
\<close>

datatype error_code = ParseError | UnsupportedOperation | InternalError | InvalidArgument
  | OutOfRange | SolverError

type_synonym 'a result = "(error_code \<times> string) + 'a"

fun rbind :: "'a result \<Rightarrow> ('a \<Rightarrow> 'b result) \<Rightarrow> 'b result" where
  "rbind (Inl e) k = Inl e"
| "rbind (Inr x) k = k x"

lemma rbind_Inr_iff: "rbind m k = Inr y \<longleftrightarrow> (\<exists>x. m = Inr x \<and> k x = Inr y)"
  by (cases m) auto

section \<open>Machine ranges\<close>

definition fits :: "int \<Rightarrow> bool" where
  "fits v \<longleftrightarrow> - (2 ^ 63) \<le> v \<and> v \<le> 2 ^ 63 - 1"

definition fits128 :: "int \<Rightarrow> bool" where
  "fits128 v \<longleftrightarrow> - (2 ^ 127) \<le> v \<and> v \<le> 2 ^ 127 - 1"

section \<open>Characters and decimal numerals\<close>

definition is_digit :: "char \<Rightarrow> bool" where
  "is_digit c \<longleftrightarrow> CHR ''0'' \<le> c \<and> c \<le> CHR ''9''"

definition digit_val :: "char \<Rightarrow> nat" where
  "digit_val c = of_char c - 48"

definition digit_char :: "nat \<Rightarrow> char" where
  "digit_char d = char_of (48 + d)"

lemma of_char_digit: "d < 10 \<Longrightarrow> (of_char (digit_char d) :: nat) = 48 + d"
  by (simp add: digit_char_def)

lemma is_digit_iff: "is_digit c \<longleftrightarrow> (48::nat) \<le> of_char c \<and> (of_char c :: nat) \<le> 57"
  by (simp add: is_digit_def less_eq_char_def)

lemma is_digit_digit_char [simp]: "d < 10 \<Longrightarrow> is_digit (digit_char d)"
  by (simp add: is_digit_iff of_char_digit)

lemma digit_val_digit_char [simp]: "d < 10 \<Longrightarrow> digit_val (digit_char d) = d"
  by (simp add: digit_val_def of_char_digit)

lemma digit_val_less: "is_digit c \<Longrightarrow> digit_val c < 10"
  by (auto simp: is_digit_iff digit_val_def)

text \<open>The decimal numeral of a natural number, as \<^verbatim>\<open>std::to_string\<close> prints it.\<close>

fun nat_to_string :: "nat \<Rightarrow> string" where
  "nat_to_string n =
     (if n < 10 then [digit_char n] else nat_to_string (n div 10) @ [digit_char (n mod 10)])"

declare nat_to_string.simps [simp del]

definition int_to_string :: "int \<Rightarrow> string" where
  "int_to_string v =
     (if v < 0 then CHR ''-'' # nat_to_string (nat (- v)) else nat_to_string (nat v))"

text \<open>The value of a digit string, most significant digit first, over an accumulator.\<close>

fun digits_value :: "nat \<Rightarrow> string \<Rightarrow> nat" where
  "digits_value a [] = a"
| "digits_value a (c # cs) = digits_value (10 * a + digit_val c) cs"

lemma digits_value_append: "digits_value a (xs @ ys) = digits_value (digits_value a xs) ys"
  by (induction a xs rule: digits_value.induct) auto

lemma nat_to_string_digits: "c \<in> set (nat_to_string n) \<Longrightarrow> is_digit c"
proof (induction n arbitrary: c rule: nat_to_string.induct)
  case (1 n)
  show ?case
  proof (cases "n < 10")
    case True
    with "1.prems" show ?thesis by (simp add: nat_to_string.simps [of n])
  next
    case False
    with "1.prems" have "c \<in> set (nat_to_string (n div 10)) \<or> c = digit_char (n mod 10)"
      by (auto simp: nat_to_string.simps [of n])
    with False "1.IH" show ?thesis by auto
  qed
qed

lemma nat_to_string_value: "digits_value 0 (nat_to_string n) = n"
proof (induction n rule: nat_to_string.induct)
  case (1 n)
  show ?case
  proof (cases "n < 10")
    case True
    then show ?thesis by (simp add: nat_to_string.simps [of n])
  next
    case False
    with "1.IH" show ?thesis
      by (simp add: nat_to_string.simps [of n] digits_value_append)
  qed
qed

lemma nat_to_string_nonempty [simp]: "nat_to_string n \<noteq> []"
  by (subst nat_to_string.simps) simp

section \<open>Truncating division\<close>

lemma smod_eq_0_iff: "a smod b = 0 \<longleftrightarrow> b dvd (a::int)"
  by (auto simp: signed_modulo_int_def sgn_if)

section \<open>Option and list helpers\<close>

lemma bind_Some_iff: "Option.bind m f = Some y \<longleftrightarrow> (\<exists>x. m = Some x \<and> f x = Some y)"
  by (cases m) auto

lemma takeWhile_append_stop:
  "(\<And>x. x \<in> set xs \<Longrightarrow> P x) \<Longrightarrow> \<not> P y \<Longrightarrow> takeWhile P (xs @ y # ys) = xs"
  by (induction xs) auto

lemma dropWhile_append_stop:
  "(\<And>x. x \<in> set xs \<Longrightarrow> P x) \<Longrightarrow> \<not> P y \<Longrightarrow> dropWhile P (xs @ y # ys) = y # ys"
  by (induction xs) auto

lemma those_list_all2: "those xs = Some ys \<longleftrightarrow> list_all2 (\<lambda>x y. x = Some y) xs ys"
proof (induction xs arbitrary: ys)
  case (Cons x xs)
  then show ?case by (cases x; cases ys) (auto split: option.splits)
qed auto

lemma concat_upt: "x \<in> set (concat (map f [0..<n])) \<longleftrightarrow> (\<exists>i < n. x \<in> set (f i))"
  by auto

end
