(* ===== verification/Exact_Rational.thy ===== *)
theory Exact_Rational imports Tau_Prelude begin

text \<open>
  \<^verbatim>\<open>src/boolean_algebras/exact_rational.h\<close>: the exact arithmetic that the rational
  endpoints of qint and qlt share. A 128-bit signed integer is an \<^typ>\<open>int\<close>; that no
  operation of a caller leaves its range is proved where the operands are 64-bit (the midpoint
  and the cut of a qint), so the overflow (undefined behaviour in C++) never happens. C++
  division truncates towards zero: it is \<open>sdiv\<close> and \<open>smod\<close>. The counters of the reader (\<open>dscale\<close>,
  \<open>zeros\<close>), an \<^verbatim>\<open>int\<close> in the code, are unbounded here: they differ only on texts of more than
  \<open>2 ^ 31\<close> characters.
\<close>

section \<open>Definitions\<close>

definition int128_abs :: "int \<Rightarrow> int" where
  "int128_abs v = (if v < 0 then - v else v)"

function gcd_loop :: "int \<Rightarrow> int \<Rightarrow> int" where
  "gcd_loop a b = (if b \<noteq> 0 then gcd_loop b (a smod b) else a)"
  by pat_completeness auto
termination
  by (relation "measure (\<lambda>(a, b). nat \<bar>b\<bar>)")
     (auto simp: signed_modulo_int_def abs_mult sgn_if abs_mod_less)

declare gcd_loop.simps [simp del]

definition int128_gcd :: "int \<Rightarrow> int \<Rightarrow> int" where
  "int128_gcd a b = (let g = gcd_loop (int128_abs a) (int128_abs b) in if g \<noteq> 0 then g else 1)"

record fraction =
  fr_p :: int
  fr_q :: int

definition reduce :: "int \<Rightarrow> int \<Rightarrow> fraction option" where
  "reduce num den =
     (if den = 0 then None
      else
        let (num, den) = (if den < 0 then (- num, - den) else (num, den));
            g = int128_gcd num den;
            num = num sdiv g; den = den sdiv g
        in if \<not> fits num \<or> \<not> fits den then None else Some \<lparr>fr_p = num, fr_q = den\<rparr>)"

text \<open>Blanks around a text.\<close>

definition blank :: "char \<Rightarrow> bool" where
  "blank c \<longleftrightarrow> c \<in> {CHR '' '', CHR 0x09, CHR 0x0A, CHR 0x0D}"

definition trim :: "string \<Rightarrow> string" where
  "trim s = rev (dropWhile blank (rev (dropWhile blank s)))"

definition max_decimal_mantissa :: int where
  "max_decimal_mantissa = 2 ^ 123"

definition cap :: int where
  "cap = 2 ^ 100"

text \<open>The state of the digit loop of \<^verbatim>\<open>parse_decimal\<close>.\<close>

record dstate =
  mant :: int
  dscale :: int
  digits :: bool
  dot :: bool
  zeros :: nat

fun claim_zeros :: "nat \<Rightarrow> int \<Rightarrow> int \<Rightarrow> (int \<times> int) option" where
  "claim_zeros 0 m sc = Some (m, sc)"
| "claim_zeros (Suc z) m sc =
     (let m = m * 10 in if m > max_decimal_mantissa then None else claim_zeros z m (sc + 1))"

fun scan_mantissa :: "string \<Rightarrow> dstate \<Rightarrow> (dstate \<times> string) option" where
  "scan_mantissa [] s = Some (s, [])"
| "scan_mantissa (c # cs) s =
     (if c = CHR ''.'' then
        if dot s then None else scan_mantissa cs (s\<lparr>dot := True\<rparr>)
      else if is_digit c then
        if dot s \<and> c = CHR ''0'' then
          scan_mantissa cs (s\<lparr>digits := True, zeros := Suc (zeros s)\<rparr>)
        else
          case claim_zeros (zeros s) (mant s) (dscale s) of
            None \<Rightarrow> None
          | Some (m, sc) \<Rightarrow>
              let m = m * 10 + int (digit_val c)
              in if m > max_decimal_mantissa then None
                 else scan_mantissa cs
                   (s\<lparr>mant := m, dscale := (if dot s then sc + 1 else sc), digits := True,
                      zeros := 0\<rparr>)
      else Some (s, c # cs))"

text \<open>A sign, consumed when present: whether it is a minus, and the text after it.\<close>

fun read_sign :: "string \<Rightarrow> bool \<times> string" where
  "read_sign (c # cs) =
     (if c = CHR ''+'' \<or> c = CHR ''-'' then (c = CHR ''-'', cs) else (False, c # cs))"
| "read_sign [] = (False, [])"

fun scan_exponent :: "string \<Rightarrow> int \<Rightarrow> int option" where
  "scan_exponent [] e = Some e"
| "scan_exponent (c # cs) e =
     (if \<not> is_digit c then None
      else let e = e * 10 + int (digit_val c) in if e > 40 then None else scan_exponent cs e)"

definition read_exponent :: "string \<Rightarrow> int option" where
  "read_exponent t =
     (case t of
        [] \<Rightarrow> Some 0
      | c # cs \<Rightarrow>
          if c = CHR ''e'' \<or> c = CHR ''E'' then
            let (eneg, cs) = read_sign cs
            in if cs = [] then None
               else map_option (\<lambda>e. if eneg then - e else e) (scan_exponent cs 0)
          else None)"

fun scale_up :: "nat \<Rightarrow> int \<Rightarrow> int option" where
  "scale_up 0 num = Some num"
| "scale_up (Suc k) num = (if int128_abs num > cap then None else scale_up k (num * 10))"

text \<open>Cancel up to \<open>k\<close> factors \<open>b\<close>; the factors left, and the quotient.\<close>

fun cancel :: "int \<Rightarrow> nat \<Rightarrow> int \<Rightarrow> nat \<times> int" where
  "cancel b 0 num = (0, num)"
| "cancel b (Suc k) num = (if num smod b = 0 then cancel b k (num sdiv b) else (Suc k, num))"

fun grow_den :: "int \<Rightarrow> nat \<Rightarrow> int \<Rightarrow> int option" where
  "grow_den b 0 den = Some den"
| "grow_den b (Suc k) den = (if den > cap then None else grow_den b k (den * b))"

definition finish_decimal :: "bool \<Rightarrow> int \<Rightarrow> int \<Rightarrow> fraction option" where
  "finish_decimal negative m shift =
     (if shift > 38 then None
      else do {
        let num = (if negative then - m else m);
        num \<leftarrow> scale_up (nat shift) num;
        let (twos, num) = cancel 2 (nat (- shift)) num;
        let (fives, num) = cancel 5 (nat (- shift)) num;
        den \<leftarrow> grow_den 2 twos 1;
        den \<leftarrow> grow_den 5 fives den;
        reduce num den
      })"

definition parse_decimal :: "string \<Rightarrow> fraction option" where
  "parse_decimal t =
     (let (negative, t) = read_sign t
      in case scan_mantissa t \<lparr>mant = 0, dscale = 0, digits = False, dot = False, zeros = 0\<rparr> of
           None \<Rightarrow> None
         | Some (s, rest) \<Rightarrow>
             if \<not> digits s then None
             else case read_exponent rest of
                    None \<Rightarrow> None
                  | Some e \<Rightarrow> finish_decimal negative (mant s) (e - dscale s))"

definition split_fraction :: "string \<Rightarrow> (string \<times> string) option" where
  "split_fraction t =
     (case dropWhile (\<lambda>c. c \<noteq> CHR ''/'') t of
        [] \<Rightarrow> None
      | _ # r \<Rightarrow> Some (trim (takeWhile (\<lambda>c. c \<noteq> CHR ''/'') t), trim r))"

definition parse_number :: "string \<Rightarrow> fraction option" where
  "parse_number s =
     (let t = trim s
      in case split_fraction t of
           None \<Rightarrow> parse_decimal t
         | Some (l, r) \<Rightarrow>
             (case (parse_decimal l, parse_decimal r) of
                (Some a, Some b) \<Rightarrow>
                  if fr_p b = 0 then None
                  else reduce (fr_p a * fr_q b) (fr_q a * fr_p b)
              | _ \<Rightarrow> None))"

definition place_decimal_point :: "string \<Rightarrow> nat \<Rightarrow> bool \<Rightarrow> string" where
  "place_decimal_point ds places negative =
     (let ds = (if length ds \<le> places
                then replicate (places + 1 - length ds) (CHR ''0'') @ ds else ds);
          k = length ds - places;
          ds = take k ds @ CHR ''.'' # drop k ds
      in if negative then CHR ''-'' # ds else ds)"


section \<open>Division and the greatest common divisor\<close>

lemma sdiv_dvd: "b dvd a \<Longrightarrow> a sdiv b = a div (b::int)"
  by (auto simp: signed_divide_int_def sgn_if zdiv_zminus1_eq_if zdiv_zminus2_eq_if)

lemma gcd_loop_gcd: "0 \<le> a \<Longrightarrow> 0 \<le> b \<Longrightarrow> gcd_loop a b = gcd a b"
proof (induction a b rule: gcd_loop.induct)
  case (1 a b)
  show ?case
  proof (cases "b = 0")
    case True
    with "1.prems" show ?thesis by (simp add: gcd_loop.simps [of a 0])
  next
    case False
    with "1.prems" have m: "a smod b = a mod b" by (simp add: smod_mod_positive)
    with False "1.prems" "1.IH" have "gcd_loop b (a mod b) = gcd b (a mod b)" by simp
    with False m show ?thesis
      by (simp add: gcd_loop.simps [of a b] gcd_red_int [symmetric])
  qed
qed

lemma int128_gcd_eq: "int128_gcd a b = (if a = 0 \<and> b = 0 then 1 else gcd a b)"
proof -
  have "gcd_loop (int128_abs a) (int128_abs b) = gcd a b"
    by (simp add: gcd_loop_gcd int128_abs_def)
  then show ?thesis by (simp add: int128_gcd_def Let_def)
qed

section \<open>Fractions\<close>

definition fr_val :: "fraction \<Rightarrow> rat" where
  "fr_val f = of_int (fr_p f) / of_int (fr_q f)"

definition fr_valid :: "fraction \<Rightarrow> bool" where
  "fr_valid f \<longleftrightarrow> 0 < fr_q f \<and> coprime (fr_p f) (fr_q f) \<and> fits (fr_p f) \<and> fits (fr_q f)"

lemma quotient_of_ratio:
  assumes "den \<noteq> 0"
  shows "quotient_of (of_int num / of_int den) =
    (if den < 0 then (- num div gcd num den, - den div gcd num den)
     else (num div gcd num den, den div gcd num den))"
  using assms
  by (auto simp: Fract_of_int_quotient [symmetric] quotient_of_Fract normalize_def Let_def
      div_minus_right)

text \<open>Reduction is the reduced fraction of the library, refused when it does not fit.\<close>

lemma reduce_quotient_of:
  "reduce num den =
     (if den = 0 then None
      else let (a, b) = quotient_of (of_int num / of_int den)
           in if fits a \<and> fits b then Some \<lparr>fr_p = a, fr_q = b\<rparr> else None)"
proof (cases "den = 0")
  case True
  then show ?thesis by (simp add: reduce_def)
next
  case False
  then have "int128_gcd num den = gcd num den" "int128_gcd (- num) (- den) = gcd num den"
    by (simp_all add: int128_gcd_eq)
  with False show ?thesis
    by (auto simp: reduce_def Let_def quotient_of_ratio sdiv_dvd dvd_neg_div)
qed


lemma reduce_Some:
  assumes "reduce num den = Some f"
  shows "den \<noteq> 0" and "fr_valid f" and "fr_val f = of_int num / of_int den"
proof -
  obtain a b where q: "quotient_of (of_int num / of_int den) = (a, b)" by fastforce
  from assms show den: "den \<noteq> 0" by (simp add: reduce_quotient_of split: if_splits)
  with assms q have f: "f = \<lparr>fr_p = a, fr_q = b\<rparr>" "fits a" "fits b"
    by (simp_all add: reduce_quotient_of split: if_splits)
  with q show "fr_valid f"
    by (simp add: fr_valid_def quotient_of_denom_pos quotient_of_coprime)
  from q have "of_int num / of_int den = (of_int a / of_int b :: rat)"
    by (rule quotient_of_div)
  with f show "fr_val f = of_int num / of_int den" by (simp add: fr_val_def)
qed

lemma fr_valid_quotient_of: "fr_valid f \<Longrightarrow> quotient_of (fr_val f) = (fr_p f, fr_q f)"
  by (simp add: fr_val_def fr_valid_def Fract_of_int_quotient [symmetric] quotient_of_Fract
      normalize_stable)

lemma fr_val_inject: "fr_valid f \<Longrightarrow> fr_valid g \<Longrightarrow> fr_val f = fr_val g \<Longrightarrow> f = g"
  by (metis fr_valid_quotient_of prod.inject fraction.equality old.unit.exhaust)

lemma reduce_complete:
  assumes "fr_valid f" and "den \<noteq> 0" and "fr_val f = of_int num / of_int den"
  shows "reduce num den = Some f"
  using assms fr_valid_quotient_of [OF assms(1)]
  by (simp add: reduce_quotient_of fr_valid_def)

section \<open>The value of a decimal text\<close>

text \<open>
  The grammar the comment of \<^verbatim>\<open>parse_decimal\<close> gives by examples: a sign, digits with at
  most one point, an exponent; and the rational such a text denotes.
\<close>

definition sign_text :: "string \<Rightarrow> bool \<Rightarrow> bool" where
  "sign_text s neg \<longleftrightarrow> (s = [] \<and> \<not> neg) \<or> (s = ''+'' \<and> \<not> neg) \<or> (s = ''-'' \<and> neg)"

definition exponent_text :: "string \<Rightarrow> int \<Rightarrow> bool" where
  "exponent_text s e \<longleftrightarrow> (s = [] \<and> e = 0) \<or>
     (\<exists>c sg neg ds. s = c # sg @ ds \<and> c \<in> {CHR ''e'', CHR ''E''} \<and> sign_text sg neg \<and> ds \<noteq> [] \<and>
        (\<forall>d\<in>set ds. is_digit d) \<and>
        e = (if neg then - int (digits_value 0 ds) else int (digits_value 0 ds)))"

definition decimal_text :: "string \<Rightarrow> rat \<Rightarrow> bool" where
  "decimal_text s r \<longleftrightarrow> (\<exists>sg neg ip fp pt ex e.
     s = sg @ ip @ pt @ fp @ ex \<and> sign_text sg neg \<and> (\<forall>d\<in>set (ip @ fp). is_digit d) \<and>
     ip @ fp \<noteq> [] \<and> (pt = ''.'' \<or> (pt = [] \<and> fp = [])) \<and> exponent_text ex e \<and>
     r = (if neg then - 1 else 1) * of_nat (digits_value 0 (ip @ fp))
         * 10 powi (e - int (length fp)))"

lemma decimal_textI:
  "s = sg @ ip @ pt @ fp @ ex \<Longrightarrow> sign_text sg neg \<Longrightarrow> \<forall>d\<in>set (ip @ fp). is_digit d \<Longrightarrow>
     ip @ fp \<noteq> [] \<Longrightarrow> pt = ''.'' \<or> (pt = [] \<and> fp = []) \<Longrightarrow> exponent_text ex e \<Longrightarrow>
     r = (if neg then - 1 else 1) * of_nat (digits_value 0 (ip @ fp))
         * 10 powi (e - int (length fp)) \<Longrightarrow> decimal_text s r"
  unfolding decimal_text_def by blast

text \<open>What the loop state stands for: the digits read before and after the point.\<close>

definition represents :: "dstate \<Rightarrow> string \<Rightarrow> string \<Rightarrow> bool" where
  "represents s ip fp \<longleftrightarrow> (\<forall>d\<in>set (ip @ fp). is_digit d) \<and> 0 \<le> mant s \<and>
     mant s * 10 ^ zeros s = int (digits_value 0 (ip @ fp)) \<and>
     dscale s + int (zeros s) = int (length fp) \<and> (digits s \<longleftrightarrow> ip @ fp \<noteq> []) \<and>
     (\<not> dot s \<longrightarrow> fp = [] \<and> zeros s = 0)"

definition read_text :: "dstate \<Rightarrow> string \<Rightarrow> string \<Rightarrow> string" where
  "read_text s ip fp = ip @ (if dot s then CHR ''.'' # fp else [])"

lemma claim_zeros_Some:
  "claim_zeros z m sc = Some (m', sc') \<Longrightarrow> m' = m * 10 ^ z \<and> sc' = sc + int z"
  by (induction z arbitrary: m sc) (fastforce simp: Let_def split: if_splits)+

lemma claim_zeros_total:
  "0 \<le> m \<Longrightarrow> m * 10 ^ z \<le> max_decimal_mantissa \<Longrightarrow> claim_zeros z m sc = Some (m * 10 ^ z, sc + int z)"
proof (induction z m sc rule: claim_zeros.induct)
  case (2 z m sc)
  have "m * 10 * 1 \<le> m * 10 * 10 ^ z"
    using "2.prems" by (intro mult_left_mono) simp_all
  with "2.prems" have "m * 10 \<le> max_decimal_mantissa" by (simp add: mult.assoc)
  with "2" show ?case by (simp add: mult.assoc)
qed simp

text \<open>One digit read extends what the state represents.\<close>

lemma represents_zero:
  "represents s ip fp \<Longrightarrow> dot s \<Longrightarrow>
     represents (s\<lparr>digits := True, zeros := Suc (zeros s)\<rparr>) ip (fp @ ''0'')"
  by (simp add: represents_def digits_value_append is_digit_def digit_val_def
      flip: append_assoc)

lemma represents_digit:
  assumes rep: "represents s ip fp" and d: "is_digit c"
    and z: "claim_zeros (zeros s) (mant s) (dscale s) = Some (m, sc)"
  shows "represents (s\<lparr>mant := m * 10 + int (digit_val c),
            dscale := (if dot s then sc + 1 else sc), digits := True, zeros := 0\<rparr>)
          (if dot s then ip else ip @ [c]) (if dot s then fp @ [c] else fp)"
proof -
  from z have m: "m = mant s * 10 ^ zeros s" "sc = dscale s + int (zeros s)"
    by (auto dest: claim_zeros_Some)
  with rep d show ?thesis
    by (auto simp: represents_def digits_value_append simp flip: append_assoc)
qed


lemma scan_mantissa_sound:
  assumes "scan_mantissa cs s = Some (s', rest)" and "represents s ip fp"
  shows "\<exists>ip' fp'. represents s' ip' fp' \<and> read_text s ip fp @ cs = read_text s' ip' fp' @ rest"
  using assms
proof (induction cs s arbitrary: ip fp rule: scan_mantissa.induct)
  case (1 s)
  then show ?case by auto
next
  case (2 c cs s)
  consider (dot) "c = CHR ''.''" | (zero) "c \<noteq> CHR ''.''" "is_digit c" "dot s \<and> c = CHR ''0''"
    | (digit) "c \<noteq> CHR ''.''" "is_digit c" "\<not> (dot s \<and> c = CHR ''0'')"
    | (stop) "c \<noteq> CHR ''.''" "\<not> is_digit c"
    by blast
  then show ?case
  proof cases
    case dot
    with "2.prems" have "\<not> dot s" and run: "scan_mantissa cs (s\<lparr>dot := True\<rparr>) = Some (s', rest)"
      by (simp_all split: if_splits)
    with "2.prems"(2) have "represents (s\<lparr>dot := True\<rparr>) ip []"
      and "read_text (s\<lparr>dot := True\<rparr>) ip [] @ cs = read_text s ip fp @ c # cs"
      using dot by (auto simp: represents_def read_text_def)
    with "2.IH"(1) [OF dot \<open>\<not> dot s\<close> run] show ?thesis by metis
  next
    case zero
    let ?s = "s\<lparr>digits := True, zeros := Suc (zeros s)\<rparr>"
    from zero "2.prems" have run: "scan_mantissa cs ?s = Some (s', rest)" by simp
    from zero "2.prems"(2) have "represents ?s ip (fp @ ''0'')"
      by (simp add: represents_zero)
    moreover from zero have "read_text ?s ip (fp @ ''0'') @ cs = read_text s ip fp @ c # cs"
      by (simp add: read_text_def)
    ultimately show ?thesis using "2.IH"(2) [OF zero run] by metis
  next
    case digit
    with "2.prems" obtain m sc where
      z: "claim_zeros (zeros s) (mant s) (dscale s) = Some (m, sc)" and
      le: "\<not> m * 10 + int (digit_val c) > max_decimal_mantissa" and
      run: "scan_mantissa cs (s\<lparr>mant := m * 10 + int (digit_val c),
        dscale := (if dot s then sc + 1 else sc), digits := True, zeros := 0\<rparr>) = Some (s', rest)"
      by (auto simp: Let_def split: option.splits if_splits)
    let ?s = "s\<lparr>mant := m * 10 + int (digit_val c),
        dscale := (if dot s then sc + 1 else sc), digits := True, zeros := 0\<rparr>"
    let ?ip = "if dot s then ip else ip @ [c]" and ?fp = "if dot s then fp @ [c] else fp"
    have "represents ?s ?ip ?fp" using "2.prems"(2) digit(2) z by (rule represents_digit)
    moreover from "2.prems"(2) have "read_text ?s ?ip ?fp @ cs = read_text s ip fp @ c # cs"
      by (simp add: read_text_def represents_def)
    ultimately show ?thesis using "2.IH"(3) [OF digit z refl refl le run] by metis
  next
    case stop
    with "2.prems" show ?thesis by auto
  qed
qed

lemma scan_exponent_sound:
  assumes "scan_exponent ds a = Some e"
  shows "(\<forall>d\<in>set ds. is_digit d) \<and> (0 \<le> a \<longrightarrow> e = int (digits_value (nat a) ds))"
  using assms
proof (induction ds a rule: scan_exponent.induct)
  case (2 c cs a)
  then have "is_digit c" "\<not> a * 10 + int (digit_val c) > 40"
    "scan_exponent cs (a * 10 + int (digit_val c)) = Some e"
    by (auto simp: Let_def split: if_splits)
  moreover have "0 \<le> a \<Longrightarrow> nat (a * 10 + int (digit_val c)) = 10 * nat a + digit_val c"
    by (simp add: nat_add_distrib nat_mult_distrib)
  ultimately show ?case using "2.IH" by simp
qed simp

lemma read_sign_sound: "read_sign t = (neg, r) \<Longrightarrow> \<exists>sg. t = sg @ r \<and> sign_text sg neg"
  by (cases t) (auto simp: sign_text_def split: if_splits)

lemma exponent_textI:
  "s = c # sg @ ds \<Longrightarrow> c \<in> {CHR ''e'', CHR ''E''} \<Longrightarrow> sign_text sg neg \<Longrightarrow> ds \<noteq> [] \<Longrightarrow>
     \<forall>d\<in>set ds. is_digit d \<Longrightarrow>
     e = (if neg then - int (digits_value 0 ds) else int (digits_value 0 ds)) \<Longrightarrow>
     exponent_text s e"
  unfolding exponent_text_def by blast

lemma read_exponent_sound: "read_exponent t = Some e \<Longrightarrow> exponent_text t e"
proof (cases t)
  case (Cons c cs)
  assume "read_exponent t = Some e"
  with Cons obtain eneg ds a where c: "c \<in> {CHR ''e'', CHR ''E''}"
    and sg: "read_sign cs = (eneg, ds)" and ds: "ds \<noteq> []" "scan_exponent ds 0 = Some a"
    and e: "e = (if eneg then - a else a)"
    by (auto simp: read_exponent_def split: if_splits prod.splits)
  from sg obtain s where s: "cs = s @ ds" "sign_text s eneg" by (auto dest: read_sign_sound)
  from ds scan_exponent_sound have "\<forall>d\<in>set ds. is_digit d" "a = int (digits_value 0 ds)"
    by fastforce+
  with Cons s(1) e ds(1) show ?thesis by (intro exponent_textI [OF _ c s(2)]) simp_all
qed (simp add: read_exponent_def exponent_text_def)


section \<open>The scaling loops\<close>

lemma scale_up_Some: "scale_up k num = Some r \<Longrightarrow> r = num * 10 ^ k"
  by (induction k num rule: scale_up.induct) (auto split: if_splits)

lemma cancel_Some:
  assumes "cancel b k num = (k', r)" and "1 < b"
  shows "k' \<le> k \<and> num = r * b ^ (k - k') \<and> (k' = 0 \<or> \<not> b dvd r)"
  using assms(1)
proof (induction b k num rule: cancel.induct)
  case (2 b k num)
  show ?case
  proof (cases "b dvd num")
    case True
    with "2" have "k' \<le> k \<and> num div b = r * b ^ (k - k') \<and> (k' = 0 \<or> \<not> b dvd r)"
      by (simp add: smod_eq_0_iff sdiv_dvd)
    moreover from True have "num = num div b * b" by simp
    ultimately show ?thesis by (simp add: Suc_diff_le)
  next
    case False
    with "2.prems" show ?thesis by (auto simp: smod_eq_0_iff)
  qed
qed auto

lemma grow_den_Some: "grow_den b k den = Some r \<Longrightarrow> r = den * b ^ k"
  by (induction k arbitrary: den) (fastforce split: if_splits)+

lemma grow_den_total:
  "1 \<le> b \<Longrightarrow> 1 \<le> den \<Longrightarrow> den * b ^ k \<le> cap \<Longrightarrow> grow_den b k den = Some (den * b ^ k)"
proof (induction k arbitrary: den)
  case (Suc k)
  then have b: "1 \<le> b" and d: "1 \<le> den" and le: "den * (b * b ^ k) \<le> cap" by simp_all
  have "den * 1 \<le> den * (b * b ^ k)"
    using b d one_le_power [of b "Suc k"] by (intro mult_left_mono) simp_all
  with le have "\<not> den > cap" by simp
  moreover have "1 \<le> den * b" using b d mult_mono [of 1 den 1 b] by simp
  ultimately show ?case using Suc.IH [of "den * b"] b le by (simp add: mult.assoc)
qed simp

lemma powi_nonpos: "shift \<le> 0 \<Longrightarrow> (10::rat) powi shift = 1 / 10 ^ nat (- shift)"
proof -
  assume "shift \<le> 0"
  then obtain n where "shift = - int n" by (metis nonpos_int_cases)
  then show ?thesis by (simp only: power_int_minus power_int_of_nat divide_inverse) simp
qed

lemma coprime_5: "\<not> 5 dvd n \<Longrightarrow> coprime n (5::int)"
proof -
  assume n: "\<not> 5 dvd n"
  define g where "g = gcd n 5"
  have g: "g dvd 5" "g dvd n" "0 < g" by (simp_all add: g_def)
  then have "g \<le> 5" by (simp add: zdvd_imp_le)
  with g(3) have "g = 1 \<or> g = 2 \<or> g = 3 \<or> g = 4 \<or> g = 5" by arith
  with g n have "g = 1" by auto
  then show ?thesis by (simp add: g_def coprime_iff_gcd_eq_1)
qed

text \<open>What is cancelled from the numerator is missing from the denominator.\<close>

lemma cancel_ratio:
  assumes "cancel 2 k num = (t, n1)" and "cancel 5 k n1 = (f, n2)"
  shows "of_int num / 10 ^ k = (of_int n2 / of_int (2 ^ t * 5 ^ f) :: rat)"
    and "coprime n2 (2 ^ t * 5 ^ f)"
proof -
  from cancel_Some [OF assms(1)] have t: "t \<le> k" "num = n1 * 2 ^ (k - t)" "t = 0 \<or> odd n1" by auto
  from cancel_Some [OF assms(2)] have f: "f \<le> k" "n1 = n2 * 5 ^ (k - f)" "f = 0 \<or> \<not> 5 dvd n2" by auto
  have "(10::rat) ^ k = (2 ^ (k - t) * 5 ^ (k - f)) * (2 ^ t * 5 ^ f)"
  proof -
    have "(10::rat) ^ k = (2 * 5) ^ k" by simp
    also have "\<dots> = 2 ^ k * 5 ^ k" by (simp only: power_mult_distrib)
    also have "\<dots> = (2 ^ (k - t) * 2 ^ t) * (5 ^ (k - f) * 5 ^ f)"
      using t(1) f(1) by (simp only: power_add [symmetric] le_add_diff_inverse2)
    finally show ?thesis by (simp only: ac_simps)
  qed
  moreover have "(of_int num :: rat) = of_int n2 * (2 ^ (k - t) * 5 ^ (k - f))"
    unfolding t(2) f(2) by (simp only: of_int_mult of_int_power of_int_numeral ac_simps)
  ultimately show "of_int num / 10 ^ k = (of_int n2 / of_int (2 ^ t * 5 ^ f) :: rat)"
    by (simp add: field_simps)
  have "t = 0 \<or> odd n2" using t(3) f(2) by auto
  then have "coprime n2 (2 ^ t)" by (auto simp: coprime_right_2_iff_odd)
  moreover have "coprime n2 (5 ^ f)"
  proof (cases "f = 0")
    case False
    with f have "coprime n2 5" by (simp add: coprime_5)
    then show ?thesis by simp
  qed simp
  ultimately show "coprime n2 (2 ^ t * 5 ^ f)" by simp
qed


lemma finish_decimal_Some:
  assumes "finish_decimal neg m shift = Some f"
  shows "fr_valid f \<and> fr_val f = (if neg then - 1 else 1) * of_int m * 10 powi shift"
proof -
  define num where "num = (if neg then - m else m)"
  from assms obtain num' where up: "scale_up (nat shift) num = Some num'"
    by (auto simp: finish_decimal_def num_def bind_Some_iff Let_def split: if_splits)
  obtain t n1 where c2: "cancel 2 (nat (- shift)) num' = (t, n1)" by fastforce
  obtain v n2 where c5: "cancel 5 (nat (- shift)) n1 = (v, n2)" by fastforce
  from assms up c2 c5 obtain d where d: "grow_den 2 t 1 = Some d"
    and r: "\<exists>e. grow_den 5 v d = Some e \<and> reduce n2 e = Some f"
    by (auto simp: finish_decimal_def num_def bind_Some_iff split: if_splits)
  from grow_den_Some [OF d] have "d = 2 ^ t" by simp
  with r have red: "reduce n2 (2 ^ t * 5 ^ v) = Some f" by (auto dest: grow_den_Some)
  have "fr_val f = of_int num' / 10 ^ nat (- shift)"
    using reduce_Some(3) [OF red] cancel_ratio(1) [OF c2 c5] by simp
  moreover have "num' = num * 10 ^ nat shift" using up by (rule scale_up_Some)
  ultimately have "fr_val f = of_int num * 10 powi shift"
    by (cases "0 \<le> shift") (simp add: power_int_def, simp only: powi_nonpos, simp)
  then show ?thesis using reduce_Some(2) [OF red] by (simp add: num_def)
qed

lemma finish_decimal_complete:
  assumes f: "fr_valid f" and val: "fr_val f = of_int (if neg then - m else m) / 10 ^ k"
  shows "finish_decimal neg m (- int k) = Some f"
proof -
  define num where "num = (if neg then - m else m)"
  obtain t n1 where c2: "cancel 2 k num = (t, n1)" by fastforce
  obtain v n2 where c5: "cancel 5 k n1 = (v, n2)" by fastforce
  define d :: int where "d = 2 ^ t * 5 ^ v"
  have d: "0 < d" by (simp add: d_def)
  have eq: "fr_val f = of_int n2 / of_int d"
    using cancel_ratio(1) [OF c2 c5] val by (simp add: num_def d_def)
  have "quotient_of (of_int n2 / of_int d) = (n2, d)"
    using cancel_ratio(2) [OF c2 c5] d unfolding d_def [symmetric]
    by (simp add: Fract_of_int_quotient [symmetric] quotient_of_Fract normalize_stable)
  with eq fr_valid_quotient_of [OF f] have q: "fr_q f = d" by simp
  with f have cap: "d \<le> cap" by (simp add: fr_valid_def fits_def cap_def)
  have "2 ^ t \<le> d" using mult_left_mono [of 1 "5 ^ v" "2 ^ t :: int"] by (simp add: d_def)
  from this cap have "2 ^ t \<le> cap" by (rule order_trans)
  with cap have "grow_den 2 t 1 = Some (2 ^ t)" "grow_den 5 v (2 ^ t) = Some d"
    using grow_den_total [of 2 1 t] grow_den_total [of 5 "2 ^ t" v] by (simp_all add: d_def)
  moreover have "reduce n2 d = Some f" using f d eq by (intro reduce_complete) auto
  ultimately show ?thesis using c2 c5 by (simp add: finish_decimal_def num_def)
qed

text \<open>A number the reader accepts is the exact value of its text, in lowest terms.\<close>

lemma parse_decimal_sound:
  assumes "parse_decimal t = Some f"
  shows "decimal_text t (fr_val f) \<and> fr_valid f"
proof -
  let ?s0 = "\<lparr>mant = 0, dscale = 0, digits = False, dot = False, zeros = 0\<rparr>"
  obtain neg r where sg: "read_sign t = (neg, r)" by fastforce
  with assms obtain s rest e where scan: "scan_mantissa r ?s0 = Some (s, rest)"
    and dig: "digits s" and ex: "read_exponent rest = Some e"
    and fin: "finish_decimal neg (mant s) (e - dscale s) = Some f"
    by (auto simp: parse_decimal_def split: option.splits if_splits)
  have "represents ?s0 [] []" by (simp add: represents_def)
  with scan obtain ip fp where rep: "represents s ip fp"
    and txt0: "read_text ?s0 [] [] @ r = read_text s ip fp @ rest"
    by (meson scan_mantissa_sound)
  from sg obtain g where g: "t = g @ r" "sign_text g neg" by (auto dest: read_sign_sound)
  define pt where "pt = (if dot s then ''.'' else [])"
  have pt: "r = ip @ pt @ fp @ rest" "pt = ''.'' \<or> (pt = [] \<and> fp = [])"
    using txt0 rep by (auto simp: read_text_def pt_def represents_def)
  have "of_int (mant s) * 10 powi (e - dscale s) =
      (of_nat (digits_value 0 (ip @ fp)) * 10 powi (e - int (length fp)) :: rat)"
  proof -
    have "(of_nat (digits_value 0 (ip @ fp)) :: rat) = of_int (mant s) * 10 ^ zeros s"
    proof -
      have "mant s * 10 ^ zeros s = int (digits_value 0 (ip @ fp))"
        using rep by (simp add: represents_def)
      then have "(of_int (mant s * 10 ^ zeros s) :: rat) = of_int (int (digits_value 0 (ip @ fp)))"
        by (rule arg_cong)
      then show ?thesis by simp
    qed
    moreover have "e - dscale s = (e - int (length fp)) + int (zeros s)"
      using rep by (simp add: represents_def)
    then have "(10::rat) powi (e - dscale s) = 10 powi (e - int (length fp)) * 10 ^ zeros s"
      by (simp only:) (subst power_int_add, simp_all)
    ultimately show ?thesis by simp
  qed
  with finish_decimal_Some [OF fin] have val: "fr_val f = (if neg then - 1 else 1) *
      of_nat (digits_value 0 (ip @ fp)) * 10 powi (e - int (length fp))" by simp
  have "decimal_text t (fr_val f)"
    using g(1) pt rep dig read_exponent_sound [OF ex] val
    by (intro decimal_textI [OF _ g(2), of _ ip pt fp rest e]) (simp_all add: represents_def)
  with finish_decimal_Some [OF fin] show ?thesis by simp
qed



section \<open>Reading back a plain decimal\<close>

lemma digits_value_ge: "a \<le> digits_value a cs"
  by (induction a cs rule: digits_value.induct) auto

lemma digits_value_prefix: "digits_value a xs \<le> digits_value a (xs @ ys)"
  by (simp add: digits_value_append digits_value_ge)

lemma is_digit_not_special:
  "is_digit c \<Longrightarrow> c \<noteq> CHR ''.'' \<and> c \<noteq> CHR ''+'' \<and> c \<noteq> CHR ''-'' \<and> c \<noteq> CHR ''/'' \<and> \<not> blank c"
  by (auto simp: is_digit_iff blank_def)

text \<open>Digits whose value stays within the cap are all read.\<close>

lemma scan_mantissa_digits:
  assumes "represents s ip fp" and "\<forall>d\<in>set ds. is_digit d"
    and "int (digits_value 0 (ip @ fp @ ds)) \<le> max_decimal_mantissa"
  shows "\<exists>s'. scan_mantissa (ds @ rest) s = scan_mantissa rest s' \<and> dot s' = dot s \<and>
    represents s' (if dot s then ip else ip @ ds) (if dot s then fp @ ds else fp) \<and>
    (if ds = [] then s' = s else last ds \<noteq> CHR ''0'' \<longrightarrow> zeros s' = 0)"
  using assms
proof (induction ds arbitrary: s ip fp)
  case Nil
  then show ?case by auto
next
  case (Cons c cs)
  have c: "is_digit c" "c \<noteq> CHR ''.''" using Cons.prems(2) is_digit_not_special by auto
  show ?case
  proof (cases "dot s \<and> c = CHR ''0''")
    case True
    let ?s = "s\<lparr>digits := True, zeros := Suc (zeros s)\<rparr>"
    from True Cons.prems have "represents ?s ip (fp @ ''0'')" by (simp add: represents_zero)
    from Cons.IH [OF this] Cons.prems(2,3) True obtain s' where
      "scan_mantissa (cs @ rest) ?s = scan_mantissa rest s'" "dot s' = dot s"
      "represents s' ip (fp @ ''0'' @ cs)" "cs = [] \<or> last cs = CHR ''0'' \<or> zeros s' = 0"
      by (auto split: if_splits)
    with True c show ?thesis by (intro exI [of _ s']) auto
  next
    case False
    have fp: "fp = []" if "\<not> dot s" using that Cons.prems(1) by (simp add: represents_def)
    have v: "mant s * 10 ^ zeros s = int (digits_value 0 (ip @ fp))" "0 \<le> mant s"
      using Cons.prems(1) by (simp_all add: represents_def)
    have "digits_value 0 (ip @ fp) \<le> digits_value 0 (ip @ fp @ c # cs)"
      using digits_value_prefix [of 0 "ip @ fp" "c # cs"] by simp
    with v Cons.prems(3) have "mant s * 10 ^ zeros s \<le> max_decimal_mantissa" by linarith
    with v(2) have z: "claim_zeros (zeros s) (mant s) (dscale s)
        = Some (mant s * 10 ^ zeros s, dscale s + int (zeros s))" by (rule claim_zeros_total)
    have "int (digits_value 0 (ip @ fp @ [c])) \<le> int (digits_value 0 (ip @ fp @ c # cs))"
      using digits_value_prefix [of 0 "ip @ fp @ [c]" cs] by simp
    moreover have "int (digits_value 0 (ip @ fp @ [c]))
        = mant s * 10 ^ zeros s * 10 + int (digit_val c)"
      unfolding v(1) by (simp add: digits_value_append)
    ultimately have le: "\<not> mant s * 10 ^ zeros s * 10 + int (digit_val c) > max_decimal_mantissa"
      using Cons.prems(3) by linarith
    define s1 where "s1 = s\<lparr>mant := mant s * 10 ^ zeros s * 10 + int (digit_val c),
      dscale := (if dot s then dscale s + int (zeros s) + 1 else dscale s + int (zeros s)),
      digits := True, zeros := 0\<rparr>"
    have run: "scan_mantissa ((c # cs) @ rest) s = scan_mantissa (cs @ rest) s1"
      using False c z le by (auto simp: s1_def)
    have "represents s1 (if dot s then ip else ip @ [c]) (if dot s then fp @ [c] else fp)"
      using represents_digit [OF Cons.prems(1) c(1) z] by (simp add: s1_def)
    moreover have "dot s1 = dot s" "zeros s1 = 0" by (simp_all add: s1_def)
    moreover have "int (digits_value 0 ((if dot s then ip else ip @ [c]) @
        (if dot s then fp @ [c] else fp) @ cs)) \<le> max_decimal_mantissa"
      using Cons.prems(3) fp by (cases "dot s") simp_all
    ultimately obtain s' where "scan_mantissa (cs @ rest) s1 = scan_mantissa rest s'"
      and "dot s' = dot s" and "zeros s' = 0 \<or> (cs \<noteq> [] \<and> last cs = CHR ''0'')"
      and "represents s' (if dot s then ip else ip @ c # cs) (if dot s then fp @ c # cs else fp)"
      using Cons.IH [of s1 "if dot s then ip else ip @ [c]" "if dot s then fp @ [c] else fp"]
        Cons.prems(2) by (auto split: if_splits)
    with run show ?thesis by (intro exI [of _ s']) auto
  qed
qed

lemma parse_decimal_plain:
  assumes ds: "\<forall>d\<in>set (ip @ fp). is_digit d" and ip: "ip \<noteq> []"
    and pt: "(pt = [] \<and> fp = []) \<or> (pt = ''.'' \<and> fp \<noteq> [] \<and> last fp \<noteq> CHR ''0'')"
    and le: "int (digits_value 0 (ip @ fp)) \<le> max_decimal_mantissa"
  shows "parse_decimal ((if neg then ''-'' else []) @ ip @ pt @ fp)
    = finish_decimal neg (int (digits_value 0 (ip @ fp))) (- int (length fp))"
proof -
  let ?s0 = "\<lparr>mant = 0, dscale = 0, digits = False, dot = False, zeros = 0\<rparr>"
  have sg: "read_sign ((if neg then ''-'' else []) @ ip @ pt @ fp) = (neg, ip @ pt @ fp)"
    using ip ds is_digit_not_special by (cases ip) auto
  have "represents ?s0 [] []" by (simp add: represents_def)
  from scan_mantissa_digits [OF this, of ip "pt @ fp"] ds le digits_value_prefix [of 0 ip fp]
  obtain s1 where s1: "scan_mantissa (ip @ pt @ fp) ?s0 = scan_mantissa (pt @ fp) s1"
    "\<not> dot s1" "represents s1 ip []" by auto
  obtain s2 where s2: "scan_mantissa (pt @ fp) s1 = Some (s2, [])" "represents s2 ip fp" "zeros s2 = 0"
  proof (cases "pt = []")
    case True
    moreover have "zeros s1 = 0" using s1 by (simp add: represents_def)
    ultimately show ?thesis using pt s1 that [of s1] by simp
  next
    case False
    with pt have p: "pt = ''.''" "fp \<noteq> []" "last fp \<noteq> CHR ''0''" by auto
    have "represents (s1\<lparr>dot := True\<rparr>) ip []" using s1(2,3) by (auto simp: represents_def)
    from scan_mantissa_digits [OF this, of fp "[]"] ds le p obtain s' where
      s': "scan_mantissa fp (s1\<lparr>dot := True\<rparr>) = Some (s', [])" "represents s' ip fp" "zeros s' = 0"
      by auto
    with p(1) s1(2) show ?thesis by (intro that [of s']) simp_all
  qed
  have "digits s2" using s2 ip by (simp add: represents_def)
  moreover have "mant s2 = int (digits_value 0 (ip @ fp))" "dscale s2 = int (length fp)"
    using s2(2,3) by (simp_all add: represents_def)
  ultimately show ?thesis
    unfolding parse_decimal_def sg using s1(1) s2(1) by (simp add: read_exponent_def)
qed

section \<open>Properties\<close>

text \<open>
  Reduction yields the numerator and denominator of the rational in lowest terms with a
  positive denominator, and fails exactly on a zero denominator or when a part needs more than
  64 bits.
\<close>

theorem reduce_lowest_terms:
  "reduce num den =
     (if den = 0 then None
      else let (a, b) = quotient_of (of_int num / of_int den)
           in if fits a \<and> fits b then Some \<lparr>fr_p = a, fr_q = b\<rparr> else None)"
  by (rule reduce_quotient_of)

definition number_text :: "string \<Rightarrow> rat \<Rightarrow> bool" where
  "number_text s r \<longleftrightarrow> decimal_text s r \<or>
     (\<exists>n d a b. s = n @ ''/'' @ d \<and> CHR ''/'' \<notin> set n \<and> decimal_text (trim n) a \<and>
        decimal_text (trim d) b \<and> b \<noteq> 0 \<and> r = a / b)"

lemma split_fraction_Some:
  assumes "split_fraction t = Some (l, r)"
  obtains n d where "t = n @ ''/'' @ d" "CHR ''/'' \<notin> set n" "l = trim n" "r = trim d"
proof -
  let ?n = "takeWhile (\<lambda>c. c \<noteq> CHR ''/'') t" and ?r = "dropWhile (\<lambda>c. c \<noteq> CHR ''/'') t"
  from assms obtain c d where d: "?r = c # d" "l = trim ?n" "r = trim d"
    by (auto simp: split_fraction_def split: list.splits)
  have "c = CHR ''/''" using d(1) hd_dropWhile [of "\<lambda>c. c \<noteq> CHR ''/''" t] by auto
  then have "t = ?n @ ''/'' @ d" using d(1) takeWhile_dropWhile_id [of "\<lambda>c. c \<noteq> CHR ''/''" t] by simp
  moreover have "CHR ''/'' \<notin> set ?n" by (auto dest: set_takeWhileD)
  ultimately show ?thesis using that d by blast
qed

text \<open>
  C1: a number the reader accepts, a decimal with sign, point and exponent or a quotient of
  two, is the exact value its trimmed text denotes, in lowest terms and within 64 bits.
\<close>

theorem parse_number_exact:
  assumes "parse_number s = Some f"
  shows "number_text (trim s) (fr_val f) \<and> fr_valid f"
proof (cases "split_fraction (trim s)")
  case None
  with assms have "parse_decimal (trim s) = Some f" by (simp add: parse_number_def)
  then show ?thesis by (auto simp: number_text_def dest: parse_decimal_sound)
next
  case (Some lr)
  obtain l r where lr: "lr = (l, r)" by (cases lr)
  with assms Some obtain a b where ab: "parse_decimal l = Some a" "parse_decimal r = Some b"
    "fr_p b \<noteq> 0" "reduce (fr_p a * fr_q b) (fr_q a * fr_p b) = Some f"
    by (auto simp: parse_number_def Let_def split: option.splits if_splits)
  note v = parse_decimal_sound [OF ab(1)] parse_decimal_sound [OF ab(2)]
  note f = reduce_Some [OF ab(4)]
  have "fr_val b \<noteq> 0" "fr_val f = fr_val a / fr_val b"
    using f v ab(3) by (auto simp: fr_val_def fr_valid_def)
  moreover obtain n d where "trim s = n @ ''/'' @ d" "CHR ''/'' \<notin> set n" "l = trim n" "r = trim d"
    using split_fraction_Some Some lr by metis
  ultimately show ?thesis using f v unfolding number_text_def by blast
qed

theorem parse_number_exact_witness:
  "parse_number '' -1.25E+2/.5 '' = Some \<lparr>fr_p = - 250, fr_q = 1\<rparr> \<and>
   number_text (trim '' -1.25E+2/.5 '') (fr_val \<lparr>fr_p = - 250, fr_q = 1\<rparr>)"
proof -
  have "parse_number '' -1.25E+2/.5 '' = Some \<lparr>fr_p = - 250, fr_q = 1\<rparr>" by code_simp
  with parse_number_exact [OF this] show ?thesis by blast
qed

end
