(* ===== verification/Half_Open.thy ===== *)
theory Half_Open imports Tau_Prelude begin

text \<open>
  Ordered maps from lower to upper ends, the representation of a qint: the operations of
  \<^verbatim>\<open>std::map\<close> that \<^verbatim>\<open>src/boolean_algebras/qint/qint.cpp\<close> uses, and its loops over such
  maps, all over the key comparison \<open>lt\<close> that the code instantiates with the order of its
  endpoints. An ordered map is the list of its entries in iteration order. The proofs are
  done once over a linear order; the locale \<open>key_embedding\<close> carries them to any key type
  whose valid keys embed into one.
\<close>

section \<open>Ordered maps\<close>

fun smap_find :: "('k \<Rightarrow> 'k \<Rightarrow> bool) \<Rightarrow> ('k \<times> 'v) list \<Rightarrow> 'k \<Rightarrow> 'v option" where
  "smap_find lt [] k = None"
| "smap_find lt ((k', v) # m) k =
     (if lt k k' then None else if lt k' k then smap_find lt m k else Some v)"

text \<open>Assignment \<^verbatim>\<open>m[k] = v\<close>.\<close>

fun smap_put :: "('k \<Rightarrow> 'k \<Rightarrow> bool) \<Rightarrow> 'k \<Rightarrow> 'v \<Rightarrow> ('k \<times> 'v) list \<Rightarrow> ('k \<times> 'v) list" where
  "smap_put lt k v [] = [(k, v)]"
| "smap_put lt k v ((k', v') # m) =
     (if lt k k' then (k, v) # (k', v') # m
      else if lt k' k then (k', v') # smap_put lt k v m
      else (k', v) # m)"

text \<open>\<^verbatim>\<open>std::max\<close> and \<^verbatim>\<open>std::min\<close>.\<close>

definition omax :: "('k \<Rightarrow> 'k \<Rightarrow> bool) \<Rightarrow> 'k \<Rightarrow> 'k \<Rightarrow> 'k" where
  "omax lt a b = (if lt a b then b else a)"

definition omin :: "('k \<Rightarrow> 'k \<Rightarrow> bool) \<Rightarrow> 'k \<Rightarrow> 'k \<Rightarrow> 'k" where
  "omin lt a b = (if lt b a then b else a)"

section \<open>The loops\<close>

fun or_merge :: "('k \<Rightarrow> 'k \<Rightarrow> bool) \<Rightarrow> ('k \<times> 'k) list \<Rightarrow> ('k \<times> 'k) list \<Rightarrow> ('k \<times> 'k) list" where
  "or_merge lt merged [] = merged"
| "or_merge lt merged ((lo, hi) # r) =
     (case smap_find lt merged lo of
        Some h \<Rightarrow> or_merge lt (smap_put lt lo (omax lt h hi) merged) r
      | None \<Rightarrow> or_merge lt (smap_put lt lo hi merged) r)"

fun norm_loop :: "('k \<Rightarrow> 'k \<Rightarrow> bool) \<Rightarrow> 'k \<Rightarrow> 'k \<Rightarrow> ('k \<times> 'k) list \<Rightarrow> ('k \<times> 'k) list \<Rightarrow> ('k \<times> 'k) list"
where
  "norm_loop lt cur_lo cur_hi [] result = smap_put lt cur_lo cur_hi result"
| "norm_loop lt cur_lo cur_hi ((lo, hi) # m) result =
     (if \<not> lt cur_hi lo then norm_loop lt cur_lo (omax lt cur_hi hi) m result
      else norm_loop lt lo hi m (smap_put lt cur_lo cur_hi result))"

definition normalize_map :: "('k \<Rightarrow> 'k \<Rightarrow> bool) \<Rightarrow> ('k \<times> 'k) list \<Rightarrow> ('k \<times> 'k) list" where
  "normalize_map lt m =
     (case m of [] \<Rightarrow> [] | (lo, hi) # r \<Rightarrow> norm_loop lt lo hi r [])"

fun and_loop :: "('k \<Rightarrow> 'k \<Rightarrow> bool) \<Rightarrow> ('k \<times> 'k) list \<Rightarrow> ('k \<times> 'k) list \<Rightarrow> ('k \<times> 'k) list \<Rightarrow> ('k \<times> 'k) list"
where
  "and_loop lt ((il, ih) # i) ((jl, jh) # j) result =
     (let lo = omax lt il jl; hi = omin lt ih jh;
          result = (if lt lo hi then smap_put lt lo hi result else result)
      in if lt ih jh then and_loop lt i ((jl, jh) # j) result
         else if lt jh ih then and_loop lt ((il, ih) # i) j result
         else and_loop lt i j result)"
| "and_loop lt [] j result = result"
| "and_loop lt i [] result = result"

text \<open>The gaps before each interval; the end of the last interval is returned too.\<close>

fun compl_loop :: "('k \<Rightarrow> 'k \<Rightarrow> bool) \<Rightarrow> 'k \<Rightarrow> ('k \<times> 'k) list \<Rightarrow> ('k \<times> 'k) list \<Rightarrow> 'k \<times> ('k \<times> 'k) list"
where
  "compl_loop lt cur [] result = (cur, result)"
| "compl_loop lt cur ((lo, hi) # m) result =
     compl_loop lt hi m (if lt cur lo then smap_put lt cur lo result else result)"

section \<open>Over a linear order\<close>

definition cover :: "('e::linorder \<times> 'e) list \<Rightarrow> 'e set" where
  "cover xs = {x. \<exists>(l, h) \<in> set xs. l \<le> x \<and> x < h}"

definition canonical :: "('e::linorder \<times> 'e) list \<Rightarrow> bool" where
  "canonical xs \<longleftrightarrow> sorted_wrt (\<lambda>(l, h) (l', h'). h < l') xs \<and> (\<forall>(l, h) \<in> set xs. l < h)"

abbreviation key_sorted :: "('e::linorder \<times> 'v) list \<Rightarrow> bool" where
  "key_sorted m \<equiv> sorted_wrt (<) (map fst m)"

lemma cover_simps [simp]:
  "cover [] = {}"
  "cover ((l, h) # xs) = {l..<h} \<union> cover xs"
  "cover (xs @ ys) = cover xs \<union> cover ys"
  by (auto simp: cover_def)

lemma omax_less [simp]: "omax (<) a b = max a (b::'e::linorder)"
  by (auto simp: omax_def max_def not_less le_less)

lemma omin_less [simp]: "omin (<) a b = min a (b::'e::linorder)"
  by (auto simp: omin_def min_def not_less le_less)

lemma canonical_simps [simp]:
  "canonical []"
  "canonical ((l, h) # xs) \<longleftrightarrow> l < h \<and> (\<forall>(l', h') \<in> set xs. h < l') \<and> canonical xs"
  by (auto simp: canonical_def)

lemma canonical_append:
  "canonical (xs @ ys) \<longleftrightarrow> canonical xs \<and> canonical ys \<and>
     (\<forall>(l, h) \<in> set xs. \<forall>(l', h') \<in> set ys. h < l')"
proof (induction xs)
  case (Cons a xs)
  obtain l h where "a = (l, h)" by (cases a)
  with Cons show ?case by (simp add: ball_Un) blast
qed simp

lemma canonical_key_sorted: "canonical xs \<Longrightarrow> key_sorted xs"
  by (induction xs) fastforce+

lemma smap_put_append:
  "(\<And>k' v'. (k', v') \<in> set m \<Longrightarrow> k' < (k::'e::linorder)) \<Longrightarrow> smap_put (<) k v m = m @ [(k, v)]"
proof (induction m)
  case (Cons a m)
  obtain k' v' where a: "a = (k', v')" by (cases a)
  have "k' < k" using Cons.prems [of k' v'] a by simp
  moreover have "smap_put (<) k v m = m @ [(k, v)]" using Cons.IH Cons.prems by force
  ultimately show ?case using less_not_sym [of k' k] by (simp add: a)
qed simp

lemma smap_find_set:
  "key_sorted m \<Longrightarrow> smap_find (<) m k = Some v \<longleftrightarrow> (k, v) \<in> set m"
  by (induction m) (force simp: not_less_iff_gr_or_eq)+

lemma smap_put_set:
  "key_sorted m \<Longrightarrow> set (smap_put (<) k v m) = insert (k, v) {(a, b) \<in> set m. a \<noteq> k}"
  by (induction m) (force simp: not_less_iff_gr_or_eq)+

lemma smap_put_sorted: "key_sorted m \<Longrightarrow> key_sorted (smap_put (<) k v m)"
proof (induction m)
  case (Cons a m)
  then show ?case by (cases a) (force simp: smap_put_set not_less_iff_gr_or_eq)
qed simp

lemma cover_eq_set: "set xs = set ys \<Longrightarrow> cover xs = cover ys"
  by (simp add: cover_def)

lemma or_merge_sorted:
  "key_sorted m \<Longrightarrow> key_sorted (or_merge (<) m r)"
  by (induction "(<) :: 'a \<Rightarrow> 'a \<Rightarrow> bool" m r rule: or_merge.induct)
     (auto simp: smap_put_sorted split: option.splits)

lemma cover_smap_put:
  assumes "key_sorted m"
    and "case smap_find (<) m k of None \<Rightarrow> v' = v | Some h \<Rightarrow> v' = max h v"
  shows "cover (smap_put (<) k v' m) = {k..<v} \<union> cover m"
proof -
  have "cover (smap_put (<) k v' m) = {k..<v'} \<union> cover (filter (\<lambda>(a, b). a \<noteq> k) m)"
    by (subst cover_simps(2) [symmetric], rule cover_eq_set)
       (auto simp: smap_put_set [OF assms(1)])
  moreover have "cover m = cover (filter (\<lambda>(a, b). a \<noteq> k) m) \<union> {x. \<exists>h. (k, h) \<in> set m \<and> k \<le> x \<and> x < h}"
    by (auto simp: cover_def)
  moreover have "{k..<v'} = {k..<v} \<union> {x. \<exists>h. (k, h) \<in> set m \<and> k \<le> x \<and> x < h}"
  proof (cases "smap_find (<) m k")
    case None
    then show ?thesis using assms(2) smap_find_set [OF assms(1), of k] by auto
  next
    case (Some h)
    then have "\<And>h'. (k, h') \<in> set m \<longleftrightarrow> h' = h"
      using smap_find_set [OF assms(1), of k] by (metis option.inject)
    then show ?thesis using assms(2) Some by (auto simp: less_max_iff_disj)
  qed
  ultimately show ?thesis by blast
qed

lemma or_merge_cover: "key_sorted m \<Longrightarrow> cover (or_merge (<) m r) = cover m \<union> cover r"
proof (induction "(<) :: 'a \<Rightarrow> 'a \<Rightarrow> bool" m r rule: or_merge.induct)
  case (2 merged lo hi r)
  show ?case
  proof (cases "smap_find (<) merged lo")
    case None
    then show ?thesis
      using 2(1) cover_smap_put [OF "2.prems", where k = lo and v = hi and v' = hi]
      by (simp add: None smap_put_sorted [OF "2.prems"] Un_ac)
  next
    case (Some h)
    then show ?thesis
      using 2(2) [OF Some] cover_smap_put [OF "2.prems", where k = lo and v = hi and v' = "max h hi"]
      by (simp add: Some smap_put_sorted [OF "2.prems"] Un_ac)
  qed
qed simp

lemma or_merge_nonempty:
  assumes "key_sorted m" and "\<And>l h. (l, h) \<in> set m \<Longrightarrow> l < h"
    and "\<And>l h. (l, h) \<in> set r \<Longrightarrow> l < h"
    and "(l, h) \<in> set (or_merge (<) m r)"
  shows "l < h"
  using assms
proof (induction "(<) :: 'a \<Rightarrow> 'a \<Rightarrow> bool" m r rule: or_merge.induct)
  case (2 merged lo hi r)
  have lh: "lo < hi" using "2.prems" by simp
  have put: "\<And>v a b. lo < v \<Longrightarrow> (a, b) \<in> set (smap_put (<) lo v merged) \<Longrightarrow> a < b"
    using "2.prems" by (auto simp: smap_put_set)
  show ?case
  proof (cases "smap_find (<) merged lo")
    case None
    show ?thesis
      using 2(1) [OF None smap_put_sorted [OF "2.prems"(1)] put [OF lh]] "2.prems"(3,4) None by auto
  next
    case (Some h')
    show ?thesis
      using 2(2) [OF Some smap_put_sorted [OF "2.prems"(1)] put [of "max h' hi"]] "2.prems"(3,4)
        Some lh by (auto simp: less_max_iff_disj)
  qed
qed simp

lemma canonical_snoc:
  "canonical (xs @ [(l, h)]) \<longleftrightarrow> canonical xs \<and> l < h \<and> (\<forall>(a, b) \<in> set xs. b < l)"
  by (auto simp: canonical_append)

lemma canonical_put:
  assumes "canonical m" and "\<And>a b. (a, b) \<in> set m \<Longrightarrow> b < l"
  shows "smap_put (<) l h m = m @ [(l, h)]"
  using assms by (intro smap_put_append) (force simp: canonical_def)

lemma norm_loop_canonical:
  assumes "canonical res" and "\<And>a b. (a, b) \<in> set res \<Longrightarrow> b < lo" and "lo < hi"
    and "key_sorted ((lo, hi) # m)" and "\<And>a b. (a, b) \<in> set m \<Longrightarrow> a < b"
  shows "canonical (norm_loop (<) lo hi m res) \<and>
    cover (norm_loop (<) lo hi m res) = cover res \<union> {lo..<hi} \<union> cover m"
  using assms
proof (induction m arbitrary: lo hi res)
  case Nil
  then show ?case by (auto simp: canonical_put canonical_snoc)
next
  case (Cons a m)
  obtain l h where a: "a = (l, h)" by (cases a)
  have lh: "l < h" and lol: "lo < l" and ks: "key_sorted ((l, h) # m)" "key_sorted ((lo, hi) # m)"
    using Cons.prems a by auto
  show ?case
  proof (cases "hi < l")
    case True
    have "canonical (res @ [(lo, hi)])" using Cons.prems by (auto simp: canonical_snoc)
    moreover have "\<And>a b. (a, b) \<in> set (res @ [(lo, hi)]) \<Longrightarrow> b < l"
      using Cons.prems(2) lol True by (auto dest: order.strict_trans)
    ultimately show ?thesis
      using Cons.IH [of "res @ [(lo, hi)]" l h] True a lh ks Cons.prems
      by (auto simp: canonical_put)
  next
    case False
    then have "{lo..<hi} \<union> {l..<h} = {lo..<max hi h}"
      using lol lh by (auto simp: max_def not_less)
    then show ?thesis
      using Cons.IH [of res lo "max hi h"] False a ks Cons.prems
      by (auto simp: less_max_iff_disj)
  qed
qed

lemma normalize_map_canonical:
  assumes "key_sorted m" and "\<And>a b. (a, b) \<in> set m \<Longrightarrow> a < b"
  shows "canonical (normalize_map (<) m)" "cover (normalize_map (<) m) = cover m"
proof -
  have "canonical (normalize_map (<) m) \<and> cover (normalize_map (<) m) = cover m"
  proof (cases m)
    case (Cons a r)
    obtain l h where "a = (l, h)" by (cases a)
    then show ?thesis
      using norm_loop_canonical [of "[]" l h r] assms Cons by (auto simp: normalize_map_def)
  qed (simp add: normalize_map_def)
  then show "canonical (normalize_map (<) m)" "cover (normalize_map (<) m) = cover m" by auto
qed

lemma and_loop_canonical:
  assumes "canonical i" and "canonical j" and "canonical res"
    and "\<And>a b l h l' h'. (a, b) \<in> set res \<Longrightarrow> (l, h) \<in> set i \<Longrightarrow> (l', h') \<in> set j \<Longrightarrow> b < max l l'"
  shows "canonical (and_loop (<) i j res) \<and>
    cover (and_loop (<) i j res) = cover res \<union> (cover i \<inter> cover j)"
  using assms
proof (induction "(<) :: 'a \<Rightarrow> 'a \<Rightarrow> bool" i j res rule: and_loop.induct)
  case (1 il ih i jl jh j res)
  let ?lo = "max il jl" and ?hi = "min ih jh"
  let ?res = "if ?lo < ?hi then smap_put (<) ?lo ?hi res else res"
  have below: "\<And>a b. (a, b) \<in> set res \<Longrightarrow> b < ?lo" using "1.prems"(4) by force
  have res: "?res = (if ?lo < ?hi then res @ [(?lo, ?hi)] else res)"
    using canonical_put [OF "1.prems"(3) below] by simp
  have can: "canonical ?res"
    using "1.prems"(3) below unfolding res by (auto simp: canonical_snoc)
  have cov: "cover ?res = cover res \<union> ({il..<ih} \<inter> {jl..<jh})"
    unfolding res by (auto simp: max_def min_def not_le split: if_splits)
  have ends: "\<And>a b. (a, b) \<in> set ?res \<Longrightarrow> b < ?lo \<or> b \<le> ?hi"
    using below unfolding res by (auto split: if_splits)
  have i: "\<And>l h. (l, h) \<in> set i \<Longrightarrow> ih < l" "\<And>l h. (l, h) \<in> set i \<Longrightarrow> il < l"
    and j: "\<And>l h. (l, h) \<in> set j \<Longrightarrow> jh < l" "\<And>l h. (l, h) \<in> set j \<Longrightarrow> jl < l"
    and ne: "il < ih" "jl < jh" "canonical i" "canonical j"
    using "1.prems"(1,2) by (auto dest: order.strict_trans)
  have ci: "\<And>x. x \<in> cover i \<Longrightarrow> ih < x" and cj: "\<And>x. x \<in> cover j \<Longrightarrow> jh < x"
    using i(1) j(1) by (force simp: cover_def)+
  have loop: "and_loop (<) ((il, ih) # i) ((jl, jh) # j) res =
      (if ih < jh then and_loop (<) i ((jl, jh) # j) ?res
       else if jh < ih then and_loop (<) ((il, ih) # i) j ?res else and_loop (<) i j ?res)"
    by (simp add: Let_def)
  note IH = "1.hyps" [OF refl refl refl, unfolded omax_less omin_less]
  consider "ih < jh" | "jh < ih" | "ih = jh" by fastforce
  then show ?case
  proof cases
    case 1
    have sep: "\<And>a b l h l' h'. (a, b) \<in> set ?res \<Longrightarrow> (l, h) \<in> set i \<Longrightarrow>
        (l', h') \<in> set ((jl, jh) # j) \<Longrightarrow> b < max l l'"
      using ends i j 1 by (fastforce simp: less_max_iff_disj)
    have "{il..<ih} \<inter> cover j = {}" using cj 1 by force
    then show ?thesis
      using IH(1) [OF 1 ne(3) "1.prems"(2) can sep] 1 cov unfolding loop by auto
  next
    case 2
    have sep: "\<And>a b l h l' h'. (a, b) \<in> set ?res \<Longrightarrow> (l, h) \<in> set ((il, ih) # i) \<Longrightarrow>
        (l', h') \<in> set j \<Longrightarrow> b < max l l'"
      using ends i j 2 by (fastforce simp: less_max_iff_disj)
    have "cover i \<inter> {jl..<jh} = {}" using ci 2 by force
    then show ?thesis
      using IH(2) [OF _ 2 "1.prems"(1) ne(4) can sep] 2 cov unfolding loop by auto
  next
    case 3
    have sep: "\<And>a b l h l' h'. (a, b) \<in> set ?res \<Longrightarrow> (l, h) \<in> set i \<Longrightarrow>
        (l', h') \<in> set j \<Longrightarrow> b < max l l'"
      using ends i j 3 by (fastforce simp: less_max_iff_disj)
    have "{il..<ih} \<inter> cover j = {}" "cover i \<inter> {jl..<jh} = {}" using ci cj 3 by force+
    then show ?thesis
      using IH(3) [OF _ _ ne(3,4) can sep] 3 cov unfolding loop by auto
  qed
qed simp_all

lemma gap_split:
  assumes "C \<subseteq> {hi..<fin}" "cur \<le> lo" "(lo::'e::linorder) < hi" "hi \<le> fin"
  shows "{cur..<fin} - ({lo..<hi} \<union> C) = {cur..<lo} \<union> ({hi..<fin} - C)"
    and "{lo..<hi} \<union> C \<subseteq> {cur..<fin}"
proof -
  have "y \<in> {cur..<fin} - ({lo..<hi} \<union> C) \<longleftrightarrow> y \<in> {cur..<lo} \<union> ({hi..<fin} - C)" for y
    using assms by (cases "y < lo"; cases "y < hi") (auto simp: subset_iff)
  then show "{cur..<fin} - ({lo..<hi} \<union> C) = {cur..<lo} \<union> ({hi..<fin} - C)" by blast
  have "y \<in> {cur..<fin}" if "y \<in> {lo..<hi} \<union> C" for y
    using that assms by (cases "y < hi") (auto simp: subset_iff)
  then show "{lo..<hi} \<union> C \<subseteq> {cur..<fin}" by blast
qed

lemma compl_loop_canonical:
  assumes "canonical m" and "canonical res"
    and "\<And>a b. (a, b) \<in> set res \<Longrightarrow> b < cur"
    and "\<And>l h. (l, h) \<in> set m \<Longrightarrow> cur < l \<or> (cur = l \<and> res = [])"
    and "compl_loop (<) cur m res = (fin, out)"
  shows "canonical out \<and> (\<forall>(a, b)\<in>set out. b < fin) \<and> cur \<le> fin \<and> cover m \<subseteq> {cur..<fin} \<and>
    cover out = cover res \<union> ({cur..<fin} - cover m)"
  using assms
proof (induction m arbitrary: cur res)
  case (Cons x m)
  obtain lo hi where x: "x = (lo, hi)" by (cases x)
  let ?res = "if cur < lo then smap_put (<) cur lo res else res"
  have lh: "lo < hi" and m: "canonical m" "\<And>l h. (l, h) \<in> set m \<Longrightarrow> hi < l"
    using Cons.prems(1) x by auto
  have le: "cur \<le> lo" using Cons.prems(4) [of lo hi] x by auto
  have res: "?res = (if cur < lo then res @ [(cur, lo)] else res)"
    using canonical_put [OF Cons.prems(2,3)] by simp
  have can: "canonical ?res"
    using Cons.prems(2) Cons.prems(3) unfolding res by (auto simp: canonical_snoc)
  have below: "b < hi" if ab: "(a, b) \<in> set ?res" for a b
  proof -
    have "b < cur \<or> b = lo" using ab Cons.prems(3) [of a b] unfolding res by (auto split: if_splits)
    then show ?thesis using lh le by auto
  qed
  have cov: "cover ?res = cover res \<union> {cur..<lo}" unfolding res using le by auto
  have IH: "canonical out \<and> (\<forall>(a, b)\<in>set out. b < fin) \<and> hi \<le> fin \<and> cover m \<subseteq> {hi..<fin} \<and>
    cover out = cover ?res \<union> ({hi..<fin} - cover m)"
    using Cons.IH [OF m(1) can below] m(2) Cons.prems(5) x by simp
  then have "{cur..<fin} - cover (x # m) = {cur..<lo} \<union> ({hi..<fin} - cover m)"
    using gap_split [of "cover m" hi fin cur lo] le lh x by simp
  moreover have "cover (x # m) \<subseteq> {cur..<fin}"
    using IH gap_split(2) [of "cover m" hi fin cur lo] le lh x by simp
  ultimately show ?case using IH cov order.trans [OF le order.trans [OF less_imp_le [OF lh]]]
    by (simp add: Un_assoc)
qed auto

text \<open>A canonical list is determined by the set it covers.\<close>

lemma cover_above: "canonical ((l, h) # xs) \<Longrightarrow> x \<in> cover xs \<Longrightarrow> h < x"
  by (auto simp: cover_def dest: order.strict_trans2)

lemma canonical_unique:
  "canonical xs \<Longrightarrow> canonical ys \<Longrightarrow> cover xs = cover ys \<Longrightarrow> xs = ys"
proof (induction xs arbitrary: ys)
  case Nil
  then show ?case by (cases ys) auto
next
  case (Cons x xs)
  obtain l h where x: "x = (l, h)" by (cases x)
  obtain y zs where ys: "ys = y # zs" using Cons.prems x by (cases ys) auto
  obtain l' h' where y: "y = (l', h')" by (cases y)
  have lh: "l < h" "l' < h'" using Cons.prems x ys y by auto
  note up = cover_above [OF Cons.prems(1) [unfolded x]]
    cover_above [OF Cons.prems(2) [unfolded ys y]]
  have eq: "{l..<h} \<union> cover xs = {l'..<h'} \<union> cover zs" using Cons.prems(3) x ys y by simp
  have "l \<in> {l'..<h'} \<union> cover zs" "l' \<in> {l..<h} \<union> cover xs" using eq lh by auto
  then have l: "l = l'" using up lh by (auto dest!: up)
  have h: "h = h'"
  proof (rule ccontr)
    assume "h \<noteq> h'"
    then consider "h < h'" | "h' < h" by fastforce
    then show False
    proof cases
      case 1
      then have "h \<in> {l..<h} \<union> cover xs" unfolding eq using l lh by auto
      then show False using up by force
    next
      case 2
      then have "h' \<in> {l'..<h'} \<union> cover zs" unfolding eq [symmetric] using l lh by auto
      then show False using up by force
    qed
  qed
  have "cover xs = cover zs" using eq up unfolding l h by (auto simp: set_eq_iff) (metis less_asym)+
  then show ?case using Cons x y ys l h by simp
qed

section \<open>Any key type that embeds\<close>

locale key_embedding =
  fixes lt :: "'k \<Rightarrow> 'k \<Rightarrow> bool" and ok :: "'k \<Rightarrow> bool" and emb :: "'k \<Rightarrow> 'e::linorder"
  assumes lt_emb: "ok a \<Longrightarrow> ok b \<Longrightarrow> lt a b \<longleftrightarrow> emb a < emb b"
    and emb_inj: "ok a \<Longrightarrow> ok b \<Longrightarrow> emb a = emb b \<Longrightarrow> a = b"
begin

definition ok_list :: "('k \<times> 'k) list \<Rightarrow> bool" where
  "ok_list m \<longleftrightarrow> (\<forall>(a, b) \<in> set m. ok a \<and> ok b)"

definition em :: "('k \<times> 'k) list \<Rightarrow> ('e \<times> 'e) list" where
  "em m = map (map_prod emb emb) m"

lemma ok_list_simps [simp]:
  "ok_list []" "ok_list ((a, b) # m) \<longleftrightarrow> ok a \<and> ok b \<and> ok_list m"
  by (auto simp: ok_list_def)

lemma em_simps [simp]:
  "em [] = []" "em ((a, b) # m) = (emb a, emb b) # em m" "em m = [] \<longleftrightarrow> m = []"
  by (simp_all add: em_def)

lemma em_inj: "ok_list m \<Longrightarrow> ok_list n \<Longrightarrow> em m = em n \<Longrightarrow> m = n"
proof (induction m arbitrary: n)
  case Nil
  then show ?case by (simp add: em_def)
next
  case (Cons a m)
  then obtain b n' where "n = b # n'" by (cases n) auto
  with Cons show ?case by (cases a; cases b) (auto dest: emb_inj)
qed

lemma omax_emb: "ok a \<Longrightarrow> ok b \<Longrightarrow> ok (omax lt a b) \<and> emb (omax lt a b) = max (emb a) (emb b)"
  by (auto simp: omax_def lt_emb max_def not_less le_less)

lemma omin_emb: "ok a \<Longrightarrow> ok b \<Longrightarrow> ok (omin lt a b) \<and> emb (omin lt a b) = min (emb a) (emb b)"
  by (auto simp: omin_def lt_emb min_def not_less le_less)

lemma smap_put_emb:
  "ok_list m \<Longrightarrow> ok k \<Longrightarrow> ok v \<Longrightarrow>
     ok_list (smap_put lt k v m) \<and> em (smap_put lt k v m) = smap_put (<) (emb k) (emb v) (em m)"
  by (induction m) (auto simp: lt_emb)

lemma smap_find_emb:
  "ok_list m \<Longrightarrow> ok k \<Longrightarrow> smap_find (<) (em m) (emb k) = map_option emb (smap_find lt m k) \<and>
     pred_option ok (smap_find lt m k)"
  by (induction m) (auto simp: lt_emb)

lemma or_merge_emb:
  "ok_list m \<Longrightarrow> ok_list r \<Longrightarrow>
     ok_list (or_merge lt m r) \<and> em (or_merge lt m r) = or_merge (<) (em m) (em r)"
proof (induction r arbitrary: m)
  case (Cons x r)
  obtain lo hi where x: "x = (lo, hi)" by (cases x)
  have find: "smap_find (<) (em m) (emb lo) = map_option emb (smap_find lt m lo)"
    "pred_option ok (smap_find lt m lo)"
    using smap_find_emb [OF Cons.prems(1), of lo] Cons.prems(2) x by auto
  then show ?case
    using Cons x smap_put_emb [of m lo] omax_emb
    by (cases "smap_find lt m lo") auto
qed simp

lemma norm_loop_emb:
  "ok_list m \<Longrightarrow> ok_list res \<Longrightarrow> ok lo \<Longrightarrow> ok hi \<Longrightarrow>
     ok_list (norm_loop lt lo hi m res) \<and>
     em (norm_loop lt lo hi m res) = norm_loop (<) (emb lo) (emb hi) (em m) (em res)"
proof (induction m arbitrary: lo hi res)
  case (Cons x m)
  then show ?case by (cases x) (simp add: lt_emb omax_emb smap_put_emb)
qed (simp add: smap_put_emb)

lemma normalize_map_emb:
  "ok_list m \<Longrightarrow> ok_list (normalize_map lt m) \<and> em (normalize_map lt m) = normalize_map (<) (em m)"
  by (cases m) (auto simp: normalize_map_def norm_loop_emb)

lemma and_loop_emb:
  "ok_list i \<Longrightarrow> ok_list j \<Longrightarrow> ok_list res \<Longrightarrow>
     ok_list (and_loop lt i j res) \<and> em (and_loop lt i j res) = and_loop (<) (em i) (em j) (em res)"
proof (induction "length i + length j" arbitrary: i j res rule: less_induct)
  case less
  show ?case
  proof (cases "i = [] \<or> j = []")
    case True
    then show ?thesis using less.prems by (cases i; cases j) auto
  next
    case False
    then obtain il ih i' jl jh j' where ij: "i = (il, ih) # i'" "j = (jl, jh) # j'"
      by (metis list.exhaust surj_pair)
    have ok: "ok il" "ok ih" "ok jl" "ok jh" using less.prems ij by auto
    show ?thesis
      using less ok
      by (simp add: ij Let_def lt_emb omax_emb omin_emb smap_put_emb)
  qed
qed

lemma compl_loop_emb:
  "ok_list m \<Longrightarrow> ok_list res \<Longrightarrow> ok cur \<Longrightarrow>
     (case compl_loop lt cur m res of (c, r) \<Rightarrow>
        ok c \<and> ok_list r \<and> compl_loop (<) (emb cur) (em m) (em res) = (emb c, em r))"
proof (induction m arbitrary: cur res)
  case (Cons x m)
  obtain lo hi where x: "x = (lo, hi)" by (cases x)
  show ?case
    using Cons.IH [of "if lt cur lo then smap_put lt cur lo res else res" hi] Cons.prems
    by (cases "lt cur lo") (simp_all add: x lt_emb smap_put_emb)
qed simp

end

end
