(* ===== verification/Set_Algebra.thy ===== *)
theory Set_Algebra imports Tau_Prelude begin

text \<open>
  The interface every Boolean algebra of \<^verbatim>\<open>src/boolean_algebras\<close> offers to the rest of the
  program: two constants and the operators \<^verbatim>\<open>& | ~ ^\<close>. The contract is that a
  representation stands for a set of points, that each operator keeps the representation
  invariant and denotes the set operation, and that the representation is canonical, so that
  the code may decide equality by comparing representations. The Boolean laws follow once.
\<close>

locale set_algebra =
  fixes wf :: "'a \<Rightarrow> bool" and den :: "'a \<Rightarrow> 'p set" and univ :: "'p set"
    and zero one :: 'a and meet join :: "'a \<Rightarrow> 'a \<Rightarrow> 'a" and neg :: "'a \<Rightarrow> 'a"
    and xor :: "'a \<Rightarrow> 'a \<Rightarrow> 'a"
  assumes wf_zero: "wf zero" and den_zero: "den zero = {}"
    and wf_one: "wf one" and den_one: "den one = univ"
    and den_univ: "wf x \<Longrightarrow> den x \<subseteq> univ"
    and wf_meet: "wf x \<Longrightarrow> wf y \<Longrightarrow> wf (meet x y)"
    and den_meet: "wf x \<Longrightarrow> wf y \<Longrightarrow> den (meet x y) = den x \<inter> den y"
    and wf_join: "wf x \<Longrightarrow> wf y \<Longrightarrow> wf (join x y)"
    and den_join: "wf x \<Longrightarrow> wf y \<Longrightarrow> den (join x y) = den x \<union> den y"
    and wf_neg: "wf x \<Longrightarrow> wf (neg x)"
    and den_neg: "wf x \<Longrightarrow> den (neg x) = univ - den x"
    and wf_xor: "wf x \<Longrightarrow> wf y \<Longrightarrow> wf (xor x y)"
    and den_xor: "wf x \<Longrightarrow> wf y \<Longrightarrow> den (xor x y) = (den x - den y) \<union> (den y - den x)"
    and den_inject: "wf x \<Longrightarrow> wf y \<Longrightarrow> den x = den y \<Longrightarrow> x = y"
begin

lemmas wfs = wf_zero wf_one wf_meet wf_join wf_neg wf_xor
lemmas dens = den_zero den_one den_meet den_join den_neg den_xor

lemma eq_iff: "wf x \<Longrightarrow> wf y \<Longrightarrow> x = y \<longleftrightarrow> den x = den y"
  using den_inject by auto

lemma laws:
  assumes "wf x" and "wf y" and "wf z"
  shows "meet x y = meet y x" and "join x y = join y x"
    and "meet x (meet y z) = meet (meet x y) z" and "join x (join y z) = join (join x y) z"
    and "meet x (join x y) = x" and "join x (meet x y) = x"
    and "meet x (join y z) = join (meet x y) (meet x z)"
    and "join x (meet y z) = meet (join x y) (join x z)"
    and "meet x (neg x) = zero" and "join x (neg x) = one"
    and "neg (meet x y) = join (neg x) (neg y)" and "neg (join x y) = meet (neg x) (neg y)"
    and "neg (neg x) = x" and "meet x one = x" and "join x zero = x"
    and "xor x y = join (meet x (neg y)) (meet (neg x) y)"
  using assms den_univ [of x] den_univ [of y]
  by (auto simp: eq_iff wfs dens)

text \<open>The order of the algebra, the way the code tests it: \<^verbatim>\<open>x & ~y\<close> is zero.\<close>

lemma below_iff: "wf x \<Longrightarrow> wf y \<Longrightarrow> meet x (neg y) = zero \<longleftrightarrow> den x \<subseteq> den y"
  using den_univ [of x] by (auto simp: eq_iff wfs dens)

text \<open>The equality test of the code: \<^verbatim>\<open>x ^ y\<close> is zero.\<close>

lemma xor_zero_iff: "wf x \<Longrightarrow> wf y \<Longrightarrow> xor x y = zero \<longleftrightarrow> x = y"
  using den_univ [of x] by (auto simp: eq_iff wfs dens)

end

section \<open>The two-element algebra\<close>

text \<open>\<^verbatim>\<open>bool_ba.h\<close>, \<^verbatim>\<open>bool_ba.cpp\<close>: one wrapped bool. Its set of points is over one point.\<close>

record bool_ba =
  ba_b :: bool

definition bool_zero :: bool_ba where
  "bool_zero = \<lparr>ba_b = False\<rparr>"

definition bool_one :: bool_ba where
  "bool_one = \<lparr>ba_b = True\<rparr>"

definition bool_not :: "bool_ba \<Rightarrow> bool_ba" where
  "bool_not x = (if ba_b x = True then bool_zero else bool_one)"

definition bool_and :: "bool_ba \<Rightarrow> bool_ba \<Rightarrow> bool_ba" where
  "bool_and x y = (if ba_b x = False then bool_zero else y)"

definition bool_or :: "bool_ba \<Rightarrow> bool_ba \<Rightarrow> bool_ba" where
  "bool_or x y = (if ba_b x = True then bool_one else y)"

definition bool_xor :: "bool_ba \<Rightarrow> bool_ba \<Rightarrow> bool_ba" where
  "bool_xor x y = (if ba_b x = True then bool_not y else y)"

definition bool_add :: "bool_ba \<Rightarrow> bool_ba \<Rightarrow> bool_ba" where
  "bool_add x y = (if ba_b x = True then bool_not y else y)"

definition bool_is_zero :: "bool_ba \<Rightarrow> bool" where
  "bool_is_zero x = (\<not> ba_b x)"

definition bool_is_one :: "bool_ba \<Rightarrow> bool" where
  "bool_is_one x = ba_b x"

definition bool_den :: "bool_ba \<Rightarrow> unit set" where
  "bool_den x = (if ba_b x then UNIV else {})"

lemmas bool_defs = bool_zero_def bool_one_def bool_not_def bool_and_def bool_or_def bool_xor_def
  bool_den_def

interpretation bool_alg: set_algebra "\<lambda>_. True" bool_den UNIV bool_zero bool_one bool_and bool_or
  bool_not bool_xor
  by unfold_locales (auto simp: bool_defs split: if_splits)

section \<open>The product of two algebras\<close>

text \<open>
  \<^verbatim>\<open>product_ba.h\<close> at two components: every operator acts on each component with that
  component's own operator. A product of more components is a product with a product.
\<close>

definition product_not :: "('a \<Rightarrow> 'a) \<Rightarrow> ('b \<Rightarrow> 'b) \<Rightarrow> 'a \<times> 'b \<Rightarrow> 'a \<times> 'b" where
  "product_not na nb x = (na (fst x), nb (snd x))"

definition product_op ::
  "('a \<Rightarrow> 'a \<Rightarrow> 'a) \<Rightarrow> ('b \<Rightarrow> 'b \<Rightarrow> 'b) \<Rightarrow> 'a \<times> 'b \<Rightarrow> 'a \<times> 'b \<Rightarrow> 'a \<times> 'b" where
  "product_op fa fb x y = (fa (fst x) (fst y), fb (snd x) (snd y))"

definition product_wf :: "('a \<Rightarrow> bool) \<Rightarrow> ('b \<Rightarrow> bool) \<Rightarrow> 'a \<times> 'b \<Rightarrow> bool" where
  "product_wf wa wb x \<longleftrightarrow> wa (fst x) \<and> wb (snd x)"

text \<open>The points of a product: those of the left component and those of the right one.\<close>

definition product_den :: "('a \<Rightarrow> 'p set) \<Rightarrow> ('b \<Rightarrow> 'q set) \<Rightarrow> 'a \<times> 'b \<Rightarrow> ('p + 'q) set" where
  "product_den da db x = Inl ` da (fst x) \<union> Inr ` db (snd x)"

locale set_algebra_pair =
  a: set_algebra wf_a den_a univ_a zero_a one_a meet_a join_a neg_a xor_a +
  b: set_algebra wf_b den_b univ_b zero_b one_b meet_b join_b neg_b xor_b
  for wf_a :: "'a \<Rightarrow> bool" and den_a :: "'a \<Rightarrow> 'p set" and univ_a zero_a one_a
    and meet_a join_a neg_a xor_a
    and wf_b :: "'b \<Rightarrow> bool" and den_b :: "'b \<Rightarrow> 'q set" and univ_b zero_b one_b
    and meet_b join_b neg_b xor_b
begin

lemma product_inject:
  assumes "product_wf wf_a wf_b x" and "product_wf wf_a wf_b y"
    and "product_den den_a den_b x = product_den den_a den_b y"
  shows "x = y"
proof -
  have "p \<in> den_a (fst x) \<longleftrightarrow> Inl p \<in> product_den den_a den_b x"
    "p \<in> den_a (fst y) \<longleftrightarrow> Inl p \<in> product_den den_a den_b y"
    "q \<in> den_b (snd x) \<longleftrightarrow> Inr q \<in> product_den den_a den_b x"
    "q \<in> den_b (snd y) \<longleftrightarrow> Inr q \<in> product_den den_a den_b y" for p q
    by (auto simp: product_den_def)
  then have "den_a (fst x) = den_a (fst y)" "den_b (snd x) = den_b (snd y)"
    using assms(3) by blast+
  then show ?thesis
    using assms a.den_inject b.den_inject by (simp add: product_wf_def prod_eq_iff)
qed

lemma product_univ:
  "product_wf wf_a wf_b x \<Longrightarrow> product_den den_a den_b x \<subseteq> Inl ` univ_a \<union> Inr ` univ_b"
  using a.den_univ [of "fst x"] b.den_univ [of "snd x"]
  by (auto simp: product_wf_def product_den_def)

end

sublocale set_algebra_pair \<subseteq> product: set_algebra "product_wf wf_a wf_b" "product_den den_a den_b"
  "Inl ` univ_a \<union> Inr ` univ_b" "(zero_a, zero_b)" "(one_a, one_b)" "product_op meet_a meet_b"
  "product_op join_a join_b" "product_not neg_a neg_b" "product_op xor_a xor_b"
  by unfold_locales
     ((erule (2) product_inject | erule product_univ |
       force simp: product_wf_def product_den_def product_op_def product_not_def a.wfs b.wfs
         a.dens b.dens)+)

end
