(* ===== verification/Qint.thy ===== *)
theory Qint imports Exact_Rational Half_Open Set_Algebra
  "HOL-Library.List_Lexorder" "HOL-Library.Product_Lexorder" "HOL-Library.Monad_Syntax" begin

text \<open>
  \<^verbatim>\<open>src/boolean_algebras/qint\<close>: the atomless Boolean algebra of finite unions of half-open
  intervals \<open>[lo, hi)\<close> with exact rational ends. A qint is a record holding its
  \<^verbatim>\<open>std::map\<close>, modelled as the list of entries in iteration order; the loops over such
  maps are in \<open>Half_Open\<close>. The abstract model is a set of points of the extended rational
  line below \<open>PInf\<close>.
\<close>

section \<open>Endpoints\<close>

record qint_rational =
  qr_p :: int
  qr_q :: int

definition qr_int :: "int \<Rightarrow> qint_rational" where
  "qr_int n = \<lparr>qr_p = n, qr_q = 1\<rparr>"

definition pos_inf :: qint_rational where
  "pos_inf = \<lparr>qr_p = 1, qr_q = 0\<rparr>"

definition neg_inf :: qint_rational where
  "neg_inf = \<lparr>qr_p = - 1, qr_q = 0\<rparr>"

definition is_inf :: "qint_rational \<Rightarrow> bool" where
  "is_inf v \<longleftrightarrow> qr_q v = 0"

definition is_pos_inf :: "qint_rational \<Rightarrow> bool" where
  "is_pos_inf v \<longleftrightarrow> qr_q v = 0 \<and> qr_p v > 0"

definition is_neg_inf :: "qint_rational \<Rightarrow> bool" where
  "is_neg_inf v \<longleftrightarrow> qr_q v = 0 \<and> qr_p v < 0"

definition make_rational :: "int \<Rightarrow> int \<Rightarrow> qint_rational option" where
  "make_rational num den =
     (case reduce num den of
        None \<Rightarrow> None
      | Some f \<Rightarrow> Some \<lparr>qr_p = fr_p f, qr_q = fr_q f\<rparr>)"

text \<open>The public constructor: numerator and denominator are \<^verbatim>\<open>long long\<close>.\<close>

definition qint_rational_fraction :: "int \<Rightarrow> int \<Rightarrow> qint_rational option" where
  "qint_rational_fraction num den = make_rational num den"

definition add_int :: "qint_rational \<Rightarrow> int \<Rightarrow> qint_rational option" where
  "add_int a b = make_rational (qr_p a + b * qr_q a) (qr_q a)"

definition int128_max :: int where
  "int128_max = 2 ^ 127 - 1"

definition midpoint :: "qint_rational \<Rightarrow> qint_rational \<Rightarrow> qint_rational option" where
  "midpoint a b =
     (let g = int128_gcd (qr_q a) (qr_q b);
          l = qr_q a sdiv g * qr_q b;
          num = qr_p a * (l sdiv qr_q a) + qr_p b * (l sdiv qr_q b)
      in if num smod 2 = 0 then make_rational (num sdiv 2) l
         else if l > int128_max sdiv 2 then None
         else make_rational num (l * 2))"

text \<open>The three-way comparison: the sign of the result is \<^verbatim>\<open>std::strong_ordering\<close>.\<close>

definition int_cmp :: "int \<Rightarrow> int \<Rightarrow> int" where
  "int_cmp a b = (if a < b then - 1 else if a = b then 0 else 1)"

definition qr_cmp :: "qint_rational \<Rightarrow> qint_rational \<Rightarrow> int" where
  "qr_cmp v u =
     (if is_inf v \<or> is_inf u then
        let a = (if is_inf v then (if qr_p v > 0 then 1 else - 1) else 0);
            b = (if is_inf u then (if qr_p u > 0 then 1 else - 1) else 0)
        in int_cmp a b
      else int_cmp (qr_p v * qr_q u) (qr_p u * qr_q v))"

definition qr_less :: "qint_rational \<Rightarrow> qint_rational \<Rightarrow> bool" where
  "qr_less v u \<longleftrightarrow> qr_cmp v u < 0"

section \<open>Endpoint texts\<close>

definition parse_endpoint :: "string \<Rightarrow> qint_rational option" where
  "parse_endpoint s =
     (let t = trim s
      in if t = [] then None
         else if t = ''+inf'' \<or> t = ''inf'' \<or> t = ''+infinity'' \<or> t = ''infinity'' then Some pos_inf
         else if t = ''-inf'' \<or> t = ''-infinity'' then Some neg_inf
         else case parse_number t of
                None \<Rightarrow> None
              | Some f \<Rightarrow> Some \<lparr>qr_p = fr_p f, qr_q = fr_q f\<rparr>)"

text \<open>
  \<^verbatim>\<open>while (d % b == 0) d /= b, ++n\<close>: the cofactor and the count. At \<open>d = 0\<close> the C++ loop
  does not end; the caller has returned before for an infinity, whose \<open>q\<close> alone is 0.
\<close>

function strip_factor :: "int \<Rightarrow> int \<Rightarrow> nat \<Rightarrow> int \<times> nat" where
  "strip_factor b d n =
     (if d \<noteq> 0 \<and> 1 < b \<and> d smod b = 0 then strip_factor b (d sdiv b) (Suc n) else (d, n))"
  by pat_completeness auto
termination
proof (relation "measure (\<lambda>(b, d, n). nat \<bar>d\<bar>)", goal_cases)
  case (2 b d n)
  then have "b dvd d" "d \<noteq> 0" "1 < b" by (auto simp: smod_eq_0_iff)
  then obtain k where "d = b * k" "k \<noteq> 0" by auto
  moreover have "\<bar>k\<bar> < b * \<bar>k\<bar>" using \<open>1 < b\<close> \<open>k \<noteq> 0\<close> by simp
  ultimately show ?case using \<open>1 < b\<close> by (auto simp: sdiv_dvd abs_mult)
qed simp

declare strip_factor.simps [simp del]

text \<open>The lambda \<^verbatim>\<open>too_long\<close>: \<open>None\<close> where it answers true.\<close>

fun scale_decimal :: "int \<Rightarrow> nat \<Rightarrow> int \<Rightarrow> int option" where
  "scale_decimal factor 0 scaled = Some scaled"
| "scale_decimal factor (Suc k) scaled =
     (let scaled = scaled * factor
      in if int128_abs scaled > max_decimal_mantissa then None
         else scale_decimal factor k scaled)"

function mag_digits :: "int \<Rightarrow> string \<Rightarrow> string" where
  "mag_digits mag s =
     (if mag > 0 then mag_digits (mag sdiv 10) (digit_char (nat (mag smod 10)) # s) else s)"
  by pat_completeness auto
termination by (relation "measure (\<lambda>(m, s). nat m)") (auto simp: signed_divide_int_def)

declare mag_digits.simps [simp del]

definition endpoint_to_string :: "qint_rational \<Rightarrow> string" where
  "endpoint_to_string v =
     (if is_inf v then (if qr_p v > 0 then ''+inf'' else ''-inf'')
      else if qr_q v = 1 then int_to_string (qr_p v)
      else
        let (d, twos) = strip_factor 2 (qr_q v) 0;
            (d, fives) = strip_factor 5 d 0
        in if d \<noteq> 1 then int_to_string (qr_p v) @ ''/'' @ int_to_string (qr_q v)
           else
             let digits = max twos fives
             in case Option.bind (scale_decimal 2 (digits - twos) (qr_p v))
                       (scale_decimal 5 (digits - fives)) of
                  None \<Rightarrow> int_to_string (qr_p v) @ ''/'' @ int_to_string (qr_q v)
                | Some scaled \<Rightarrow>
                    place_decimal_point (mag_digits (int128_abs scaled) []) digits (scaled < 0))"

section \<open>Elements\<close>

record qint =
  intervals :: "(qint_rational \<times> qint_rational) list"

definition qint_bottom :: qint where
  "qint_bottom = \<lparr>intervals = []\<rparr>"

definition qint_top :: qint where
  "qint_top = \<lparr>intervals = [(neg_inf, pos_inf)]\<rparr>"

definition is_empty :: "qint \<Rightarrow> bool" where
  "is_empty x \<longleftrightarrow> intervals x = []"

definition is_full :: "qint \<Rightarrow> bool" where
  "is_full x =
     (case intervals x of
        [(lo, hi)] \<Rightarrow> is_neg_inf lo \<and> is_pos_inf hi
      | _ \<Rightarrow> False)"

definition qint_eq :: "qint \<Rightarrow> qint \<Rightarrow> bool" where
  "qint_eq x y \<longleftrightarrow> intervals x = intervals y"

definition qint_eq_bool :: "qint \<Rightarrow> bool \<Rightarrow> bool" where
  "qint_eq_bool x b = (if b then is_full x else is_empty x)"

text \<open>\<^verbatim>\<open>operator<\<close> of two maps: lexicographic over their entries, an entry over its parts.\<close>

fun map_less :: "(qint_rational \<times> qint_rational) list \<Rightarrow> (qint_rational \<times> qint_rational) list \<Rightarrow> bool"
where
  "map_less [] [] = False"
| "map_less [] (_ # _) = True"
| "map_less (_ # _) [] = False"
| "map_less ((a, b) # x) ((c, d) # y) =
     (if qr_less a c then True else if qr_less c a then False
      else if qr_less b d then True else if qr_less d b then False
      else map_less x y)"

definition qint_less :: "qint \<Rightarrow> qint \<Rightarrow> bool" where
  "qint_less x y = map_less (intervals x) (intervals y)"

definition qint_cmp :: "qint \<Rightarrow> qint \<Rightarrow> int" where
  "qint_cmp x y = (if qint_eq x y then 0 else if qint_less x y then - 1 else 1)"

definition qint_normalize_map :: "(qint_rational \<times> qint_rational) list \<Rightarrow> qint" where
  "qint_normalize_map m = \<lparr>intervals = normalize_map qr_less m\<rparr>"

definition qint_or :: "qint \<Rightarrow> qint \<Rightarrow> qint" where
  "qint_or x y = qint_normalize_map (or_merge qr_less (intervals x) (intervals y))"

definition qint_and :: "qint \<Rightarrow> qint \<Rightarrow> qint" where
  "qint_and x y = \<lparr>intervals = and_loop qr_less (intervals x) (intervals y) []\<rparr>"

definition qint_not :: "qint \<Rightarrow> qint" where
  "qint_not x =
     (if intervals x = [] then qint_top
      else
        let (cur, result) = compl_loop qr_less neg_inf (intervals x) []
        in \<lparr>intervals =
             (if \<not> is_pos_inf cur then smap_put qr_less cur pos_inf result else result)\<rparr>)"

definition qint_xor :: "qint \<Rightarrow> qint \<Rightarrow> qint" where
  "qint_xor x y = qint_and (qint_or x y) (qint_not (qint_and x y))"

fun intervals_to_string :: "bool \<Rightarrow> (qint_rational \<times> qint_rational) list \<Rightarrow> string" where
  "intervals_to_string first [] = []"
| "intervals_to_string first ((lo, hi) # m) =
     (if first then [] else '' | '') @ ''['' @ endpoint_to_string lo @ '', '' @
     endpoint_to_string hi @ '')'' @ intervals_to_string False m"

definition qint_to_string :: "qint \<Rightarrow> string" where
  "qint_to_string x =
     (if intervals x = [] then ''bot''
      else if is_full x then ''top''
      else intervals_to_string True (intervals x))"

definition qint_splitter :: "qint \<Rightarrow> qint" where
  "qint_splitter x =
     (case intervals x of
        [] \<Rightarrow> qint_bottom
      | (lo, hi) # _ \<Rightarrow>
          if is_inf lo \<and> is_inf hi then \<lparr>intervals = [(lo, qr_int 0)]\<rparr>
          else if is_inf lo then
            (case add_int hi (- 1) of
               None \<Rightarrow> \<lparr>intervals = [(lo, hi)]\<rparr>
             | Some c \<Rightarrow> \<lparr>intervals = [(lo, c)]\<rparr>)
          else if is_inf hi then
            (case add_int lo 1 of
               None \<Rightarrow> \<lparr>intervals = [(lo, hi)]\<rparr>
             | Some c \<Rightarrow> \<lparr>intervals = [(lo, c)]\<rparr>)
          else
            (case midpoint lo hi of
               None \<Rightarrow> \<lparr>intervals = [(lo, hi)]\<rparr>
             | Some mid \<Rightarrow> \<lparr>intervals = [(lo, mid)]\<rparr>))"

definition qint_splitter_one :: qint where
  "qint_splitter_one =
     \<lparr>intervals = [(qr_int 0, the (make_rational 1 2))]\<rparr>"

section \<open>Literals\<close>

text \<open>
  The parse tree of a literal, as the generated grammar delivers it: an interval node has the
  texts of its ends as children, a union an interval and a literal. The code's error for a union
  node of fewer than two children, which the grammar does not deliver, has no counterpart.
\<close>

datatype qint_tree =
    QTop
  | QBot
  | QInterval "string list list"
  | QUnion "string list" qint_tree
  | QOther

fun qint_eval_interval :: "string list \<Rightarrow> qint result" where
  "qint_eval_interval children =
     (let endpoints = filter (\<lambda>e. e \<noteq> []) children
      in case endpoints of
           e0 # e1 # _ \<Rightarrow>
             (case parse_endpoint e0 of
                None \<Rightarrow> Inl (ParseError, ''Not a rational in a qint interval'')
              | Some lo \<Rightarrow>
                  (case parse_endpoint e1 of
                     None \<Rightarrow> Inl (ParseError, ''Not a rational in a qint interval'')
                   | Some hi \<Rightarrow>
                       if \<not> qr_less lo hi then Inl (ParseError, ''Empty qint interval'')
                       else Inr \<lparr>intervals = [(lo, hi)]\<rparr>))
         | _ \<Rightarrow> Inl (ParseError, ''qint interval needs two endpoints''))"

fun qint_eval_parse_tree :: "qint_tree \<Rightarrow> qint result" where
  "qint_eval_parse_tree QTop = Inr qint_top"
| "qint_eval_parse_tree QBot = Inr qint_bottom"
| "qint_eval_parse_tree (QInterval children) =
     (case children of
        [] \<Rightarrow> Inl (ParseError, ''Empty qint interval'')
      | c # _ \<Rightarrow> qint_eval_interval c)"
| "qint_eval_parse_tree (QUnion l r) =
     rbind (qint_eval_interval l) (\<lambda>left.
     rbind (qint_eval_parse_tree r) (\<lambda>right. Inr (qint_or left right)))"
| "qint_eval_parse_tree QOther = Inl (InternalError, ''Unknown qint node type'')"

section \<open>The extended rational line\<close>

datatype ext_rat = MInf | Fin rat | PInf

instantiation ext_rat :: linorder
begin

fun less_eq_ext_rat :: "ext_rat \<Rightarrow> ext_rat \<Rightarrow> bool" where
  "less_eq_ext_rat MInf b = True"
| "less_eq_ext_rat (Fin a) MInf = False"
| "less_eq_ext_rat (Fin a) (Fin b) = (a \<le> b)"
| "less_eq_ext_rat (Fin a) PInf = True"
| "less_eq_ext_rat PInf b = (b = PInf)"

definition less_ext_rat :: "ext_rat \<Rightarrow> ext_rat \<Rightarrow> bool" where
  "less_ext_rat a b \<longleftrightarrow> a \<le> b \<and> \<not> b \<le> a"

instance
proof
  fix x y z :: ext_rat
  show "x < y \<longleftrightarrow> x \<le> y \<and> \<not> y \<le> x" by (rule less_ext_rat_def)
  show "x \<le> x" by (cases x) auto
  show "x \<le> y \<Longrightarrow> y \<le> z \<Longrightarrow> x \<le> z" by (cases x; cases y; cases z) auto
  show "x \<le> y \<Longrightarrow> y \<le> x \<Longrightarrow> x = y" by (cases x; cases y) auto
  show "x \<le> y \<or> y \<le> x" by (cases x; cases y) auto
qed

end

lemma ext_rat_less_simps [simp]:
  "MInf < b \<longleftrightarrow> b \<noteq> MInf" "\<not> a < MInf" "Fin x < Fin y \<longleftrightarrow> x < y" "Fin x < PInf" "\<not> PInf < b"
  "a < PInf \<longleftrightarrow> a \<noteq> PInf" "a \<le> MInf \<longleftrightarrow> a = MInf" "a \<le> PInf"
  by (cases a; cases b; auto simp: less_ext_rat_def)+

definition qr_valid :: "qint_rational \<Rightarrow> bool" where
  "qr_valid v \<longleftrightarrow> v = pos_inf \<or> v = neg_inf \<or>
     (0 < qr_q v \<and> coprime (qr_p v) (qr_q v) \<and> fits (qr_p v) \<and> fits (qr_q v))"

definition qr_val :: "qint_rational \<Rightarrow> ext_rat" where
  "qr_val v =
     (if qr_q v = 0 then (if qr_p v > 0 then PInf else MInf)
      else Fin (of_int (qr_p v) / of_int (qr_q v)))"

lemma qr_val_inf [simp]: "qr_val pos_inf = PInf" "qr_val neg_inf = MInf"
  by (simp_all add: qr_val_def pos_inf_def neg_inf_def)

lemma qr_valid_inf [simp]: "qr_valid pos_inf" "qr_valid neg_inf"
  by (simp_all add: qr_valid_def)

lemma qr_val_Fin_iff: "(\<exists>x. qr_val v = Fin x) \<longleftrightarrow> \<not> is_inf v"
  by (simp add: qr_val_def is_inf_def)

lemma is_inf_val:
  assumes "qr_valid v"
  shows "is_pos_inf v \<longleftrightarrow> qr_val v = PInf" and "is_neg_inf v \<longleftrightarrow> qr_val v = MInf"
    and "is_inf v \<longleftrightarrow> qr_val v = PInf \<or> qr_val v = MInf"
  using assms
  by (auto simp: qr_valid_def is_pos_inf_def is_neg_inf_def is_inf_def qr_val_def pos_inf_def neg_inf_def)

lemma qr_valid_fr: "\<not> is_inf v \<Longrightarrow> qr_valid v \<longleftrightarrow> fr_valid \<lparr>fr_p = qr_p v, fr_q = qr_q v\<rparr>"
  by (auto simp: qr_valid_def fr_valid_def is_inf_def pos_inf_def neg_inf_def)

lemma qr_val_fr: "\<not> is_inf v \<Longrightarrow> qr_val v = Fin (fr_val \<lparr>fr_p = qr_p v, fr_q = qr_q v\<rparr>)"
  by (simp add: is_inf_def qr_val_def fr_val_def)

lemma qr_val_inject: "qr_valid v \<Longrightarrow> qr_valid u \<Longrightarrow> qr_val v = qr_val u \<Longrightarrow> v = u"
proof (cases "is_inf v \<or> is_inf u")
  case True
  assume "qr_valid v" "qr_valid u" "qr_val v = qr_val u"
  with True show "v = u"
    by (auto simp: qr_valid_def qr_val_def is_inf_def pos_inf_def neg_inf_def split: if_splits)
next
  case False
  assume "qr_valid v" "qr_valid u" "qr_val v = qr_val u"
  with False have "\<lparr>fr_p = qr_p v, fr_q = qr_q v\<rparr> = \<lparr>fr_p = qr_p u, fr_q = qr_q u\<rparr>"
    by (intro fr_val_inject) (simp_all add: qr_valid_fr qr_val_fr)
  then show "v = u" by simp
qed

text \<open>Every finite valid end has a positive denominator.\<close>

lemma qr_valid_pos: "qr_valid v \<Longrightarrow> \<not> is_inf v \<Longrightarrow> 0 < qr_q v"
  by (auto simp: qr_valid_def is_inf_def pos_inf_def neg_inf_def)

lemma make_rational_Some:
  assumes "make_rational num den = Some v"
  shows "den \<noteq> 0" and "qr_valid v" and "\<not> is_inf v"
    and "qr_val v = Fin (of_int num / of_int den)"
proof -
  from assms obtain f where f: "reduce num den = Some f" "v = \<lparr>qr_p = fr_p f, qr_q = fr_q f\<rparr>"
    by (auto simp: make_rational_def split: option.splits)
  note r = reduce_Some [OF f(1)]
  show inf: "\<not> is_inf v" using r f by (auto simp: fr_valid_def is_inf_def)
  show "den \<noteq> 0" "qr_valid v" "qr_val v = Fin (of_int num / of_int den)"
    using r f inf by (cases f, auto simp: qr_valid_fr qr_val_fr)+
qed

lemma make_rational_complete:
  assumes "qr_valid v" and "\<not> is_inf v" and "den \<noteq> 0"
    and "qr_val v = Fin (of_int num / of_int den)"
  shows "make_rational num den = Some v"
proof -
  have "reduce num den = Some \<lparr>fr_p = qr_p v, fr_q = qr_q v\<rparr>"
    using assms by (intro reduce_complete) (simp_all add: qr_valid_fr qr_val_fr)
  then show ?thesis by (simp add: make_rational_def)
qed

lemma rat_frac_less:
  assumes "0 < b" "0 < d"
  shows "of_int a / of_int b < (of_int c / of_int d :: rat) \<longleftrightarrow> a * d < c * b"
proof -
  have "of_int a / of_int b < (of_int c / of_int d :: rat) \<longleftrightarrow>
      (of_int (a * d) :: rat) < of_int (c * b)"
    using assms by (simp add: pos_divide_less_eq pos_less_divide_eq mult.commute)
  then show ?thesis by (simp only: of_int_less_iff)
qed

lemma qr_less_val: "qr_valid v \<Longrightarrow> qr_valid u \<Longrightarrow> qr_less v u \<longleftrightarrow> qr_val v < qr_val u"
proof (cases "is_inf v \<or> is_inf u")
  case True
  assume "qr_valid v" "qr_valid u"
  with True show ?thesis
    by (auto simp: qr_less_def qr_cmp_def int_cmp_def qr_val_def is_inf_def qr_valid_def pos_inf_def
        neg_inf_def Let_def)
next
  case False
  assume "qr_valid v" "qr_valid u"
  with False have "0 < qr_q v" "0 < qr_q u" by (auto dest: qr_valid_pos)
  moreover from this have "(of_int (qr_p v) / of_int (qr_q v) < (of_int (qr_p u) / of_int (qr_q u) :: rat))
      \<longleftrightarrow> qr_p v * qr_q u < qr_p u * qr_q v"
    by (rule rat_frac_less)
  ultimately show ?thesis
    using False by (simp add: qr_less_def qr_cmp_def int_cmp_def qr_val_def is_inf_def)
qed

interpretation ends: key_embedding qr_less qr_valid qr_val
  by unfold_locales (auto simp: qr_less_val dest: qr_val_inject)

section \<open>Elements as sets of points\<close>

definition qint_den :: "qint \<Rightarrow> ext_rat set" where
  "qint_den x = {r. \<exists>(lo, hi) \<in> set (intervals x). qr_val lo \<le> r \<and> r < qr_val hi}"

fun gaps_ok :: "(qint_rational \<times> qint_rational) list \<Rightarrow> bool" where
  "gaps_ok [] = True"
| "gaps_ok [(lo, hi)] = qr_less lo hi"
| "gaps_ok ((lo, hi) # (lo', hi') # m) = (qr_less lo hi \<and> qr_less hi lo' \<and> gaps_ok ((lo', hi') # m))"

text \<open>
  The invariant of the representation: valid ends, every interval nonempty, the intervals in
  order and apart (neither overlapping nor adjacent).
\<close>

definition qint_wf :: "qint \<Rightarrow> bool" where
  "qint_wf x \<longleftrightarrow> (\<forall>(lo, hi) \<in> set (intervals x). qr_valid lo \<and> qr_valid hi) \<and> gaps_ok (intervals x)"

lemma gaps_ok_canonical: "ends.ok_list m \<Longrightarrow> gaps_ok m \<longleftrightarrow> canonical (ends.em m)"
proof (induction m rule: gaps_ok.induct)
  case (3 lo hi lo' hi' m)
  have "canonical (ends.em ((lo', hi') # m)) \<Longrightarrow> qr_val lo < qr_val hi \<Longrightarrow> qr_val hi < qr_val lo' \<Longrightarrow>
      (l, h) \<in> set (ends.em m) \<Longrightarrow> qr_val hi < l" for l h
    by (auto dest: order.strict_trans)
  with 3 show ?case by (auto simp: qr_less_val)
qed (auto simp: qr_less_val)

lemma qint_wf_iff: "qint_wf x \<longleftrightarrow> ends.ok_list (intervals x) \<and> canonical (ends.em (intervals x))"
  using gaps_ok_canonical [of "intervals x"] unfolding qint_wf_def ends.ok_list_def by blast

lemma qint_den_cover: "qint_den x = cover (ends.em (intervals x))"
  by (force simp: qint_den_def cover_def ends.em_def)

lemma qint_wf_top [wf_rules, simp]: "qint_wf qint_top"
  by (simp add: qint_wf_iff qint_top_def)

lemma qint_wf_bottom [wf_rules, simp]: "qint_wf qint_bottom"
  by (simp add: qint_wf_iff qint_bottom_def)

lemma qint_den_bottom [den_simps, simp]: "qint_den qint_bottom = {}"
  by (simp add: qint_den_cover qint_bottom_def)

lemma qint_den_top [den_simps, simp]: "qint_den qint_top = {r. r < PInf}"
  by (auto simp: qint_den_cover qint_top_def)

lemma qint_den_below: "qint_den x \<subseteq> {r. r < PInf}"
  by (auto simp: qint_den_def dest: order.strict_trans2 [OF _ ext_rat_less_simps(8)])

lemma qint_or_refines:
  assumes "qint_wf x" and "qint_wf y"
  shows "qint_wf (qint_or x y) \<and> qint_den (qint_or x y) = qint_den x \<union> qint_den y"
proof -
  let ?X = "ends.em (intervals x)" and ?Y = "ends.em (intervals y)"
  from assms have ok: "ends.ok_list (intervals x)" "ends.ok_list (intervals y)"
    and can: "canonical ?X" "canonical ?Y" by (simp_all add: qint_wf_iff)
  note m = ends.or_merge_emb [OF ok]
  have ks: "key_sorted (or_merge (<) ?X ?Y)"
    by (rule or_merge_sorted [OF canonical_key_sorted [OF can(1)]])
  have ne: "\<And>a b. (a, b) \<in> set (or_merge (<) ?X ?Y) \<Longrightarrow> a < b"
    using or_merge_nonempty [OF canonical_key_sorted [OF can(1)]] can
    by (fastforce simp: canonical_def)
  note n = normalize_map_canonical [OF ks ne]
  note e = ends.normalize_map_emb [OF conjunct1 [OF m]]
  show ?thesis
    using n e m or_merge_cover [OF canonical_key_sorted [OF can(1)], of ?Y]
    by (simp add: qint_wf_iff qint_den_cover qint_or_def qint_normalize_map_def)
qed

lemma qint_and_refines:
  assumes "qint_wf x" and "qint_wf y"
  shows "qint_wf (qint_and x y) \<and> qint_den (qint_and x y) = qint_den x \<inter> qint_den y"
  using assms ends.and_loop_emb [of "intervals x" "intervals y" "[]"]
    and_loop_canonical [of "ends.em (intervals x)" "ends.em (intervals y)" "[]"]
  by (simp add: qint_wf_iff qint_den_cover qint_and_def)

lemma qint_not_refines:
  assumes "qint_wf x"
  shows "qint_wf (qint_not x) \<and> qint_den (qint_not x) = {r. r < PInf} - qint_den x"
proof (cases "intervals x = []")
  case True
  then have "qint_not x = qint_top" "qint_den x = {}" by (auto simp: qint_not_def qint_den_cover)
  then show ?thesis by simp
next
  case False
  let ?X = "ends.em (intervals x)"
  from assms have ok: "ends.ok_list (intervals x)" and can: "canonical ?X"
    by (simp_all add: qint_wf_iff)
  obtain cur res where loop: "compl_loop qr_less neg_inf (intervals x) [] = (cur, res)" by fastforce
  with ends.compl_loop_emb [OF ok, of "[]" neg_inf]
  have e: "qr_valid cur" "ends.ok_list res" "compl_loop (<) MInf ?X [] = (qr_val cur, ends.em res)"
    by simp_all
  have start: "MInf < l \<or> (MInf = l \<and> ([] :: (ext_rat \<times> ext_rat) list) = [])" for l by auto
  from compl_loop_canonical [OF can canonical_simps(1) _ start e(3)]
  have c: "canonical (ends.em res)" "\<And>a b. (a, b) \<in> set (ends.em res) \<Longrightarrow> b < qr_val cur"
    "cover ?X \<subseteq> {MInf..<qr_val cur}" "cover (ends.em res) = {MInf..<qr_val cur} - cover ?X"
    by auto
  let ?out = "if \<not> is_pos_inf cur then smap_put qr_less cur pos_inf res else res"
  have out: "ends.ok_list ?out \<and> ends.em ?out =
      (if qr_val cur \<noteq> PInf then ends.em res @ [(qr_val cur, PInf)] else ends.em res)"
    using ends.smap_put_emb [OF e(2,1) qr_valid_inf(1)] canonical_put [OF c(1,2)] is_inf_val(1) [OF e(1)]
      e(2) by simp
  have "canonical (ends.em ?out)" using out c(1,2) by (auto simp: canonical_snoc)
  moreover have "cover (ends.em ?out) = {r. r < PInf} - cover ?X"
  proof (cases "qr_val cur = PInf")
    case True
    then show ?thesis using out c(4) by auto
  next
    case False
    have "cover (ends.em ?out) = ({MInf..<qr_val cur} - cover ?X) \<union> {qr_val cur..<PInf}"
      using out c(4) False by simp
    also have "\<dots> = {r. r < PInf} - cover ?X"
      using c(3) False by (auto simp: subset_iff not_less) (meson leD)
    finally show ?thesis .
  qed
  ultimately show ?thesis
    using False loop out by (simp add: qint_wf_iff qint_den_cover qint_not_def)
qed

lemma qint_xor_refines:
  assumes "qint_wf x" and "qint_wf y"
  shows "qint_wf (qint_xor x y) \<and>
    qint_den (qint_xor x y) = (qint_den x - qint_den y) \<union> (qint_den y - qint_den x)"
  using assms qint_den_below [of x] qint_den_below [of y]
  by (auto simp: qint_xor_def qint_or_refines qint_and_refines qint_not_refines)

lemma qint_den_inject:
  assumes "qint_wf x" and "qint_wf y" and "qint_den x = qint_den y"
  shows "x = y"
proof -
  have "ends.em (intervals x) = ends.em (intervals y)"
    using assms by (intro canonical_unique) (simp_all add: qint_wf_iff qint_den_cover)
  then have "intervals x = intervals y"
    using assms by (intro ends.em_inj) (simp_all add: qint_wf_iff)
  then show ?thesis by simp
qed

interpretation qint_alg: set_algebra qint_wf qint_den "{r. r < PInf}" qint_bottom qint_top
  qint_and qint_or qint_not qint_xor
  by unfold_locales
     (use qint_den_below in \<open>auto simp: qint_or_refines qint_and_refines qint_not_refines
        qint_xor_refines intro: qint_den_inject\<close>)

text \<open>A product of the algebras modelled: its operators meet the same contract.\<close>

interpretation bool_qint: set_algebra_pair "\<lambda>_. True" bool_den UNIV bool_zero bool_one bool_and bool_or
  bool_not bool_xor qint_wf qint_den "{r. r < PInf}" qint_bottom qint_top qint_and qint_or qint_not qint_xor
  by unfold_locales

section \<open>Midpoints and cuts\<close>


text \<open>The quantities of \<open>midpoint\<close>: \<open>l\<close> is the least common multiple, and nothing overflows.\<close>

lemma midpoint_parts:
  assumes "0 < q1" and "0 < (q2::int)"
  obtains g u v where "0 < g" "0 < u" "0 < v" "q1 = g * u" "q2 = g * v"
    "int128_gcd q1 q2 = g" "q1 sdiv g * q2 = u * (g * v)" "u * (g * v) sdiv q1 = v" "u * (g * v) sdiv q2 = u"
proof -
  let ?g = "gcd q1 q2"
  have g: "0 < ?g" "int128_gcd q1 q2 = ?g" using assms by (simp_all add: int128_gcd_eq)
  obtain u v where uv: "q1 = ?g * u" "q2 = ?g * v" by (meson dvd_def gcd_dvd1 gcd_dvd2)
  have pos: "0 < u" "0 < v" using assms uv g(1) by (metis zero_less_mult_pos)+
  have "?g dvd q1" by simp
  then have d: "q1 sdiv ?g = u" using uv(1) g(1)
    by (metis nonzero_mult_div_cancel_left order_less_irrefl sdiv_dvd)
  have l: "u * q2 = v * q1" using uv by (metis mult.assoc mult.commute)
  have "(u * q2) sdiv q1 = v" using l assms(1) sdiv_dvd [of q1 "v * q1"] by simp
  moreover have "(u * q2) sdiv q2 = u" using assms(2) sdiv_dvd [of q2 "u * q2"] by simp
  ultimately show ?thesis
    using that [OF g(1) pos uv g(2)] d unfolding uv(2) [symmetric] by simp
qed

lemma midpoint_l_bound:
  assumes "0 < g" "0 < u" "0 < v" "g * u \<le> 2 ^ 63 - 1" "g * v \<le> 2 ^ 63 - (1::int)"
  shows "u \<le> 2 ^ 63 - 1" "v \<le> 2 ^ 63 - 1" "u * (g * v) \<le> 2 ^ 126 - 2 ^ 64 + 1"
proof -
  have "u \<le> g * u" "v \<le> g * v"
    using mult_right_mono [of 1 g u] mult_right_mono [of 1 g v] assms by simp_all
  then show uv: "u \<le> 2 ^ 63 - 1" "v \<le> 2 ^ 63 - 1" using assms by linarith+
  have "u * (g * v) \<le> (2 ^ 63 - 1) * (2 ^ 63 - 1)" using uv assms by (intro mult_mono) simp_all
  then show "u * (g * v) \<le> 2 ^ 126 - 2 ^ 64 + 1" by simp
qed

lemma scaled_bound:
  assumes "fits p" and "0 < v" and "v \<le> 2 ^ 63 - (1::int)"
  shows "\<bar>p * v\<bar> \<le> 2 ^ 126 - 2 ^ 63"
proof -
  have "\<bar>p\<bar> \<le> 2 ^ 63" using assms(1) by (auto simp: fits_def)
  then have "\<bar>p\<bar> * \<bar>v\<bar> \<le> 2 ^ 63 * (2 ^ 63 - 1)" using assms by (intro mult_mono) simp_all
  then show ?thesis by (simp add: abs_mult)
qed

lemma int128_range:
  assumes "g \<le> 2 ^ 63 - 1" "0 < g" "0 < l" "l \<le> 2 ^ 126 - 2 ^ 64 + 1"
    "\<bar>x\<bar> \<le> 2 ^ 126 - 2 ^ 63" "\<bar>y\<bar> \<le> 2 ^ 126 - (2 ^ 63 :: int)"
  shows "fits128 g \<and> fits128 l \<and> fits128 x \<and> fits128 y \<and> fits128 (x + y) \<and> fits128 (- (x + y)) \<and>
       fits128 (l * 2) \<and> \<not> 2 ^ 126 - 1 < l"
  using assms by (auto simp: fits128_def abs_le_iff)

lemma finite_parts:
  assumes "qr_valid a" and "\<not> is_inf a"
  shows "0 < qr_q a" "fits (qr_p a)" "qr_q a \<le> 2 ^ 63 - 1" "coprime (qr_p a) (qr_q a)"
    "qr_val a = Fin (of_int (qr_p a) / of_int (qr_q a))"
  using assms by (auto simp: qr_valid_def is_inf_def fits_def pos_inf_def neg_inf_def qr_val_def)

text \<open>
  Every 128-bit quantity of a midpoint, those negated by its reduction included, stays in
  range, and the guard on the doubled denominator never fires.
\<close>

lemma midpoint_range:
  assumes "qr_valid a" "\<not> is_inf a" "qr_valid b" "\<not> is_inf b"
  shows "let g = int128_gcd (qr_q a) (qr_q b); l = qr_q a sdiv g * qr_q b;
      x = qr_p a * (l sdiv qr_q a); y = qr_p b * (l sdiv qr_q b)
    in fits128 g \<and> fits128 l \<and> fits128 x \<and> fits128 y \<and> fits128 (x + y) \<and> fits128 (- (x + y)) \<and>
       fits128 (l * 2) \<and> \<not> l > int128_max sdiv 2"
proof -
  note a = finite_parts [OF assms(1,2)] and b = finite_parts [OF assms(3,4)]
  obtain g u v where m: "0 < g" "0 < u" "0 < v" "qr_q a = g * u" "qr_q b = g * v"
    "int128_gcd (qr_q a) (qr_q b) = g" "qr_q a sdiv g * qr_q b = u * (g * v)"
    "u * (g * v) sdiv qr_q a = v" "u * (g * v) sdiv qr_q b = u"
    by (rule midpoint_parts [OF a(1) b(1)])
  have gu: "g * u \<le> 2 ^ 63 - 1" "g * v \<le> 2 ^ 63 - 1" using a(3) b(3) m(4,5) by simp_all
  note l = midpoint_l_bound [OF m(1-3) gu]
  note x = scaled_bound [OF a(2) m(3) l(2)] and y = scaled_bound [OF b(2) m(2) l(1)]
  have "g \<le> g * u" using mult_left_mono [of 1 u g] m by simp
  then have g: "g \<le> 2 ^ 63 - 1" using gu(1) by simp
  have pos: "0 < u * (g * v)" using m by simp
  have mx: "int128_max sdiv 2 = 2 ^ 126 - 1" by (simp add: int128_max_def signed_divide_int_def)
  show ?thesis
    using g m(1) pos l(3) x y unfolding Let_def m(6) m(7) m(8) m(9) mx
    by (intro int128_range)
qed

text \<open>
  The midpoint once more, every 128-bit operation of it refused out of range (\<open>None\<close>) and the
  guard left out; the numerator is negated by the reduction.
\<close>

definition chk128 :: "int \<Rightarrow> int option" where
  "chk128 v = (if fits128 v then Some v else None)"

definition midpoint_checked :: "qint_rational \<Rightarrow> qint_rational \<Rightarrow> qint_rational option option" where
  "midpoint_checked a b = do {
     g \<leftarrow> chk128 (int128_gcd (qr_q a) (qr_q b));
     c \<leftarrow> chk128 (qr_q a sdiv g);
     l \<leftarrow> chk128 (c * qr_q b);
     x \<leftarrow> chk128 (qr_p a * (l sdiv qr_q a));
     y \<leftarrow> chk128 (qr_p b * (l sdiv qr_q b));
     num \<leftarrow> chk128 (x + y);
     neg \<leftarrow> chk128 (- num);
     if num smod 2 = 0 then do { h \<leftarrow> chk128 (num sdiv 2); Some (make_rational h l) }
     else do { e \<leftarrow> chk128 (l * 2); Some (make_rational num e) } }"

lemma chk128_Some [simp]: "fits128 v \<Longrightarrow> chk128 v = Some v"
  by (simp add: chk128_def)

lemma fits128_half: "fits128 v \<Longrightarrow> v smod 2 = 0 \<Longrightarrow> fits128 (v sdiv 2)"
  unfolding smod_eq_0_iff by (elim dvdE) (simp add: sdiv_dvd fits128_def)

lemma midpoint_checked_eq:
  assumes "qr_valid a" "\<not> is_inf a" "qr_valid b" "\<not> is_inf b"
  shows "midpoint_checked a b = Some (midpoint a b)"
proof -
  define g l x y where d: "g = int128_gcd (qr_q a) (qr_q b)" "l = qr_q a sdiv g * qr_q b"
    "x = qr_p a * (l sdiv qr_q a)" "y = qr_p b * (l sdiv qr_q b)"
  note r = midpoint_range [OF assms, unfolded Let_def, folded d]
  note q = finite_parts [OF assms(1,2)] finite_parts [OF assms(3,4)]
  obtain g' u v where m: "0 < g'" "0 < u" "0 < v" "qr_q a = g' * u" "qr_q b = g' * v"
    "int128_gcd (qr_q a) (qr_q b) = g'" "qr_q a sdiv g' * qr_q b = u * (g' * v)"
    "u * (g' * v) sdiv qr_q a = v" "u * (g' * v) sdiv qr_q b = u"
    by (rule midpoint_parts [OF q(1) q(6)])
  have "qr_q a sdiv g = u" using m d(1) by (simp add: sdiv_dvd)
  moreover have "u \<le> 2 ^ 63 - 1"
    using order_trans [OF mult_right_mono [of 1 g' u]] q(3) m by fastforce
  ultimately have "fits128 (qr_q a sdiv g)" using m(2) by (simp add: fits128_def)
  then show ?thesis
    using r by (simp add: midpoint_checked_def midpoint_def Let_def fits128_half flip: d)
qed

text \<open>The midpoint is exact, and is refused only when no endpoint can hold it.\<close>

lemma midpoint_iff:
  assumes "qr_valid a" "\<not> is_inf a" "qr_valid b" "\<not> is_inf b"
    and "qr_val a = Fin x" "qr_val b = Fin y"
  shows "midpoint a b = Some m \<longleftrightarrow> qr_valid m \<and> qr_val m = Fin ((x + y) / 2)"
proof -
  note a = finite_parts [OF assms(1,2)] and b = finite_parts [OF assms(3,4)]
  obtain g u v where m: "0 < g" "0 < u" "0 < v" "qr_q a = g * u" "qr_q b = g * v"
    "int128_gcd (qr_q a) (qr_q b) = g" "qr_q a sdiv g * qr_q b = u * (g * v)"
    "u * (g * v) sdiv qr_q a = v" "u * (g * v) sdiv qr_q b = u"
    by (rule midpoint_parts [OF a(1) b(1)])
  define num where "num = qr_p a * v + qr_p b * u"
  let ?l = "u * (g * v)"
  have l: "\<not> ?l > int128_max sdiv 2"
    using midpoint_range [OF assms(1-4)] unfolding Let_def m(6) m(7) by blast
  have mid: "midpoint a b = (if num smod 2 = 0 then make_rational (num sdiv 2) ?l
      else make_rational num (?l * 2))"
    using l by (simp only: midpoint_def Let_def m(6-9) num_def if_False)
  have xy: "x = of_int (qr_p a) / of_int (g * u)" "y = of_int (qr_p b) / of_int (g * v)"
    using assms(5,6) a(5) b(5) m(4,5) by auto
  have val: "(x + y) / 2 = of_int num / of_int (?l * 2)"
    using m(1-3) unfolding xy by (simp add: num_def field_simps)
  have "(x + y) / 2 = of_int (num sdiv 2) / of_int ?l" if "num smod 2 = 0"
  proof -
    have "2 dvd num" using that by (simp only: smod_eq_0_iff)
    then obtain k where "num = 2 * k" by (elim dvdE)
    then show ?thesis using val by (simp add: sdiv_dvd)
  qed
  moreover have "\<not> is_inf m" if "qr_val m = Fin ((x + y) / 2)"
    using that qr_val_Fin_iff by auto
  moreover have "?l \<noteq> 0" "?l * 2 \<noteq> 0" using m(1-3) by simp_all
  ultimately show ?thesis
    using val make_rational_Some(2,4) [of _ _ m] make_rational_complete [of m]
    unfolding mid by (metis (full_types))
qed

lemma add_int_iff:
  assumes "qr_valid a" "\<not> is_inf a" "qr_val a = Fin x"
  shows "add_int a b = Some m \<longleftrightarrow> qr_valid m \<and> qr_val m = Fin (x + of_int b)"
proof -
  note a = finite_parts [OF assms(1,2)]
  have "x = of_int (qr_p a) / of_int (qr_q a)" using a(5) assms(3) by simp
  then have val: "x + of_int b = of_int (qr_p a + b * qr_q a) / of_int (qr_q a)"
    using a(1) by (simp add: field_simps)
  have inf: "\<not> is_inf m" if "qr_val m = Fin (x + of_int b)" using that qr_val_Fin_iff by auto
  show ?thesis
    using val a(1) inf make_rational_Some(2,4) [of _ _ m] make_rational_complete [of m]
    unfolding add_int_def by (metis (full_types) order_less_irrefl)
qed

section \<open>The splitter\<close>

text \<open>Where the contract of \<^verbatim>\<open>qint_splitter\<close> cuts a first interval.\<close>

fun split_point :: "ext_rat \<Rightarrow> ext_rat \<Rightarrow> rat" where
  "split_point MInf (Fin h) = h - 1"
| "split_point (Fin l) PInf = l + 1"
| "split_point (Fin l) (Fin h) = (l + h) / 2"
| "split_point _ _ = 0"

definition representable :: "rat \<Rightarrow> bool" where
  "representable c \<longleftrightarrow> (\<exists>v. qr_valid v \<and> qr_val v = Fin c)"

lemma split_point_between: "l < h \<Longrightarrow> l < Fin (split_point l h) \<and> Fin (split_point l h) < h"
  by (cases "(l, h)" rule: split_point.cases) auto

lemma cut_choice:
  assumes "\<And>m. opt = Some m \<longleftrightarrow> qr_valid m \<and> qr_val m = Fin c" and "qr_valid hi"
  shows "\<exists>v. (case opt of None \<Rightarrow> \<lparr>intervals = [(lo, hi)]\<rparr> | Some c \<Rightarrow> \<lparr>intervals = [(lo, c)]\<rparr>) =
      \<lparr>intervals = [(lo, v)]\<rparr> \<and> qr_valid v \<and>
      qr_val v = (if representable c then Fin c else qr_val hi)"
proof (cases opt)
  case None
  then have "\<not> representable c" using assms(1) by (auto simp: representable_def)
  then show ?thesis using None assms(2) by auto
next
  case (Some v)
  with assms(1) [of v] have "qr_valid v" "qr_val v = Fin c" by auto
  moreover from this have "representable c" by (auto simp: representable_def)
  ultimately show ?thesis using Some by auto
qed

lemma splitter_first:
  assumes "qint_wf x" and "intervals x = (lo, hi) # m"
  defines "c \<equiv> split_point (qr_val lo) (qr_val hi)"
  shows "\<exists>v. qint_splitter x = \<lparr>intervals = [(lo, v)]\<rparr> \<and> qr_valid v \<and>
    qr_val v = (if representable c then Fin c else qr_val hi)"
proof -
  have v: "qr_valid lo" "qr_valid hi" and less: "qr_val lo < qr_val hi"
    using assms(1,2) by (auto simp: qint_wf_iff)
  have zero: "qr_valid (qr_int 0)" "qr_val (qr_int 0) = Fin 0"
    by (simp_all add: qr_int_def qr_valid_def qr_val_def fits_def)
  note inf = is_inf_val(3) [OF v(1)] is_inf_val(3) [OF v(2)]
  consider (both) "qr_val lo = MInf" "qr_val hi = PInf"
    | (low) h where "qr_val lo = MInf" "qr_val hi = Fin h"
    | (high) l where "qr_val lo = Fin l" "qr_val hi = PInf"
    | (none) l h where "qr_val lo = Fin l" "qr_val hi = Fin h"
    using less by (cases "qr_val lo"; cases "qr_val hi") auto
  then show ?thesis
  proof cases
    case both
    then have "representable c" using zero by (auto simp: c_def representable_def)
    then show ?thesis
      using both inf zero by (simp add: qint_splitter_def assms(2) c_def)
  next
    case low
    then show ?thesis
      using inf cut_choice [OF add_int_iff [OF v(2) _ low(2), where b = "- 1"] v(2), of lo]
      by (cases "representable c") (simp_all add: qint_splitter_def assms(2) c_def)
  next
    case high
    then show ?thesis
      using inf cut_choice [OF add_int_iff [OF v(1) _ high(1), where b = 1] v(2), of lo]
      by (cases "representable c") (simp_all add: qint_splitter_def assms(2) c_def)
  next
    case none
    then show ?thesis
      using inf cut_choice [OF midpoint_iff [OF v(1) _ v(2) _ none] v(2), of lo]
      by (cases "representable c") (simp_all add: qint_splitter_def assms(2) c_def)
  qed
qed

lemma qint_splitter_piece:
  assumes "qint_wf x" and "intervals x = (lo, hi) # m"
  shows "qint_wf (qint_splitter x) \<and>
    (let c = split_point (qr_val lo) (qr_val hi) in
     qint_den (qint_splitter x) =
       {r. qr_val lo \<le> r \<and> r < (if representable c then Fin c else qr_val hi)} \<and>
     {} \<subset> qint_den (qint_splitter x) \<and> qint_den (qint_splitter x) \<subseteq> qint_den x \<and>
     (representable c \<longrightarrow> qint_den (qint_splitter x) \<subset> qint_den x))"
proof -
  let ?c = "split_point (qr_val lo) (qr_val hi)"
  let ?h = "if representable ?c then Fin ?c else qr_val hi"
  have v: "qr_valid lo" "qr_valid hi" and less: "qr_val lo < qr_val hi"
    using assms(1,2) by (auto simp: qint_wf_iff)
  obtain w where s: "qint_splitter x = \<lparr>intervals = [(lo, w)]\<rparr>" "qr_valid w" "qr_val w = ?h"
    using splitter_first [OF assms] by blast
  note b = split_point_between [OF less]
  have h: "qr_val lo < ?h" "?h \<le> qr_val hi" using b less by auto
  have x: "qint_den x = {qr_val lo..<qr_val hi} \<union> cover (ends.em m)"
    by (simp add: qint_den_cover assms(2))
  have d: "qint_den (qint_splitter x) = {qr_val lo..<?h}"
    using s by (simp add: qint_den_cover)
  have "Fin ?c \<in> qint_den x" "Fin ?c \<notin> {qr_val lo..<Fin ?c}" unfolding x using b by auto
  then have "qint_den (qint_splitter x) \<noteq> qint_den x" if "representable ?c"
    using that d by auto
  moreover have "qint_den (qint_splitter x) \<subseteq> qint_den x" unfolding d x using h by auto
  moreover have "qr_val lo \<in> qint_den (qint_splitter x)" unfolding d using h by simp
  moreover have "qint_wf (qint_splitter x)" using s v h by (simp add: qint_wf_iff)
  ultimately show ?thesis using d by (auto simp: Let_def)
qed

section \<open>The container order\<close>

lemma map_less_lexorder:
  "ends.ok_list x \<Longrightarrow> ends.ok_list y \<Longrightarrow> map_less x y \<longleftrightarrow> ends.em x < ends.em y"
proof (induction x y rule: map_less.induct)
  case (4 a b x c d y)
  then show ?case
    by (auto simp: qr_less_val not_less_iff_gr_or_eq dest: qr_val_inject)
qed auto

lemma qint_cmp_lexorder:
  assumes "qint_wf x" "qint_wf y"
  shows "qint_cmp x y = (if ends.em (intervals x) = ends.em (intervals y) then 0
    else if ends.em (intervals x) < ends.em (intervals y) then - 1 else 1)"
  using assms map_less_lexorder ends.em_inj [of "intervals x" "intervals y"]
  by (auto simp: qint_cmp_def qint_eq_def qint_less_def qint_wf_iff)

section \<open>Numbers and literals\<close>

lemma parse_number_valid: "parse_number s = Some f \<Longrightarrow> fr_valid f"
  by (auto simp: parse_number_def Let_def reduce_Some parse_decimal_sound split: option.splits if_splits)

lemma parse_endpoint_valid:
  assumes "parse_endpoint s = Some v"
  shows "qr_valid v"
proof (cases "v = pos_inf \<or> v = neg_inf")
  case False
  with assms obtain f where "parse_number (trim s) = Some f" "v = \<lparr>qr_p = fr_p f, qr_q = fr_q f\<rparr>"
    by (auto simp: parse_endpoint_def Let_def split: if_splits option.splits)
  then show ?thesis using parse_number_valid by (auto simp: fr_valid_def qr_valid_def)
qed auto

text \<open>What a literal denotes; no rule applies to a malformed one.\<close>

inductive literal_denotes :: "qint_tree \<Rightarrow> ext_rat set \<Rightarrow> bool" where
  top: "literal_denotes QTop {r. r < PInf}"
| bot: "literal_denotes QBot {}"
| interval: "filter (\<lambda>e. e \<noteq> []) ep = e0 # e1 # es \<Longrightarrow> parse_endpoint e0 = Some lo \<Longrightarrow>
    parse_endpoint e1 = Some hi \<Longrightarrow> qr_val lo < qr_val hi \<Longrightarrow>
    literal_denotes (QInterval (ep # eps)) {r. qr_val lo \<le> r \<and> r < qr_val hi}"
| union: "literal_denotes (QInterval [ep]) A \<Longrightarrow> literal_denotes t B \<Longrightarrow>
    literal_denotes (QUnion ep t) (A \<union> B)"

inductive_cases literal_intervalE: "literal_denotes (QInterval eps) A"
inductive_cases literal_unionE: "literal_denotes (QUnion ep t) A"
inductive_simps literal_leaf: "literal_denotes QTop A" "literal_denotes QBot A" "literal_denotes QOther A"

lemma eval_interval_iff:
  "(\<exists>x. qint_eval_interval ep = Inr x \<and> qint_wf x \<and> qint_den x = A) \<longleftrightarrow>
     literal_denotes (QInterval (ep # eps)) A"
proof (cases "\<exists>e0 e1 es lo hi. filter (\<lambda>e. e \<noteq> []) ep = e0 # e1 # es \<and> parse_endpoint e0 = Some lo \<and>
    parse_endpoint e1 = Some hi \<and> qr_less lo hi")
  case True
  then obtain e0 e1 es lo hi where e: "filter (\<lambda>e. e \<noteq> []) ep = e0 # e1 # es"
    "parse_endpoint e0 = Some lo" "parse_endpoint e1 = Some hi" "qr_less lo hi" by blast
  then have v: "qr_valid lo" "qr_valid hi" "qr_val lo < qr_val hi"
    using parse_endpoint_valid by (auto simp: qr_less_val)
  have "qint_eval_interval ep = Inr \<lparr>intervals = [(lo, hi)]\<rparr>" using e by simp
  moreover have "literal_denotes (QInterval (ep # eps)) A \<longleftrightarrow> A = {r. qr_val lo \<le> r \<and> r < qr_val hi}"
    using e v by (auto elim!: literal_intervalE intro: literal_denotes.interval)
  ultimately show ?thesis
    using v e(4) by (auto simp: qint_wf_def qint_den_def)
next
  case False
  then have "\<not> literal_denotes (QInterval (ep # eps)) A"
    using parse_endpoint_valid by (auto elim!: literal_intervalE simp: qr_less_val)
  moreover have "qint_eval_interval ep \<noteq> Inr x" for x
    using False by (auto simp: Let_def split: list.splits option.splits)
  ultimately show ?thesis by blast
qed

lemma eval_interval_wf: "qint_eval_interval ep = Inr x \<Longrightarrow> qint_wf x"
  using parse_endpoint_valid
  by (auto simp: qint_wf_def Let_def split: list.splits option.splits if_splits)

lemma eval_parse_tree_wf: "qint_eval_parse_tree t = Inr x \<Longrightarrow> qint_wf x"
proof (induction t arbitrary: x rule: qint_eval_parse_tree.induct)
  case (4 l r)
  then show ?case
    using eval_interval_wf qint_or_refines
    by (auto simp: rbind_Inr_iff simp del: qint_eval_interval.simps)
qed (auto simp: eval_interval_wf simp del: qint_eval_interval.simps split: list.splits)

lemma eval_parse_tree_iff:
  "(\<exists>x. qint_eval_parse_tree t = Inr x \<and> qint_wf x \<and> qint_den x = A) \<longleftrightarrow> literal_denotes t A"
proof (induction t arbitrary: A rule: qint_eval_parse_tree.induct)
  case (3 eps)
  then show ?case using eval_interval_iff
    by (cases eps) (auto elim: literal_intervalE simp del: qint_eval_interval.simps)
next
  case (4 l r)
  show ?case
  proof
    assume "literal_denotes (QUnion l r) A"
    then obtain B C where A: "A = B \<union> C" "literal_denotes (QInterval [l]) B" "literal_denotes r C"
      by (rule literal_unionE)
    obtain x where "qint_eval_interval l = Inr x" "qint_wf x" "qint_den x = B"
      using A(2) eval_interval_iff [of l B "[]"] by blast
    moreover obtain y where "qint_eval_parse_tree r = Inr y" "qint_wf y" "qint_den y = C"
      using A(3) 4 by blast
    ultimately show "\<exists>x. qint_eval_parse_tree (QUnion l r) = Inr x \<and> qint_wf x \<and> qint_den x = A"
      using A(1) qint_or_refines by (simp del: qint_eval_interval.simps)
  next
    assume "\<exists>x. qint_eval_parse_tree (QUnion l r) = Inr x \<and> qint_wf x \<and> qint_den x = A"
    then obtain x y where xy: "qint_eval_interval l = Inr x" "qint_eval_parse_tree r = Inr y"
      "A = qint_den (qint_or x y)"
      by (auto simp: rbind_Inr_iff simp del: qint_eval_interval.simps)
    have "qint_wf x" "qint_wf y" using xy eval_interval_wf eval_parse_tree_wf by blast+
    then show "literal_denotes (QUnion l r) A"
      using xy 4 eval_interval_iff [of l _ "[]"] qint_or_refines by (auto intro: literal_denotes.union)
  qed
qed (auto simp: literal_leaf)



section \<open>Properties\<close>

text \<open>
  C2: the operators of a qint keep the representation invariant and are union, intersection,
  complement below \<open>PInf\<close> and symmetric difference of the sets they stand for.
\<close>

theorem qint_operations:
  assumes "qint_wf x" and "qint_wf y"
  shows "qint_wf (qint_or x y) \<and> qint_den (qint_or x y) = qint_den x \<union> qint_den y \<and>
    qint_wf (qint_and x y) \<and> qint_den (qint_and x y) = qint_den x \<inter> qint_den y \<and>
    qint_wf (qint_not x) \<and> qint_den (qint_not x) = {r. r < PInf} - qint_den x \<and>
    qint_wf (qint_xor x y) \<and>
    qint_den (qint_xor x y) = (qint_den x - qint_den y) \<union> (qint_den y - qint_den x)"
  by (simp add: qint_or_refines qint_and_refines qint_not_refines qint_xor_refines assms)

definition unit_interval :: qint where
  "unit_interval = \<lparr>intervals = [(qr_int 0, qr_int 1)]\<rparr>"

definition two_intervals :: qint where
  "two_intervals = \<lparr>intervals =
     [(neg_inf, \<lparr>qr_p = - 1, qr_q = 2\<rparr>), (\<lparr>qr_p = 1, qr_q = 2\<rparr>, qr_int 2)]\<rparr>"

lemma example_wf: "qint_wf unit_interval" "qint_wf two_intervals"
  by (simp_all add: qint_wf_def unit_interval_def two_intervals_def qr_valid_def qr_int_def fits_def
      neg_inf_def qr_less_def qr_cmp_def int_cmp_def is_inf_def)

theorem qint_operations_witness:
  "qint_den (qint_or unit_interval two_intervals) = qint_den unit_interval \<union> qint_den two_intervals \<and>
   qint_or unit_interval two_intervals =
     \<lparr>intervals = [(neg_inf, \<lparr>qr_p = - 1, qr_q = 2\<rparr>), (qr_int 0, qr_int 2)]\<rparr>"
proof -
  have "qint_or unit_interval two_intervals =
     \<lparr>intervals = [(neg_inf, \<lparr>qr_p = - 1, qr_q = 2\<rparr>), (qr_int 0, qr_int 2)]\<rparr>" by code_simp
  with qint_operations [OF example_wf] show ?thesis by simp
qed

text \<open>
  C3: the laws of a Boolean algebra hold of qints as equalities of representations, and
  \<^verbatim>\<open>x & ~y\<close> is bottom exactly when \<open>x\<close> is below \<open>y\<close>.
\<close>

theorem qint_boolean_laws:
  assumes "qint_wf x" and "qint_wf y" and "qint_wf z"
  shows "qint_and x y = qint_and y x \<and> qint_or x y = qint_or y x \<and>
    qint_and x (qint_and y z) = qint_and (qint_and x y) z \<and>
    qint_or x (qint_or y z) = qint_or (qint_or x y) z \<and>
    qint_and x (qint_or x y) = x \<and> qint_or x (qint_and x y) = x \<and>
    qint_and x (qint_or y z) = qint_or (qint_and x y) (qint_and x z) \<and>
    qint_or x (qint_and y z) = qint_and (qint_or x y) (qint_or x z) \<and>
    qint_and x (qint_not x) = qint_bottom \<and> qint_or x (qint_not x) = qint_top \<and>
    (qint_and x (qint_not y) = qint_bottom \<longleftrightarrow> qint_den x \<subseteq> qint_den y) \<and>
    (qint_xor x y = qint_bottom \<longleftrightarrow> x = y)"
  using qint_alg.laws [OF assms] qint_alg.below_iff [OF assms(1,2)]
    qint_alg.xor_zero_iff [OF assms(1,2)] by metis

theorem qint_boolean_laws_witness:
  "qint_and unit_interval (qint_or two_intervals qint_top) =
     qint_or (qint_and unit_interval two_intervals) (qint_and unit_interval qint_top)"
  using qint_boolean_laws [OF example_wf qint_wf_top] by blast

text \<open>
  Comparing representations decides equality of sets, and the tests for bottom and top are
  exact.
\<close>

theorem qint_equality:
  assumes "qint_wf x" and "qint_wf y"
  shows "(qint_eq x y \<longleftrightarrow> qint_den x = qint_den y) \<and>
    (qint_eq_bool x False \<longleftrightarrow> qint_den x = {}) \<and> (qint_eq_bool x True \<longleftrightarrow> qint_den x = {r. r < PInf})"
proof -
  have top: "is_full x \<longleftrightarrow> x = qint_top"
  proof
    assume "is_full x"
    then obtain lo hi where x: "intervals x = [(lo, hi)]" "is_neg_inf lo" "is_pos_inf hi"
      by (cases "intervals x"; cases "tl (intervals x)") (auto simp: is_full_def)
    with assms(1) have "lo = neg_inf" "hi = pos_inf"
      by (auto simp: qint_wf_def is_inf_val intro!: qr_val_inject)
    with x show "x = qint_top" by (simp add: qint_top_def)
  qed (simp add: is_full_def qint_top_def is_neg_inf_def is_pos_inf_def neg_inf_def pos_inf_def)
  have bot: "is_empty x \<longleftrightarrow> x = qint_bottom" by (cases x) (simp add: is_empty_def qint_bottom_def)
  have eq: "qint_eq x y \<longleftrightarrow> x = y" by (cases x; cases y) (simp add: qint_eq_def)
  show ?thesis
    using qint_den_inject assms unfolding eq by (auto simp: qint_eq_bool_def top bot)
qed

theorem qint_equality_witness: "qint_den unit_interval \<noteq> qint_den two_intervals"
proof -
  have "\<not> qint_eq unit_interval two_intervals" by code_simp
  with qint_equality [OF example_wf] show ?thesis by blast
qed

text \<open>
  C4: the three-way comparison of qints, which the containers of the program are ordered by, is
  a total order on well-formed elements consistent with equality of the sets.
\<close>

theorem qint_order:
  assumes "qint_wf x" and "qint_wf y" and "qint_wf z"
  shows "(qint_cmp x y = 0 \<longleftrightarrow> qint_den x = qint_den y) \<and> qint_cmp y x = - qint_cmp x y \<and>
    (qint_cmp x y < 0 \<longrightarrow> qint_cmp y z < 0 \<longrightarrow> qint_cmp x z < 0) \<and> (qint_less x y \<longleftrightarrow> qint_cmp x y < 0)"
proof -
  have "ends.em (intervals x) = ends.em (intervals y) \<longleftrightarrow> qint_den x = qint_den y"
    using qint_den_inject [OF assms(1,2)] by (auto simp: qint_den_cover)
  moreover have "qint_less x y \<longleftrightarrow> ends.em (intervals x) < ends.em (intervals y)"
    using assms map_less_lexorder by (simp add: qint_less_def qint_wf_iff)
  ultimately show ?thesis
    using qint_cmp_lexorder assms by (auto dest: order.strict_trans)
qed

theorem qint_order_witness:
  "qint_cmp two_intervals unit_interval = - 1 \<and> qint_cmp unit_interval two_intervals = 1"
proof -
  have "qint_cmp two_intervals unit_interval = - 1" by code_simp
  with qint_order [OF example_wf(2,1,1)] show ?thesis by simp
qed

text \<open>
  C5: the midpoint of two finite ends is exact and is refused exactly when no end can hold it;
  and the run of it in 128-bit arithmetic that stops at the first intermediate out of range, with
  no guard on the doubled denominator, never stops and gives the same answer: nothing overflows,
  and the guard of the code never decides.
\<close>

theorem midpoint_no_overflow:
  assumes "qr_valid a" "\<not> is_inf a" "qr_valid b" "\<not> is_inf b"
    and "qr_val a = Fin x" "qr_val b = Fin y"
  shows "midpoint_checked a b = Some (midpoint a b) \<and>
    (midpoint a b = Some m \<longleftrightarrow> qr_valid m \<and> qr_val m = Fin ((x + y) / 2)) \<and>
    (midpoint a b = None \<longleftrightarrow> \<not> representable ((x + y) / 2))"
proof -
  have "midpoint a b = None \<longleftrightarrow> (\<nexists>m. midpoint a b = Some m)" by simp
  then show ?thesis
    using midpoint_iff [OF assms] midpoint_checked_eq [OF assms(1-4)] by (auto simp: representable_def)
qed

theorem midpoint_no_overflow_witness:
  "midpoint (qr_int 0) \<lparr>qr_p = 1, qr_q = 3\<rparr> = Some \<lparr>qr_p = 1, qr_q = 6\<rparr> \<and>
   midpoint \<lparr>qr_p = 1, qr_q = 2 ^ 63 - 1\<rparr> \<lparr>qr_p = 1, qr_q = 2 ^ 63 - 2\<rparr> = None \<and>
   midpoint_checked \<lparr>qr_p = 1, qr_q = 2 ^ 63 - 1\<rparr> \<lparr>qr_p = 1, qr_q = 2 ^ 63 - 2\<rparr> = Some None"
proof -
  let ?a = "\<lparr>qr_p = 1, qr_q = 2 ^ 63 - 1\<rparr>" and ?b = "\<lparr>qr_p = 1, qr_q = 2 ^ 63 - 2\<rparr>"
    and ?c = "\<lparr>qr_p = 1, qr_q = 3\<rparr>" and ?m = "\<lparr>qr_p = 1, qr_q = 6\<rparr>"
  have v: "qr_valid ?a" "\<not> is_inf ?a" "qr_valid ?b" "\<not> is_inf ?b" "qr_valid ?c" "\<not> is_inf ?c"
    "qr_valid (qr_int 0)" "\<not> is_inf (qr_int 0)" "qr_valid ?m"
    by (simp_all add: qr_valid_def is_inf_def fits_def qr_int_def)
  have "midpoint ?a ?b = None" by code_simp
  then have 1: "midpoint_checked ?a ?b = Some None"
    using midpoint_no_overflow [OF v(1-4) finite_parts(5) [OF v(1,2)] finite_parts(5) [OF v(3,4)]] by simp
  have "qr_val (qr_int 0) = Fin 0" "qr_val ?c = Fin (1 / 3)" "qr_val ?m = Fin ((0 + 1 / 3) / 2)"
    by (simp_all add: qr_val_def qr_int_def)
  then have "midpoint (qr_int 0) ?c = Some ?m"
    using midpoint_no_overflow [OF v(7,8,5,6), of 0 "1 / 3" ?m] v(9) by blast
  with 1 \<open>midpoint ?a ?b = None\<close> show ?thesis by simp
qed

text \<open>
  C6: the splitter returns a nonempty piece of its argument, the part of the first interval
  below the split point, and the whole first interval exactly where no endpoint can hold the
  split point.
\<close>

theorem qint_splitter_contract:
  assumes "qint_wf x" and "intervals x = (lo, hi) # m"
  shows "qint_wf (qint_splitter x) \<and>
    (let c = split_point (qr_val lo) (qr_val hi) in
     qint_den (qint_splitter x) =
       {r. qr_val lo \<le> r \<and> r < (if representable c then Fin c else qr_val hi)} \<and>
     {} \<subset> qint_den (qint_splitter x) \<and> qint_den (qint_splitter x) \<subseteq> qint_den x \<and>
     (representable c \<longrightarrow> qint_den (qint_splitter x) \<subset> qint_den x))"
  using assms by (rule qint_splitter_piece)

theorem qint_splitter_contract_witness:
  "qint_splitter unit_interval = \<lparr>intervals = [(qr_int 0, \<lparr>qr_p = 1, qr_q = 2\<rparr>)]\<rparr> \<and>
   qint_den (qint_splitter unit_interval) \<subset> qint_den unit_interval"
proof -
  have iv: "intervals unit_interval = (qr_int 0, qr_int 1) # []" by (simp add: unit_interval_def)
  have "qr_valid \<lparr>qr_p = 1, qr_q = 2\<rparr>" by code_simp
  then have "representable (1 / 2)"
    by (auto simp: representable_def qr_val_def intro!: exI [of _ "\<lparr>qr_p = 1, qr_q = 2\<rparr>"])
  then have "representable (split_point (qr_val (qr_int 0)) (qr_val (qr_int 1)))"
    by (simp add: qr_val_def qr_int_def)
  then have "qint_den (qint_splitter unit_interval) \<subset> qint_den unit_interval"
    using qint_splitter_contract [OF example_wf(1) iv] unfolding Let_def by blast
  moreover have "qint_splitter unit_interval = \<lparr>intervals = [(qr_int 0, \<lparr>qr_p = 1, qr_q = 2\<rparr>)]\<rparr>"
    by code_simp
  ultimately show ?thesis by blast
qed

text \<open>
  C7: evaluating a literal succeeds exactly on well-formed literals, with a well-formed element
  that stands for the set the literal denotes; a missing, malformed or reversed end is an error.
\<close>

theorem qint_literal_value:
  "(qint_eval_parse_tree t = Inr x \<longrightarrow> qint_wf x \<and> literal_denotes t (qint_den x)) \<and>
   (literal_denotes t A \<longrightarrow> (\<exists>y. qint_eval_parse_tree t = Inr y \<and> qint_den y = A))"
  using eval_parse_tree_iff [of t] eval_parse_tree_wf by blast

theorem qint_literal_value_witness:
  "literal_denotes (QUnion [''0'', ''1''] (QInterval [[''0.5'', ''+inf'']]))
     (qint_den \<lparr>intervals = [(qr_int 0, pos_inf)]\<rparr>)"
proof -
  have "qint_eval_parse_tree (QUnion [''0'', ''1''] (QInterval [[''0.5'', ''+inf'']])) =
      Inr \<lparr>intervals = [(qr_int 0, pos_inf)]\<rparr>" by code_simp
  with qint_literal_value show ?thesis by blast
qed

end
