(* ===== verification/Qint_Text.thy ===== *)
theory Qint_Text imports Qint begin

text \<open>
  The texts of qint endpoints: what \<open>endpoint_to_string\<close> writes (an integer, a terminating
  decimal that the reader's caps let through, or a fraction) is read back as the same end.
\<close>

section \<open>Endpoints written and read back\<close>

lemma mag_digits_nat: "mag_digits m s = (if m \<le> 0 then s else nat_to_string (nat m) @ s)"
proof (induction m s rule: mag_digits.induct)
  case (1 m s)
  show ?case
  proof (cases "0 < m")
    case True
    have d: "m sdiv 10 = m div 10" "m smod 10 = m mod 10"
      using True by (simp_all add: signed_divide_int_def smod_mod_positive)
    show ?thesis
    proof (cases "m < 10")
      case True
      with 1 \<open>0 < m\<close> d show ?thesis
        by (simp add: mag_digits.simps [of m] nat_to_string.simps [of "nat m"])
    next
      case False
      with 1 \<open>0 < m\<close> d show ?thesis
        by (simp add: mag_digits.simps [of m] nat_to_string.simps [of "nat m"] nat_div_distrib
            nat_mod_distrib)
    qed
  qed (simp add: mag_digits.simps)
qed

lemma strip_factor_spec:
  assumes "1 < b" "d \<noteq> 0" "strip_factor b d n = (d', n')"
  shows "n \<le> n' \<and> d = d' * b ^ (n' - n) \<and> \<not> b dvd d' \<and> d' \<noteq> 0"
  using assms
proof (induction b d n rule: strip_factor.induct)
  case (1 b d n)
  show ?case
  proof (cases "b dvd d")
    case True
    then obtain k where k: "d = b * k" by (elim dvdE)
    with 1 True have s: "strip_factor b k (Suc n) = (d', n')" "k \<noteq> 0"
      by (auto simp: strip_factor.simps [of b "b * k" n] smod_eq_0_iff sdiv_dvd)
    have "Suc n \<le> n' \<and> k = d' * b ^ (n' - Suc n) \<and> \<not> b dvd d' \<and> d' \<noteq> 0"
      using "1.IH" 1(2-) True s k by (simp add: smod_eq_0_iff sdiv_dvd)
    then show ?thesis using k by (auto simp: Suc_diff_Suc power_Suc [symmetric] mult_ac simp del: power_Suc)
  next
    case False
    with 1 show ?thesis by (simp add: strip_factor.simps [of b d] smod_eq_0_iff)
  qed
qed

lemma scale_decimal_Some:
  "scale_decimal f k x = Some y \<Longrightarrow> y = x * f ^ k \<and> (0 < k \<longrightarrow> \<bar>y\<bar> \<le> max_decimal_mantissa)"
proof (induction k arbitrary: x)
  case (Suc k)
  then have "\<not> \<bar>x * f\<bar> > max_decimal_mantissa" "scale_decimal f k (x * f) = Some y"
    by (auto simp: Let_def int128_abs_def split: if_splits)
  with Suc.IH [of "x * f"] show ?case by (cases k) (auto simp: mult.assoc)
qed simp

lemma digits_value_zeros: "digits_value 0 (replicate k (CHR ''0'') @ ds) = digits_value 0 ds"
  by (induction k) (simp_all add: digit_val_def)

lemma dropWhile_hd_id: "xs = [] \<or> \<not> P (hd xs) \<Longrightarrow> dropWhile P xs = xs"
  by (cases xs) auto

lemma trim_id:
  "s \<noteq> [] \<Longrightarrow> \<not> blank (hd s) \<Longrightarrow> \<not> blank (last s) \<Longrightarrow> trim s = s"
  by (simp add: trim_def dropWhile_hd_id hd_rev)

lemma split_fraction_none: "CHR ''/'' \<notin> set t \<Longrightarrow> split_fraction t = None"
proof -
  assume "CHR ''/'' \<notin> set t"
  then have "dropWhile (\<lambda>c. c \<noteq> CHR ''/'') t = []" by (auto simp: dropWhile_eq_Nil_conv)
  then show ?thesis unfolding split_fraction_def by (simp only: list.case)
qed

text \<open>Signed plain digits: what an integer prints as, and what each part of a fraction is.\<close>

lemma int_to_string_split:
  "int_to_string v = (if v < 0 then ''-'' else []) @ nat_to_string (nat \<bar>v\<bar>)"
  by (simp add: int_to_string_def)

lemma int_to_string_chars:
  "c \<in> set (int_to_string v) \<Longrightarrow> c = CHR ''-'' \<or> is_digit c"
  by (auto simp: int_to_string_split dest: nat_to_string_digits split: if_splits)

lemma int_to_string_nonempty [simp]: "int_to_string v \<noteq> []"
  by (simp add: int_to_string_split)

lemma not_blank: "c = CHR ''-'' \<or> c = CHR ''/'' \<or> c = CHR ''.'' \<or> is_digit c \<Longrightarrow> \<not> blank c"
  by (auto simp: blank_def is_digit_iff)

lemma trim_unblank: "s \<noteq> [] \<Longrightarrow> (\<And>c. c \<in> set s \<Longrightarrow> \<not> blank c) \<Longrightarrow> trim s = s"
  by (simp add: trim_id)

lemma fits_mantissa: "fits v \<Longrightarrow> \<bar>v\<bar> \<le> max_decimal_mantissa"
  by (auto simp: fits_def max_decimal_mantissa_def)

lemma parse_decimal_int:
  assumes "fits v"
  shows "parse_decimal (int_to_string v) = Some \<lparr>fr_p = v, fr_q = 1\<rparr>"
proof -
  have "parse_decimal (int_to_string v)
      = finish_decimal (v < 0) (int (digits_value 0 (nat_to_string (nat \<bar>v\<bar>)))) 0"
    using parse_decimal_plain [of "nat_to_string (nat \<bar>v\<bar>)" "[]" "[]" "v < 0"]
      nat_to_string_digits fits_mantissa [OF assms]
    by (simp add: nat_to_string_value int_to_string_split)
  also have "\<dots> = Some \<lparr>fr_p = v, fr_q = 1\<rparr>"
    using finish_decimal_complete [of "\<lparr>fr_p = v, fr_q = 1\<rparr>" "v < 0" "\<bar>v\<bar>" 0] assms
    by (simp add: nat_to_string_value fr_valid_def fr_val_def fits_def split: if_splits)
  finally show ?thesis .
qed

lemma int_to_string_trim: "trim (int_to_string v) = int_to_string v"
  using int_to_string_chars not_blank by (intro trim_unblank) auto

lemma parse_number_fraction:
  assumes "fits p" "fits q" "q \<noteq> 0"
  shows "parse_number (int_to_string p @ ''/'' @ int_to_string q) = reduce p q"
proof -
  let ?t = "int_to_string p @ ''/'' @ int_to_string q"
  have no: "c \<noteq> CHR ''/''" if "c \<in> set (int_to_string v)" for c v
    using int_to_string_chars [OF that] is_digit_not_special by auto
  have "trim ?t = ?t"
    using int_to_string_chars not_blank by (intro trim_unblank) auto
  moreover have "split_fraction ?t = Some (int_to_string p, int_to_string q)"
    using takeWhile_append_stop [of "int_to_string p" "\<lambda>c. c \<noteq> CHR ''/''"]
      dropWhile_append_stop [of "int_to_string p" "\<lambda>c. c \<noteq> CHR ''/''"] no
    by (simp add: split_fraction_def int_to_string_trim)
  ultimately show ?thesis using assms by (simp add: parse_number_def parse_decimal_int)
qed


lemma parse_endpoint_number:
  assumes "t \<noteq> []" "\<And>c. c \<in> set t \<Longrightarrow> c = CHR ''-'' \<or> c = CHR ''/'' \<or> c = CHR ''.'' \<or> is_digit c"
    and "parse_number t = Some f"
  shows "parse_endpoint t = Some \<lparr>qr_p = fr_p f, qr_q = fr_q f\<rparr>"
proof -
  have "trim t = t" using assms(1,2) not_blank by (intro trim_unblank) auto
  moreover have "CHR ''i'' \<notin> set t" using assms(2) [of "CHR ''i''"] by (auto simp: is_digit_iff)
  ultimately show ?thesis using assms(1,3) by (auto simp: parse_endpoint_def)
qed

lemma nat_to_string_last: "last (nat_to_string n) = digit_char (n mod 10)"
  by (subst nat_to_string.simps) simp

lemma digit_char_zero: "digit_char d = CHR ''0'' \<Longrightarrow> d < 10 \<Longrightarrow> d = 0"
proof -
  assume "digit_char d = CHR ''0''" "d < 10"
  then have "digit_val (digit_char d) = 0" by (simp add: digit_val_def)
  then show ?thesis using \<open>d < 10\<close> by simp
qed

lemma place_decimal_point_split:
  fixes ds D neg
  defines "pad \<equiv> (if length ds \<le> D then replicate (D + 1 - length ds) (CHR ''0'') @ ds else ds)"
  shows "place_decimal_point ds D neg = (if neg then ''-'' else []) @ take (length pad - D) pad @ ''.'' @
      drop (length pad - D) pad" "D < length pad" "digits_value 0 pad = digits_value 0 ds"
    "ds \<noteq> [] \<Longrightarrow> last pad = last ds" "set pad \<subseteq> insert (CHR ''0'') (set ds)"
  by (auto simp: place_decimal_point_def pad_def Let_def digits_value_zeros)

lemma decimal_fraction:
  assumes "D = max t u"
  shows "of_int p / of_int (2 ^ t * 5 ^ u) =
    (of_int (p * 2 ^ (D - t) * 5 ^ (D - u)) / 10 ^ D :: rat)"
proof -
  have "(10::rat) ^ D = 2 ^ D * 5 ^ D" by (simp flip: power_mult_distrib)
  moreover have "(2::rat) ^ D = 2 ^ t * 2 ^ (D - t)" "(5::rat) ^ D = 5 ^ u * 5 ^ (D - u)"
    using assms by (simp_all flip: power_add)
  ultimately show ?thesis by (simp add: field_simps)
qed

text \<open>The digits written never end in a zero, because the fraction is reduced.\<close>

lemma scaled_not_ten:
  assumes "coprime p (2 ^ t * 5 ^ u)" "D = max t u" "0 < D"
  shows "\<not> (10::int) dvd p * 2 ^ (D - t) * 5 ^ (D - u)"
proof
  assume d: "10 dvd p * 2 ^ (D - t) * 5 ^ (D - u)"
  show False
  proof (cases "u \<le> t")
    case True
    with assms have "D = t" "coprime p 2" by (auto simp: coprime_mult_right_iff)
    then have "odd p" using coprime_common_divisor [of p 2 2] by auto
    moreover have "even (p * 2 ^ (D - t) * 5 ^ (D - u))" using d by (rule dvd_trans [rotated]) simp
    ultimately show False using \<open>D = t\<close> by simp
  next
    case False
    with assms have "D = u" "coprime p 5" by (auto simp: coprime_mult_right_iff)
    moreover have "coprime (2 :: int) 5" by (rule coprime_5) simp
    ultimately have "coprime (p * 2 ^ (D - t) * 5 ^ (D - u)) 5" by simp
    moreover have "5 dvd p * 2 ^ (D - t) * 5 ^ (D - u)" using d by (rule dvd_trans [rotated]) simp
    ultimately have "is_unit (5::int)" by (rule coprime_common_divisor) simp
    then show False by simp
  qed
qed

lemma parse_number_decimal:
  assumes v: "fr_valid \<lparr>fr_p = p, fr_q = 2 ^ t * 5 ^ u\<rparr>" and D: "D = max t u" "0 < D"
    and s: "s = p * 2 ^ (D - t) * 5 ^ (D - u)" "\<bar>s\<bar> \<le> max_decimal_mantissa" "s \<noteq> 0"
  defines "dt \<equiv> place_decimal_point (nat_to_string (nat \<bar>s\<bar>)) D (s < 0)"
  shows "parse_number dt = Some \<lparr>fr_p = p, fr_q = 2 ^ t * 5 ^ u\<rparr>"
    and "dt \<noteq> []" and "c \<in> set dt \<Longrightarrow> c = CHR ''-'' \<or> c = CHR ''/'' \<or> c = CHR ''.'' \<or> is_digit c"
proof -
  let ?ds = "nat_to_string (nat \<bar>s\<bar>)"
  define pad where "pad = (if length ?ds \<le> D then replicate (D + 1 - length ?ds) (CHR ''0'') @ ?ds else ?ds)"
  note pl = place_decimal_point_split [where ds = ?ds and D = D, folded pad_def]
  let ?k = "length pad - D"
  have chars: "\<And>c. c \<in> set pad \<Longrightarrow> is_digit c"
    using pl(5) nat_to_string_digits by (auto simp: is_digit_def)
  have dt: "dt = (if s < 0 then ''-'' else []) @ take ?k pad @ ''.'' @ drop ?k pad"
    unfolding dt_def by (simp add: pl(1))
  have app: "take ?k pad @ drop ?k pad = pad" by simp
  show ne: "dt \<noteq> []" by (simp add: dt)
  show ch: "c = CHR ''-'' \<or> c = CHR ''/'' \<or> c = CHR ''.'' \<or> is_digit c" if "c \<in> set dt" for c
    using that chars by (auto simp: dt dest: in_set_takeD in_set_dropD split: if_splits)
  have last: "last (drop ?k pad) \<noteq> CHR ''0''"
  proof
    assume a: "last (drop ?k pad) = CHR ''0''"
    have "drop ?k pad \<noteq> []" using D(2) pl(2) by simp
    then have "last (drop ?k pad) = digit_char (nat \<bar>s\<bar> mod 10)"
      using pl(4) nat_to_string_last by (simp add: last_drop)
    with a have "nat \<bar>s\<bar> mod 10 = 0" by (simp add: digit_char_zero)
    then have "10 dvd \<bar>s\<bar>" by (metis abs_ge_zero dvd_eq_mod_eq_0 nat_dvd_iff int_dvd_int_iff of_nat_numeral int_nat_eq)
    then show False using scaled_not_ten [of p t u D] v D s(1) by (simp add: fr_valid_def)
  qed
  have "\<forall>d\<in>set (take ?k pad @ drop ?k pad). is_digit d" using chars app by simp
  moreover have "take ?k pad \<noteq> []" "drop ?k pad \<noteq> []" "length (drop ?k pad) = D"
    using D(2) pl(2) by auto
  moreover have "int (digits_value 0 (take ?k pad @ drop ?k pad)) = \<bar>s\<bar>"
    using app pl(3) nat_to_string_value by simp
  ultimately have "parse_decimal dt = finish_decimal (s < 0) \<bar>s\<bar> (- int D)"
    unfolding dt using parse_decimal_plain [of "take ?k pad" "drop ?k pad" "''.''" "s < 0"]
      last s(2) by (simp only:) blast
  also have "\<dots> = Some \<lparr>fr_p = p, fr_q = 2 ^ t * 5 ^ u\<rparr>"
    using finish_decimal_complete [OF v, of "s < 0" "\<bar>s\<bar>" D] decimal_fraction [OF D(1), of p] s(1)
    by (simp add: fr_val_def)
  finally have "parse_decimal dt = Some \<lparr>fr_p = p, fr_q = 2 ^ t * 5 ^ u\<rparr>" .
  moreover have "trim dt = dt" using ne ch not_blank by (intro trim_unblank) auto
  moreover have "CHR ''/'' \<notin> set dt"
    using chars is_digit_not_special [of "CHR ''/''"]
    by (auto simp: dt dest!: in_set_takeD in_set_dropD split: if_splits)
  ultimately show "parse_number dt = Some \<lparr>fr_p = p, fr_q = 2 ^ t * 5 ^ u\<rparr>"
    by (simp add: parse_number_def split_fraction_none)
qed


lemma scale_decimal_range:
  assumes "Option.bind (scale_decimal 2 i p) (scale_decimal 5 j) = Some s" and "fits p"
  shows "s = p * 2 ^ i * 5 ^ j" and "\<bar>s\<bar> \<le> max_decimal_mantissa"
proof -
  from assms(1) obtain m where m: "scale_decimal 2 i p = Some m" "scale_decimal 5 j m = Some s"
    by (auto simp: bind_Some_iff)
  note s = scale_decimal_Some [OF m(1)] scale_decimal_Some [OF m(2)]
  show "s = p * 2 ^ i * 5 ^ j" using s by simp
  show "\<bar>s\<bar> \<le> max_decimal_mantissa"
    using s fits_mantissa [OF assms(2)] by (cases "j = 0"; cases "i = 0") auto
qed

lemma endpoint_written:
  assumes v: "qr_valid v" and fin: "\<not> is_inf v"
  defines "f \<equiv> \<lparr>fr_p = qr_p v, fr_q = qr_q v\<rparr>" and "s \<equiv> endpoint_to_string v"
  shows "s \<noteq> [] \<and> (\<forall>c \<in> set s. c = CHR ''-'' \<or> c = CHR ''/'' \<or> c = CHR ''.'' \<or> is_digit c) \<and>
    parse_number s = Some f"
proof -
  note fp = finite_parts [OF v fin]
  have fits: "fits (qr_q v)" using fp by (simp add: fits_def)
  have f: "fr_valid f" using v fin by (simp add: f_def qr_valid_fr)
  have chars: "\<And>c w. c \<in> set (int_to_string w) \<Longrightarrow> c = CHR ''-'' \<or> c = CHR ''/'' \<or> c = CHR ''.'' \<or> is_digit c"
    using int_to_string_chars by blast
  have red: "reduce (qr_p v) (qr_q v) = Some f"
    using f fp(1) by (intro reduce_complete) (simp_all add: f_def fr_val_def)
  have frac: ?thesis if "s = int_to_string (qr_p v) @ ''/'' @ int_to_string (qr_q v)"
    using that red parse_number_fraction [OF fp(2) fits] fp(1) chars by auto
  obtain d t where st: "strip_factor 2 (qr_q v) 0 = (d, t)" by fastforce
  obtain e u where su: "strip_factor 5 d 0 = (e, u)" by fastforce
  have d: "qr_q v = d * 2 ^ t" "d \<noteq> 0" "d = e * 5 ^ u"
    using strip_factor_spec [OF _ _ st] fp(1) strip_factor_spec [OF _ _ su] by auto
  let ?D = "max t u"
  let ?b = "Option.bind (scale_decimal 2 (?D - t) (qr_p v)) (scale_decimal 5 (?D - u))"
  have s: "s = (if qr_q v = 1 then int_to_string (qr_p v)
      else if e \<noteq> 1 then int_to_string (qr_p v) @ ''/'' @ int_to_string (qr_q v)
      else case ?b of None \<Rightarrow> int_to_string (qr_p v) @ ''/'' @ int_to_string (qr_q v)
        | Some w \<Rightarrow> place_decimal_point (mag_digits (int128_abs w) []) ?D (w < 0))"
    unfolding s_def endpoint_to_string_def using fin by (simp only: if_False st su Let_def case_prod_conv)
  consider (int) "qr_q v = 1" | (frac) "qr_q v \<noteq> 1" "e \<noteq> 1 \<or> ?b = None"
    | (dec) w where "qr_q v \<noteq> 1" "e = 1" "?b = Some w" by (cases ?b) auto
  then show ?thesis
  proof cases
    case int
    have "CHR ''/'' \<notin> set (int_to_string (qr_p v))"
      using int_to_string_chars [of "CHR ''/''" "qr_p v"] is_digit_not_special by auto
    then have "parse_number (int_to_string (qr_p v)) = Some f"
      using int parse_decimal_int [OF fp(2)]
      by (simp add: parse_number_def int_to_string_trim split_fraction_none f_def)
    then show ?thesis using int s chars by simp
  next
    case frac
    then show ?thesis using s \<open>s = _ \<Longrightarrow> ?thesis\<close> by auto
  next
    case dec
    then have q: "qr_q v = 2 ^ t * 5 ^ u" using d by simp
    note w = scale_decimal_range [OF dec(3) fp(2)]
    have D: "0 < ?D" using q dec(1) by (cases "t = 0"; cases "u = 0") auto
    have "qr_p v \<noteq> 0" using fp(1,4) dec(1) by auto
    then have w0: "w \<noteq> 0" using w(1) by simp
    have "mag_digits (int128_abs w) [] = nat_to_string (nat \<bar>w\<bar>)"
      using w0 by (simp add: mag_digits_nat int128_abs_def abs_if)
    then have sw: "s = place_decimal_point (nat_to_string (nat \<bar>w\<bar>)) ?D (w < 0)" using s dec by simp
    note n = parse_number_decimal [OF f [unfolded f_def q] refl D w w0]
    show ?thesis unfolding sw f_def q using n(1,2) n(3) by (intro conjI ballI)
  qed
qed

text \<open>C8: an endpoint is read back from the text it is displayed as.\<close>

theorem endpoint_roundtrip:
  assumes "qr_valid v"
  shows "parse_endpoint (endpoint_to_string v) = Some v"
proof (cases "is_inf v")
  case True
  then have "v = pos_inf \<or> v = neg_inf" using assms by (auto simp: qr_valid_def is_inf_def)
  moreover have "parse_endpoint ''+inf'' = Some pos_inf" "parse_endpoint ''-inf'' = Some neg_inf"
    by code_simp+
  ultimately show ?thesis
    by (auto simp: endpoint_to_string_def is_inf_def pos_inf_def neg_inf_def)
next
  case False
  note e = endpoint_written [OF assms False]
  then show ?thesis using parse_endpoint_number [OF _ _ conjunct2 [OF conjunct2 [OF e]]] by simp
qed

theorem endpoint_roundtrip_witness:
  "endpoint_to_string \<lparr>qr_p = - 7, qr_q = 40\<rparr> = ''-0.175'' \<and>
   parse_endpoint ''-0.175'' = Some \<lparr>qr_p = - 7, qr_q = 40\<rparr>"
proof -
  have "endpoint_to_string \<lparr>qr_p = - 7, qr_q = 40\<rparr> = ''-0.175''" by code_simp
  moreover have "qr_valid \<lparr>qr_p = - 7, qr_q = 40\<rparr>" by code_simp
  note endpoint_roundtrip [OF this]
  ultimately show ?thesis by simp
qed

end
