(* ===== verification/Union_Find.thy ===== *)
theory Union_Find imports Tau_Prelude begin

text \<open>
  \<^verbatim>\<open>src/union_find.h\<close>: disjoint sets over a parent map, with path compression, and its three
  merge policies (by rank, by a comparator, scope-aware). A \<^verbatim>\<open>std::map\<close> is a HOL map: the
  key equivalence of its comparator is taken to be equality, as \<^verbatim>\<open>std::less\<close> has it. The
  recursion of \<open>root\<close> ends only on acyclic parent maps, so it is a partial function, and that
  it returns is proved under the invariant. The abstract model is an equivalence: two elements
  are together when their chains of parents end in the same root.
\<close>

section \<open>The parent map\<close>

definition uf_insert :: "('a \<rightharpoonup> 'a) \<Rightarrow> 'a \<Rightarrow> 'a \<times> ('a \<rightharpoonup> 'a)" where
  "uf_insert m x = (if m x \<noteq> None then (x, m) else (x, m(x \<mapsto> x)))"

partial_function (option) uf_root :: "('a \<rightharpoonup> 'a) \<Rightarrow> 'a \<Rightarrow> ('a \<times> ('a \<rightharpoonup> 'a)) option" where
  "uf_root m x =
     (case m x of
        None \<Rightarrow> Some (x, snd (uf_insert m x))
      | Some p \<Rightarrow>
          if p \<noteq> x then
            Option.bind (uf_root m p) (\<lambda>(r, m'). Some (r, m'(x \<mapsto> r)))
          else Some (p, m))"

declare uf_root.simps [code]

definition uf_connected :: "('a \<rightharpoonup> 'a) \<Rightarrow> 'a \<Rightarrow> 'a \<Rightarrow> (bool \<times> ('a \<rightharpoonup> 'a)) option" where
  "uf_connected m x y =
     do { (rx, m) \<leftarrow> uf_root m x; (ry, m) \<leftarrow> uf_root m y; Some (rx = ry, m) }"

section \<open>Union by rank\<close>

record 'a uf_by_rank =
  rk_map :: "'a \<rightharpoonup> 'a"
  rk_rank :: "'a \<rightharpoonup> nat"

definition rank_of :: "('a \<rightharpoonup> nat) \<Rightarrow> 'a \<Rightarrow> nat" where
  "rank_of rank r = (case rank r of Some n \<Rightarrow> n | None \<Rightarrow> 0)"

definition rank_merge :: "'a uf_by_rank \<Rightarrow> 'a \<Rightarrow> 'a \<Rightarrow> ('a \<times> 'a uf_by_rank) option" where
  "rank_merge s x y =
     do {
       (root_x, m) \<leftarrow> uf_root (rk_map s) x;
       (root_y, m) \<leftarrow> uf_root m y;
       let rank_x = rank_of (rk_rank s) root_x;
           rank_y = rank_of (rk_rank s) root_y
       in if root_x = root_y then Some (root_x, s\<lparr>rk_map := m\<rparr>)
          else if rank_x < rank_y then Some (root_y, s\<lparr>rk_map := m(root_x \<mapsto> root_y)\<rparr>)
          else if rank_x > rank_y then Some (root_x, s\<lparr>rk_map := m(root_y \<mapsto> root_x)\<rparr>)
          else Some (root_x, s\<lparr>rk_map := m(root_y \<mapsto> root_x),
                               rk_rank := (rk_rank s)(root_x \<mapsto> rank_x + 1)\<rparr>)
     }"

section \<open>Union by a comparator\<close>

definition less_merge ::
  "('a \<Rightarrow> 'a \<Rightarrow> bool) \<Rightarrow> ('a \<rightharpoonup> 'a) \<Rightarrow> 'a \<Rightarrow> 'a \<Rightarrow> ('a \<times> ('a \<rightharpoonup> 'a)) option" where
  "less_merge lt m x y =
     do {
       (root_x, m) \<leftarrow> uf_root m x;
       (root_y, m) \<leftarrow> uf_root m y;
       if root_x = root_y then Some (root_x, m)
       else if lt root_x root_y then Some (root_x, m(root_y \<mapsto> root_x))
       else if lt root_y root_x then Some (root_y, m(root_x \<mapsto> root_y))
       else Some (root_y, m(root_x \<mapsto> root_y))
     }"

section \<open>Chains of parents\<close>

inductive rep_of :: "('a \<rightharpoonup> 'a) \<Rightarrow> 'a \<Rightarrow> 'a \<Rightarrow> bool" for m where
  root: "m r = Some r \<Longrightarrow> rep_of m r r"
| step: "m x = Some p \<Longrightarrow> p \<noteq> x \<Longrightarrow> rep_of m p r \<Longrightarrow> rep_of m x r"

definition together :: "('a \<rightharpoonup> 'a) \<Rightarrow> 'a \<Rightarrow> 'a \<Rightarrow> bool" where
  "together m x y \<longleftrightarrow> (\<exists>r. rep_of m x r \<and> rep_of m y r)"

text \<open>Every parent is an element, and every step to a proper parent decreases \<open>h\<close>.\<close>

definition descends :: "('a \<Rightarrow> nat) \<Rightarrow> ('a \<rightharpoonup> 'a) \<Rightarrow> bool" where
  "descends h m \<longleftrightarrow> (\<forall>x p. m x = Some p \<longrightarrow> p \<in> dom m \<and> (p \<noteq> x \<longrightarrow> h p < h x))"

definition uf_wf :: "('a \<rightharpoonup> 'a) \<Rightarrow> bool" where
  "uf_wf m \<longleftrightarrow> (\<exists>h. descends h m)"

lemma descendsD:
  "descends h m \<Longrightarrow> m x = Some p \<Longrightarrow> p \<in> dom m"
  "descends h m \<Longrightarrow> m x = Some p \<Longrightarrow> p \<noteq> x \<Longrightarrow> h p < h x"
  by (auto simp: descends_def)

lemma rep_of_root: "rep_of m x r \<Longrightarrow> m r = Some r"
  by (induction rule: rep_of.induct)

lemma rep_of_dom: "rep_of m x r \<Longrightarrow> x \<in> dom m \<and> r \<in> dom m"
  by (induction rule: rep_of.induct) auto

lemma rep_of_unique: "rep_of m x r \<Longrightarrow> rep_of m x s \<Longrightarrow> r = s"
proof (induction arbitrary: s rule: rep_of.induct)
  case (root r)
  from root(2,1) show ?case by (cases rule: rep_of.cases) auto
next
  case (step x p r)
  from step.prems have "rep_of m p s"
  proof (cases rule: rep_of.cases)
    case root
    then show ?thesis using step.hyps by simp
  next
    case (step q)
    then show ?thesis using \<open>m x = Some p\<close> by simp
  qed
  then show ?case by (rule step.IH)
qed

lemma rep_of_step: "m x = Some p \<Longrightarrow> rep_of m x r \<longleftrightarrow> rep_of m p r"
proof (cases "p = x")
  case False
  assume p: "m x = Some p"
  show ?thesis
  proof
    assume "rep_of m x r"
    then show "rep_of m p r" using p False by (cases rule: rep_of.cases) auto
  next
    assume "rep_of m p r"
    with p False show "rep_of m x r" by (rule rep_of.step)
  qed
qed simp

lemma rep_of_exists: "descends h m \<Longrightarrow> x \<in> dom m \<Longrightarrow> \<exists>r. rep_of m x r"
proof (induction "h x" arbitrary: x rule: less_induct)
  case less
  then obtain p where p: "m x = Some p" by auto
  show ?case
  proof (cases "p = x")
    case True
    with p show ?thesis using rep_of.root by metis
  next
    case False
    with less p have "\<exists>r. rep_of m p r" by (metis descendsD)
    with p show ?thesis using rep_of_step by metis
  qed
qed

lemma rep_of_descends: "rep_of m x r \<Longrightarrow> descends h m \<Longrightarrow> r = x \<or> h r < h x"
proof (induction rule: rep_of.induct)
  case (step x p r)
  then show ?case using descendsD(2) [of h m x p] by auto
qed simp

text \<open>Compressing a path, and linking one root below another.\<close>

lemma rep_of_compress:
  assumes "rep_of m x r"
  shows "rep_of (m(x \<mapsto> r)) y s \<longleftrightarrow> rep_of m y s"
proof
  have r: "m r = Some r" using assms by (rule rep_of_root)
  show "rep_of m y s" if "rep_of (m(x \<mapsto> r)) y s"
    using that
  proof (induction rule: rep_of.induct)
    case (root s)
    then show ?case using assms r by (auto intro: rep_of.root split: if_splits)
  next
    case (step y p s)
    show ?case
    proof (cases "y = x")
      case True
      with step have "p = r" by simp
      with step.IH r have "s = r" using rep_of_unique rep_of.root by metis
      with True assms show ?thesis by simp
    next
      case False
      with step show ?thesis by (auto intro: rep_of.step)
    qed
  qed
  show "rep_of (m(x \<mapsto> r)) y s" if "rep_of m y s"
    using that
  proof (induction rule: rep_of.induct)
    case (root s)
    have "x = s \<Longrightarrow> r = s" using assms root rep_of_unique rep_of.root by metis
    then show ?case using root by (auto intro!: rep_of.root)
  next
    case (step y p s)
    show ?case
    proof (cases "y = x")
      case True
      then have "s = r" using step rep_of_unique [OF assms] rep_of.step by metis
      have "rep_of (m(x \<mapsto> r)) r r" using r by (intro rep_of.root) simp
      then show ?thesis using True \<open>s = r\<close> rep_of_step [of "m(x \<mapsto> r)" x r r] by (metis fun_upd_same)
    next
      case False
      with step show ?thesis by (intro rep_of.step [of _ y p]) auto
    qed
  qed
qed

lemma descends_compress:
  assumes "descends h m" "rep_of m x r"
  shows "descends h (m(x \<mapsto> r))"
  unfolding descends_def
proof (intro allI impI)
  fix y p assume "(m(x \<mapsto> r)) y = Some p"
  then show "p \<in> dom (m(x \<mapsto> r)) \<and> (p \<noteq> y \<longrightarrow> h p < h y)"
    using assms rep_of_dom [OF assms(2)] rep_of_descends [OF assms(2,1)] descendsD [OF assms(1)]
    by (cases "y = x") auto
qed

definition linked :: "'a \<Rightarrow> 'a \<Rightarrow> 'a \<Rightarrow> 'a" where
  "linked a b s = (if s = a then b else s)"

lemma rep_of_link:
  assumes "m a = Some a" "m b = Some b" "a \<noteq> b"
  shows "rep_of (m(a \<mapsto> b)) y r \<longleftrightarrow> (\<exists>s. rep_of m y s \<and> r = linked a b s)"
proof
  show "\<exists>s. rep_of m y s \<and> r = linked a b s" if "rep_of (m(a \<mapsto> b)) y r"
    using that
  proof (induction rule: rep_of.induct)
    case (root r)
    then show ?case using assms by (auto simp: linked_def intro!: exI [of _ r] rep_of.root split: if_splits)
  next
    case (step y p r)
    show ?case
    proof (cases "y = a")
      case True
      with step have "p = b" by simp
      with step.IH assms(2) have "r = linked a b b" using rep_of_unique rep_of.root by metis
      with True assms show ?thesis by (auto simp: linked_def intro!: exI [of _ a] rep_of.root)
    next
      case False
      with step show ?thesis using rep_of_step [of m y p] by auto
    qed
  qed
  have b: "rep_of (m(a \<mapsto> b)) b b" using assms by (intro rep_of.root) simp
  have "rep_of (m(a \<mapsto> b)) y (linked a b s)" if "rep_of m y s" for s
    using that
  proof (induction rule: rep_of.induct)
    case (root s)
    show ?case
    proof (cases "s = a")
      case True
      then show ?thesis using b rep_of_step [of "m(a \<mapsto> b)" a b b] by (simp add: linked_def del: fun_upd_apply)
         (metis fun_upd_same)
    next
      case False
      then have "(m(a \<mapsto> b)) s = Some s" using root by simp
      then show ?thesis using False by (simp add: linked_def rep_of.root del: fun_upd_apply)
    qed
  next
    case (step y p s)
    then have "y \<noteq> a" using assms by auto
    then show ?case using step.IH rep_of_step [of "m(a \<mapsto> b)" y p] \<open>m y = Some p\<close>
      by (metis fun_upd_other)
  qed
  then show "rep_of (m(a \<mapsto> b)) y r" if "\<exists>s. rep_of m y s \<and> r = linked a b s" using that by blast
qed

lemma uf_wf_link:
  assumes "uf_wf m" "m a = Some a" "m b = Some b" "a \<noteq> b"
  shows "uf_wf (m(a \<mapsto> b))"
proof -
  obtain h where h: "descends h m" using assms(1) by (auto simp: uf_wf_def)
  let ?h = "\<lambda>x. if rep_of m x a then Suc (h x + h b) else h x"
  have "descends ?h (m(a \<mapsto> b))"
    unfolding descends_def
  proof (intro allI impI)
    fix x p assume p: "(m(a \<mapsto> b)) x = Some p"
    have "\<not> rep_of m b a" "rep_of m a a"
      using assms rep_of.root rep_of_unique by metis+
    then show "p \<in> dom (m(a \<mapsto> b)) \<and> (p \<noteq> x \<longrightarrow> ?h p < ?h x)"
      using p assms descendsD [OF h] rep_of_step [of m x p]
      by (cases "x = a") auto
  qed
  then show ?thesis by (auto simp: uf_wf_def)
qed

section \<open>Insertion and root\<close>

lemma uf_insert_simps [simp]:
  "fst (uf_insert m x) = x" "dom (snd (uf_insert m x)) = insert x (dom m)"
  by (auto simp: uf_insert_def)

lemma uf_insert_descends: "descends h m \<Longrightarrow> descends h (snd (uf_insert m x))"
  by (auto simp: uf_insert_def descends_def)

lemma uf_insert_wf: "uf_wf m \<Longrightarrow> uf_wf (snd (uf_insert m x))"
  unfolding uf_wf_def by (elim exE) (rule exI, erule uf_insert_descends)

lemma uf_insert_rep:
  assumes "uf_wf m"
  shows "rep_of (snd (uf_insert m x)) y r \<longleftrightarrow> rep_of m y r \<or> (x \<notin> dom m \<and> y = x \<and> r = x)"
proof (cases "x \<in> dom m")
  case False
  obtain h where h: "descends h m" using assms by (auto simp: uf_wf_def)
  let ?m = "m(x \<mapsto> x)"
  have "rep_of m y r \<or> (y = x \<and> r = x)" if "rep_of ?m y r"
    using that
  proof (induction rule: rep_of.induct)
    case (step y p r)
    then have "m y = Some p" "p \<noteq> x" using False descendsD(1) [OF h] by (auto split: if_splits)
    with step show ?case by (auto intro: rep_of.step)
  qed (auto intro: rep_of.root split: if_splits)
  moreover have "rep_of ?m y r" if "rep_of m y r"
    using that
  proof (induction rule: rep_of.induct)
    case (root s)
    then show ?case using False by (intro rep_of.root) auto
  next
    case (step y p s)
    then show ?case using False by (intro rep_of.step [of _ y p]) auto
  qed
  moreover have "rep_of ?m x x" by (intro rep_of.root) simp
  ultimately show ?thesis using False by (auto simp: uf_insert_def)
qed (auto simp: uf_insert_def)

text \<open>
  What a search for the root of \<open>x\<close> leaves behind, starting from the map \<open>m0\<close> that holds
  \<open>x\<close>: the end of the chain is returned, and parents change only to the end of their chain.
\<close>

definition root_found :: "('a \<Rightarrow> nat) \<Rightarrow> ('a \<rightharpoonup> 'a) \<Rightarrow> 'a \<Rightarrow> 'a \<Rightarrow> ('a \<rightharpoonup> 'a) \<Rightarrow> bool" where
  "root_found h m0 x r m' \<longleftrightarrow> rep_of m0 x r \<and> descends h m' \<and> dom m' = dom m0 \<and>
     (\<forall>y s. rep_of m' y s \<longleftrightarrow> rep_of m0 y s) \<and>
     (\<forall>y. m' y = m0 y \<or> (rep_of m0 y r \<and> m' y = Some r))"

lemma root_found_here: "descends h m \<Longrightarrow> m x = Some x \<Longrightarrow> root_found h m x x m"
  by (simp add: root_found_def rep_of.root)

lemma root_found_step:
  assumes "m x = Some p" "p \<noteq> x" "root_found h m p r m'"
  shows "root_found h m x r (m'(x \<mapsto> r))"
proof -
  have IH: "rep_of m p r" "descends h m'" "dom m' = dom m"
      "\<And>y s. rep_of m' y s \<longleftrightarrow> rep_of m y s" "\<And>y. m' y = m y \<or> (rep_of m y r \<and> m' y = Some r)"
    using assms(3) by (simp_all add: root_found_def)
  have x: "rep_of m x r" by (rule rep_of.step [of m x p]) (use IH(1) assms(1,2) in auto)
  then have x': "rep_of m' x r" using IH(4) by simp
  show ?thesis
    unfolding root_found_def
  proof (intro conjI allI)
    show "rep_of m x r" by (rule x)
    show "descends h (m'(x \<mapsto> r))" using descends_compress [OF IH(2) x'] .
    show "dom (m'(x \<mapsto> r)) = dom m" using IH(3) assms(1) by auto
    show "rep_of (m'(x \<mapsto> r)) y s \<longleftrightarrow> rep_of m y s" for y s
      using rep_of_compress [OF x'] IH(4) by simp
    show "(m'(x \<mapsto> r)) y = m y \<or> (rep_of m y r \<and> (m'(x \<mapsto> r)) y = Some r)" for y
      using IH(5) [of y] x by simp
  qed
qed

lemma uf_root_present:
  assumes "descends h m" "x \<in> dom m"
  shows "\<exists>r m'. uf_root m x = Some (r, m') \<and> root_found h m x r m'"
  using assms
proof (induction "h x" arbitrary: x rule: less_induct)
  case less
  then obtain p where p: "m x = Some p" by auto
  show ?case
  proof (cases "p = x")
    case True
    with p have "uf_root m x = Some (x, m)" by (subst uf_root.simps) simp
    moreover have "root_found h m x x m" using less(2) p True by (intro root_found_here) simp_all
    ultimately show ?thesis by metis
  next
    case False
    have hp: "h p < h x" "p \<in> dom m" using less(2) p False by (auto dest: descendsD)
    obtain r m' where IH: "uf_root m p = Some (r, m')" "root_found h m p r m'"
      using less(1) [OF hp(1) less(2) hp(2)] by metis
    have "uf_root m x = Some (r, m'(x \<mapsto> r))"
      using p False IH(1) by (subst uf_root.simps) simp
    with root_found_step [OF p False IH(2)] show ?thesis by metis
  qed
qed

text \<open>
  The root of any element: an absent one is inserted first. This is the contract of
  \<open>root\<close> the merges rely on.
\<close>

lemma uf_root_total:
  assumes "descends h m"
  shows "\<exists>r m'. uf_root m x = Some (r, m') \<and> root_found h (snd (uf_insert m x)) x r m'"
proof (cases "x \<in> dom m")
  case True
  then have "snd (uf_insert m x) = m" by (auto simp: uf_insert_def)
  then show ?thesis using uf_root_present [OF assms True] by simp
next
  case False
  then have "uf_root m x = Some (x, snd (uf_insert m x))"
    by (subst uf_root.simps) (auto split: option.splits)
  moreover have "snd (uf_insert m x) x = Some x" using False by (auto simp: uf_insert_def)
  ultimately show ?thesis using root_found_here [OF uf_insert_descends [OF assms]] by metis
qed

text \<open>Both roots at once, the way every merge starts.\<close>

definition with_both :: "('a \<rightharpoonup> 'a) \<Rightarrow> 'a \<Rightarrow> 'a \<Rightarrow> ('a \<rightharpoonup> 'a)" where
  "with_both m x y = snd (uf_insert (snd (uf_insert m x)) y)"

lemma with_both_rep:
  assumes "uf_wf m"
  shows "rep_of (with_both m x y) a r \<longleftrightarrow>
    rep_of m a r \<or> (a \<notin> dom m \<and> (a = x \<or> a = y) \<and> r = a)"
    and "uf_wf (with_both m x y)" "dom (with_both m x y) = insert y (insert x (dom m))"
proof -
  have wf: "uf_wf (snd (uf_insert m x))" using assms by (rule uf_insert_wf)
  then show "uf_wf (with_both m x y)" unfolding with_both_def by (rule uf_insert_wf)
  show "dom (with_both m x y) = insert y (insert x (dom m))" by (simp add: with_both_def)
  show "rep_of (with_both m x y) a r \<longleftrightarrow> rep_of m a r \<or> (a \<notin> dom m \<and> (a = x \<or> a = y) \<and> r = a)"
    using uf_insert_rep [OF wf, of y] uf_insert_rep [OF assms, of x] rep_of_dom [of m]
    by (auto simp: with_both_def)
qed

definition roots_found ::
  "('a \<Rightarrow> nat) \<Rightarrow> ('a \<rightharpoonup> 'a) \<Rightarrow> 'a \<Rightarrow> 'a \<Rightarrow> 'a \<Rightarrow> 'a \<Rightarrow> ('a \<rightharpoonup> 'a) \<Rightarrow> bool" where
  "roots_found h w x y rx ry m' \<longleftrightarrow> rep_of w x rx \<and> rep_of w y ry \<and> descends h m' \<and>
     dom m' = dom w \<and> (\<forall>a s. rep_of m' a s \<longleftrightarrow> rep_of w a s) \<and>
     (\<forall>a. m' a = w a \<or> (\<exists>r. rep_of w a r \<and> m' a = Some r))"

lemma uf_insert_at:
  "a \<in> dom m \<Longrightarrow> snd (uf_insert m y) a = m a"
  "a \<notin> dom m \<Longrightarrow> snd (uf_insert m y) a = (if a = y then Some y else None)"
  by (auto simp: uf_insert_def domIff)

lemma both_roots:
  assumes "descends h m"
  shows "\<exists>rx m1 ry m2. uf_root m x = Some (rx, m1) \<and> uf_root m1 y = Some (ry, m2) \<and>
    roots_found h (with_both m x y) x y rx ry m2"
proof -
  let ?m0 = "snd (uf_insert m x)" and ?w = "with_both m x y"
  obtain rx m1 where x: "uf_root m x = Some (rx, m1)" "root_found h ?m0 x rx m1"
    using uf_root_total [OF assms, of x] by metis
  have x1: "rep_of ?m0 x rx" "descends h m1" "dom m1 = dom ?m0"
    "\<And>y s. rep_of m1 y s \<longleftrightarrow> rep_of ?m0 y s" "\<And>y. m1 y = ?m0 y \<or> (rep_of ?m0 y rx \<and> m1 y = Some rx)"
    using x(2) by (simp_all add: root_found_def)
  let ?m3 = "snd (uf_insert m1 y)"
  obtain ry m2 where y: "uf_root m1 y = Some (ry, m2)" "root_found h ?m3 y ry m2"
    using uf_root_total [OF x1(2), of y] by metis
  have y1: "rep_of ?m3 y ry" "descends h m2" "dom m2 = dom ?m3"
    "\<And>a s. rep_of m2 a s \<longleftrightarrow> rep_of ?m3 a s" "\<And>a. m2 a = ?m3 a \<or> (rep_of ?m3 a ry \<and> m2 a = Some ry)"
    using y(2) by (simp_all add: root_found_def)
  have wf0: "uf_wf ?m0" "uf_wf m1"
    using uf_insert_descends [OF assms] x1(2) by (auto simp: uf_wf_def)
  have m3: "rep_of ?m3 a s \<longleftrightarrow> rep_of ?w a s" for a s
    using uf_insert_rep [OF wf0(2), of y] uf_insert_rep [OF wf0(1), of y] x1(4) x1(3)
    unfolding with_both_def by simp
  have w0: "rep_of ?m0 a s \<Longrightarrow> rep_of ?w a s" for a s
    using uf_insert_rep [OF wf0(1), of y] unfolding with_both_def by simp
  have step1: "?m3 a = ?w a \<or> (rep_of ?w a rx \<and> ?m3 a = Some rx)" for a
  proof (cases "a \<in> dom m1")
    case True
    then have "?m3 a = m1 a" "?w a = ?m0 a"
      using uf_insert_at(1) [of a m1 y] uf_insert_at(1) [of a ?m0 y] x1(3) by (simp_all add: with_both_def)
    then show ?thesis using x1(5) [of a] w0 by auto
  next
    case False
    then show ?thesis
      using uf_insert_at(2) [of a m1 y] uf_insert_at(2) [of a ?m0 y] x1(3) by (simp add: with_both_def)
  qed
  have "roots_found h ?w x y rx ry m2"
    unfolding roots_found_def
  proof (intro conjI allI)
    show "rep_of ?w x rx" "rep_of ?w y ry" using x1(1) y1(1) w0 m3 by auto
    show "descends h m2" by (rule y1(2))
    show "dom m2 = dom ?w" using y1(3) x1(3) by (simp add: with_both_def)
    show "rep_of m2 a s \<longleftrightarrow> rep_of ?w a s" for a s using y1(4) m3 by simp
    show "m2 a = ?w a \<or> (\<exists>r. rep_of ?w a r \<and> m2 a = Some r)" for a
      using y1(5) [of a] step1 [of a] m3 by metis
  qed
  with x(1) y(1) show ?thesis by metis
qed


section \<open>Merging\<close>

text \<open>
  The abstract value of a structure is the relation of being together; merging a pair takes the
  least symmetric and transitive relation that holds the pair too.
\<close>

definition classes :: "('a \<rightharpoonup> 'a) \<Rightarrow> ('a \<times> 'a) set" where
  "classes m = {(a, b). together m a b}"

definition joined :: "('a \<times> 'a) set \<Rightarrow> 'a \<Rightarrow> 'a \<Rightarrow> ('a \<times> 'a) set" where
  "joined R x y = (R \<union> {(x, y), (y, x)})\<^sup>+"

lemma classes_iff: "(a, b) \<in> classes m \<longleftrightarrow> (\<exists>r. rep_of m a r \<and> rep_of m b r)"
  by (simp add: classes_def together_def)

lemma classes_cong: "(\<And>a r. rep_of m a r \<longleftrightarrow> rep_of n a r) \<Longrightarrow> classes m = classes n"
  by (auto simp: classes_iff)

lemma classes_per: "sym (classes m)" "trans (classes m)"
  by (auto simp: sym_def trans_def classes_iff dest: rep_of_unique)

lemma trans_trancl_le: "trans J \<Longrightarrow> R \<subseteq> J \<Longrightarrow> R\<^sup>+ \<subseteq> J"
  using trancl_id [of J] trancl_mono [of _ R J] by auto

lemma joined_with_both:
  assumes "uf_wf m"
  shows "joined (classes (with_both m x y)) x y = joined (classes m) x y"
proof
  have sub: "classes (with_both m x y) \<subseteq> classes m \<union> {(x, x), (y, y)}"
    using with_both_rep(1) [OF assms, of x y] by (auto simp: classes_iff dest: rep_of_dom)
  have pair: "(x, x) \<in> joined (classes m) x y" "(y, y) \<in> joined (classes m) x y"
    unfolding joined_def by (rule trancl_into_trancl [of _ y], auto) (rule trancl_into_trancl [of _ x], auto)
  show "joined (classes (with_both m x y)) x y \<subseteq> joined (classes m) x y"
    unfolding joined_def [of "classes (with_both m x y)"]
    by (rule trans_trancl_le) (use sub pair in \<open>auto simp: joined_def intro: trans_trancl\<close>)
  show "joined (classes m) x y \<subseteq> joined (classes (with_both m x y)) x y"
    unfolding joined_def
    by (rule subsetI, erule trancl_mono)
       (use with_both_rep(1) [OF assms, of x y] in \<open>auto simp: classes_iff\<close>)
qed

lemma joined_same:
  assumes "(x, y) \<in> classes m"
  shows "joined (classes m) x y = classes m"
proof -
  have "classes m \<union> {(x, y), (y, x)} = classes m"
    using assms symD [OF classes_per(1) assms] by auto
  then show ?thesis using trancl_id [OF classes_per(2)] by (simp add: joined_def)
qed

lemma joined_link:
  assumes x: "rep_of w x rx" and y: "rep_of w y ry" and ab: "{a, b} = {rx, ry}"
    and rep: "\<And>z r. rep_of m' z r \<longleftrightarrow> (\<exists>s. rep_of w z s \<and> r = linked a b s)"
  shows "classes m' = joined (classes w) x y"
proof
  have J: "(c, d) \<in> classes m' \<longleftrightarrow> (\<exists>s t. rep_of w c s \<and> rep_of w d t \<and> linked a b s = linked a b t)" for c d
    by (auto simp: classes_iff rep)
  have same: "linked a b rx = linked a b ry" using ab by (auto simp: linked_def doubleton_eq_iff)
  show "joined (classes w) x y \<subseteq> classes m'"
    unfolding joined_def
  proof (rule trans_trancl_le [OF classes_per(2)])
    have "(x, y) \<in> classes m'" "(y, x) \<in> classes m'" using x y same unfolding J by metis+
    moreover have "(c, d) \<in> classes m'" if "(c, d) \<in> classes w" for c d
      using that unfolding J by (auto simp: classes_iff)
    ultimately show "classes w \<union> {(x, y), (y, x)} \<subseteq> classes m'" by auto
  qed
  show "classes m' \<subseteq> joined (classes w) x y"
  proof
    fix e assume "e \<in> classes m'"
    then obtain c d s t where e: "e = (c, d)" and st: "rep_of w c s" "rep_of w d t"
      "linked a b s = linked a b t" by (metis J surj_pair)
    have inj: "(p, q) \<in> classes w \<Longrightarrow> (p, q) \<in> joined (classes w) x y" for p q
      by (auto simp: joined_def)
    have xy: "(x, y) \<in> joined (classes w) x y" "(y, x) \<in> joined (classes w) x y"
      by (auto simp: joined_def)
    have tr: "(p, q) \<in> joined (classes w) x y \<Longrightarrow> (q, r) \<in> joined (classes w) x y \<Longrightarrow>
        (p, r) \<in> joined (classes w) x y" for p q r
      unfolding joined_def by (rule trancl_trans)
    consider "s = t" | "s = rx" "t = ry" | "s = ry" "t = rx"
      using st(3) ab by (auto simp: linked_def doubleton_eq_iff split: if_splits)
    then show "e \<in> joined (classes w) x y"
    proof cases
      case 1
      then show ?thesis using st inj by (auto simp: e classes_iff)
    next
      case 2
      then have "(c, x) \<in> classes w" "(y, d) \<in> classes w" using st x y by (auto simp: classes_iff)
      then show ?thesis unfolding e using inj xy tr by blast
    next
      case 3
      then have "(c, y) \<in> classes w" "(x, d) \<in> classes w" using st x y by (auto simp: classes_iff)
      then show ?thesis unfolding e using inj xy tr by blast
    qed
  qed
qed

text \<open>One root linked below the other, or nothing to do: the three merges share this step.\<close>

lemma roots_link:
  assumes m: "uf_wf m" and f: "roots_found h (with_both m x y) x y rx ry m'"
    and ab: "{a, b} = {rx, ry}" "rx \<noteq> ry"
  shows "uf_wf (m'(a \<mapsto> b)) \<and> dom (m'(a \<mapsto> b)) = insert y (insert x (dom m)) \<and>
    classes (m'(a \<mapsto> b)) = joined (classes m) x y \<and>
    rep_of (m'(a \<mapsto> b)) x b \<and> rep_of (m'(a \<mapsto> b)) y b"
proof -
  let ?w = "with_both m x y"
  have fs: "rep_of ?w x rx" "rep_of ?w y ry" "descends h m'" "dom m' = dom ?w"
    "\<And>a s. rep_of m' a s \<longleftrightarrow> rep_of ?w a s" using f by (simp_all add: roots_found_def)
  have ne: "a \<noteq> b" and sel: "(a = rx \<and> b = ry) \<or> (a = ry \<and> b = rx)"
    using ab by (auto simp: doubleton_eq_iff)
  have roots: "m' a = Some a" "m' b = Some b"
    using sel fs(1,2) fs(5) rep_of_root by metis+
  have rep: "\<And>z r. rep_of (m'(a \<mapsto> b)) z r \<longleftrightarrow> (\<exists>s. rep_of ?w z s \<and> r = linked a b s)"
    using rep_of_link [OF roots ne] fs(5) by simp
  have "uf_wf m'" using fs(3) by (auto simp: uf_wf_def)
  then have "uf_wf (m'(a \<mapsto> b))" using roots ne by (rule uf_wf_link)
  moreover have "dom (m'(a \<mapsto> b)) = insert y (insert x (dom m))"
    using fs(4) with_both_rep(3) [OF m] roots(1) by (auto simp del: fun_upd_apply)
  moreover have "classes (m'(a \<mapsto> b)) = joined (classes m) x y"
    using joined_link [OF fs(1,2) ab(1) rep] joined_with_both [OF m] by simp
  moreover have "rep_of (m'(a \<mapsto> b)) x b" "rep_of (m'(a \<mapsto> b)) y b"
  proof -
    have "rep_of (m'(a \<mapsto> b)) x (linked a b rx)" "rep_of (m'(a \<mapsto> b)) y (linked a b ry)"
      using fs(1,2) rep by blast+
    then show "rep_of (m'(a \<mapsto> b)) x b" "rep_of (m'(a \<mapsto> b)) y b"
      using sel by (auto simp: linked_def simp del: fun_upd_apply)
  qed
  ultimately show ?thesis by blast
qed

lemma roots_same:
  assumes m: "uf_wf m" and f: "roots_found h (with_both m x y) x y r r m'"
  shows "uf_wf m' \<and> dom m' = insert y (insert x (dom m)) \<and> classes m' = joined (classes m) x y \<and>
    rep_of m' x r \<and> rep_of m' y r"
proof -
  let ?w = "with_both m x y"
  have fs: "rep_of ?w x r" "rep_of ?w y r" "descends h m'" "dom m' = dom ?w"
    "\<And>a s. rep_of m' a s \<longleftrightarrow> rep_of ?w a s" using f by (simp_all add: roots_found_def)
  have "(x, y) \<in> classes ?w" using fs(1,2) by (auto simp: classes_iff)
  then have "classes ?w = joined (classes m) x y"
    using joined_same joined_with_both [OF m] by metis
  moreover have "classes m' = classes ?w" using fs(5) by (rule classes_cong)
  ultimately show ?thesis using fs with_both_rep(3) [OF m] by (auto simp: uf_wf_def)
qed

text \<open>What every merge promises.\<close>

definition merged :: "('a \<rightharpoonup> 'a) \<Rightarrow> 'a \<Rightarrow> 'a \<Rightarrow> 'a \<Rightarrow> ('a \<rightharpoonup> 'a) \<Rightarrow> bool" where
  "merged m x y r m' \<longleftrightarrow> uf_wf m' \<and> dom m' = insert y (insert x (dom m)) \<and>
     classes m' = joined (classes m) x y \<and> rep_of m' x r \<and> rep_of m' y r"

lemma less_merge_total:
  assumes "uf_wf m"
  shows "\<exists>r m'. less_merge lt m x y = Some (r, m') \<and> merged m x y r m'"
proof -
  obtain h where h: "descends h m" using assms by (auto simp: uf_wf_def)
  obtain rx m1 ry m2 where f: "uf_root m x = Some (rx, m1)" "uf_root m1 y = Some (ry, m2)"
    "roots_found h (with_both m x y) x y rx ry m2" using both_roots [OF h] by metis
  show ?thesis
  proof (cases "rx = ry")
    case True
    then show ?thesis
      using f roots_same [OF assms] by (simp add: less_merge_def merged_def)
  next
    case False
    have "merged m x y ry (m2(rx \<mapsto> ry))" "merged m x y rx (m2(ry \<mapsto> rx))"
      using roots_link [OF assms f(3) refl False] roots_link [OF assms f(3) insert_commute False]
      unfolding merged_def by blast+
    then show ?thesis using f False by (simp add: less_merge_def del: fun_upd_apply)
  qed
qed

lemma rank_merge_total:
  assumes "uf_wf (rk_map s)"
  shows "\<exists>r s'. rank_merge s x y = Some (r, s') \<and> merged (rk_map s) x y r (rk_map s')"
proof -
  obtain h where h: "descends h (rk_map s)" using assms by (auto simp: uf_wf_def)
  obtain rx m1 ry m2 where f: "uf_root (rk_map s) x = Some (rx, m1)" "uf_root m1 y = Some (ry, m2)"
    "roots_found h (with_both (rk_map s) x y) x y rx ry m2" using both_roots [OF h] by metis
  show ?thesis
  proof (cases "rx = ry")
    case True
    then show ?thesis
      using f roots_same [OF assms] by (simp add: rank_merge_def merged_def Let_def)
  next
    case False
    have "merged (rk_map s) x y ry (m2(rx \<mapsto> ry))" "merged (rk_map s) x y rx (m2(ry \<mapsto> rx))"
      using roots_link [OF assms f(3) refl False] roots_link [OF assms f(3) insert_commute False]
      unfolding merged_def by blast+
    then show ?thesis using f False by (simp add: rank_merge_def Let_def del: fun_upd_apply)
  qed
qed


section \<open>The contract of a merge, and sequences of merges\<close>

text \<open>
  What a client of a disjoint-set structure relies on: merging never fails, keeps the
  invariant, and joins exactly the classes of the two elements.
\<close>

locale disjoint_sets =
  fixes inv :: "'s \<Rightarrow> bool" and sets :: "'s \<Rightarrow> ('a \<times> 'a) set"
    and merge :: "'s \<Rightarrow> 'a \<Rightarrow> 'a \<Rightarrow> ('a \<times> 's) option"
  assumes merge_total: "inv s \<Longrightarrow> \<exists>r s'. merge s x y = Some (r, s')"
    and merge_inv: "inv s \<Longrightarrow> merge s x y = Some (r, s') \<Longrightarrow> inv s'"
    and merge_sets: "inv s \<Longrightarrow> merge s x y = Some (r, s') \<Longrightarrow> sets s' = joined (sets s) x y"
    and sets_per: "inv s \<Longrightarrow> sym (sets s) \<and> trans (sets s)"
begin

fun merge_list :: "'s \<Rightarrow> ('a \<times> 'a) list \<Rightarrow> 's option" where
  "merge_list s [] = Some s"
| "merge_list s ((x, y) # ps) = Option.bind (merge s x y) (\<lambda>(r, s'). merge_list s' ps)"

lemma merge_list_closure:
  "inv s \<Longrightarrow> \<exists>s'. merge_list s ps = Some s' \<and> inv s' \<and> sets s' = (sets s \<union> set ps \<union> (set ps)\<inverse>)\<^sup>+"
proof (induction ps arbitrary: s)
  case Nil
  then show ?case using sets_per [OF Nil] by (simp add: trancl_id)
next
  case (Cons p ps)
  obtain x y where p: "p = (x, y)" by (cases p)
  obtain r s1 where s1: "merge s x y = Some (r, s1)" using merge_total [OF Cons.prems] by metis
  note m = merge_inv [OF Cons.prems s1] merge_sets [OF Cons.prems s1]
  obtain s2 where s2: "merge_list s1 ps = Some s2" "inv s2"
    "sets s2 = (sets s1 \<union> set ps \<union> (set ps)\<inverse>)\<^sup>+" using Cons.IH [OF m(1)] by metis
  let ?A = "sets s \<union> {(x, y), (y, x)}" and ?B = "set ps \<union> (set ps)\<inverse>"
  have "(?A\<^sup>+ \<union> ?B)\<^sup>+ = (?A \<union> ?B)\<^sup>+"
  proof
    have "?A\<^sup>+ \<union> ?B \<subseteq> (?A \<union> ?B)\<^sup>+" using trancl_mono [of _ ?A "?A \<union> ?B"] by auto
    then show "(?A\<^sup>+ \<union> ?B)\<^sup>+ \<subseteq> (?A \<union> ?B)\<^sup>+" by (rule trans_trancl_le [OF trans_trancl])
    show "(?A \<union> ?B)\<^sup>+ \<subseteq> (?A\<^sup>+ \<union> ?B)\<^sup>+" by (rule subsetI, erule trancl_mono) auto
  qed
  moreover have "sets s1 \<union> set ps \<union> (set ps)\<inverse> = ?A\<^sup>+ \<union> ?B" using m(2) by (auto simp: joined_def)
  moreover have "sets s \<union> set (p # ps) \<union> (set (p # ps))\<inverse> = ?A \<union> ?B" by (auto simp: p)
  ultimately have "sets s2 = (sets s \<union> set (p # ps) \<union> (set (p # ps))\<inverse>)\<^sup>+" using s2(3) by simp
  then show ?case using s1 s2 by (simp add: p)
qed

end

lemma less_merge_merged: "uf_wf m \<Longrightarrow> less_merge lt m x y = Some (r, m') \<Longrightarrow> merged m x y r m'"
  using less_merge_total [of m lt x y] by auto

lemma rank_merge_merged:
  "uf_wf (rk_map s) \<Longrightarrow> rank_merge s x y = Some (r, s') \<Longrightarrow> merged (rk_map s) x y r (rk_map s')"
  using rank_merge_total [of s x y] by auto

interpretation by_less: disjoint_sets uf_wf classes "less_merge lt" for lt
proof
  fix m :: "'a \<rightharpoonup> 'a" and x y r m'
  assume m: "uf_wf m"
  show "\<exists>r m'. less_merge lt m x y = Some (r, m')" using less_merge_total [OF m] by metis
  show "sym (classes m) \<and> trans (classes m)" by (simp add: classes_per)
  assume "less_merge lt m x y = Some (r, m')"
  from less_merge_merged [OF m this] show "uf_wf m'" "classes m' = joined (classes m) x y"
    by (simp_all add: merged_def)
qed

interpretation by_rank: disjoint_sets "\<lambda>s. uf_wf (rk_map s)" "\<lambda>s. classes (rk_map s)" rank_merge
proof
  fix s :: "'a uf_by_rank" and x y r s'
  assume s: "uf_wf (rk_map s)"
  show "\<exists>r s'. rank_merge s x y = Some (r, s')" using rank_merge_total [OF s] by metis
  show "sym (classes (rk_map s)) \<and> trans (classes (rk_map s))" by (simp add: classes_per)
  assume "rank_merge s x y = Some (r, s')"
  from rank_merge_merged [OF s this]
  show "uf_wf (rk_map s')" "classes (rk_map s') = joined (classes (rk_map s)) x y"
    by (simp_all add: merged_def)
qed

end
