(* ===== verification/Scoped_Union_Find.thy ===== *)
theory Scoped_Union_Find imports Union_Find begin

text \<open>
  \<^verbatim>\<open>scoped_union_find\<close> of \<^verbatim>\<open>src/union_find.h\<close>: elements tagged with the scope they were
  registered in, disjoint sets over the tagged elements, and a stack of active scopes
  (outermost first, as the deque keeps them).
\<close>

section \<open>Definitions\<close>

type_synonym 'a element = "nat \<times> 'a"

record 'a scoped =
  su_uf :: "'a element \<rightharpoonup> 'a element"
  su_current :: nat
  su_scopes :: "nat list"
  su_global :: nat

definition scoped_less :: "('a \<Rightarrow> 'a \<Rightarrow> bool) \<Rightarrow> 'a element \<Rightarrow> 'a element \<Rightarrow> bool" where
  "scoped_less lt a b =
     (if fst a < fst b then True
      else if fst a > fst b then False
      else lt (snd a) (snd b))"

definition su_new :: "'a scoped" where
  "su_new = \<lparr>su_uf = Map.empty, su_current = 0, su_scopes = [0], su_global = 0\<rparr>"

definition su_open :: "'a scoped \<Rightarrow> 'a scoped" where
  "su_open s = s\<lparr>su_current := su_current s + 1, su_scopes := su_scopes s @ [su_current s + 1]\<rparr>"

definition su_close :: "'a scoped \<Rightarrow> 'a scoped" where
  "su_close s =
     (if length (su_scopes s) = 1 then s else s\<lparr>su_scopes := butlast (su_scopes s)\<rparr>)"

definition su_root :: "'a scoped \<Rightarrow> 'a element \<Rightarrow> ('a element \<times> 'a scoped) option" where
  "su_root s e = map_option (\<lambda>(r, m). (r, s\<lparr>su_uf := m\<rparr>)) (uf_root (su_uf s) e)"

text \<open>The loop over the active scopes, innermost first.\<close>

fun find_scope :: "('a element \<rightharpoonup> 'a element) \<Rightarrow> nat list \<Rightarrow> 'a \<Rightarrow> 'a element option" where
  "find_scope m [] d = None"
| "find_scope m (sc # scs) d = (if m (sc, d) \<noteq> None then Some (sc, d) else find_scope m scs d)"

definition su_insert :: "'a scoped \<Rightarrow> 'a \<Rightarrow> 'a element \<times> 'a scoped" where
  "su_insert s d =
     (case find_scope (su_uf s) (rev (su_scopes s)) d of
        Some e \<Rightarrow> (e, s)
      | None \<Rightarrow> (let (e, m) = uf_insert (su_uf s) (su_global s, d) in (e, s\<lparr>su_uf := m\<rparr>)))"

definition su_push :: "'a scoped \<Rightarrow> 'a \<Rightarrow> 'a element \<times> 'a scoped" where
  "su_push s d =
     (let (e, m) = uf_insert (su_uf s) (last (su_scopes s), d) in (e, s\<lparr>su_uf := m\<rparr>))"

definition su_merge ::
  "('a \<Rightarrow> 'a \<Rightarrow> bool) \<Rightarrow> 'a scoped \<Rightarrow> 'a \<Rightarrow> 'a \<Rightarrow> ('a element \<times> 'a scoped) option" where
  "su_merge lt s d1 d2 =
     (let (e1, s) = su_insert s d1; (e2, s) = su_insert s d2
      in map_option (\<lambda>(r, m). (r, s\<lparr>su_uf := m\<rparr>)) (less_merge (scoped_less lt) (su_uf s) e1 e2))"

definition su_scope_of :: "'a scoped \<Rightarrow> 'a \<Rightarrow> nat \<times> 'a scoped" where
  "su_scope_of s d =
     (case find_scope (su_uf s) (rev (su_scopes s)) d of
        Some e \<Rightarrow> (fst e, s)
      | None \<Rightarrow> (let (e, m) = uf_insert (su_uf s) (su_global s, d) in (fst e, s\<lparr>su_uf := m\<rparr>)))"

definition su_contains :: "'a scoped \<Rightarrow> 'a \<Rightarrow> bool" where
  "su_contains s d \<longleftrightarrow> find_scope (su_uf s) (rev (su_scopes s)) d \<noteq> None"

section \<open>Runs\<close>

datatype 'a scoped_op = Open | Close | Push 'a | Insert 'a | Merge 'a 'a | ScopeOf 'a

fun su_step :: "('a \<Rightarrow> 'a \<Rightarrow> bool) \<Rightarrow> 'a scoped \<Rightarrow> 'a scoped_op \<Rightarrow> 'a scoped option" where
  "su_step lt s Open = Some (su_open s)"
| "su_step lt s Close = Some (su_close s)"
| "su_step lt s (Push d) = Some (snd (su_push s d))"
| "su_step lt s (Insert d) = Some (snd (su_insert s d))"
| "su_step lt s (Merge d e) = map_option snd (su_merge lt s d e)"
| "su_step lt s (ScopeOf d) = Some (snd (su_scope_of s d))"

fun su_run :: "('a \<Rightarrow> 'a \<Rightarrow> bool) \<Rightarrow> 'a scoped \<Rightarrow> 'a scoped_op list \<Rightarrow> 'a scoped option" where
  "su_run lt s [] = Some s"
| "su_run lt s (q # qs) = Option.bind (su_step lt s q) (\<lambda>s'. su_run lt s' qs)"

definition resolve :: "'a scoped \<Rightarrow> 'a \<Rightarrow> 'a element option" where
  "resolve s d = find_scope (su_uf s) (rev (su_scopes s)) d"

text \<open>
  The invariant: the parent map is acyclic, the active scopes are distinct and start with the
  global one, and no scope above the counter has ever been used.
\<close>

definition su_inv :: "'a scoped \<Rightarrow> bool" where
  "su_inv s \<longleftrightarrow> uf_wf (su_uf s) \<and> su_scopes s \<noteq> [] \<and> hd (su_scopes s) = su_global s \<and>
     distinct (su_scopes s) \<and> (\<forall>t \<in> set (su_scopes s). t \<le> su_current s) \<and>
     (\<forall>(t, d) \<in> dom (su_uf s). t \<le> su_current s)"

lemma su_new_inv: "su_inv su_new"
  by (simp add: su_inv_def su_new_def uf_wf_def descends_def)

lemma su_open_inv: "su_inv s \<Longrightarrow> su_inv (su_open s)"
  by (force simp: su_inv_def su_open_def)

lemma su_close_inv: "su_inv s \<Longrightarrow> su_inv (su_close s)"
  by (cases "su_scopes s" rule: rev_cases; cases "butlast (su_scopes s)")
     (auto simp: su_inv_def su_close_def)

lemma find_scope_Some: "find_scope m scs d = Some e \<Longrightarrow> e \<in> dom m \<and> fst e \<in> set scs \<and> snd e = d"
  by (induction scs) (auto split: if_splits)

lemma find_scope_None: "find_scope m scs d = None \<longleftrightarrow> (\<forall>t \<in> set scs. (t, d) \<notin> dom m)"
  by (induction scs) (auto simp: domIff)

lemma find_scope_grow:
  "find_scope m scs d = Some e \<Longrightarrow> dom m \<subseteq> dom m' \<Longrightarrow>
     \<forall>t \<in> set scs. (t, d) \<in> dom m' \<longrightarrow> (t, d) \<in> dom m \<Longrightarrow> find_scope m' scs d = Some e"
  by (induction scs) (auto simp: domIff split: if_splits)

lemma resolve_None: "resolve s d = None \<longleftrightarrow> (\<forall>t \<in> set (su_scopes s). (t, d) \<notin> dom (su_uf s))"
  by (simp add: resolve_def find_scope_None)

section \<open>What a run may add\<close>

text \<open>
  Entries added in active scopes are in the innermost one, or global ones for names that no
  active scope held.
\<close>

definition extends :: "'a scoped \<Rightarrow> 'a scoped \<Rightarrow> bool" where
  "extends s s' \<longleftrightarrow> su_scopes s' = su_scopes s \<and> su_global s' = su_global s \<and>
     su_current s \<le> su_current s' \<and> dom (su_uf s) \<subseteq> dom (su_uf s') \<and>
     (\<forall>t d. (t, d) \<in> dom (su_uf s') - dom (su_uf s) \<longrightarrow> t \<in> set (su_scopes s) \<longrightarrow>
        t = last (su_scopes s) \<or> (t = su_global s \<and> resolve s d = None))"

lemma extends_refl: "extends s s"
  by (simp add: extends_def)

lemma extends_trans:
  assumes "extends s1 s2" "extends s2 s3"
  shows "extends s1 s3"
proof -
  have none: "resolve s2 d = None \<Longrightarrow> resolve s1 d = None" for d
  proof -
    assume n: "resolve s2 d = None"
    have "dom (su_uf s1) \<subseteq> dom (su_uf s2)" "su_scopes s2 = su_scopes s1"
      using assms(1) by (simp_all add: extends_def)
    with n show "resolve s1 d = None" unfolding resolve_None by (metis subsetD)
  qed
  have new: "t = last (su_scopes s1) \<or> (t = su_global s1 \<and> resolve s1 d = None)"
    if "(t, d) \<in> dom (su_uf s3) - dom (su_uf s1)" "t \<in> set (su_scopes s1)" for t d
  proof (cases "(t, d) \<in> dom (su_uf s2)")
    case True
    then show ?thesis using assms(1) that unfolding extends_def by blast
  next
    case False
    then have "t = last (su_scopes s2) \<or> (t = su_global s2 \<and> resolve s2 d = None)"
      using assms that unfolding extends_def by auto
    then show ?thesis using assms(1) none by (auto simp: extends_def)
  qed
  moreover have "su_scopes s3 = su_scopes s1" "su_global s3 = su_global s1"
    "su_current s1 \<le> su_current s3" using assms by (auto simp: extends_def)
  moreover have "dom (su_uf s1) \<subseteq> dom (su_uf s3)"
    using assms order.trans [of "dom (su_uf s1)" "dom (su_uf s2)"] by (simp add: extends_def)
  ultimately show ?thesis unfolding extends_def by blast
qed

text \<open>The three ways the map changes: an entry in the innermost scope, a global one, a merge.\<close>

lemma extends_insert:
  assumes "su_inv s" "t = last (su_scopes s) \<or> (t = su_global s \<and> resolve s d = None)"
  shows "su_inv (s\<lparr>su_uf := snd (uf_insert (su_uf s) (t, d))\<rparr>) \<and>
    extends s (s\<lparr>su_uf := snd (uf_insert (su_uf s) (t, d))\<rparr>)"
proof -
  have "su_global s \<in> set (su_scopes s)" "last (su_scopes s) \<in> set (su_scopes s)"
    using assms(1) hd_in_set [of "su_scopes s"] by (auto simp: su_inv_def)
  then have "t \<le> su_current s" using assms by (auto simp: su_inv_def)
  then show ?thesis
    using assms by (auto simp: su_inv_def extends_def uf_insert_wf)
qed

lemma insert_step:
  assumes "su_inv s" "su_insert s d = (e, s')"
  shows "su_inv s' \<and> extends s s' \<and> e \<in> dom (su_uf s')"
proof (cases "resolve s d")
  case None
  then have "s' = s\<lparr>su_uf := snd (uf_insert (su_uf s) (su_global s, d))\<rparr>" "e = (su_global s, d)"
    using assms(2) by (auto simp: su_insert_def resolve_def uf_insert_def split: if_splits)
  then show ?thesis using extends_insert [OF assms(1), of "su_global s" d] None by simp
next
  case (Some e')
  then have "s' = s" "e = e'" using assms(2) by (auto simp: su_insert_def resolve_def)
  moreover have "e' \<in> dom (su_uf s)" using find_scope_Some [OF Some [unfolded resolve_def]] by simp
  ultimately show ?thesis using assms(1) extends_refl by simp
qed

lemma push_step:
  assumes "su_inv s" "su_push s d = (e, s')"
  shows "su_inv s' \<and> extends s s'"
  using assms extends_insert [OF assms(1), of "last (su_scopes s)" d]
  by (auto simp: su_push_def split: prod.splits)

lemma scope_of_step: "snd (su_scope_of s d) = snd (su_insert s d)"
  by (auto simp: su_scope_of_def su_insert_def split: option.splits prod.splits)

lemma merge_step:
  assumes "su_inv s"
  shows "\<exists>r s'. su_merge lt s d1 d2 = Some (r, s') \<and> su_inv s' \<and> extends s s'"
proof -
  obtain e1 s1 where 1: "su_insert s d1 = (e1, s1)" by fastforce
  obtain e2 s2 where 2: "su_insert s1 d2 = (e2, s2)" by fastforce
  note i1 = insert_step [OF assms 1]
  then have i2: "su_inv s2" "extends s1 s2" "e2 \<in> dom (su_uf s2)" using insert_step [OF _ 2] by auto
  have e1: "e1 \<in> dom (su_uf s2)" using i1 i2(2) by (auto simp: extends_def)
  have "uf_wf (su_uf s2)" using i2(1) by (simp add: su_inv_def)
  then obtain r m where m: "less_merge (scoped_less lt) (su_uf s2) e1 e2 = Some (r, m)"
    "merged (su_uf s2) e1 e2 r m" using less_merge_total by metis
  have dom: "dom m = dom (su_uf s2)" using m(2) e1 i2(3) by (auto simp: merged_def)
  let ?s = "s2\<lparr>su_uf := m\<rparr>"
  have "su_inv ?s" using i2(1) m(2) dom by (auto simp: su_inv_def merged_def)
  moreover have "extends s ?s"
    using extends_trans [OF _ i2(2), of s] i1 dom by (simp add: extends_def)
  ultimately show ?thesis using m(1) 1 2 by (simp add: su_merge_def)
qed

lemma simple_step:
  assumes "su_inv s" "q \<noteq> Open" "q \<noteq> Close"
  shows "\<exists>s'. su_step lt s q = Some s' \<and> su_inv s' \<and> extends s s'"
proof (cases q)
  case (Push d)
  then show ?thesis using push_step [OF assms(1)] by (metis su_step.simps(3) surjective_pairing)
next
  case (Insert d)
  then show ?thesis using insert_step [OF assms(1)] by (metis su_step.simps(4) surjective_pairing)
next
  case (Merge d e)
  then show ?thesis using merge_step [OF assms(1), of lt d e] by auto
next
  case (ScopeOf d)
  then show ?thesis using insert_step [OF assms(1)] scope_of_step
    by (metis su_step.simps(6) surjective_pairing)
qed (use assms in auto)

text \<open>Runs that close every scope they open.\<close>

inductive balanced :: "'a scoped_op list \<Rightarrow> bool" where
  nil: "balanced []"
| simple: "q \<noteq> Open \<Longrightarrow> q \<noteq> Close \<Longrightarrow> balanced qs \<Longrightarrow> balanced (q # qs)"
| block: "balanced b \<Longrightarrow> balanced qs \<Longrightarrow> balanced (Open # b @ Close # qs)"

text \<open>Inside a block, nothing is added in an outer active scope but global entries.\<close>

definition hides :: "'a scoped \<Rightarrow> 'a scoped \<Rightarrow> bool" where
  "hides s s' \<longleftrightarrow> extends s s' \<and>
     (\<forall>t d. (t, d) \<in> dom (su_uf s') - dom (su_uf s) \<longrightarrow> t \<in> set (su_scopes s) \<longrightarrow>
        t = su_global s \<and> resolve s d = None)"

lemma block_hides:
  assumes "su_inv s" "extends (su_open s) s'" "su_inv s'"
  shows "su_inv (su_close s') \<and> hides s (su_close s')"
proof -
  have sc: "su_scopes s' = su_scopes s @ [su_current s + 1]" "su_scopes s \<noteq> []"
    using assms(1,2) by (auto simp: extends_def su_open_def su_inv_def)
  then have cl: "su_close s' = s'\<lparr>su_scopes := su_scopes s\<rparr>" by (simp add: su_close_def)
  have fresh: "su_current s + 1 \<notin> set (su_scopes s)" using assms(1) by (auto simp: su_inv_def)
  have none: "resolve (su_open s) d = None \<Longrightarrow> resolve s d = None" for d
    by (auto simp: resolve_None su_open_def)
  have new: "t = su_current s + 1 \<or> (t = su_global s \<and> resolve s d = None)"
    if "(t, d) \<in> dom (su_uf s') - dom (su_uf s)" "t \<in> set (su_scopes s)" for t d
  proof -
    have "(t, d) \<in> dom (su_uf s') - dom (su_uf (su_open s))" "t \<in> set (su_scopes (su_open s))"
      using that by (simp_all add: su_open_def)
    then have "t = last (su_scopes (su_open s)) \<or> (t = su_global (su_open s) \<and> resolve (su_open s) d = None)"
      using assms(2) unfolding extends_def by blast
    then show ?thesis using none by (auto simp: su_open_def)
  qed
  have keep: "(t, d) \<in> dom (su_uf s') - dom (su_uf s) \<Longrightarrow> t \<in> set (su_scopes s) \<Longrightarrow>
      t = su_global s \<and> resolve s d = None" for t d
    using new [of t d] fresh by auto
  moreover have "su_global s' = su_global s" "su_current s \<le> su_current s'" "dom (su_uf s) \<subseteq> dom (su_uf s')"
    using assms(2) by (auto simp: extends_def su_open_def)
  ultimately have "extends s (su_close s')"
    unfolding extends_def cl by simp
  with keep have "hides s (su_close s')" by (simp add: hides_def cl)
  then show ?thesis using su_close_inv [OF assms(3)] by simp
qed

lemma run_append: "su_run lt s (p @ q) = Option.bind (su_run lt s p) (\<lambda>s'. su_run lt s' q)"
  by (induction p arbitrary: s) (auto simp: bind_assoc split: Option.bind_splits)

lemma balanced_run:
  assumes "balanced qs" "su_inv s"
  shows "\<exists>s'. su_run lt s qs = Some s' \<and> su_inv s' \<and> extends s s'"
  using assms
proof (induction qs arbitrary: s rule: balanced.induct)
  case nil
  then show ?case by (simp add: extends_refl)
next
  case (simple q qs)
  obtain s1 where 1: "su_step lt s q = Some s1" "su_inv s1" "extends s s1"
    using simple_step [OF simple.prems simple.hyps(1,2)] by metis
  obtain s2 where 2: "su_run lt s1 qs = Some s2" "su_inv s2" "extends s1 s2"
    using simple.IH [OF 1(2)] by metis
  then show ?case using 1 extends_trans [OF 1(3) 2(3)] by simp
next
  case (block b qs)
  obtain s1 where 1: "su_run lt (su_open s) b = Some s1" "su_inv s1" "extends (su_open s) s1"
    using block.IH(1) [OF su_open_inv [OF block.prems]] by metis
  note h = block_hides [OF block.prems 1(3,2)]
  obtain s2 where 2: "su_run lt (su_close s1) qs = Some s2" "su_inv s2" "extends (su_close s1) s2"
    using block.IH(2) h by metis
  have "extends s s2" using extends_trans [of s "su_close s1"] h 2(3) by (simp add: hides_def)
  then show ?case using 1 2 by (simp add: run_append)
qed

lemma hides_resolve:
  assumes "hides s s'"
  shows "resolve s d = Some e \<Longrightarrow> resolve s' d = Some e"
    and "resolve s d = None \<Longrightarrow> resolve s' d = Some e \<Longrightarrow> e = (su_global s, d)"
proof -
  have ext: "su_scopes s' = su_scopes s" "dom (su_uf s) \<subseteq> dom (su_uf s')"
    using assms by (simp_all add: hides_def extends_def)
  show "resolve s' d = Some e" if "resolve s d = Some e"
    unfolding resolve_def ext(1)
  proof (rule find_scope_grow [OF that [unfolded resolve_def] ext(2)])
    show "\<forall>t \<in> set (rev (su_scopes s)). (t, d) \<in> dom (su_uf s') \<longrightarrow> (t, d) \<in> dom (su_uf s)"
      using assms that unfolding hides_def by (metis Diff_iff option.distinct(1) set_rev)
  qed
  assume none: "resolve s d = None" and some: "resolve s' d = Some e"
  have e: "e \<in> dom (su_uf s')" "fst e \<in> set (su_scopes s)" "snd e = d"
    using find_scope_Some [OF some [unfolded resolve_def]] ext(1) by auto
  then have "(fst e, d) \<in> dom (su_uf s') - dom (su_uf s)"
    using none by (auto simp: resolve_None)
  then have "fst e = su_global s" using assms e(2) unfolding hides_def by blast
  then show "e = (su_global s, d)" using e(3) by (metis prod.collapse)
qed

section \<open>Properties\<close>

text \<open>
  C10: whatever registrations, merges and nested scopes happen between opening a scope and
  closing it, the run never fails, the open scopes are those of before, and every name that
  resolved before resolves to the same entry afterwards. A name that did not resolve before may
  resolve afterwards, but only to the entry of the global scope (a merge inside the block registers
  its arguments there): no entry of the closed scope stays visible.
\<close>

theorem scope_restores_names:
  assumes "su_inv s" "balanced qs"
  shows "\<exists>s'. su_run lt s (Open # qs @ [Close]) = Some s' \<and> su_inv s' \<and> su_scopes s' = su_scopes s \<and>
    (\<forall>d e. resolve s d = Some e \<longrightarrow> resolve s' d = Some e) \<and>
    (\<forall>d e. resolve s d = None \<longrightarrow> resolve s' d = Some e \<longrightarrow> e = (su_global s, d))"
proof -
  obtain s1 where 1: "su_run lt (su_open s) qs = Some s1" "su_inv s1" "extends (su_open s) s1"
    using balanced_run [OF assms(2) su_open_inv [OF assms(1)]] by metis
  note h = block_hides [OF assms(1) 1(3,2)]
  have "su_run lt s (Open # qs @ [Close]) = Some (su_close s1)" using 1 by (simp add: run_append)
  moreover have "su_scopes (su_close s1) = su_scopes s" using h by (simp add: hides_def extends_def)
  ultimately show ?thesis using h hides_resolve [OF conjunct2 [OF h]] by blast
qed

theorem scope_restores_names_witness:
  "\<exists>s'. su_run (<) (snd (su_push su_new 3)) (Open # [Push 3, Merge 3 (4::nat)] @ [Close]) = Some s' \<and>
     resolve s' 3 = Some (0, 3) \<and> resolve s' 4 = Some (0, 4)"
proof -
  let ?s = "snd (su_push su_new (3::nat))"
  have s: "su_inv ?s" using push_step [OF su_new_inv, of 3] by (metis surjective_pairing)
  have b: "balanced [Push 3, Merge 3 (4::nat)]" by (auto intro: balanced.intros)
  have r: "resolve ?s 3 = Some (0, 3)" by (simp add: resolve_def su_push_def su_new_def uf_insert_def)
  obtain s' where s': "su_run (<) ?s (Open # [Push 3, Merge 3 4] @ [Close]) = Some s'"
    "resolve s' 3 = Some (0, 3)" using scope_restores_names [OF s b, of "(<)"] r by blast
  moreover have "resolve s' 4 = Some (0, 4)"
    using s'(1) by (auto simp: resolve_def su_push_def su_new_def su_open_def su_close_def su_merge_def
        su_insert_def uf_insert_def less_merge_def uf_root.simps scoped_less_def)
  ultimately show ?thesis by blast
qed

end
