(* ===== verification/Union_Find_Order.thy ===== *)
theory Union_Find_Order imports Union_Find begin

text \<open>
  What the two merge policies of \<^verbatim>\<open>src/union_find.h\<close> buy: by rank, chains of parents are
  logarithmic in the size of the class; by comparator, the representative of a class is its
  least element.
\<close>

section \<open>Ranks bound the chains\<close>

text \<open>
  Ranks grow along every chain, a root of rank \<open>k\<close> represents at least \<open>2 ^ k\<close> elements, and
  elements not yet present have rank 0.
\<close>

definition ranked :: "('a \<rightharpoonup> nat) \<Rightarrow> ('a \<rightharpoonup> 'a) \<Rightarrow> bool" where
  "ranked rank m \<longleftrightarrow> finite (dom m) \<and>
     (\<forall>x p. m x = Some p \<longrightarrow> p \<noteq> x \<longrightarrow> rank_of rank x < rank_of rank p) \<and>
     (\<forall>r. m r = Some r \<longrightarrow> 2 ^ rank_of rank r \<le> card {y. rep_of m y r}) \<and>
     (\<forall>x. x \<notin> dom m \<longrightarrow> rank_of rank x = 0)"

inductive chain :: "('a \<rightharpoonup> 'a) \<Rightarrow> 'a \<Rightarrow> 'a \<Rightarrow> nat \<Rightarrow> bool" for m where
  root: "m r = Some r \<Longrightarrow> chain m r r 0"
| step: "m x = Some p \<Longrightarrow> p \<noteq> x \<Longrightarrow> chain m p r k \<Longrightarrow> chain m x r (Suc k)"

lemma chain_rep: "chain m x r k \<Longrightarrow> rep_of m x r"
  by (induction rule: chain.induct) (auto intro: rep_of.intros)

lemma ranked_chain: "chain m x r k \<Longrightarrow> ranked rank m \<Longrightarrow> rank_of rank x + k \<le> rank_of rank r"
proof (induction rule: chain.induct)
  case (step x p r k)
  then have "rank_of rank x < rank_of rank p" by (auto simp: ranked_def)
  with step show ?case by simp
qed simp

lemma ranked_chain_log:
  assumes "chain m x r k" "ranked rank m"
  shows "2 ^ k \<le> card {y. rep_of m y r}"
proof -
  have "m r = Some r" using chain_rep [OF assms(1)] by (rule rep_of_root)
  then have "2 ^ rank_of rank r \<le> card {y. rep_of m y r}" using assms(2) by (simp add: ranked_def)
  moreover have "(2::nat) ^ k \<le> 2 ^ rank_of rank r" using ranked_chain [OF assms] by simp
  ultimately show ?thesis by (rule order.trans [rotated])
qed

lemma ranked_rep: "rep_of m x r \<Longrightarrow> ranked rank m \<Longrightarrow> r = x \<or> rank_of rank x < rank_of rank r"
proof (induction rule: rep_of.induct)
  case (step x p r)
  then have "rank_of rank x < rank_of rank p" by (auto simp: ranked_def)
  with step show ?case by auto
qed simp

lemma class_finite: "finite (dom m) \<Longrightarrow> finite {y. rep_of m y r}"
  by (erule finite_subset [rotated]) (auto dest: rep_of_dom)

lemma ranked_insert:
  assumes "uf_wf m" "ranked rank m"
  shows "ranked rank (snd (uf_insert m x))"
proof (cases "x \<in> dom m")
  case False
  have rep: "rep_of (snd (uf_insert m x)) y r \<longleftrightarrow> rep_of m y r \<or> (y = x \<and> r = x)" for y r
    using uf_insert_rep [OF assms(1), of x] False by auto
  have sub: "2 ^ rank_of rank r \<le> card {y. rep_of (snd (uf_insert m x)) y r}"
    if "snd (uf_insert m x) r = Some r" for r
  proof (cases "r = x")
    case True
    then have "{y. rep_of (snd (uf_insert m x)) y r} = {x}" using rep False by (auto dest: rep_of_dom)
    then show ?thesis using True False assms(2) by (simp add: ranked_def)
  next
    case r: False
    then have "{y. rep_of (snd (uf_insert m x)) y r} = {y. rep_of m y r}" "m r = Some r"
      using rep that False by (auto simp: uf_insert_def split: if_splits)
    then show ?thesis using assms(2) by (simp add: ranked_def)
  qed
  have "snd (uf_insert m x) = m(x \<mapsto> x)" using False by (auto simp: uf_insert_def)
  with sub show ?thesis using assms(2) by (auto simp: ranked_def)
qed (auto simp: uf_insert_def assms)

lemma ranked_roots:
  assumes "uf_wf m" "ranked rank m" "roots_found h (with_both m x y) x y rx ry m'"
  shows "ranked rank m'"
proof -
  let ?w = "with_both m x y"
  have w: "ranked rank ?w"
    unfolding with_both_def using assms(1,2) by (intro ranked_insert uf_insert_wf)
  have f: "dom m' = dom ?w" "\<And>a s. rep_of m' a s \<longleftrightarrow> rep_of ?w a s"
    "\<And>a. m' a = ?w a \<or> (\<exists>r. rep_of ?w a r \<and> m' a = Some r)"
    using assms(3) by (simp_all add: roots_found_def)
  have up: "rank_of rank a < rank_of rank p" if "m' a = Some p" "p \<noteq> a" for a p
    using f(3) [of a] that w ranked_rep [of ?w a p rank] by (auto simp: ranked_def)
  have card: "2 ^ rank_of rank r \<le> card {y. rep_of m' y r}" if "m' r = Some r" for r
  proof -
    have "rep_of m' r r" using that by (rule rep_of.root)
    then have "?w r = Some r" using f(2) rep_of_root by metis
    then show ?thesis using w f(2) by (simp add: ranked_def)
  qed
  show ?thesis using w up card f(1) unfolding ranked_def by auto
qed

text \<open>Linking: a strictly lower root below a higher one, or on a tie with the rank raised.\<close>

lemma ranked_link:
  assumes m: "ranked rank m" and ab: "m a = Some a" "m b = Some b" "a \<noteq> b"
    and k: "rank_of rank a \<le> k" "rank_of rank b \<le> k" "rank_of rank a < k"
      "k = rank_of rank b \<or> (k = Suc (rank_of rank b) \<and> rank_of rank a = rank_of rank b)"
  shows "ranked (rank(b \<mapsto> k)) (m(a \<mapsto> b))"
proof -
  let ?m = "m(a \<mapsto> b)" and ?r = "rank(b \<mapsto> k)"
  note rep = rep_of_link [OF ab]
  have fin: "finite (dom m)" using m by (simp add: ranked_def)
  have rank: "rank_of ?r z = (if z = b then k else rank_of rank z)" for z by (simp add: rank_of_def)
  have up: "rank_of ?r z < rank_of ?r p" if "?m z = Some p" "p \<noteq> z" for z p
  proof (cases "z = a")
    case True
    then have "p = b" using that by simp
    then show ?thesis using True k(3) ab(3) rank [of a] rank [of b] by simp
  next
    case False
    then have "m z = Some p" "z \<noteq> b" using that ab by auto
    then have "rank_of rank z < rank_of rank p" using m that(2) by (simp add: ranked_def)
    then show ?thesis using \<open>z \<noteq> b\<close> k(2) by (auto simp: rank)
  qed
  have card: "2 ^ rank_of ?r z \<le> card {y. rep_of ?m y z}" if "?m z = Some z" for z
  proof -
    have z: "m z = Some z" "z \<noteq> a" using that ab by (auto split: if_splits)
    show ?thesis
    proof (cases "z = b")
      case True
      have "rep_of ?m y b \<longleftrightarrow> rep_of m y a \<or> rep_of m y b" for y
        unfolding rep using ab(3) by (metis linked_def)
      then have "{y. rep_of ?m y z} = {y. rep_of m y a} \<union> {y. rep_of m y b}"
        unfolding True by (simp only: Collect_disj_eq)
      moreover have "{y. rep_of m y a} \<inter> {y. rep_of m y b} = {}" using ab(3) by (auto dest: rep_of_unique)
      ultimately have "card {y. rep_of ?m y z} = card {y. rep_of m y a} + card {y. rep_of m y b}"
        using class_finite [OF fin] by (simp add: card_Un_disjoint)
      moreover have "2 ^ rank_of rank a \<le> card {y. rep_of m y a}" "2 ^ rank_of rank b \<le> card {y. rep_of m y b}"
        using m ab by (simp_all add: ranked_def)
      ultimately show ?thesis using k(4) True by (auto simp: rank)
    next
      case False
      then have "{y. rep_of ?m y z} = {y. rep_of m y z}" using rep z by (auto simp: linked_def)
      then show ?thesis using m z False by (simp add: ranked_def rank)
    qed
  qed
  have "rank_of ?r z = 0" if "z \<notin> dom ?m" for z
    using that m ab by (auto simp: ranked_def rank)
  then show ?thesis using fin up card unfolding ranked_def by simp
qed

lemma ranked_link_strict:
  assumes "ranked rank m" "m a = Some a" "m b = Some b" "rank_of rank a < rank_of rank b"
  shows "ranked rank (m(a \<mapsto> b))"
proof -
  have "ranked (rank(b \<mapsto> rank_of rank b)) (m(a \<mapsto> b))"
    using assms by (intro ranked_link) auto
  moreover have "rank_of (rank(b \<mapsto> rank_of rank b)) = rank_of rank" by (auto simp: rank_of_def)
  ultimately show ?thesis by (simp add: ranked_def)
qed

definition rank_inv :: "'a uf_by_rank \<Rightarrow> bool" where
  "rank_inv s \<longleftrightarrow> uf_wf (rk_map s) \<and> ranked (rk_rank s) (rk_map s)"

lemma rank_merge_ranked:
  assumes "rank_inv s" "rank_merge s x y = Some (r, s')"
  shows "rank_inv s'"
proof -
  have s: "uf_wf (rk_map s)" "ranked (rk_rank s) (rk_map s)" using assms(1) by (simp_all add: rank_inv_def)
  obtain h where h: "descends h (rk_map s)" using s(1) by (auto simp: uf_wf_def)
  obtain rx m1 ry m2 where f: "uf_root (rk_map s) x = Some (rx, m1)" "uf_root m1 y = Some (ry, m2)"
    "roots_found h (with_both (rk_map s) x y) x y rx ry m2" using both_roots [OF h] by metis
  note m2 = ranked_roots [OF s f(3)]
  have roots: "m2 rx = Some rx" "m2 ry = Some ry"
    using f(3) rep_of_root unfolding roots_found_def by metis+
  have "uf_wf (rk_map s')"
    using rank_merge_merged [OF s(1) assms(2)] by (simp add: merged_def)
  moreover have "ranked (rk_rank s') (rk_map s')"
  proof (cases "rank_of (rk_rank s) rx" "rank_of (rk_rank s) ry" rule: linorder_cases)
    case less
    then show ?thesis
      using assms(2) f(1,2) m2 ranked_link_strict [OF m2 roots(1,2) less]
      by (auto simp: rank_merge_def Let_def split: if_splits)
  next
    case greater
    then show ?thesis
      using assms(2) f(1,2) m2 ranked_link_strict [OF m2 roots(2,1) greater]
      by (auto simp: rank_merge_def Let_def split: if_splits)
  next
    case equal
    show ?thesis
    proof (cases "rx = ry")
      case True
      then show ?thesis using assms(2) f(1,2) m2 by (auto simp: rank_merge_def)
    next
      case False
      then have "ranked ((rk_rank s)(rx \<mapsto> Suc (rank_of (rk_rank s) rx))) (m2(ry \<mapsto> rx))"
        using equal by (intro ranked_link [OF m2 roots(2,1)]) auto
      then show ?thesis
        using assms(2) f(1,2) equal False by (auto simp: rank_merge_def Let_def)
    qed
  qed
  ultimately show ?thesis by (simp add: rank_inv_def)
qed

section \<open>The least element represents\<close>

definition least_first :: "('a \<Rightarrow> 'a \<Rightarrow> bool) \<Rightarrow> ('a \<rightharpoonup> 'a) \<Rightarrow> bool" where
  "least_first lt m \<longleftrightarrow> (\<forall>x p. m x = Some p \<longrightarrow> p = x \<or> lt p x)"

lemma least_first_rep:
  assumes "transp lt" "least_first lt m" "rep_of m x r"
  shows "r = x \<or> lt r x"
  using assms(3)
proof (induction rule: rep_of.induct)
  case (step x p r)
  then have "lt p x" using assms(2) by (auto simp: least_first_def)
  with step show ?case using assms(1) by (auto dest: transpD)
qed simp

lemma less_merge_least:
  assumes lt: "transp lt" "totalp lt" and m: "uf_wf m" "least_first lt m"
    and res: "less_merge lt m x y = Some (r, m')"
  shows "least_first lt m'"
proof -
  obtain h where h: "descends h m" using m(1) by (auto simp: uf_wf_def)
  obtain rx m1 ry m2 where f: "uf_root m x = Some (rx, m1)" "uf_root m1 y = Some (ry, m2)"
    "roots_found h (with_both m x y) x y rx ry m2" using both_roots [OF h] by metis
  let ?w = "with_both m x y"
  have w: "least_first lt ?w"
    using m(2) by (auto simp: least_first_def with_both_def uf_insert_def split: if_splits)
  have "m2 a = ?w a \<or> (\<exists>r. rep_of ?w a r \<and> m2 a = Some r)" for a
    using f(3) by (simp add: roots_found_def)
  then have m2: "least_first lt m2"
    using w least_first_rep [OF lt(1) w] unfolding least_first_def by (metis option.inject)
  have "lt rx ry \<or> lt ry rx" if "rx \<noteq> ry" using lt(2) that by (auto dest: totalpD)
  then show ?thesis
    using res f(1,2) m2 unfolding less_merge_def least_first_def
    by (auto split: if_splits) metis+
qed

section \<open>Properties\<close>

text \<open>
  C9: merging by rank keeps the structure acyclic, joins exactly the classes of its two
  arguments, returns their common root, and keeps every chain of parents logarithmic: a chain
  of \<open>k\<close> steps ends in a root that represents at least \<open>2 ^ k\<close> elements.
\<close>

theorem rank_merge_correct:
  assumes "rank_inv s"
  shows "\<exists>r s'. rank_merge s x y = Some (r, s') \<and> rank_inv s' \<and>
    classes (rk_map s') = joined (classes (rk_map s)) x y \<and>
    dom (rk_map s') = insert y (insert x (dom (rk_map s))) \<and>
    rep_of (rk_map s') x r \<and> rep_of (rk_map s') y r \<and>
    (\<forall>a b k. chain (rk_map s') a b k \<longrightarrow> 2 ^ k \<le> card {c. rep_of (rk_map s') c b})"
proof -
  have m: "uf_wf (rk_map s)" using assms by (simp add: rank_inv_def)
  obtain r s' where r: "rank_merge s x y = Some (r, s')" using rank_merge_total [OF m] by metis
  have "rank_inv s'" by (rule rank_merge_ranked [OF assms r])
  moreover have "merged (rk_map s) x y r (rk_map s')" by (rule rank_merge_merged [OF m r])
  ultimately show ?thesis
    using r ranked_chain_log [where m = "rk_map s'" and rank = "rk_rank s'"]
    by (auto simp: merged_def rank_inv_def)
qed

definition empty_by_rank :: "nat uf_by_rank" where
  "empty_by_rank = \<lparr>rk_map = Map.empty, rk_rank = Map.empty\<rparr>"

lemma empty_by_rank_inv: "rank_inv empty_by_rank"
  by (simp add: rank_inv_def empty_by_rank_def uf_wf_def descends_def ranked_def rank_of_def)

theorem rank_merge_correct_witness:
  "\<exists>s'. rank_merge empty_by_rank 1 2 = Some (1, s') \<and> rk_map s' = [1 \<mapsto> 1, 2 \<mapsto> 1] \<and>
     rk_rank s' = [1 \<mapsto> 1] \<and> (1, 2) \<in> classes (rk_map s')"
proof -
  obtain r s' where r: "rank_merge empty_by_rank 1 2 = Some (r, s')"
    "rep_of (rk_map s') 1 r" "rep_of (rk_map s') 2 r"
    using rank_merge_correct [OF empty_by_rank_inv, of 1 2] by blast
  moreover have "rank_merge empty_by_rank 1 2 = Some (1, \<lparr>rk_map = [1 \<mapsto> 1, 2 \<mapsto> 1], rk_rank = [1 \<mapsto> 1]\<rparr>)"
    by (simp add: rank_merge_def empty_by_rank_def uf_root.simps uf_insert_def rank_of_def fun_upd_twist)
  ultimately show ?thesis by (auto simp: classes_iff)
qed

text \<open>
  Merging by a comparator that totally orders the elements joins exactly the classes of the
  two arguments, and the root of every class is its least element, the returned one included.
\<close>

theorem less_merge_correct:
  assumes "transp lt" "totalp lt" "uf_wf m" "least_first lt m"
  shows "\<exists>r m'. less_merge lt m x y = Some (r, m') \<and> uf_wf m' \<and> least_first lt m' \<and>
    classes m' = joined (classes m) x y \<and> rep_of m' x r \<and> rep_of m' y r \<and>
    (\<forall>a b. rep_of m' a b \<longrightarrow> b = a \<or> lt b a)"
proof -
  obtain r m' where r: "less_merge lt m x y = Some (r, m')" using less_merge_total [OF assms(3)] by metis
  have "least_first lt m'" by (rule less_merge_least [OF assms r])
  moreover have "merged m x y r m'" by (rule less_merge_merged [OF assms(3) r])
  ultimately show ?thesis
    using r least_first_rep [OF assms(1)] by (auto simp: merged_def)
qed

theorem less_merge_correct_witness:
  "\<exists>m'. less_merge (<) [5 \<mapsto> 5, 7 \<mapsto> (5::nat)] 7 3 = Some (3, m') \<and> (7, 3) \<in> classes m'"
proof -
  let ?m = "[5 \<mapsto> 5, 7 \<mapsto> (5::nat)]"
  have "uf_wf ?m" "least_first (<) ?m"
    by (auto simp: uf_wf_def descends_def least_first_def intro!: exI [of _ id])
  from less_merge_correct [OF _ _ this, of 7 3]
  obtain r m' where r: "less_merge (<) ?m 7 3 = Some (r, m')" "rep_of m' 7 r" "rep_of m' 3 r"
    by auto
  moreover have "\<exists>n. less_merge (<) ?m 7 3 = Some (3, n)"
    by (simp add: less_merge_def uf_root.simps uf_insert_def)
  ultimately show ?thesis by (auto simp: classes_iff)
qed

text \<open>
  A sequence of merges by rank never fails and leaves exactly the least symmetric and
  transitive relation that holds the former classes and every merged pair.
\<close>

theorem rank_merge_sequence:
  assumes "uf_wf (rk_map s)"
  shows "\<exists>s'. by_rank.merge_list s ps = Some s' \<and>
    classes (rk_map s') = (classes (rk_map s) \<union> set ps \<union> (set ps)\<inverse>)\<^sup>+"
  using by_rank.merge_list_closure [OF assms] by blast

theorem rank_merge_sequence_witness:
  "\<exists>s'. by_rank.merge_list empty_by_rank [(1, 2), (3, 4), (2, 4)] = Some s' \<and>
     (1, 3) \<in> classes (rk_map s')"
proof -
  let ?ps = "[(1, 2), (3, 4), (2, 4)] :: (nat \<times> nat) list"
  let ?R = "classes (rk_map empty_by_rank) \<union> set ?ps \<union> (set ?ps)\<inverse>"
  have "uf_wf (rk_map empty_by_rank)" using empty_by_rank_inv by (simp add: rank_inv_def)
  from rank_merge_sequence [OF this, of ?ps] obtain s' where
    s': "by_rank.merge_list empty_by_rank ?ps = Some s'" "classes (rk_map s') = ?R\<^sup>+" by blast
  have "(1, 2) \<in> ?R" "(2, 4) \<in> ?R" "(4, 3) \<in> ?R" by simp_all
  then have "(1, 3) \<in> ?R\<^sup>+" by (meson trancl.r_into_trancl trancl_into_trancl)
  with s' show ?thesis by auto
qed

end
