(* ===== verification/Union_Find_Rings.thy ===== *)
theory Union_Find_Rings imports Union_Find begin

text \<open>
  \<^verbatim>\<open>src/union_find_with_sets.h\<close>: disjoint sets whose members are linked in a ring per set, so
  that a set can be listed. Tree nodes are compared by structure, so an element stands for the
  tree itself. A null dereference of the code (a missing ring entry) is \<open>None\<close>; that it does
  not happen is proved under the invariant.
\<close>

section \<open>Definitions\<close>

record 'a ws =
  ws_parent :: "'a \<rightharpoonup> 'a"
  ws_next :: "'a \<rightharpoonup> 'a"

definition ws_insert :: "'a ws \<Rightarrow> 'a \<Rightarrow> 'a ws" where
  "ws_insert s x =
     (if ws_parent s x \<noteq> None then s
      else s\<lparr>ws_parent := (ws_parent s)(x \<mapsto> x), ws_next := (ws_next s)(x \<mapsto> x)\<rparr>)"

partial_function (option) ws_find :: "'a ws \<Rightarrow> 'a \<Rightarrow> ('a \<times> 'a ws) option" where
  "ws_find s x =
     (case ws_parent s x of
        None \<Rightarrow> Some (x, ws_insert s x)
      | Some p \<Rightarrow>
          if p \<noteq> x then
            Option.bind (ws_find s p) (\<lambda>(r, s'). Some (r, s'\<lparr>ws_parent := (ws_parent s')(x \<mapsto> r)\<rparr>))
          else Some (p, s))"

declare ws_find.simps [code]

definition ws_contains :: "'a ws \<Rightarrow> 'a \<Rightarrow> bool" where
  "ws_contains s x \<longleftrightarrow> ws_parent s x \<noteq> None"

definition ws_merge :: "('a \<Rightarrow> 'a \<Rightarrow> bool) \<Rightarrow> 'a ws \<Rightarrow> 'a \<Rightarrow> 'a \<Rightarrow> ('a \<times> 'a ws) option" where
  "ws_merge lt s x y =
     do {
       (root_x, s) \<leftarrow> ws_find s x;
       (root_y, s) \<leftarrow> ws_find s y;
       if root_x = root_y then Some (root_x, s)
       else if \<not> lt root_x root_y \<and> \<not> lt root_y root_x then Some (root_x, s)
       else
         let (new_root, parent) =
               (if lt root_x root_y then (root_x, (ws_parent s)(root_y \<mapsto> root_x))
                else (root_y, (ws_parent s)(root_x \<mapsto> root_y)))
         in do {
              next_y \<leftarrow> ws_next s root_y;
              next_x \<leftarrow> ws_next s root_x;
              Some (new_root, s\<lparr>ws_parent := parent,
                ws_next := (ws_next s)(root_x \<mapsto> next_y, root_y \<mapsto> next_x)\<rparr>)
            }
     }"

definition ws_connected :: "'a ws \<Rightarrow> 'a \<Rightarrow> 'a \<Rightarrow> (bool \<times> 'a ws) option" where
  "ws_connected s x y =
     do { (rx, s) \<leftarrow> ws_find s x; (ry, s) \<leftarrow> ws_find s y; Some (rx = ry, s) }"

text \<open>The loop of \<^verbatim>\<open>get_set\<close> from the second element on.\<close>

partial_function (option) ring_walk :: "('a \<rightharpoonup> 'a) \<Rightarrow> 'a \<Rightarrow> 'a \<Rightarrow> 'a list \<Rightarrow> 'a list option" where
  "ring_walk nxt x current component =
     (if current \<noteq> x then
        Option.bind (nxt current) (\<lambda>c. ring_walk nxt x c (component @ [current]))
      else Some component)"

declare ring_walk.simps [code]

definition get_set :: "'a ws \<Rightarrow> 'a \<Rightarrow> 'a list option" where
  "get_set s x =
     (case ws_next s x of
        None \<Rightarrow> Some [x]
      | Some current \<Rightarrow> ring_walk (ws_next s) x current [x])"

text \<open>Absorbing another structure: its entries in the order its hash map yields them.\<close>

fun ws_merge_all :: "('a \<Rightarrow> 'a \<Rightarrow> bool) \<Rightarrow> 'a ws \<Rightarrow> ('a \<times> 'a) list \<Rightarrow> 'a ws option" where
  "ws_merge_all lt s [] = Some s"
| "ws_merge_all lt s ((v, p) # es) = Option.bind (ws_merge lt s v p) (\<lambda>(r, s'). ws_merge_all lt s' es)"

definition ws_clear :: "'a ws \<Rightarrow> 'a ws" where
  "ws_clear s = s\<lparr>ws_parent := Map.empty, ws_next := Map.empty\<rparr>"

definition collect_live_refs :: "'a ws \<Rightarrow> 'a set \<Rightarrow> 'a set" where
  "collect_live_refs s keep =
     keep \<union> dom (ws_parent s) \<union> ran (ws_parent s) \<union> dom (ws_next s) \<union> ran (ws_next s)"

section \<open>Rings\<close>

fun path :: "('a \<rightharpoonup> 'a) \<Rightarrow> 'a \<Rightarrow> 'a list \<Rightarrow> 'a \<Rightarrow> bool" where
  "path n x [] z \<longleftrightarrow> n x = Some z"
| "path n x (y # ys) z \<longleftrightarrow> n x = Some y \<and> path n y ys z"

definition ring :: "('a \<rightharpoonup> 'a) \<Rightarrow> 'a \<Rightarrow> 'a list \<Rightarrow> bool" where
  "ring n x ys \<longleftrightarrow> path n x ys x \<and> distinct (x # ys)"

lemma path_append: "path n x (ys @ w # zs) z \<longleftrightarrow> path n x ys w \<and> path n w zs z"
  by (induction ys arbitrary: x) auto

lemma path_head:
  "path n x ys z \<Longrightarrow> n' x' = n x \<Longrightarrow> (\<And>v. v \<in> set ys \<Longrightarrow> n' v = n v) \<Longrightarrow> path n' x' ys z"
  by (induction ys arbitrary: x x') auto

lemma path_start: "path n x ys z \<Longrightarrow> \<exists>v. n x = Some v"
  by (cases ys) auto

lemma ring_rotate:
  assumes "ring n x ys" "z \<in> set (x # ys)"
  shows "\<exists>zs. ring n z zs \<and> set (z # zs) = set (x # ys)"
proof (cases "z = x")
  case True
  with assms(1) show ?thesis by auto
next
  case False
  with assms(2) obtain as bs where ys: "ys = as @ z # bs" by (auto simp: in_set_conv_decomp)
  have "ring n z (bs @ x # as)" "set (z # bs @ x # as) = set (x # ys)"
    using assms(1) by (auto simp: ring_def ys path_append)
  then show ?thesis by blast
qed

text \<open>Exchanging the successors of two separate rings makes one ring of both.\<close>

lemma ring_splice:
  assumes a: "ring n x xs" and b: "ring n y ys" and disj: "set (x # xs) \<inter> set (y # ys) = {}"
    and n': "n' x = n y" "n' y = n x" "\<And>v. v \<noteq> x \<Longrightarrow> v \<noteq> y \<Longrightarrow> n' v = n v"
  shows "ring n' x (ys @ y # xs)"
proof -
  have ne: "\<And>v. v \<in> set ys \<Longrightarrow> v \<noteq> x \<and> v \<noteq> y" "\<And>v. v \<in> set xs \<Longrightarrow> v \<noteq> x \<and> v \<noteq> y"
    using a b disj by (auto simp: ring_def)
  have "path n' x ys y"
    using path_head [of n y ys y n' x] b n' ne(1) by (simp add: ring_def)
  moreover have "path n' y xs x"
    using path_head [of n x xs x n' y] a n' ne(2) by (simp add: ring_def)
  ultimately have "path n' x (ys @ y # xs) x" by (simp add: path_append)
  moreover have "distinct (x # ys @ y # xs)" using a b disj unfolding ring_def by auto
  ultimately show ?thesis by (simp add: ring_def)
qed

lemma ring_walk_path:
  "path n c cs x \<Longrightarrow> x \<notin> set (c # cs) \<Longrightarrow> ring_walk n x c acc = Some (acc @ c # cs)"
proof (induction cs arbitrary: c acc)
  case Nil
  then show ?case by (subst ring_walk.simps) (simp add: ring_walk.simps [of n x x])
next
  case (Cons d cs)
  then show ?case by (subst ring_walk.simps) auto
qed

section \<open>The invariant\<close>

definition class_of :: "('a \<rightharpoonup> 'a) \<Rightarrow> 'a \<Rightarrow> 'a set" where
  "class_of m x = {y. (x, y) \<in> classes m}"

definition rings_ok :: "('a \<rightharpoonup> 'a) \<Rightarrow> ('a \<rightharpoonup> 'a) \<Rightarrow> bool" where
  "rings_ok m n \<longleftrightarrow> dom n = dom m \<and>
     (\<forall>x \<in> dom m. \<exists>ys. ring n x ys \<and> set (x # ys) = class_of m x)"

definition ws_inv :: "'a ws \<Rightarrow> bool" where
  "ws_inv s \<longleftrightarrow> uf_wf (ws_parent s) \<and> rings_ok (ws_parent s) (ws_next s)"

lemma class_of_rep: "rep_of m x r \<Longrightarrow> class_of m x = {y. rep_of m y r}"
  by (auto simp: class_of_def classes_iff dest: rep_of_unique)

text \<open>The search of a ring structure is the search of its parent map.\<close>

lemma ws_find_present:
  assumes "descends h (ws_parent s)" "x \<in> dom (ws_parent s)"
  shows "\<exists>r m. uf_root (ws_parent s) x = Some (r, m) \<and> ws_find s x = Some (r, s\<lparr>ws_parent := m\<rparr>)"
  using assms
proof (induction "h x" arbitrary: x rule: less_induct)
  case less
  then obtain p where p: "ws_parent s x = Some p" by auto
  show ?case
  proof (cases "p = x")
    case True
    then have "uf_root (ws_parent s) x = Some (x, ws_parent s)" "ws_find s x = Some (x, s)"
      using p by (subst uf_root.simps, simp) (subst ws_find.simps, simp add: p True)
    then show ?thesis by simp
  next
    case False
    have hp: "h p < h x" "p \<in> dom (ws_parent s)" using less(2) p False by (auto dest: descendsD)
    obtain r m where IH: "uf_root (ws_parent s) p = Some (r, m)" "ws_find s p = Some (r, s\<lparr>ws_parent := m\<rparr>)"
      using less(1) [OF hp(1) less(2) hp(2)] by metis
    have "uf_root (ws_parent s) x = Some (r, m(x \<mapsto> r))"
      using p False IH(1) by (subst uf_root.simps) simp
    moreover have "ws_find s x = Some (r, s\<lparr>ws_parent := m(x \<mapsto> r)\<rparr>)"
      using p False IH(2) by (subst ws_find.simps) simp
    ultimately show ?thesis by metis
  qed
qed

lemma ws_find_total:
  assumes "descends h (ws_parent s)"
  shows "\<exists>r m. uf_root (ws_parent s) x = Some (r, m) \<and>
    ws_find s x = Some (r, s\<lparr>ws_parent := m, ws_next := ws_next (ws_insert s x)\<rparr>)"
proof (cases "x \<in> dom (ws_parent s)")
  case True
  then have "ws_next (ws_insert s x) = ws_next s" by (auto simp: ws_insert_def)
  then show ?thesis using ws_find_present [OF assms True] by auto
next
  case False
  then have "uf_root (ws_parent s) x = Some (x, (ws_parent s)(x \<mapsto> x))" "ws_find s x = Some (x, ws_insert s x)"
    by (subst uf_root.simps, auto simp: uf_insert_def domIff) (subst ws_find.simps, auto simp: domIff)
  then show ?thesis using False by (auto simp: ws_insert_def)
qed

lemma rings_ok_insert:
  assumes "ws_inv s"
  shows "ws_inv (ws_insert s x)" "ws_parent (ws_insert s x) = snd (uf_insert (ws_parent s) x)"
proof -
  show p: "ws_parent (ws_insert s x) = snd (uf_insert (ws_parent s) x)"
    by (simp add: ws_insert_def uf_insert_def)
  show "ws_inv (ws_insert s x)"
  proof (cases "x \<in> dom (ws_parent s)")
    case True
    then show ?thesis using assms by (auto simp: ws_insert_def)
  next
    case False
    let ?m = "ws_parent s" and ?n = "ws_next s"
    have wf: "uf_wf ?m" and ok: "rings_ok ?m ?n" using assms by (simp_all add: ws_inv_def)
    have rep: "rep_of (snd (uf_insert ?m x)) y r \<longleftrightarrow> rep_of ?m y r \<or> (y = x \<and> r = x)" for y r
      using uf_insert_rep [OF wf, of x] False by auto
    have cls: "class_of (snd (uf_insert ?m x)) y = (if y = x then {x} else class_of ?m y)" for y
    proof -
      have "\<not> rep_of ?m x r" "\<not> rep_of ?m r x" for r using False rep_of_dom [of ?m] by blast+
      then show ?thesis using rep by (auto simp: class_of_def classes_iff)
    qed
    have ins: "ws_next (ws_insert s x) = ?n(x \<mapsto> x)" "ws_parent (ws_insert s x) = ?m(x \<mapsto> x)"
      using False by (auto simp: ws_insert_def)
    have "\<exists>ys. ring (?n(x \<mapsto> x)) y ys \<and> set (y # ys) = class_of (snd (uf_insert ?m x)) y"
      if y: "y \<in> insert x (dom ?m)" for y
    proof (cases "y = x")
      case True
      then show ?thesis by (intro exI [of _ "[]"]) (simp add: ring_def cls)
    next
      case ne: False
      then obtain ys where ys: "ring ?n y ys" "set (y # ys) = class_of ?m y"
        using ok y ne unfolding rings_ok_def by blast
      have "x \<notin> set (y # ys)" using ys(2) False by (auto simp: class_of_def classes_iff dest: rep_of_dom)
      then have "\<And>v. v \<in> set (y # ys) \<Longrightarrow> (?n(x \<mapsto> x)) v = ?n v" by auto
      then have "ring (?n(x \<mapsto> x)) y ys"
        using ys(1) path_head [of ?n y ys y "?n(x \<mapsto> x)" y] by (simp add: ring_def del: fun_upd_apply)
      then show ?thesis using ys(2) ne cls by auto
    qed
    moreover have "dom (?n(x \<mapsto> x)) = dom (?m(x \<mapsto> x))" using ok by (simp add: rings_ok_def)
    ultimately show ?thesis
      using uf_insert_wf [OF wf, of x] p ins False
      unfolding ws_inv_def rings_ok_def by (simp add: ins del: fun_upd_apply)
  qed
qed


text \<open>Both searches of a merge: parents as in the plain structure, rings of single new elements.\<close>

lemma ws_both:
  assumes s: "ws_inv s"
  shows "\<exists>h rx s1 ry s2. ws_find s x = Some (rx, s1) \<and> ws_find s1 y = Some (ry, s2) \<and>
    roots_found h (with_both (ws_parent s) x y) x y rx ry (ws_parent s2) \<and>
    rings_ok (with_both (ws_parent s) x y) (ws_next s2)"
proof -
  let ?m = "ws_parent s"
  obtain h where h: "descends h ?m" using s by (auto simp: ws_inv_def uf_wf_def)
  obtain rx m1 ry m2 where f: "uf_root ?m x = Some (rx, m1)" "uf_root m1 y = Some (ry, m2)"
    "roots_found h (with_both ?m x y) x y rx ry m2" using both_roots [OF h] by metis
  obtain r m where "uf_root ?m x = Some (r, m)"
    "ws_find s x = Some (r, s\<lparr>ws_parent := m, ws_next := ws_next (ws_insert s x)\<rparr>)"
    using ws_find_total [OF h] by metis
  with f(1) have fx: "ws_find s x = Some (rx, s\<lparr>ws_parent := m1, ws_next := ws_next (ws_insert s x)\<rparr>)"
    by simp
  let ?s1 = "s\<lparr>ws_parent := m1, ws_next := ws_next (ws_insert s x)\<rparr>"
  obtain r1 n1 where "uf_root ?m x = Some (r1, n1)" "root_found h (snd (uf_insert ?m x)) x r1 n1"
    using uf_root_total [OF h, of x] by metis
  then have m1: "root_found h (snd (uf_insert ?m x)) x rx m1" using f(1) by simp
  then have h1: "descends h (ws_parent ?s1)" and d1: "dom m1 = insert x (dom ?m)"
    by (simp_all add: root_found_def)
  obtain r' m' where "uf_root m1 y = Some (r', m')"
    "ws_find ?s1 y = Some (r', ?s1\<lparr>ws_parent := m', ws_next := ws_next (ws_insert ?s1 y)\<rparr>)"
    using ws_find_total [OF h1, of y] by auto
  with f(2) have fy: "ws_find ?s1 y = Some (ry, ?s1\<lparr>ws_parent := m2, ws_next := ws_next (ws_insert ?s1 y)\<rparr>)"
    by simp
  let ?i = "ws_insert (ws_insert s x) y"
  have "ws_next (ws_insert ?s1 y) = ws_next ?i"
    using d1 by (auto simp: ws_insert_def domIff split: if_splits)
  moreover have "ws_inv ?i" "ws_parent ?i = with_both ?m x y"
    using rings_ok_insert [OF rings_ok_insert(1) [OF s]] rings_ok_insert(2) [OF s]
    by (simp_all add: with_both_def)
  ultimately have "rings_ok (with_both ?m x y) (ws_next (ws_insert ?s1 y))"
    by (simp add: ws_inv_def)
  then show ?thesis using fx fy f(3) 
    by (intro exI [of _ h] exI [of _ rx] exI [of _ ?s1] exI [of _ ry]
          exI [of _ "?s1\<lparr>ws_parent := m2, ws_next := ws_next (ws_insert ?s1 y)\<rparr>"] conjI) simp_all
qed

lemma rings_ok_cong:
  assumes "\<And>a r. rep_of m' a r \<longleftrightarrow> rep_of w a r" "dom m' = dom w" "rings_ok w n"
  shows "rings_ok m' n"
proof -
  have "classes m' = classes w" using assms(1) by (rule classes_cong)
  then show ?thesis using assms(2,3) by (simp add: rings_ok_def class_of_def)
qed

text \<open>Exchanging the successors of two roots gives the rings of the linked map.\<close>

lemma rings_ok_link:
  assumes ok: "rings_ok w n" and x: "w rx = Some rx" and y: "w ry = Some ry" and ne: "rx \<noteq> ry"
    and ab: "{a, b} = {rx, ry}" and d: "dom m' = dom w"
    and rep: "\<And>z r. rep_of m' z r \<longleftrightarrow> (\<exists>s. rep_of w z s \<and> r = linked a b s)"
    and nx: "n rx = Some vx" "n ry = Some vy"
  shows "rings_ok m' (n(rx \<mapsto> vy, ry \<mapsto> vx))"
proof -
  let ?n = "n(rx \<mapsto> vy, ry \<mapsto> vx)"
  have rx: "rep_of w rx rx" "rep_of w ry ry" using x y by (simp_all add: rep_of.root)
  obtain xs ys where xs: "ring n rx xs" "set (rx # xs) = class_of w rx"
    and ys: "ring n ry ys" "set (ry # ys) = class_of w ry"
    using ok x y unfolding rings_ok_def by blast
  note cx = class_of_rep [OF rx(1)] and cy = class_of_rep [OF rx(2)]
  have disj: "set (rx # xs) \<inter> set (ry # ys) = {}"
    unfolding xs(2) ys(2) cx cy using ne by (auto dest: rep_of_unique)
  have big: "ring ?n rx (ys @ ry # xs)"
    by (rule ring_splice [OF xs(1) ys(1) disj]) (use nx ne in auto)
  have union: "set (rx # ys @ ry # xs) = class_of w rx \<union> class_of w ry"
    using xs(2) ys(2) by auto
  have sel: "(a = rx \<and> b = ry) \<or> (a = ry \<and> b = rx)" using ab by (auto simp: doubleton_eq_iff)
  show ?thesis
    unfolding rings_ok_def
  proof (intro conjI ballI)
    show "dom ?n = dom m'" using ok d x y by (auto simp: rings_ok_def)
    fix z assume "z \<in> dom m'"
    then have zw: "z \<in> dom w" using d by simp
    then obtain zs where zs: "ring n z zs" "set (z # zs) = class_of w z"
      using ok unfolding rings_ok_def by blast
    then have "(z, z) \<in> classes w" unfolding class_of_def by auto
    then obtain s where s: "rep_of w z s" by (auto simp: classes_iff)
    note cz = class_of_rep [OF s]
    have zs': "rep_of m' z (linked a b s)" using rep s by blast
    note cz' = class_of_rep [OF zs']
    show "\<exists>zs. ring ?n z zs \<and> set (z # zs) = class_of m' z"
    proof (cases "s = rx \<or> s = ry")
      case True
      then have l: "linked a b s = b" using sel by (auto simp: linked_def)
      have "rep_of m' v b \<longleftrightarrow> rep_of w v rx \<or> rep_of w v ry" for v
        unfolding rep using sel ne by (metis linked_def)
      then have "class_of m' z = class_of w rx \<union> class_of w ry"
        unfolding cz' cx cy l by (simp add: Collect_disj_eq)
      moreover have "z \<in> set (rx # ys @ ry # xs)" unfolding union cx cy using True s by auto
      ultimately show ?thesis using ring_rotate [OF big] union by metis
    next
      case False
      then have l: "linked a b s = s" using sel by (auto simp: linked_def)
      have "rep_of m' v s \<longleftrightarrow> rep_of w v s" for v
        unfolding rep using False sel by (metis linked_def)
      then have "class_of m' z = class_of w z" unfolding cz' cz l by simp
      moreover have "rx \<notin> set (z # zs)" "ry \<notin> set (z # zs)"
        unfolding zs(2) cz using False rx by (auto dest: rep_of_unique)
      then have "\<And>v. v \<in> set (z # zs) \<Longrightarrow> ?n v = n v" by auto
      then have "ring ?n z zs"
        using zs(1) path_head [of n z zs z ?n z] by (simp add: ring_def del: fun_upd_apply)
      ultimately show ?thesis using zs(2) by blast
    qed
  qed
qed

text \<open>
  What a merge leaves: the classes joined when the comparator tells the roots apart, the two
  elements merely inserted when it does not.
\<close>

definition ws_merged :: "('a \<Rightarrow> 'a \<Rightarrow> bool) \<Rightarrow> 'a ws \<Rightarrow> 'a \<Rightarrow> 'a \<Rightarrow> 'a \<Rightarrow> 'a ws \<Rightarrow> bool" where
  "ws_merged lt s x y r s' \<longleftrightarrow> ws_inv s' \<and>
     (\<exists>rx ry. rep_of (with_both (ws_parent s) x y) x rx \<and> rep_of (with_both (ws_parent s) x y) y ry \<and>
        r \<in> {rx, ry} \<and> rep_of (ws_parent s') x r \<and>
        classes (ws_parent s') =
          (if rx = ry \<or> lt rx ry \<or> lt ry rx then joined (classes (ws_parent s)) x y
           else classes (with_both (ws_parent s) x y)))"

lemma ws_merge_total:
  assumes s: "ws_inv s"
  shows "\<exists>r s'. ws_merge lt s x y = Some (r, s') \<and> ws_merged lt s x y r s'"
proof -
  let ?m = "ws_parent s" and ?w = "with_both (ws_parent s) x y"
  have wf: "uf_wf ?m" using s by (simp add: ws_inv_def)
  obtain h rx s1 ry s2 where f: "ws_find s x = Some (rx, s1)" "ws_find s1 y = Some (ry, s2)"
    "roots_found h ?w x y rx ry (ws_parent s2)" "rings_ok ?w (ws_next s2)"
    using ws_both [OF s] by metis
  have fs: "rep_of ?w x rx" "rep_of ?w y ry" "descends h (ws_parent s2)" "dom (ws_parent s2) = dom ?w"
    "\<And>a r. rep_of (ws_parent s2) a r \<longleftrightarrow> rep_of ?w a r" using f(3) by (simp_all add: roots_found_def)
  have inv2: "ws_inv s2"
    using rings_ok_cong [OF fs(5) fs(4) f(4)] fs(3) by (auto simp: ws_inv_def uf_wf_def)
  have cls2: "classes (ws_parent s2) = classes ?w" using fs(5) by (rule classes_cong)
  show ?thesis
  proof (cases "rx = ry \<or> (\<not> lt rx ry \<and> \<not> lt ry rx)")
    case True
    have "classes ?w = joined (classes ?m) x y" if "rx = ry"
      using roots_same [OF wf f(3) [folded that]] cls2 by simp
    then have "ws_merged lt s x y rx s2"
      unfolding ws_merged_def using inv2 fs(1,2,5) cls2 True by auto
    moreover have "ws_merge lt s x y = Some (rx, s2)" using True f(1,2) by (auto simp: ws_merge_def)
    ultimately show ?thesis by blast
  next
    case False
    then have ne: "rx \<noteq> ry" by simp
    have roots: "?w rx = Some rx" "?w ry = Some ry" using fs(1,2) rep_of_root by metis+
    have roots2: "ws_parent s2 rx = Some rx" "ws_parent s2 ry = Some ry"
      using fs(1,2) fs(5) rep_of_root by metis+
    obtain vx vy where v: "ws_next s2 rx = Some vx" "ws_next s2 ry = Some vy"
      using f(4) roots unfolding rings_ok_def by blast
    have link: "ws_merged lt s x y b (s2\<lparr>ws_parent := (ws_parent s2)(a \<mapsto> b),
        ws_next := (ws_next s2)(rx \<mapsto> vy, ry \<mapsto> vx)\<rparr>)" if ab: "{a, b} = {rx, ry}" for a b
    proof -
      have sel: "(a = rx \<and> b = ry) \<or> (a = ry \<and> b = rx)" using ab by (auto simp: doubleton_eq_iff)
      then have ab2: "ws_parent s2 a = Some a" "ws_parent s2 b = Some b" "a \<noteq> b" using roots2 ne by auto
      note l = roots_link [OF wf f(3) ab ne]
      have "rings_ok ((ws_parent s2)(a \<mapsto> b)) ((ws_next s2)(rx \<mapsto> vy, ry \<mapsto> vx))"
      proof (rule rings_ok_link [OF f(4) roots ne ab _ _ v])
        show "dom ((ws_parent s2)(a \<mapsto> b)) = dom ?w" using fs(4) ab2 by auto
        show "rep_of ((ws_parent s2)(a \<mapsto> b)) z r \<longleftrightarrow> (\<exists>s. rep_of ?w z s \<and> r = linked a b s)" for z r
          using rep_of_link [OF ab2] fs(5) by simp
      qed
      then show ?thesis
        unfolding ws_merged_def ws_inv_def using l fs(1,2) sel False
        by (auto simp del: fun_upd_apply)
    qed
    have "ws_merge lt s x y =
        (if lt rx ry then Some (rx, s2\<lparr>ws_parent := (ws_parent s2)(ry \<mapsto> rx),
            ws_next := (ws_next s2)(rx \<mapsto> vy, ry \<mapsto> vx)\<rparr>)
         else Some (ry, s2\<lparr>ws_parent := (ws_parent s2)(rx \<mapsto> ry),
            ws_next := (ws_next s2)(rx \<mapsto> vy, ry \<mapsto> vx)\<rparr>))"
      using f(1,2) False v by (auto simp: ws_merge_def Let_def)
    then show ?thesis
      using link [of ry rx] link [of rx ry] by (auto simp: insert_commute)
  qed
qed


section \<open>Properties\<close>

text \<open>
  C11: a merge never fails and keeps every class linked in one ring; it joins exactly the classes
  of its arguments when the comparator tells their roots apart, and only inserts the arguments
  when it does not.
\<close>

theorem ws_merge_correct:
  assumes "ws_inv s"
  shows "\<exists>r s'. ws_merge lt s x y = Some (r, s') \<and> ws_inv s' \<and>
    (\<exists>rx ry. rep_of (with_both (ws_parent s) x y) x rx \<and> rep_of (with_both (ws_parent s) x y) y ry \<and>
       r \<in> {rx, ry} \<and> rep_of (ws_parent s') x r \<and>
       classes (ws_parent s') =
         (if rx = ry \<or> lt rx ry \<or> lt ry rx then joined (classes (ws_parent s)) x y
          else classes (with_both (ws_parent s) x y)))"
  using ws_merge_total [OF assms] unfolding ws_merged_def by blast

definition ws_empty :: "nat ws" where
  "ws_empty = \<lparr>ws_parent = Map.empty, ws_next = Map.empty\<rparr>"

lemma ws_empty_inv: "ws_inv ws_empty"
  by (simp add: ws_inv_def ws_empty_def uf_wf_def descends_def rings_ok_def)

theorem ws_merge_correct_witness:
  "\<exists>s'. ws_merge (<) ws_empty 2 1 = Some (1, s') \<and> ws_inv s' \<and> get_set s' 2 = Some [2, 1]"
proof -
  obtain r s' where s': "ws_merge (<) ws_empty 2 1 = Some (r, s')" "ws_inv s'"
    using ws_merge_correct [OF ws_empty_inv, of "(<)" 2 1] by blast
  have "ws_merge (<) ws_empty 2 1 =
      Some (1, \<lparr>ws_parent = [1 \<mapsto> 1, 2 \<mapsto> 1], ws_next = [1 \<mapsto> 2, 2 \<mapsto> 1]\<rparr>)"
    by (simp add: ws_merge_def ws_empty_def ws_find.simps ws_insert_def fun_upd_twist Let_def)
  moreover have "get_set \<lparr>ws_parent = [1 \<mapsto> 1, 2 \<mapsto> 1], ws_next = [1 \<mapsto> 2, 2 \<mapsto> (1::nat)]\<rparr> 2 = Some [2, 1]"
    by (simp add: get_set_def ring_walk.simps)
  ultimately show ?thesis using s' by auto
qed

text \<open>
  C12: listing the set of an element ends and returns every member of its class once, the element
  first, and the element alone when it is not in the structure.
\<close>

theorem get_set_lists_class:
  assumes "ws_inv s"
  shows "\<exists>ys. get_set s x = Some (x # ys) \<and> distinct (x # ys) \<and>
    set (x # ys) = (if ws_contains s x then {y. (x, y) \<in> classes (ws_parent s)} else {x})"
proof (cases "ws_contains s x")
  case True
  then have "x \<in> dom (ws_parent s)" by (auto simp: ws_contains_def)
  then obtain ys where ys: "ring (ws_next s) x ys" "set (x # ys) = class_of (ws_parent s) x"
    using assms unfolding ws_inv_def rings_ok_def by blast
  have "get_set s x = Some (x # ys)"
  proof (cases ys)
    case Nil
    then show ?thesis using ys(1) by (simp add: get_set_def ring_def ring_walk.simps)
  next
    case (Cons c cs)
    then have "ws_next s x = Some c" "path (ws_next s) c cs x" "x \<notin> set (c # cs)"
      using ys(1) by (auto simp: ring_def)
    then show ?thesis using ring_walk_path [of "ws_next s" c cs x "[x]"] Cons by (simp add: get_set_def)
  qed
  then show ?thesis using ys True by (auto simp: ring_def class_of_def)
next
  case False
  then have "ws_next s x = None"
    using assms by (auto simp: ws_contains_def ws_inv_def rings_ok_def domIff)
  then show ?thesis using False by (simp add: get_set_def)
qed

lemma ws_three_built:
  "ws_merge (<) ws_empty 2 1 = Some (1, \<lparr>ws_parent = [1 \<mapsto> 1, 2 \<mapsto> 1], ws_next = [1 \<mapsto> 2, 2 \<mapsto> 1]\<rparr>)"
  "ws_merge (<) \<lparr>ws_parent = [1 \<mapsto> 1, 2 \<mapsto> 1], ws_next = [1 \<mapsto> 2, 2 \<mapsto> (1::nat)]\<rparr> 3 2 =
     Some (1, \<lparr>ws_parent = [1 \<mapsto> 1, 2 \<mapsto> 1, 3 \<mapsto> 1], ws_next = [1 \<mapsto> 3, 3 \<mapsto> 2, 2 \<mapsto> 1]\<rparr>)"
  by (simp_all add: ws_merge_def ws_empty_def ws_find.simps ws_insert_def fun_upd_twist Let_def)

theorem get_set_lists_class_witness:
  "\<exists>s1 s2. ws_merge (<) ws_empty 2 1 = Some (1, s1) \<and> ws_merge (<) s1 3 2 = Some (1, s2) \<and>
     get_set s2 3 = Some [3, 2, 1] \<and> {y. (3, y) \<in> classes (ws_parent s2)} = {1, 2, 3} \<and>
     get_set s2 7 = Some [7::nat]"
proof -
  let ?s1 = "\<lparr>ws_parent = [1 \<mapsto> 1, 2 \<mapsto> 1], ws_next = [1 \<mapsto> 2, 2 \<mapsto> (1::nat)]\<rparr>"
    and ?s2 = "\<lparr>ws_parent = [1 \<mapsto> 1, 2 \<mapsto> 1, 3 \<mapsto> 1], ws_next = [1 \<mapsto> 3, 3 \<mapsto> 2, 2 \<mapsto> (1::nat)]\<rparr>"
  have "ws_inv ?s1" using ws_merge_total [OF ws_empty_inv, of "(<)" 2 1] ws_three_built(1)
    by (auto simp: ws_merged_def)
  then have i: "ws_inv ?s2" using ws_merge_total [of ?s1 "(<)" 3 2] ws_three_built(2)
    by (auto simp: ws_merged_def)
  have g: "get_set ?s2 3 = Some [3, 2, 1]" by (simp add: get_set_def ring_walk.simps)
  moreover have "{y. (3, y) \<in> classes (ws_parent ?s2)} = {1, 2, 3}"
  proof -
    have "ws_contains ?s2 3" by (simp add: ws_contains_def)
    then obtain ys where ys: "get_set ?s2 3 = Some (3 # ys)"
      "set (3 # ys) = {y. (3, y) \<in> classes (ws_parent ?s2)}"
      using get_set_lists_class [OF i, of 3] by metis
    from ys(1) g have "ys = [2, 1]" by (simp only: option.inject list.inject)
    then have "{y. (3, y) \<in> classes (ws_parent ?s2)} = set [3, 2, 1]" using ys(2) by (simp only:)
    then show ?thesis by (simp only: set_simps) blast
  qed
  moreover have "get_set ?s2 7 = Some [7]"
  proof -
    have "\<not> ws_contains ?s2 7" by (simp add: ws_contains_def)
    then obtain ys where "get_set ?s2 7 = Some (7 # ys)" "distinct (7 # ys)" "set (7 # ys) = {7}"
      using get_set_lists_class [OF i, of 7] by metis
    moreover from this(2,3) have "ys = []" by (cases ys) auto
    ultimately show ?thesis by (simp only:)
  qed
  ultimately show ?thesis using ws_three_built by blast
qed

end
