(* ===== verification/Bounded_Cache.thy ===== *)
theory Bounded_Cache imports Tau_Prelude "HOL-Library.AList" begin

text \<open>
  \<^verbatim>\<open>src/bounded_cache.h\<close>: a map with a bound on its size and first-in first-out eviction. The
  underlying \<^verbatim>\<open>std::map\<close> is an association list with distinct keys, an iterator the key it
  stands at (iterators of a map are stable), and the runtime bound the value the pointer reads.
  The abstract model is the list of entries in insertion order.
\<close>

section \<open>Definitions\<close>

record ('k, 'v) bcache =
  bc_map :: "('k \<times> 'v) list"
  bc_order :: "'k list"
  bc_runtime :: "nat option"
  bc_max :: nat
  bc_evictions :: nat

definition bc_new :: "nat \<Rightarrow> nat option \<Rightarrow> ('k, 'v) bcache" where
  "bc_new mx rt = \<lparr>bc_map = [], bc_order = [], bc_runtime = rt, bc_max = mx, bc_evictions = 0\<rparr>"

definition bc_size :: "('k, 'v) bcache \<Rightarrow> nat" where
  "bc_size c = length (bc_map c)"

definition bc_empty :: "('k, 'v) bcache \<Rightarrow> bool" where
  "bc_empty c \<longleftrightarrow> bc_map c = []"

definition bc_bound :: "('k, 'v) bcache \<Rightarrow> nat" where
  "bc_bound c = (case bc_runtime c of Some b \<Rightarrow> b | None \<Rightarrow> bc_max c)"

definition bc_tracked :: "('k, 'v) bcache \<Rightarrow> bool" where
  "bc_tracked c \<longleftrightarrow> bc_max c \<noteq> 0 \<or> bc_runtime c \<noteq> None"

definition bc_find :: "('k, 'v) bcache \<Rightarrow> 'k \<Rightarrow> 'v option" where
  "bc_find c k = map_of (bc_map c) k"

definition bc_contains :: "('k, 'v) bcache \<Rightarrow> 'k \<Rightarrow> bool" where
  "bc_contains c k \<longleftrightarrow> map_of (bc_map c) k \<noteq> None"

text \<open>The eviction loop: the map, the queue and the count.\<close>

fun evict :: "nat \<Rightarrow> ('k \<times> 'v) list \<Rightarrow> 'k list \<Rightarrow> nat \<Rightarrow> ('k \<times> 'v) list \<times> 'k list \<times> nat" where
  "evict b m [] n = (m, [], n)"
| "evict b m (victim # ord) n =
     (if length m > b then evict b (AList.delete victim m) ord (n + 1) else (m, victim # ord, n))"

definition on_insert :: "'k \<Rightarrow> ('k, 'v) bcache \<Rightarrow> ('k, 'v) bcache" where
  "on_insert k c =
     (if \<not> bc_tracked c then c
      else
        let c = c\<lparr>bc_order := bc_order c @ [k]\<rparr>; b = bc_bound c
        in if b = 0 then c
           else case evict b (bc_map c) (bc_order c) (bc_evictions c) of
                  (m, ord, n) \<Rightarrow> c\<lparr>bc_map := m, bc_order := ord, bc_evictions := n\<rparr>)"

text \<open>\<^verbatim>\<open>emplace\<close> and both \<^verbatim>\<open>insert\<close> overloads: whether the entry is new, and the cache.\<close>

definition bc_emplace :: "'k \<Rightarrow> 'v \<Rightarrow> ('k, 'v) bcache \<Rightarrow> bool \<times> ('k, 'v) bcache" where
  "bc_emplace k v c =
     (if map_of (bc_map c) k \<noteq> None then (False, c)
      else (True, on_insert k (c\<lparr>bc_map := bc_map c @ [(k, v)]\<rparr>)))"

text \<open>\<^verbatim>\<open>operator[]\<close>: the value a default-constructed \<open>V\<close> has is a parameter.\<close>

definition bc_index :: "'v \<Rightarrow> 'k \<Rightarrow> ('k, 'v) bcache \<Rightarrow> 'v \<times> ('k, 'v) bcache" where
  "bc_index dflt k c =
     (case map_of (bc_map c) k of
        Some v \<Rightarrow> (v, c)
      | None \<Rightarrow> (dflt, on_insert k (c\<lparr>bc_map := bc_map c @ [(k, dflt)]\<rparr>)))"

definition bc_erase :: "'k \<Rightarrow> ('k, 'v) bcache \<Rightarrow> nat \<times> ('k, 'v) bcache" where
  "bc_erase k c =
     (if map_of (bc_map c) k = None then (0, c)
      else
        let c = (if bc_tracked c then c\<lparr>bc_order := remove1 k (bc_order c)\<rparr> else c)
        in (1, c\<lparr>bc_map := AList.delete k (bc_map c)\<rparr>))"

definition bc_clear :: "('k, 'v) bcache \<Rightarrow> ('k, 'v) bcache" where
  "bc_clear c =
     (let c = c\<lparr>bc_map := []\<rparr> in if bc_tracked c then c\<lparr>bc_order := []\<rparr> else c)"

text \<open>The owner of the runtime bound changes it.\<close>

definition set_cache_bound :: "nat \<Rightarrow> ('k, 'v) bcache \<Rightarrow> ('k, 'v) bcache" where
  "set_cache_bound b c = c\<lparr>bc_runtime := map_option (\<lambda>_. b) (bc_runtime c)\<rparr>"

section \<open>The queue of entries\<close>

definition bc_inv :: "('k, 'v) bcache \<Rightarrow> bool" where
  "bc_inv c \<longleftrightarrow> distinct (map fst (bc_map c)) \<and> distinct (bc_order c) \<and>
     (if bc_tracked c then set (bc_order c) = fst ` set (bc_map c) else bc_order c = [])"

definition fifo :: "('k, 'v) bcache \<Rightarrow> ('k \<times> 'v) list" where
  "fifo c = map (\<lambda>k. (k, the (map_of (bc_map c) k))) (bc_order c)"

definition fifo_put :: "nat \<Rightarrow> 'k \<Rightarrow> 'v \<Rightarrow> ('k \<times> 'v) list \<Rightarrow> ('k \<times> 'v) list" where
  "fifo_put b k v xs =
     (if k \<in> fst ` set xs then xs
      else let xs = xs @ [(k, v)] in if b = 0 then xs else drop (length xs - b) xs)"

lemma same_length:
  "distinct (map fst m) \<Longrightarrow> distinct ks \<Longrightarrow> set ks = fst ` set m \<Longrightarrow> length ks = length m"
  by (metis distinct_card length_map list.set_map)

lemma delete_keys: "fst ` set (AList.delete k m) = fst ` set m - {k}"
  by (simp add: delete_keys dom_map_of_conv_image_fst [symmetric] AList.delete_conv')

lemma evict_spec:
  assumes "distinct (map fst m)" "distinct ord" "set ord = fst ` set m"
    and "evict b m ord n = (m', ord', n')"
  shows "ord' = drop (length ord - b) ord \<and> n' = n + (length ord - b) \<and> distinct (map fst m') \<and>
    set ord' = fst ` set m' \<and> (\<forall>k \<in> set ord'. map_of m' k = map_of m k)"
  using assms
proof (induction b m ord n arbitrary: m' ord' n' rule: evict.induct)
  case (2 b m victim ord n)
  have len: "length m = Suc (length ord)" using same_length [OF "2.prems"(1-3)] by simp
  show ?case
  proof (cases "length m > b")
    case True
    let ?m = "AList.delete victim m"
    have "distinct (map fst ?m)" using "2.prems"(1) by (simp add: distinct_delete)
    moreover have "set ord = fst ` set ?m" using "2.prems"(2,3) by (auto simp: delete_keys)
    moreover have "evict b ?m ord (n + 1) = (m', ord', n')" using "2.prems"(4) True by simp
    moreover have "distinct ord" using "2.prems"(2) by simp
    ultimately have IH: "ord' = drop (length ord - b) ord \<and> n' = n + 1 + (length ord - b) \<and>
        distinct (map fst m') \<and> set ord' = fst ` set m' \<and> (\<forall>k \<in> set ord'. map_of m' k = map_of ?m k)"
      using "2.IH" [OF True] by blast
    have o: "ord' = drop (length ord - b) ord" and n: "n' = n + 1 + (length ord - b)"
      and m: "distinct (map fst m')" "set ord' = fst ` set m'"
      and l: "\<And>k. k \<in> set ord' \<Longrightarrow> map_of m' k = map_of ?m k" using IH by blast+
    have "k \<noteq> victim" if "k \<in> set ord'" for k
      using that o "2.prems"(2) by (auto dest: in_set_dropD)
    then have "\<forall>k \<in> set ord'. map_of m' k = map_of m k" using l by (simp add: delete_conv')
    moreover have d: "Suc (length ord) - b = Suc (length ord - b)" using True len by simp
    moreover have "ord' = drop (length (victim # ord) - b) (victim # ord)"
      "n' = n + (length (victim # ord) - b)" using o n d by simp_all
    ultimately show ?thesis using m by blast
  next
    case False
    then have "m' = m" "ord' = victim # ord" "n' = n" using "2.prems"(4) by simp_all
    moreover have "Suc (length ord) - b = 0" using False len by simp
    ultimately show ?thesis using "2.prems"(1-3) by simp
  qed
qed simp

lemma bc_updates [simp]:
  "bc_bound (c\<lparr>bc_map := m\<rparr>) = bc_bound c" "bc_bound (c\<lparr>bc_order := q\<rparr>) = bc_bound c"
  "bc_bound (c\<lparr>bc_evictions := n\<rparr>) = bc_bound c"
  "bc_tracked (c\<lparr>bc_map := m\<rparr>) = bc_tracked c" "bc_tracked (c\<lparr>bc_order := q\<rparr>) = bc_tracked c"
  "bc_tracked (c\<lparr>bc_evictions := n\<rparr>) = bc_tracked c"
  by (simp_all add: bc_bound_def bc_tracked_def split: option.split)

lemma on_insert_untracked: "\<not> bc_tracked c \<Longrightarrow> on_insert k c = c"
  by (simp add: on_insert_def)

text \<open>What inserting a new key does, for both bounding modes.\<close>

lemma insert_new:
  fixes c :: "('k, 'v) bcache" and k :: 'k and v :: 'v
  assumes inv: "bc_inv c" and new: "map_of (bc_map c) k = None" and tr: "bc_tracked c"
  defines "c' \<equiv> on_insert k (c\<lparr>bc_map := bc_map c @ [(k, v)]\<rparr>)"
  shows "bc_inv c' \<and> fifo c' = fifo_put (bc_bound c) k v (fifo c) \<and>
    bc_evictions c' = bc_evictions c + (if bc_bound c = 0 then 0 else length (fifo c) + 1 - bc_bound c) \<and>
    bc_runtime c' = bc_runtime c \<and> bc_max c' = bc_max c"
proof -
  let ?m = "bc_map c @ [(k, v)]" and ?o = "bc_order c @ [k]" and ?b = "bc_bound c"
  have old: "distinct (map fst (bc_map c))" "distinct (bc_order c)" "set (bc_order c) = fst ` set (bc_map c)"
    using inv tr by (simp_all add: bc_inv_def)
  have k: "k \<notin> fst ` set (bc_map c)" using new by (simp add: map_of_eq_None_iff)
  have m: "distinct (map fst ?m)" "distinct ?o" "set ?o = fst ` set ?m" using old k by auto
  have q: "map (\<lambda>k. (k, the (map_of ?m k))) ?o = fifo c @ [(k, v)]"
    using k old(3) new by (auto simp: fifo_def map_add_def map_of_append split: option.splits)
  have put: "fifo_put ?b k v (fifo c) = (if ?b = 0 then fifo c @ [(k, v)]
      else drop (length ?o - ?b) (fifo c @ [(k, v)]))"
    using k old(3) by (auto simp: fifo_put_def fifo_def Let_def image_image)
  show ?thesis
  proof (cases "?b = 0")
    case True
    then have c': "c' = c\<lparr>bc_map := ?m, bc_order := ?o\<rparr>"
      using tr by (simp add: c'_def on_insert_def Let_def)
    then have "fifo c' = map (\<lambda>k. (k, the (map_of ?m k))) ?o" by (simp add: fifo_def)
    then have "fifo c' = fifo_put ?b k v (fifo c)" by (simp only: q put if_P [OF True])
    moreover have "bc_inv c'" using c' m tr by (simp add: bc_inv_def)
    ultimately show ?thesis using True c' by simp
  next
    case False
    obtain m' o' n' where e: "evict ?b ?m ?o (bc_evictions c) = (m', o', n')" by (metis prod_cases3)
    note s = evict_spec [OF m e]
    have c': "c' = c\<lparr>bc_map := m', bc_order := o', bc_evictions := n'\<rparr>"
      using tr False e by (simp add: c'_def on_insert_def Let_def)
    have "fifo c' = map (\<lambda>k. (k, the (map_of ?m k))) o'"
      using s by (simp add: fifo_def c')
    also have "\<dots> = drop (length ?o - ?b) (map (\<lambda>k. (k, the (map_of ?m k))) ?o)"
    proof -
      have "o' = drop (length ?o - ?b) ?o" using s by blast
      then show ?thesis by (simp only: drop_map)
    qed
    finally have "fifo c' = drop (length ?o - ?b) (fifo c @ [(k, v)])" by (simp only: q)
    then have "fifo c' = fifo_put ?b k v (fifo c)" by (simp only: put if_not_P [OF False])
    moreover have "distinct o'" using s m(2) by (metis distinct_drop)
    moreover have "distinct (map fst m')" "set o' = fst ` set m'" using s by blast+
    then have "bc_inv c'" using tr \<open>distinct o'\<close> by (simp add: c' bc_inv_def)
    moreover have "n' = bc_evictions c + (length (fifo c) + 1 - ?b)"
      using s by (simp add: fifo_def)
    ultimately show ?thesis using False by (simp add: c')
  qed
qed

lemma fifo_keys: "bc_inv c \<Longrightarrow> bc_tracked c \<Longrightarrow> fst ` set (fifo c) = fst ` set (bc_map c)"
  by (simp add: fifo_def bc_inv_def image_image)

lemma fifo_lookup:
  assumes "bc_inv c" "bc_tracked c"
  shows "map_of (fifo c) = bc_find c"
proof
  fix k
  have "map_of (fifo c) k = (if k \<in> set (bc_order c) then Some (the (map_of (bc_map c) k)) else None)"
    by (simp add: fifo_def map_of_map_restrict restrict_map_def)
  moreover have "k \<in> set (bc_order c) \<longleftrightarrow> map_of (bc_map c) k \<noteq> None"
    using assms by (simp add: bc_inv_def map_of_eq_None_iff)
  ultimately show "map_of (fifo c) k = bc_find c k" by (auto simp: bc_find_def)
qed

lemma remove1_filter: "distinct xs \<Longrightarrow> remove1 k xs = filter (\<lambda>a. a \<noteq> k) xs"
proof (induction xs)
  case (Cons x xs)
  then have "x = k \<Longrightarrow> filter (\<lambda>a. a \<noteq> k) xs = xs" by (auto simp: filter_id_conv)
  then show ?case using Cons by auto
qed simp

lemma fifo_remove:
  assumes "bc_inv c" "bc_tracked c"
  shows "bc_inv (snd (bc_erase k c)) \<and> fifo (snd (bc_erase k c)) = filter (\<lambda>(a, b). a \<noteq> k) (fifo c)"
proof (cases "map_of (bc_map c) k = None")
  case True
  then have "k \<notin> fst ` set (fifo c)" using fifo_keys [OF assms] by (simp add: map_of_eq_None_iff)
  then have "filter (\<lambda>(a, b). a \<noteq> k) (fifo c) = fifo c" by (force simp: filter_id_conv)
  then show ?thesis using True assms(1) by (simp add: bc_erase_def)
next
  case False
  let ?m = "AList.delete k (bc_map c)"
  have d: "distinct (bc_order c)" using assms(1) by (simp add: bc_inv_def)
  have c': "snd (bc_erase k c) = c\<lparr>bc_order := remove1 k (bc_order c), bc_map := ?m\<rparr>"
    using False assms(2) by (auto simp: bc_erase_def)
  have "fifo (snd (bc_erase k c)) = map (\<lambda>a. (a, the (map_of ?m a))) (filter (\<lambda>a. a \<noteq> k) (bc_order c))"
    using d by (simp add: fifo_def c' remove1_filter)
  also have "\<dots> = map (\<lambda>a. (a, the (map_of (bc_map c) a))) (filter (\<lambda>a. a \<noteq> k) (bc_order c))"
    by (simp add: delete_conv')
  also have "\<dots> = filter (\<lambda>(a, b). a \<noteq> k) (fifo c)"
    by (simp add: fifo_def filter_map o_def)
  finally show ?thesis
    using assms False d by (simp add: c' bc_inv_def distinct_delete delete_keys)
qed

section \<open>Properties\<close>

text \<open>
  C13: a cache that tracks its entries behaves as a queue of entries: an insertion of a new key
  appends it and drops the oldest entries over the bound (none when the bound is 0), counted as
  evictions; the new entry is there afterwards; an insertion of a present key changes nothing;
  erasing removes the key's entry and no other; lookups read the queue.
\<close>

theorem cache_refines_fifo:
  assumes "bc_inv c" and "bc_tracked c"
  shows "(let c' = snd (bc_emplace k v c) in
      bc_inv c' \<and> bc_tracked c' \<and> fifo c' = fifo_put (bc_bound c) k v (fifo c) \<and>
      bc_evictions c' = bc_evictions c +
        (length (fifo c) + (if bc_contains c k then 0 else 1) - length (fifo c')) \<and>
      bc_contains c' k \<and> (fst (bc_emplace k v c) \<longleftrightarrow> \<not> bc_contains c k)) \<and>
    map_of (fifo c) = bc_find c \<and> bc_size c = length (fifo c) \<and>
    bc_inv (snd (bc_erase k c)) \<and> fifo (snd (bc_erase k c)) = filter (\<lambda>(a, b). a \<noteq> k) (fifo c)"
proof -
  have len: "bc_size c = length (fifo c)"
    using assms same_length [of "bc_map c" "bc_order c"] by (simp add: bc_size_def fifo_def bc_inv_def)
  let ?c' = "snd (bc_emplace k v c)"
  have "bc_inv ?c' \<and> bc_tracked ?c' \<and> fifo ?c' = fifo_put (bc_bound c) k v (fifo c) \<and>
      bc_evictions ?c' = bc_evictions c +
        (length (fifo c) + (if bc_contains c k then 0 else 1) - length (fifo ?c')) \<and>
      bc_contains ?c' k \<and> (fst (bc_emplace k v c) \<longleftrightarrow> \<not> bc_contains c k)"
  proof (cases "map_of (bc_map c) k")
    case None
    let ?n = "on_insert k (c\<lparr>bc_map := bc_map c @ [(k, v)]\<rparr>)"
    note n = insert_new [OF assms(1) None assms(2), of v]
    have e: "?c' = ?n" "fst (bc_emplace k v c)" "\<not> bc_contains c k"
      using None by (simp_all add: bc_emplace_def bc_contains_def)
    have tr: "bc_tracked ?n" using n assms(2) by (simp add: bc_tracked_def)
    have new: "k \<notin> fst ` set (fifo c)" using None fifo_keys [OF assms] by (simp add: map_of_eq_None_iff)
    then have "k \<in> fst ` set (fifo_put (bc_bound c) k v (fifo c))"
      by (auto simp: fifo_put_def Let_def image_iff)
    then have "map_of (fifo ?n) k \<noteq> None" using n by (simp add: map_of_eq_None_iff)
    then have "bc_contains ?n k" using fifo_lookup [of ?n] n tr by (simp add: bc_find_def bc_contains_def)
    moreover have "(if bc_bound c = 0 then 0 else length (fifo c) + 1 - bc_bound c) =
        length (fifo c) + 1 - length (fifo ?n)"
      using n new by (simp add: fifo_put_def Let_def)
    ultimately show ?thesis using n tr e by simp
  next
    case (Some w)
    then have "k \<in> fst ` set (fifo c)"
      using fifo_keys [OF assms] by (metis map_of_eq_None_iff option.distinct(1))
    then show ?thesis using Some assms by (simp add: bc_emplace_def bc_contains_def fifo_put_def)
  qed
  then show ?thesis
    using len fifo_lookup [OF assms] fifo_remove [OF assms] by (simp add: Let_def)
qed

theorem cache_refines_fifo_witness:
  "fifo (snd (bc_emplace 3 ''c'' (snd (bc_emplace 2 ''b'' (snd (bc_emplace (1::nat) ''a''
     (bc_new 0 (Some 2)))))))) = [(2, ''b''), (3, ''c'')]"
proof -
  let ?c0 = "bc_new 0 (Some 2) :: (nat, string) bcache"
  have i0: "bc_inv ?c0" "bc_tracked ?c0" by (simp_all add: bc_inv_def bc_new_def bc_tracked_def)
  note 1 = cache_refines_fifo [OF i0, of 1 "''a''", unfolded Let_def]
  let ?c1 = "snd (bc_emplace 1 ''a'' ?c0)"
  have i1: "bc_inv ?c1" "bc_tracked ?c1" using 1 by blast+
  note 2 = cache_refines_fifo [OF i1, of 2 "''b''", unfolded Let_def]
  let ?c2 = "snd (bc_emplace 2 ''b'' ?c1)"
  have i2: "bc_inv ?c2" "bc_tracked ?c2" using 2 by blast+
  have "fifo (snd (bc_emplace 3 ''c'' ?c2)) = fifo_put (bc_bound ?c2) 3 ''c'' (fifo ?c2)"
    using cache_refines_fifo [OF i2, of 3 "''c''", unfolded Let_def] by blast
  then show ?thesis by code_simp
qed

end
