(* ===== verification/String_Dict.thy ===== *)
theory String_Dict imports Tau_Prelude begin

text \<open>
  The two interning tables: \<^verbatim>\<open>src/dict.h\<close> (strings of the language to ids) and
  \<^verbatim>\<open>src/backends/bdds/var_dict.cpp\<close> (names of BDD variables to symbols). A table is the vector of
  strings and the map from strings to ids; the static tables of the code are the state passed.
\<close>

section \<open>Definitions\<close>

record string_table =
  st_names :: "string list"
  st_ids :: "(string \<times> nat) list"

definition intern :: "string \<Rightarrow> string_table \<Rightarrow> nat \<times> string_table" where
  "intern s d =
     (case map_of (st_ids d) s of
        Some n \<Rightarrow> (n, d)
      | None \<Rightarrow> (let n = length (st_names d) in
          (n, d\<lparr>st_ids := (s, n) # st_ids d, st_names := st_names d @ [s]\<rparr>)))"

text \<open>\<^verbatim>\<open>dict(string)\<close> and \<^verbatim>\<open>dict(size_t)\<close> (the release reading of an unknown id).\<close>

definition dict_init :: string_table where
  "dict_init = \<lparr>st_names = [[]], st_ids = [([], 0)]\<rparr>"

definition dict_id :: "string \<Rightarrow> string_table \<Rightarrow> nat \<times> string_table" where
  "dict_id = intern"

definition dict_str :: "string_table \<Rightarrow> nat \<Rightarrow> string" where
  "dict_str d n = (if n < length (st_names d) then st_names d ! n else st_names d ! 0)"

fun dict_ids :: "string list \<Rightarrow> string_table \<Rightarrow> nat list \<times> string_table" where
  "dict_ids [] d = ([], d)"
| "dict_ids (s # ss) d =
     (case dict_id s d of (n, d) \<Rightarrow> case dict_ids ss d of (ns, d) \<Rightarrow> (n # ns, d))"

text \<open>\<^verbatim>\<open>var_dict\<close>: slot 0 of the vector is a dummy the map does not hold.\<close>

definition var_init :: string_table where
  "var_init = \<lparr>st_names = [''dummy''], st_ids = []\<rparr>"

definition var_sym :: "string \<Rightarrow> string_table \<Rightarrow> nat \<times> string_table" where
  "var_sym = intern"

definition x_name :: "nat \<Rightarrow> string" where
  "x_name n = ''x'' @ nat_to_string n"

function fresh_name :: "(string \<times> nat) list \<Rightarrow> nat \<Rightarrow> string" where
  "fresh_name m n = (if map_of m (x_name n) = None then x_name n else fresh_name m (n + 1))"
  by auto

text \<open>A negative symbol is read as a \<^verbatim>\<open>size_t\<close> above every table size.\<close>

definition var_name :: "int \<Rightarrow> string_table \<Rightarrow> string result \<times> string_table" where
  "var_name n d =
     (if n < 0 \<or> length (st_names d) < nat n then (Inl (OutOfRange, ''the variable id is invalid''), d)
      else if nat n = length (st_names d) then
        (let s = fresh_name (st_ids d) (nat n) in (Inr s, snd (var_sym s d)))
      else (Inr (st_names d ! nat n), d))"

section \<open>Lemmas\<close>

lemma x_name_inj: "x_name a = x_name b \<longleftrightarrow> a = b"
  by (metis append_same_eq nat_to_string_value same_append_eq x_name_def)

definition used_from :: "(string \<times> nat) list \<Rightarrow> nat \<Rightarrow> nat set" where
  "used_from m n = {k. n \<le> k \<and> x_name k \<in> fst ` set m}"

lemma finite_used: "finite (used_from m n)"
proof -
  have "x_name ` used_from m n \<subseteq> fst ` set m" by (auto simp: used_from_def)
  then have "finite (x_name ` used_from m n)" by (rule finite_subset) simp
  then show ?thesis by (rule finite_imageD) (simp add: inj_on_def x_name_inj)
qed

termination fresh_name
proof (relation "measure (\<lambda>(m, n). card (used_from m n))")
  fix m :: "(string \<times> nat) list" and n
  assume "map_of m (x_name n) \<noteq> None"
  then have "n \<in> used_from m n" by (simp add: used_from_def map_of_eq_None_iff)
  moreover have "used_from m (n + 1) \<subseteq> used_from m n - {n}" by (auto simp: used_from_def)
  ultimately have "card (used_from m (n + 1)) < card (used_from m n)"
    by (meson card_Diff1_less card_mono finite_Diff finite_used order_le_less_trans)
  then show "((m, n + 1), (m, n)) \<in> measure (\<lambda>(m, n). card (used_from m n))" by simp
qed simp

declare fresh_name.simps [simp del]

lemma fresh_name_spec:
  "\<exists>k \<ge> n. fresh_name m n = x_name k \<and> map_of m (x_name k) = None \<and>
     (\<forall>j. n \<le> j \<and> j < k \<longrightarrow> map_of m (x_name j) \<noteq> None)"
proof (induction m n rule: fresh_name.induct)
  case (1 m n)
  show ?case
  proof (cases "map_of m (x_name n) = None")
    case True
    then show ?thesis by (intro exI [of _ n]) (auto simp: fresh_name.simps)
  next
    case False
    then obtain k where k: "n + 1 \<le> k" "fresh_name m (n + 1) = x_name k" "map_of m (x_name k) = None"
      "\<forall>j. n + 1 \<le> j \<and> j < k \<longrightarrow> map_of m (x_name j) \<noteq> None" using 1 by blast
    have "map_of m (x_name j) \<noteq> None" if "n \<le> j" "j < k" for j
      using that False k(4) by (cases "j = n") auto
    moreover have "fresh_name m n = x_name k" 
      using k(2) by (subst fresh_name.simps) (simp only: False if_False)
    moreover have "n \<le> k" using k(1) by simp
    ultimately show ?thesis using k(3) by blast
  qed
qed

text \<open>The map is the inverse of the vector from the slot \<open>z\<close> on.\<close>

definition table_ok :: "nat \<Rightarrow> string_table \<Rightarrow> bool" where
  "table_ok z d \<longleftrightarrow> z \<le> length (st_names d) \<and>
     (\<forall>s n. map_of (st_ids d) s = Some n \<longleftrightarrow> z \<le> n \<and> n < length (st_names d) \<and> st_names d ! n = s)"

lemma table_ok_init: "table_ok 0 dict_init" "table_ok 1 var_init"
  by (auto simp: table_ok_def dict_init_def var_init_def)

lemma intern_spec:
  assumes "table_ok z d" "intern s d = (n, d')"
  shows "table_ok z d' \<and> z \<le> n \<and> n < length (st_names d') \<and> st_names d' ! n = s \<and>
    (\<exists>new. st_names d' = st_names d @ new)"
proof (cases "map_of (st_ids d) s")
  case None
  let ?n = "length (st_names d)"
  have d': "d' = d\<lparr>st_ids := (s, ?n) # st_ids d, st_names := st_names d @ [s]\<rparr>" "n = ?n"
    using assms(2) None by (auto simp: intern_def Let_def)
  have ids: "map_of (st_ids d) t = Some k \<longleftrightarrow> z \<le> k \<and> k < ?n \<and> st_names d ! k = t" for t k
    using assms(1) by (simp add: table_ok_def)
  have "z \<le> ?n" using assms(1) by (simp add: table_ok_def)
  moreover have "map_of (st_ids d') t = Some k \<longleftrightarrow>
      z \<le> k \<and> k < length (st_names d') \<and> st_names d' ! k = t" for t k
    using ids [of t k] ids [of s k] None \<open>z \<le> ?n\<close> by (auto simp: d' nth_append less_Suc_eq)
  ultimately show ?thesis using d' by (simp add: table_ok_def)
next
  case (Some k)
  then have e: "d' = d" "n = k" using assms(2) by (auto simp: intern_def)
  then have "z \<le> n \<and> n < length (st_names d) \<and> st_names d ! n = s"
    using assms(1) Some by (simp add: table_ok_def)
  then show ?thesis using e assms(1) by simp
qed

lemma intern_again:
  assumes "table_ok z d" "z \<le> n" "n < length (st_names d)"
  shows "intern (st_names d ! n) d = (n, d)"
proof -
  have "map_of (st_ids d) (st_names d ! n) = Some n" using assms by (simp add: table_ok_def)
  then show ?thesis by (simp add: intern_def)
qed

lemma dict_ids_spec:
  assumes "table_ok 0 d" "dict_ids ss d = (ns, d')"
  shows "table_ok 0 d' \<and> (\<exists>new. st_names d' = st_names d @ new) \<and>
    list_all2 (\<lambda>n s. n < length (st_names d') \<and> st_names d' ! n = s) ns ss"
  using assms
proof (induction ss arbitrary: d ns)
  case (Cons s ss)
  obtain n e where n: "dict_id s d = (n, e)" by (cases "dict_id s d")
  obtain ms where ms: "dict_ids ss e = (ms, d')" "ns = n # ms"
    using Cons.prems(2) n by (auto split: prod.splits)
  note i = intern_spec [OF Cons.prems(1) n [unfolded dict_id_def]]
  note ih = Cons.IH [OF conjunct1 [OF i] ms(1)]
  show ?case using i ih ms(2) by (auto simp: nth_append)
qed simp

section \<open>Properties\<close>

text \<open>
  After any sequence of registrations the ids read back as their strings, two ids are equal
  exactly when the strings are, and registering the same sequence again returns the same ids and
  changes nothing.
\<close>

theorem dict_ids_stable:
  "(case dict_ids ss dict_init of (ns, d) \<Rightarrow>
     map (dict_str d) ns = ss \<and> dict_ids ss d = (ns, d) \<and>
     (\<forall>n s. (n, s) \<in> set (zip ns ss) \<longleftrightarrow> s \<in> set ss \<and> dict_id s d = (n, d)))"
proof -
  obtain ns d where r: "dict_ids ss dict_init = (ns, d)" by (cases "dict_ids ss dict_init")
  have ok: "table_ok 0 d" and l: "list_all2 (\<lambda>n s. n < length (st_names d) \<and> st_names d ! n = s) ns ss"
    using dict_ids_spec [OF table_ok_init(1) r] by blast+
  have again: "dict_id s d = (n, d)" if "n < length (st_names d)" "st_names d ! n = s" for n s
    using intern_again [OF ok, of n] that by (simp add: dict_id_def)
  have "map (dict_str d) ns = ss" using l by (induction) (simp_all add: dict_str_def)
  moreover have "dict_ids ss d = (ns, d)" using l by (induction) (simp_all add: again)
  moreover have "(n, s) \<in> set (zip ns ss) \<longleftrightarrow> s \<in> set ss \<and> dict_id s d = (n, d)" for n s
    using l by (induction) (auto simp: again)
  ultimately show ?thesis using r by simp
qed

text \<open>
  C14: reading the name of a symbol: an out-of-range error past the end of the table (and for a
  negative symbol), the stored name within it, and one past the end a fresh name \<open>x\<close> followed by the
  first unused number, which is registered as that very symbol. The search for the name ends.
\<close>

theorem var_name_total:
  assumes "table_ok 1 d"
  shows "case var_name n d of (r, d') \<Rightarrow>
    table_ok 1 d' \<and>
    (if n < 0 \<or> int (length (st_names d)) < n then r = Inl (OutOfRange, ''the variable id is invalid'') \<and> d' = d
     else if n < int (length (st_names d)) then r = Inr (st_names d ! nat n) \<and> d' = d
     else \<exists>k. nat n \<le> k \<and> r = Inr (x_name k) \<and> st_names d' = st_names d @ [x_name k] \<and>
       map_of (st_ids d) (x_name k) = None \<and>
       (\<forall>j. nat n \<le> j \<and> j < k \<longrightarrow> map_of (st_ids d) (x_name j) \<noteq> None) \<and>
       var_sym (x_name k) d' = (nat n, d') \<and> var_name n d' = (r, d'))"
proof (cases "n = int (length (st_names d))")
  case False
  then show ?thesis using assms by (auto simp: var_name_def)
next
  case True
  let ?z = "length (st_names d)"
  obtain k where k: "?z \<le> k" "fresh_name (st_ids d) ?z = x_name k" "map_of (st_ids d) (x_name k) = None"
    "\<forall>j. ?z \<le> j \<and> j < k \<longrightarrow> map_of (st_ids d) (x_name j) \<noteq> None"
    using fresh_name_spec by blast
  obtain m d' where i: "intern (x_name k) d = (m, d')" by (cases "intern (x_name k) d")
  have m: "m = ?z" "st_names d' = st_names d @ [x_name k]"
    using i k(3) by (auto simp: intern_def Let_def)
  note s = intern_spec [OF assms i]
  have "var_name n d = (Inr (x_name k), d')"
    using True k(2) i by (simp add: var_name_def Let_def var_sym_def)
  moreover have "var_name n d' = (Inr (x_name k), d')"
    using True m by (simp add: var_name_def)
  moreover have "var_sym (x_name k) d' = (?z, d')"
    using intern_again [of 1 d' m] s m by (simp add: var_sym_def)
  ultimately show ?thesis using True k s m by (auto intro!: exI [of _ k])
qed

theorem var_name_total_witness:
  "var_name 2 (snd (var_sym ''x2'' var_init)) =
     (Inr ''x3'', \<lparr>st_names = [''dummy'', ''x2'', ''x3''], st_ids = [(''x3'', 2), (''x2'', 1)]\<rparr>)
   \<and> table_ok 1 (snd (var_name 2 (snd (var_sym ''x2'' var_init))))"
proof -
  let ?d = "snd (var_sym ''x2'' var_init)"
  obtain m d where i: "intern ''x2'' var_init = (m, d)" by (cases "intern ''x2'' var_init")
  then have "table_ok 1 ?d" using intern_spec [OF table_ok_init(2) i] by (simp add: var_sym_def)
  from var_name_total [OF this, of 2] have "table_ok 1 (snd (var_name 2 ?d))"
    by (auto split: prod.splits)
  moreover have "var_name 2 ?d =
      (Inr ''x3'', \<lparr>st_names = [''dummy'', ''x2'', ''x3''], st_ids = [(''x3'', 2), (''x2'', 1)]\<rparr>)"
    by code_simp
  ultimately show ?thesis by blast
qed

end
