(* ===== verification/Hoa_Label.thy ===== *)
theory Hoa_Label imports Tau_Prelude "HOL-Library.Product_Lexorder" begin

text \<open>
  \<^verbatim>\<open>src/hoa_label.h\<close>: the reader of edge labels of HOA automata and the folds over what it reads.
  A label expression is the vector of its nodes, operands before operators; the cursor of the
  reader is the rest of the text, and a stack is the list of its elements from the back.
\<close>

section \<open>Expressions\<close>

datatype kind = Tt | Ff | Ap | Neg | Conj | Disj

record label_node =
  n_kind :: kind
  n_ap :: nat
  n_lhs :: nat
  n_rhs :: nat

type_synonym label_expr = "label_node list"

definition node_of :: "kind \<Rightarrow> nat \<Rightarrow> nat \<Rightarrow> nat \<Rightarrow> label_node" where
  "node_of k a l r = \<lparr>n_kind = k, n_ap = a, n_lhs = l, n_rhs = r\<rparr>"

definition max_index_digits :: nat where
  "max_index_digits = 9"

definition label_blank :: "char \<Rightarrow> bool" where
  "label_blank c \<longleftrightarrow> c = CHR '' '' \<or> c = CHR 0x09"

section \<open>The reader\<close>

text \<open>The nodes, the pending operators and the values not yet an operand of another node.\<close>

record reader =
  rd_nodes :: label_expr
  rd_ops :: "char list"
  rd_vals :: "nat list"

definition apply_op :: "char \<Rightarrow> reader \<Rightarrow> reader" where
  "apply_op opc s =
     (let rhs = hd (rd_vals s); n = length (rd_nodes s) in
      if opc = CHR ''!'' then
        s\<lparr>rd_nodes := rd_nodes s @ [node_of Neg 0 rhs 0], rd_vals := n # tl (rd_vals s)\<rparr>
      else
        let vals = tl (rd_vals s); lhs = hd vals in
        s\<lparr>rd_nodes := rd_nodes s @ [node_of (if opc = CHR ''&'' then Conj else Disj) 0 lhs rhs],
          rd_vals := n # tl vals\<rparr>)"

text \<open>The loops that apply and pop the operators at the back of the stack while a test holds.\<close>

function reduce_while :: "(char \<Rightarrow> bool) \<Rightarrow> reader \<Rightarrow> reader" where
  "reduce_while P s =
     (case rd_ops s of
        opc # ops \<Rightarrow> if P opc then reduce_while P ((apply_op opc s)\<lparr>rd_ops := ops\<rparr>) else s
      | [] \<Rightarrow> s)"
  by auto
termination
  by (relation "measure (\<lambda>(P, s). length (rd_ops s))") auto

definition operand_done :: "reader \<Rightarrow> reader" where
  "operand_done = reduce_while (\<lambda>c. c = CHR ''!'')"

definition push_leaf :: "label_node \<Rightarrow> reader \<Rightarrow> reader" where
  "push_leaf n s =
     operand_done (s\<lparr>rd_vals := length (rd_nodes s) # rd_vals s, rd_nodes := rd_nodes s @ [n]\<rparr>)"

function read_loop :: "string \<Rightarrow> bool \<Rightarrow> reader \<Rightarrow> (bool \<times> reader) option" where
  "read_loop [] operand s = Some (operand, s)"
| "read_loop (c # cs) operand s =
     (if label_blank c then read_loop cs operand s
      else if operand then
        (if c = CHR ''t'' \<or> c = CHR ''f'' then
           read_loop cs False (push_leaf (node_of (if c = CHR ''t'' then Tt else Ff) 0 0 0) s)
         else if is_digit c then
           let ds = c # takeWhile is_digit cs in
           (if length ds > max_index_digits then None
            else read_loop (dropWhile is_digit cs) False
              (push_leaf (node_of Ap (digits_value 0 ds) 0 0) s))
         else if c = CHR ''!'' \<or> c = CHR ''('' then
           read_loop cs operand (s\<lparr>rd_ops := c # rd_ops s\<rparr>)
         else None)
      else if c = CHR ''&'' \<or> c = CHR ''|'' then
        let s = reduce_while (\<lambda>p. p = CHR ''&'' \<or> c = CHR ''|'' \<and> p = CHR ''|'') s in
        read_loop cs True (s\<lparr>rd_ops := c # rd_ops s\<rparr>)
      else if c = CHR '')'' then
        let s = reduce_while (\<lambda>p. p \<noteq> CHR ''('') s in
        (if rd_ops s = [] then None
         else read_loop cs operand (operand_done (s\<lparr>rd_ops := tl (rd_ops s)\<rparr>)))
      else None)"
  by pat_completeness auto
termination
  by (relation "measure (\<lambda>(cs, operand, s). length cs)") (auto simp: length_dropWhile_le le_imp_less_Suc)

fun finish_read :: "bool \<times> reader \<Rightarrow> label_expr option" where
  "finish_read (operand, s) =
     (if rd_nodes s = [] \<and> rd_ops s = [] then Some [node_of Tt 0 0 0]
      else if operand then None
      else let s = reduce_while (\<lambda>p. p \<noteq> CHR ''('') s in
        (if rd_ops s \<noteq> [] then None else Some (rd_nodes s)))"

definition read_label :: "string \<Rightarrow> label_expr option" where
  "read_label s =
     Option.bind (read_loop s True \<lparr>rd_nodes = [], rd_ops = [], rd_vals = []\<rparr>) finish_read"

section \<open>Folds\<close>

definition ap_bound :: "label_expr \<Rightarrow> nat" where
  "ap_bound e = foldl (\<lambda>b n. if n_kind n = Ap then max b (n_ap n + 1) else b) 0 e"

definition fold_nodes :: "(label_node \<Rightarrow> 'r list \<Rightarrow> 'r) \<Rightarrow> label_expr \<Rightarrow> 'r list" where
  "fold_nodes f e = foldl (\<lambda>vs n. vs @ [f n vs]) [] e"

definition label_fold :: "(label_node \<Rightarrow> 'r list \<Rightarrow> 'r) \<Rightarrow> label_expr \<Rightarrow> 'r" where
  "label_fold f e = last (fold_nodes f e)"

definition eval_node :: "(nat \<Rightarrow> bool) \<Rightarrow> label_node \<Rightarrow> bool list \<Rightarrow> bool" where
  "eval_node v n vs =
     (case n_kind n of
        Tt \<Rightarrow> True
      | Ff \<Rightarrow> False
      | Ap \<Rightarrow> v (n_ap n)
      | Neg \<Rightarrow> \<not> vs ! n_lhs n
      | Conj \<Rightarrow> vs ! n_lhs n \<and> vs ! n_rhs n
      | Disj \<Rightarrow> vs ! n_lhs n \<or> vs ! n_rhs n)"

definition eval_label :: "(nat \<Rightarrow> bool) \<Rightarrow> label_expr \<Rightarrow> bool" where
  "eval_label v e = label_fold (eval_node v) e"

section \<open>Sums of products\<close>

text \<open>A literal is an index and its polarity, a cube a list of literals, a DNF a list of cubes.\<close>

type_synonym lit = "nat \<times> bool"
type_synonym cube = "lit list"
type_synonym dnf = "cube list"

text \<open>The pass over the sorted cube: \<open>out\<close> with its last literal at the head.\<close>

fun merge_lits :: "lit list \<Rightarrow> cube \<Rightarrow> cube option" where
  "merge_lits out [] = Some (rev out)"
| "merge_lits [] (l # ls) = merge_lits [l] ls"
| "merge_lits (b # out) (l # ls) =
     (if fst b = fst l then
        (if snd b \<noteq> snd l then None else merge_lits (b # out) ls)
      else merge_lits (l # b # out) ls)"

definition normalise_cube :: "cube \<Rightarrow> cube option" where
  "normalise_cube c = merge_lits [] (sort c)"

fun and_row :: "nat \<Rightarrow> cube \<Rightarrow> dnf \<Rightarrow> dnf \<Rightarrow> dnf option" where
  "and_row mx ca [] r = Some r"
| "and_row mx ca (cb # bs) r =
     (if length r \<ge> mx then None
      else and_row mx ca bs
        (case normalise_cube (ca @ cb) of Some m \<Rightarrow> r @ [m] | None \<Rightarrow> r))"

fun and_rows :: "nat \<Rightarrow> dnf \<Rightarrow> dnf \<Rightarrow> dnf \<Rightarrow> dnf option" where
  "and_rows mx [] bs r = Some r"
| "and_rows mx (ca # cas) bs r = Option.bind (and_row mx ca bs r) (and_rows mx cas bs)"

definition dnf_and :: "dnf \<Rightarrow> dnf \<Rightarrow> nat \<Rightarrow> dnf option" where
  "dnf_and a b mx = and_rows mx a b []"

fun dnf_or :: "dnf \<Rightarrow> dnf \<Rightarrow> nat \<Rightarrow> dnf option" where
  "dnf_or a [] mx = Some a"
| "dnf_or a (cb # b) mx = (if length a \<ge> mx then None else dnf_or (a @ [cb]) b mx)"

fun not_cubes :: "nat \<Rightarrow> dnf \<Rightarrow> dnf \<Rightarrow> dnf option" where
  "not_cubes mx [] r = Some r"
| "not_cubes mx (c # cs) r =
     (if c = [] then Some []
      else case dnf_and r (map (\<lambda>l. [(fst l, \<not> snd l)]) c) mx of
        None \<Rightarrow> None
      | Some m \<Rightarrow> not_cubes mx cs m)"

definition dnf_not :: "dnf \<Rightarrow> nat \<Rightarrow> dnf option" where
  "dnf_not a mx = not_cubes mx a [[]]"

definition dnf_node :: "nat \<Rightarrow> label_node \<Rightarrow> dnf option list \<Rightarrow> dnf option" where
  "dnf_node mx n vs =
     (case n_kind n of
        Tt \<Rightarrow> Some [[]]
      | Ff \<Rightarrow> Some []
      | Ap \<Rightarrow> Some [[(n_ap n, True)]]
      | Neg \<Rightarrow> Option.bind (vs ! n_lhs n) (\<lambda>a. dnf_not a mx)
      | Conj \<Rightarrow> Option.bind (vs ! n_lhs n) (\<lambda>a. Option.bind (vs ! n_rhs n) (\<lambda>b. dnf_and a b mx))
      | Disj \<Rightarrow> Option.bind (vs ! n_lhs n) (\<lambda>a. Option.bind (vs ! n_rhs n) (\<lambda>b. dnf_or a b mx)))"

definition size_max :: nat where
  "size_max = 2 ^ 64 - 1"

definition to_dnf :: "label_expr \<Rightarrow> nat \<Rightarrow> dnf option" where
  "to_dnf e max_cubes =
     label_fold (dnf_node (if max_cubes \<noteq> 0 then max_cubes else size_max)) e"

definition text_to_dnf :: "string \<Rightarrow> nat \<Rightarrow> dnf option" where
  "text_to_dnf s max_cubes = Option.bind (read_label s) (\<lambda>e. to_dnf e max_cubes)"

text \<open>The products as written.\<close>

record sop_lit =
  sl_kind :: kind
  sl_ap :: nat
  sl_pos :: bool

definition sop_str :: "sop_lit \<Rightarrow> string" where
  "sop_str l = (if sl_pos l then '''' else ''!'') @
     (if sl_kind l = Ap then nat_to_string (sl_ap l) else if sl_kind l = Tt then ''t'' else ''f'')"

definition sop_literal :: "label_expr \<Rightarrow> nat \<Rightarrow> sop_lit option" where
  "sop_literal e i =
     (let n = e ! i; pos = (n_kind n \<noteq> Neg); n = (if pos then n else e ! n_lhs n) in
      if n_kind n \<noteq> Tt \<and> n_kind n \<noteq> Ff \<and> n_kind n \<noteq> Ap then None
      else Some \<lparr>sl_kind = n_kind n, sl_ap = n_ap n, sl_pos = pos\<rparr>)"

text \<open>
  The loops over the work lists \<open>todo\<close> and \<open>lits\<close>, whose end on the expressions the reader builds is
  a theorem: the outer option is a loop that does not end, the inner one the result of the code.
\<close>

partial_function (option) split_disj :: "label_expr \<Rightarrow> nat list \<Rightarrow> nat list \<Rightarrow> nat list option" where
  "split_disj e todo products =
     (case todo of
        [] \<Rightarrow> Some products
      | i # todo \<Rightarrow>
          if n_kind (e ! i) = Disj then split_disj e (n_lhs (e ! i) # n_rhs (e ! i) # todo) products
          else split_disj e todo (products @ [i]))"

partial_function (option) split_conj :: "label_expr \<Rightarrow> nat list \<Rightarrow> sop_lit list \<Rightarrow> sop_lit list option option" where
  "split_conj e lits p =
     (case lits of
        [] \<Rightarrow> Some (Some p)
      | k # lits \<Rightarrow>
          if n_kind (e ! k) = Conj then split_conj e (n_lhs (e ! k) # n_rhs (e ! k) # lits) p
          else case sop_literal e k of
            None \<Rightarrow> Some None
          | Some l \<Rightarrow> split_conj e lits (p @ [l]))"

declare split_disj.simps [code] split_conj.simps [code]

fun sop_products :: "label_expr \<Rightarrow> nat list \<Rightarrow> sop_lit list list \<Rightarrow> sop_lit list list option option" where
  "sop_products e [] out = Some (Some out)"
| "sop_products e (i # is) out =
     (case split_conj e [i] [] of
        None \<Rightarrow> None
      | Some None \<Rightarrow> Some None
      | Some (Some p) \<Rightarrow> sop_products e is (out @ [p]))"

definition sum_of_products :: "label_expr \<Rightarrow> sop_lit list list option option" where
  "sum_of_products e =
     Option.bind (split_disj e [length e - 1] []) (\<lambda>is. sop_products e is [])"

end
