(* ===== verification/Hoa_Label_Reader.thy ===== *)
theory Hoa_Label_Reader imports Hoa_Label begin

text \<open>
  What the label reader accepts and what it returns: the grammar of labels over tokens, the
  operator-precedence machine on the tokens of a text, and the proof that the machine accepts
  exactly the derivable token sequences and lays out the derived expression in postorder.
\<close>

section \<open>The grammar\<close>

datatype label = LTrue | LFalse | LAp nat | LNot label | LAnd label label | LOr label label

datatype tok = TTrue | TFalse | TAp nat | TNot | TOpen | TClose | TAnd | TOr

inductive is_atom :: "tok list \<Rightarrow> label \<Rightarrow> bool"
  and is_conj :: "tok list \<Rightarrow> label \<Rightarrow> bool"
  and is_disj :: "tok list \<Rightarrow> label \<Rightarrow> bool" where
  atom_true: "is_atom [TTrue] LTrue"
| atom_false: "is_atom [TFalse] LFalse"
| atom_ap: "is_atom [TAp n] (LAp n)"
| atom_not: "is_atom ts a \<Longrightarrow> is_atom (TNot # ts) (LNot a)"
| atom_paren: "is_disj ts a \<Longrightarrow> is_atom (TOpen # ts @ [TClose]) a"
| conj_atom: "is_atom ts a \<Longrightarrow> is_conj ts a"
| conj_and: "is_conj ts a \<Longrightarrow> is_atom us b \<Longrightarrow> is_conj (ts @ TAnd # us) (LAnd a b)"
| disj_conj: "is_conj ts a \<Longrightarrow> is_disj ts a"
| disj_or: "is_disj ts a \<Longrightarrow> is_conj us b \<Longrightarrow> is_disj (ts @ TOr # us) (LOr a b)"

function label_tokens :: "string \<Rightarrow> tok list option" where
  "label_tokens [] = Some []"
| "label_tokens (c # cs) =
     (if label_blank c then label_tokens cs
      else if is_digit c then
        let ds = c # takeWhile is_digit cs in
        (if length ds > max_index_digits then None
         else map_option (\<lambda>ts. TAp (digits_value 0 ds) # ts) (label_tokens (dropWhile is_digit cs)))
      else
        Option.bind
          (if c = CHR ''t'' then Some TTrue else if c = CHR ''f'' then Some TFalse
           else if c = CHR ''!'' then Some TNot else if c = CHR ''('' then Some TOpen
           else if c = CHR '')'' then Some TClose else if c = CHR ''&'' then Some TAnd
           else if c = CHR ''|'' then Some TOr else None)
          (\<lambda>t. map_option (\<lambda>ts. t # ts) (label_tokens cs)))"
  by pat_completeness auto
termination
  by (relation "measure length") (auto simp: length_dropWhile_le le_imp_less_Suc)

section \<open>Layout of an expression\<close>

fun node_count :: "label \<Rightarrow> nat" where
  "node_count (LNot a) = node_count a + 1"
| "node_count (LAnd a b) = node_count a + node_count b + 1"
| "node_count (LOr a b) = node_count a + node_count b + 1"
| "node_count _ = 1"

fun layout :: "nat \<Rightarrow> label \<Rightarrow> label_expr" where
  "layout k LTrue = [node_of Tt 0 0 0]"
| "layout k LFalse = [node_of Ff 0 0 0]"
| "layout k (LAp n) = [node_of Ap n 0 0]"
| "layout k (LNot a) = layout k a @ [node_of Neg 0 (k + node_count a - 1) 0]"
| "layout k (LAnd a b) = layout k a @ layout (k + node_count a) b @
     [node_of Conj 0 (k + node_count a - 1) (k + node_count a + node_count b - 1)]"
| "layout k (LOr a b) = layout k a @ layout (k + node_count a) b @
     [node_of Disj 0 (k + node_count a - 1) (k + node_count a + node_count b - 1)]"

lemma length_layout [simp]: "length (layout k a) = node_count a"
  by (induction a arbitrary: k) auto

lemma node_count_pos [simp]: "0 < node_count a"
  by (cases a) auto

lemma layout_nonempty [simp]: "layout k a \<noteq> []"
  by (cases a) auto

text \<open>The nodes and values of a stack of expressions, from the back.\<close>

fun stack_nodes :: "label list \<Rightarrow> label_expr" where
  "stack_nodes [] = []"
| "stack_nodes (a # as) = stack_nodes as @ layout (length (stack_nodes as)) a"

fun stack_vals :: "label list \<Rightarrow> nat list" where
  "stack_vals [] = []"
| "stack_vals (a # as) = (length (stack_nodes as) + node_count a - 1) # stack_vals as"

definition st :: "char list \<Rightarrow> label list \<Rightarrow> reader" where
  "st ops as = \<lparr>rd_nodes = stack_nodes as, rd_ops = ops, rd_vals = stack_vals as\<rparr>"

lemma st_simps [simp]:
  "rd_ops (st ops as) = ops" "(st ops as)\<lparr>rd_ops := ops'\<rparr> = st ops' as"
  "rd_nodes (st ops as) = stack_nodes as" "rd_vals (st ops as) = stack_vals as"
  by (simp_all add: st_def)

lemma stack_nodes_empty [simp]: "stack_nodes as = [] \<longleftrightarrow> as = []"
  by (cases as) auto

lemma st_apply [simp]:
  "apply_op (CHR ''!'') (st ops (a # as)) = st ops (LNot a # as)"
  "apply_op (CHR ''&'') (st ops (b # a # as)) = st ops (LAnd a b # as)"
  "apply_op (CHR ''|'') (st ops (b # a # as)) = st ops (LOr a b # as)"
  by (simp_all add: apply_op_def st_def Let_def add.assoc)

declare reduce_while.simps [simp del]

lemma reduce_st [simp]:
  "reduce_while P (st [] as) = st [] as"
  "\<not> P p \<Longrightarrow> reduce_while P (st (p # ops) as) = st (p # ops) as"
  "P (CHR ''!'') \<Longrightarrow> reduce_while P (st (CHR ''!'' # ops) (a # as)) = reduce_while P (st ops (LNot a # as))"
  "P (CHR ''&'') \<Longrightarrow> reduce_while P (st (CHR ''&'' # ops) (b # a # as)) = reduce_while P (st ops (LAnd a b # as))"
  "P (CHR ''|'') \<Longrightarrow> reduce_while P (st (CHR ''|'' # ops) (b # a # as)) = reduce_while P (st ops (LOr a b # as))"
  by (simp_all add: reduce_while.simps [of P "st _ _"])

lemma st_leaf [simp]:
  "push_leaf (node_of Tt 0 0 0) (st ops as) = operand_done (st ops (LTrue # as))"
  "push_leaf (node_of Ff 0 0 0) (st ops as) = operand_done (st ops (LFalse # as))"
  "push_leaf (node_of Ap n 0 0) (st ops as) = operand_done (st ops (LAp n # as))"
  by (simp_all add: push_leaf_def st_def)

section \<open>The machine on tokens\<close>

fun run :: "tok list \<Rightarrow> bool \<Rightarrow> reader \<Rightarrow> (bool \<times> reader) option" where
  "run [] operand s = Some (operand, s)"
| "run (TTrue # ts) operand s =
     (if operand then run ts False (push_leaf (node_of Tt 0 0 0) s) else None)"
| "run (TFalse # ts) operand s =
     (if operand then run ts False (push_leaf (node_of Ff 0 0 0) s) else None)"
| "run (TAp n # ts) operand s =
     (if operand then run ts False (push_leaf (node_of Ap n 0 0) s) else None)"
| "run (TNot # ts) operand s =
     (if operand then run ts True (s\<lparr>rd_ops := CHR ''!'' # rd_ops s\<rparr>) else None)"
| "run (TOpen # ts) operand s =
     (if operand then run ts True (s\<lparr>rd_ops := CHR ''('' # rd_ops s\<rparr>) else None)"
| "run (TAnd # ts) operand s =
     (if operand then None
      else let s = reduce_while (\<lambda>p. p = CHR ''&'') s in run ts True (s\<lparr>rd_ops := CHR ''&'' # rd_ops s\<rparr>))"
| "run (TOr # ts) operand s =
     (if operand then None
      else let s = reduce_while (\<lambda>p. p = CHR ''&'' \<or> p = CHR ''|'') s
        in run ts True (s\<lparr>rd_ops := CHR ''|'' # rd_ops s\<rparr>))"
| "run (TClose # ts) operand s =
     (if operand then None
      else let s = reduce_while (\<lambda>p. p \<noteq> CHR ''('') s in
        (if rd_ops s = [] then None
         else run ts False (operand_done (s\<lparr>rd_ops := tl (rd_ops s)\<rparr>))))"

lemma bind_None_right [simp]: "Option.bind m (\<lambda>_. None) = None"
  by (cases m) auto

lemma bind_map_option [simp]: "Option.bind (map_option f m) g = Option.bind m (\<lambda>x. g (f x))"
  by (cases m) auto

lemma char_classes [simp]:
  "\<not> label_blank CHR ''t''" "\<not> label_blank CHR ''f''" "\<not> label_blank CHR ''!''" "\<not> label_blank CHR ''(''"
  "\<not> label_blank CHR '')''" "\<not> label_blank CHR ''&''" "\<not> label_blank CHR ''|''"
  "\<not> is_digit CHR ''t''" "\<not> is_digit CHR ''f''" "\<not> is_digit CHR ''!''" "\<not> is_digit CHR ''(''"
  "\<not> is_digit CHR '')''" "\<not> is_digit CHR ''&''" "\<not> is_digit CHR ''|''"
  by (simp_all add: label_blank_def is_digit_iff)

lemma read_loop_tokens:
  "read_loop s operand r = Option.bind (label_tokens s) (\<lambda>ts. run ts operand r)"
proof (induction s operand r rule: read_loop.induct)
  case (1 operand s)
  show ?case by simp
next
  case (2 c cs operand s)
  show ?case
  proof (cases "label_blank c")
    case True
    then show ?thesis using 2(1) by simp
  next
    case nb: False
    show ?thesis
    proof (cases "is_digit c")
      case True
      then have "c \<noteq> CHR ''t'' \<and> c \<noteq> CHR ''f'' \<and> c \<noteq> CHR ''!'' \<and> c \<noteq> CHR ''('' \<and> c \<noteq> CHR '')'' \<and>
        c \<noteq> CHR ''&'' \<and> c \<noteq> CHR ''|''" by (auto simp: is_digit_iff)
      then show ?thesis using nb True 2(3) by (cases operand) (auto simp: Let_def)
    next
      case False
      then show ?thesis using nb 2 by (cases operand) (auto simp: Let_def)
    qed
  qed
qed

section \<open>Every label is read\<close>

definition at_disj :: "char list \<Rightarrow> bool" where
  "at_disj ops \<longleftrightarrow> ops = [] \<or> hd ops = CHR ''(''"

definition at_conj :: "char list \<Rightarrow> bool" where
  "at_conj ops \<longleftrightarrow> at_disj ops \<or> hd ops = CHR ''|''"

definition at_atom :: "char list \<Rightarrow> bool" where
  "at_atom ops \<longleftrightarrow> at_conj ops \<or> hd ops = CHR ''&''"

lemmas at_defs = at_disj_def at_conj_def at_atom_def

lemma at_levels: "at_disj ops \<Longrightarrow> at_conj ops" "at_conj ops \<Longrightarrow> at_atom ops"
  by (simp_all add: at_defs)

lemma reduce_stop:
  "at_conj ops \<Longrightarrow> reduce_while (\<lambda>p. p = CHR ''&'') (st ops as) = st ops as"
  "at_disj ops \<Longrightarrow> reduce_while (\<lambda>p. p = CHR ''&'' \<or> p = CHR ''|'') (st ops as) = st ops as"
  "at_disj ops \<Longrightarrow> reduce_while (\<lambda>p. p \<noteq> CHR ''('') (st ops as) = st ops as"
  "at_atom ops \<Longrightarrow> operand_done (st ops as) = st ops as"
  by (cases ops; force simp: at_defs operand_done_def)+

text \<open>What is left to apply once a conjunction or a disjunction is read.\<close>

inductive pending :: "char list \<Rightarrow> label list \<Rightarrow> char list \<Rightarrow> label list \<Rightarrow> bool" where
  pending_none: "pending ops as ops as"
| pending_and: "pending (CHR ''&'' # ops) (b # a # as) ops (LAnd a b # as)"

inductive pending_d :: "char list \<Rightarrow> label list \<Rightarrow> char list \<Rightarrow> label list \<Rightarrow> bool" where
  pending_d_conj: "pending ops as ops' as' \<Longrightarrow> pending_d ops as ops' as'"
| pending_d_or: "pending ops as (CHR ''|'' # ops') (b # a # as') \<Longrightarrow> pending_d ops as ops' (LOr a b # as')"

lemma pending_reduce:
  "pending ops as ops' as' \<Longrightarrow> P (CHR ''&'') \<Longrightarrow> reduce_while P (st ops as) = reduce_while P (st ops' as')"
  by (induction rule: pending.induct) auto

lemma pending_d_reduce:
  "pending_d ops as ops' as' \<Longrightarrow> P (CHR ''&'') \<Longrightarrow> P (CHR ''|'') \<Longrightarrow>
    reduce_while P (st ops as) = reduce_while P (st ops' as')"
  by (induction rule: pending_d.induct) (auto simp: pending_reduce)

definition reads :: "tok list \<Rightarrow> tok list \<Rightarrow> char list \<Rightarrow> label list \<Rightarrow> char list \<Rightarrow> label list \<Rightarrow> bool" where
  "reads ts rest ops as ops' as' \<longleftrightarrow> run (ts @ rest) True (st ops as) = run rest False (st ops' as')"

lemma grammar_read:
  "is_atom ts a \<Longrightarrow> run (ts @ rest) True (st ops as) = run rest False (operand_done (st ops (a # as)))"
  "is_conj ts a \<Longrightarrow> at_conj ops \<Longrightarrow>
    \<exists>ops' as'. reads ts rest ops as ops' as' \<and> pending ops' as' ops (a # as)"
  "is_disj ts a \<Longrightarrow> at_disj ops \<Longrightarrow>
    \<exists>ops' as'. reads ts rest ops as ops' as' \<and> pending_d ops' as' ops (a # as)"
proof (induction arbitrary: rest ops as and rest ops as and rest ops as
    rule: is_atom_is_conj_is_disj.inducts)
  case (atom_not ts a)
  show ?case by (simp add: atom_not.IH operand_done_def)
next
  case (atom_paren ts a)
  obtain ops' as' where r: "reads ts (TClose # rest) (CHR ''('' # ops) as ops' as'"
    and p: "pending_d ops' as' (CHR ''('' # ops) (a # as)"
    using atom_paren.IH [of "CHR ''('' # ops" "TClose # rest" as] by (auto simp: at_defs)
  have "reduce_while (\<lambda>p. p \<noteq> CHR ''('') (st ops' as') = st (CHR ''('' # ops) (a # as)"
    using pending_d_reduce [OF p, of "\<lambda>p. p \<noteq> CHR ''(''"] by simp
  then show ?case using r by (simp add: reads_def Let_def)
next
  case (conj_atom ts a)
  have "reads ts rest ops as ops (a # as)"
    using conj_atom.IH conj_atom.prems by (simp add: reads_def reduce_stop at_levels)
  then show ?case using pending_none by blast
next
  case (conj_and ts a us b)
  obtain ops' as' where r: "reads ts (TAnd # us @ rest) ops as ops' as'"
    and p: "pending ops' as' ops (a # as)"
    using conj_and.IH(1) [OF conj_and.prems] by blast
  have "reduce_while (\<lambda>p. p = CHR ''&'') (st ops' as') = st ops (a # as)"
    using pending_reduce [OF p, of "\<lambda>p. p = CHR ''&''"] conj_and.prems by (simp add: reduce_stop)
  then have "reads (ts @ TAnd # us) rest ops as (CHR ''&'' # ops) (b # a # as)"
    using r conj_and.IH(2) by (simp add: reads_def Let_def reduce_stop at_defs)
  then show ?case using pending_and by blast
next
  case (disj_conj ts a)
  then show ?case using pending_d_conj at_levels(1) by meson
next
  case (disj_or ts a us b)
  obtain ops1 as1 where r1: "reads ts (TOr # us @ rest) ops as ops1 as1"
    and p1: "pending_d ops1 as1 ops (a # as)"
    using disj_or.IH(1) [OF disj_or.prems] by blast
  obtain ops2 as2 where r2: "reads us rest (CHR ''|'' # ops) (a # as) ops2 as2"
    and p2: "pending ops2 as2 (CHR ''|'' # ops) (b # a # as)"
    using disj_or.IH(2) [of "CHR ''|'' # ops" rest "a # as"] by (auto simp: at_defs)
  have "reduce_while (\<lambda>p. p = CHR ''&'' \<or> p = CHR ''|'') (st ops1 as1) = st ops (a # as)"
    using pending_d_reduce [OF p1, of "\<lambda>p. p = CHR ''&'' \<or> p = CHR ''|''"] disj_or.prems
    by (simp add: reduce_stop)
  then have "reads (ts @ TOr # us) rest ops as ops2 as2"
    using r1 r2 by (simp add: reads_def Let_def)
  then show ?case using pending_d_or [OF p2] by blast
qed (auto simp: reads_def)

lemma label_read:
  assumes "is_disj ts a"
  shows "\<exists>s. run ts True (st [] []) = Some (False, s) \<and> rd_nodes s \<noteq> [] \<and>
    reduce_while (\<lambda>p. p \<noteq> CHR ''('') s = st [] [a]"
proof -
  have "at_disj []" by (simp add: at_defs)
  then obtain ops as where r: "reads ts [] [] [] ops as" and p: "pending_d ops as [] [a]"
    using grammar_read(3) [OF assms] by blast
  have "as \<noteq> []" using p by (auto elim!: pending_d.cases pending.cases)
  then show ?thesis
    using r pending_d_reduce [OF p, of "\<lambda>p. p \<noteq> CHR ''(''"] by (auto simp: reads_def)
qed

section \<open>Only labels are read\<close>

text \<open>What the tokens read so far are when an operand is expected, and when one is complete.\<close>

inductive expects :: "tok list \<Rightarrow> char list \<Rightarrow> label list \<Rightarrow> bool" where
  expects_start: "expects [] [] []"
| expects_not: "expects pre ops as \<Longrightarrow> expects (pre @ [TNot]) (CHR ''!'' # ops) as"
| expects_paren: "expects pre ops as \<Longrightarrow> expects (pre @ [TOpen]) (CHR ''('' # ops) as"
| expects_or: "expects pre ops as \<Longrightarrow> at_disj ops \<Longrightarrow> is_disj ts a \<Longrightarrow>
    expects (pre @ ts @ [TOr]) (CHR ''|'' # ops) (a # as)"
| expects_and: "expects pre ops as \<Longrightarrow> at_conj ops \<Longrightarrow> is_conj ts a \<Longrightarrow>
    expects (pre @ ts @ [TAnd]) (CHR ''&'' # ops) (a # as)"

inductive_cases expects_emptyE: "expects pre [] as"
inductive_cases expects_notE: "expects pre (CHR ''!'' # ops) as"
inductive_cases expects_parenE: "expects pre (CHR ''('' # ops) as"
inductive_cases expects_orE: "expects pre (CHR ''|'' # ops) as"
inductive_cases expects_andE: "expects pre (CHR ''&'' # ops) as"

definition complete ::
  "(char list \<Rightarrow> bool) \<Rightarrow> (tok list \<Rightarrow> label \<Rightarrow> bool) \<Rightarrow> tok list \<Rightarrow> char list \<Rightarrow> label list \<Rightarrow> bool" where
  "complete lev g pre ops as \<longleftrightarrow>
     (\<exists>pre' ts a as'. pre = pre' @ ts \<and> as = a # as' \<and> expects pre' ops as' \<and> lev ops \<and> g ts a)"

lemma completeI:
  "expects pre ops as \<Longrightarrow> lev ops \<Longrightarrow> g ts a \<Longrightarrow> complete lev g (pre @ ts) ops (a # as)"
  by (auto simp: complete_def)

lemma expects_ops: "expects pre ops as \<Longrightarrow> at_atom ops \<or> hd ops = CHR ''!'' \<and> ops \<noteq> []"
  by (induction rule: expects.induct) (auto simp: at_defs)

lemma complete_operand:
  "expects pre ops as \<Longrightarrow> is_atom ts a \<Longrightarrow>
    \<exists>ops' as'. operand_done (st ops (a # as)) = st ops' as' \<and> complete at_atom is_atom (pre @ ts) ops' as'"
proof (induction ops arbitrary: pre ts a)
  case Nil
  have "at_atom []" by (simp add: at_defs)
  then show ?case using completeI [of pre "[]" as at_atom is_atom ts a] Nil.prems by (auto simp: reduce_stop)
next
  case (Cons p ops)
  show ?case
  proof (cases "p = CHR ''!''")
    case True
    then obtain pre' where pre: "pre = pre' @ [TNot]" "expects pre' ops as"
      using Cons.prems(1) by (auto elim: expects_notE)
    have "operand_done (st (p # ops) (a # as)) = operand_done (st ops (LNot a # as))"
      using True by (simp add: operand_done_def)
    then show ?thesis
      using Cons.IH [OF pre(2) atom_not [OF Cons.prems(2)]] pre(1) by simp
  next
    case False
    then have "at_atom (p # ops)" using expects_ops [OF Cons.prems(1)] by simp
    then show ?thesis
      using completeI [of pre "p # ops" as at_atom is_atom ts a] Cons.prems by (auto simp: reduce_stop)
  qed
qed

lemma complete_conj:
  assumes "complete at_atom is_atom pre ops as"
  shows "\<exists>ops' as'. complete at_conj is_conj pre ops' as' \<and> pending ops as ops' as'"
proof -
  obtain pre' ts a as' where a: "pre = pre' @ ts" "as = a # as'" "expects pre' ops as'" "at_atom ops" "is_atom ts a"
    using assms by (auto simp: complete_def)
  show ?thesis
  proof (cases "at_conj ops")
    case True
    then have "complete at_conj is_conj pre ops as" using a conj_atom by (auto simp: complete_def)
    then show ?thesis using pending_none by blast
  next
    case False
    then obtain ops' where o: "ops = CHR ''&'' # ops'" using a(4) by (cases ops) (auto simp: at_defs)
    obtain p us b bs where b: "pre' = p @ us @ [TAnd]" "as' = b # bs" "expects p ops' bs" "at_conj ops'"
        "is_conj us b"
      using a(3) unfolding o by (auto elim: expects_andE)
    have "complete at_conj is_conj pre ops' (LAnd b a # bs)"
      using a(1) b conj_and [OF b(5) a(5)] unfolding complete_def
      by (intro exI [of _ p] exI [of _ "us @ TAnd # ts"] exI) auto
    moreover have "pending ops as ops' (LAnd b a # bs)" unfolding a(2) o b(2) by (rule pending_and)
    ultimately show ?thesis by blast
  qed
qed

lemma complete_disj:
  assumes "complete at_conj is_conj pre ops as"
  shows "\<exists>ops' as'. complete at_disj is_disj pre ops' as' \<and>
    (ops' = ops \<and> as' = as \<or> (\<exists>a b bs. ops = CHR ''|'' # ops' \<and> as = a # b # bs \<and> as' = LOr b a # bs))"
proof -
  obtain pre' ts a as' where a: "pre = pre' @ ts" "as = a # as'" "expects pre' ops as'" "at_conj ops" "is_conj ts a"
    using assms by (auto simp: complete_def)
  show ?thesis
  proof (cases "at_disj ops")
    case True
    then have "complete at_disj is_disj pre ops as" using a disj_conj by (auto simp: complete_def)
    then show ?thesis by blast
  next
    case False
    then obtain ops' where o: "ops = CHR ''|'' # ops'" using a(4) by (cases ops) (auto simp: at_defs)
    obtain p us b bs where b: "pre' = p @ us @ [TOr]" "as' = b # bs" "expects p ops' bs" "at_disj ops'"
        "is_disj us b"
      using a(3) unfolding o by (auto elim: expects_orE)
    have "complete at_disj is_disj pre ops' (LOr b a # bs)"
      using a(1) b disj_or [OF b(5) a(5)] unfolding complete_def
      by (intro exI [of _ p] exI [of _ "us @ TOr # ts"] exI) auto
    then show ?thesis using a(2) o b(2) by blast
  qed
qed

lemma complete_all:
  assumes "complete at_atom is_atom pre ops as"
  shows "\<exists>ops' as'. complete at_disj is_disj pre ops' as' \<and> pending_d ops as ops' as'"
proof -
  obtain ops1 as1 where 1: "complete at_conj is_conj pre ops1 as1" "pending ops as ops1 as1"
    using complete_conj [OF assms] by blast
  obtain ops2 as2 where 2: "complete at_disj is_disj pre ops2 as2"
      "ops2 = ops1 \<and> as2 = as1 \<or> (\<exists>a b bs. ops1 = CHR ''|'' # ops2 \<and> as1 = a # b # bs \<and> as2 = LOr b a # bs)"
    using complete_disj [OF 1(1)] by blast
  then have "pending_d ops as ops2 as2" using 1(2) pending_d_conj pending_d_or by blast
  then show ?thesis using 2(1) by blast
qed

lemma complete_lev: "complete lev g pre ops as \<Longrightarrow> lev ops"
  by (auto simp: complete_def)

definition position :: "bool \<Rightarrow> tok list \<Rightarrow> char list \<Rightarrow> label list \<Rightarrow> bool" where
  "position operand pre ops as \<longleftrightarrow>
     (if operand then expects pre ops as else complete at_atom is_atom pre ops as)"

lemma run_position:
  "run ts operand (st ops as) = Some (operand', s') \<Longrightarrow> position operand pre ops as \<Longrightarrow>
    \<exists>ops' as'. s' = st ops' as' \<and> position operand' (pre @ ts) ops' as'"
proof (induction ts arbitrary: operand ops as pre)
  case Nil
  then show ?case by auto
next
  case (Cons t ts)
  have leaf: ?case
    if "operand" "run ts False (operand_done (st ops (a # as))) = Some (operand', s')" "is_atom [t] a" for a
  proof -
    have "expects pre ops as" using Cons.prems(2) that(1) by (simp add: position_def)
    from complete_operand [OF this that(3)] obtain ops1 as1 where
        "operand_done (st ops (a # as)) = st ops1 as1"
        "complete at_atom is_atom (pre @ [t]) ops1 as1" by blast
    then show ?thesis using Cons.IH [of False ops1 as1 "pre @ [t]"] that(2) by (simp add: position_def)
  qed
  have push: ?case
    if "run ts True (st (p # ops1) as1) = Some (operand', s')" "expects (pre @ [t]) (p # ops1) as1" for p ops1 as1
    using Cons.IH [OF that(1), of "pre @ [t]"] that(2) by (simp add: position_def)
  show ?case
  proof (cases t)
    case TTrue
    then show ?thesis using Cons.prems(1) by (intro leaf [of LTrue]) (auto split: if_splits intro: atom_true)
  next
    case TFalse
    then show ?thesis using Cons.prems(1) by (intro leaf [of LFalse]) (auto split: if_splits intro: atom_false)
  next
    case (TAp n)
    then show ?thesis using Cons.prems(1) by (intro leaf [of "LAp n"]) (auto split: if_splits intro: atom_ap)
  next
    case TNot
    then show ?thesis using Cons.prems
      by (intro push [of "CHR ''!''" ops as]) (auto split: if_splits simp: position_def intro: expects_not)
  next
    case TOpen
    then show ?thesis using Cons.prems
      by (intro push [of "CHR ''(''" ops as]) (auto split: if_splits simp: position_def intro: expects_paren)
  next
    case TAnd
    then have c: "complete at_atom is_atom pre ops as" using Cons.prems by (auto simp: position_def split: if_splits)
    obtain ops1 as1 where 1: "complete at_conj is_conj pre ops1 as1" "pending ops as ops1 as1"
      using complete_conj [OF c] by blast
    have "reduce_while (\<lambda>p. p = CHR ''&'') (st ops as) = st ops1 as1"
      using pending_reduce [OF 1(2), of "\<lambda>p. p = CHR ''&''"] complete_lev [OF 1(1)] by (simp add: reduce_stop)
    moreover have "expects (pre @ [TAnd]) (CHR ''&'' # ops1) as1"
      using 1(1) expects_and by (auto simp: complete_def)
    ultimately show ?thesis using Cons.prems(1) TAnd
      by (intro push [of "CHR ''&''" ops1 as1]) (auto split: if_splits simp: Let_def)
  next
    case TOr
    then have c: "complete at_atom is_atom pre ops as" using Cons.prems by (auto simp: position_def split: if_splits)
    obtain ops1 as1 where 1: "complete at_disj is_disj pre ops1 as1" "pending_d ops as ops1 as1"
      using complete_all [OF c] by blast
    have "reduce_while (\<lambda>p. p = CHR ''&'' \<or> p = CHR ''|'') (st ops as) = st ops1 as1"
      using pending_d_reduce [OF 1(2), of "\<lambda>p. p = CHR ''&'' \<or> p = CHR ''|''"] complete_lev [OF 1(1)]
      by (simp add: reduce_stop)
    moreover have "expects (pre @ [TOr]) (CHR ''|'' # ops1) as1"
      using 1(1) expects_or by (auto simp: complete_def)
    ultimately show ?thesis using Cons.prems(1) TOr
      by (intro push [of "CHR ''|''" ops1 as1]) (auto split: if_splits simp: Let_def)
  next
    case TClose
    then have c: "complete at_atom is_atom pre ops as" and nop: "\<not> operand"
      using Cons.prems by (auto simp: position_def split: if_splits)
    obtain ops1 as1 where 1: "complete at_disj is_disj pre ops1 as1" "pending_d ops as ops1 as1"
      using complete_all [OF c] by blast
    have red: "reduce_while (\<lambda>p. p \<noteq> CHR ''('') (st ops as) = st ops1 as1"
      using pending_d_reduce [OF 1(2), of "\<lambda>p. p \<noteq> CHR ''(''"] complete_lev [OF 1(1)]
      by (simp add: reduce_stop)
    then have "ops1 \<noteq> []" using Cons.prems(1) TClose nop by (auto simp: Let_def)
    then obtain ops2 where o: "ops1 = CHR ''('' # ops2"
      using complete_lev [OF 1(1)] by (cases ops1) (auto simp: at_defs)
    obtain pre' us a as2 where a: "pre = pre' @ us" "as1 = a # as2" "expects pre' ops1 as2" "is_disj us a"
      using 1(1) by (auto simp: complete_def)
    obtain p where p: "pre' = p @ [TOpen]" "expects p ops2 as2"
      using a(3) unfolding o by (auto elim: expects_parenE)
    obtain ops3 as3 where 3: "operand_done (st ops2 as1) = st ops3 as3"
        "complete at_atom is_atom (p @ TOpen # us @ [TClose]) ops3 as3"
      using complete_operand [OF p(2) atom_paren [OF a(4)]] a(2) by auto
    have "run ts False (st ops3 as3) = Some (operand', s')"
      using Cons.prems(1) TClose nop red o 3(1) by (simp add: Let_def)
    moreover have "position False (pre @ [TClose]) ops3 as3"
      using 3(2) a(1) p(1) by (simp add: position_def)
    ultimately show ?thesis using Cons.IH [of False ops3 as3 "pre @ [TClose]"] TClose by simp
  qed
qed

section \<open>Properties\<close>

text \<open>What a text is a label for: a blank text is the label \<open>t\<close>.\<close>

definition is_label :: "string \<Rightarrow> label \<Rightarrow> bool" where
  "is_label s a \<longleftrightarrow>
     (\<exists>ts. label_tokens s = Some ts \<and> (if ts = [] then a = LTrue else is_disj ts a))"

lemma reader_start: "\<lparr>rd_nodes = [], rd_ops = [], rd_vals = []\<rparr> = st [] []"
  by (simp add: st_def)

lemma read_label_sound:
  assumes "read_label s = Some e"
  shows "\<exists>a. is_label s a \<and> e = layout 0 a"
proof -
  obtain ts operand r where ts: "label_tokens s = Some ts" and r: "run ts True (st [] []) = Some (operand, r)"
      and f: "finish_read (operand, r) = Some e"
    using assms by (auto simp: read_label_def read_loop_tokens bind_Some_iff reader_start)
  obtain ops as where s: "r = st ops as" and p: "position operand ts ops as"
    using run_position [OF r, of "[]"] expects_start by (auto simp: position_def)
  show ?thesis
  proof (cases operand)
    case True
    then have "as = []" "ops = []" "e = layout 0 LTrue" using f s by (auto split: if_splits)
    moreover have "ts = []" using p True calculation by (auto simp: position_def elim: expects_emptyE)
    ultimately show ?thesis using ts by (auto simp: is_label_def)
  next
    case False
    then have c: "complete at_atom is_atom ts ops as" using p by (simp add: position_def)
    then have ne: "as \<noteq> []" "ts \<noteq> []" by (auto simp: complete_def elim: is_atom.cases)
    obtain ops1 as1 where 1: "complete at_disj is_disj ts ops1 as1" "pending_d ops as ops1 as1"
      using complete_all [OF c] by blast
    have "reduce_while (\<lambda>p. p \<noteq> CHR ''('') (st ops as) = st ops1 as1"
      using pending_d_reduce [OF 1(2), of "\<lambda>p. p \<noteq> CHR ''(''"] complete_lev [OF 1(1)]
      by (simp add: reduce_stop)
    then have o: "ops1 = []" "e = stack_nodes as1"
      using f s ne(1) False by (auto simp: Let_def split: if_splits)
    obtain pre' us a as2 where a: "ts = pre' @ us" "as1 = a # as2" "expects pre' [] as2" "is_disj us a"
      using 1(1) o(1) by (auto simp: complete_def)
    have "pre' = [] \<and> as2 = []" using a(3) by (auto elim: expects_emptyE)
    then show ?thesis using ts ne(2) a o(2) by (auto simp: is_label_def)
  qed
qed

lemma read_label_complete:
  assumes "is_label s a"
  shows "read_label s = Some (layout 0 a)"
proof -
  obtain ts where ts: "label_tokens s = Some ts" "if ts = [] then a = LTrue else is_disj ts a"
    using assms by (auto simp: is_label_def)
  show ?thesis
  proof (cases "ts = []")
    case True
    then show ?thesis using ts by (simp add: read_label_def read_loop_tokens reader_start)
  next
    case False
    then obtain r where "run ts True (st [] []) = Some (False, r)" "rd_nodes r \<noteq> []"
        "reduce_while (\<lambda>p. p \<noteq> CHR ''('') r = st [] [a]"
      using label_read [of ts a] ts(2) by auto
    then show ?thesis using ts(1) by (simp add: read_label_def read_loop_tokens reader_start Let_def)
  qed
qed

text \<open>
  C15: the reader returns an expression exactly on the texts the label grammar derives (a blank text
  reads as \<open>t\<close>), and what it returns is the derived expression in postorder: operands before their
  operator, \<open>&\<close> binding tighter than \<open>|\<close>, both grouping to the left, \<open>!\<close> tightest.
\<close>

theorem read_label_grammar:
  "read_label s = Some e \<longleftrightarrow> (\<exists>a. is_label s a \<and> e = layout 0 a)"
  using read_label_sound read_label_complete by auto

end
