(* ===== verification/Hoa_Label_Dnf.thy ===== *)
theory Hoa_Label_Dnf imports Hoa_Label_Reader begin

text \<open>
  What the folds over a label expression compute: the value under an assignment, the sum of
  products with its cap, and the products as written.
\<close>

section \<open>Folding an expression in postorder\<close>

lemma fold_nodes_step: "foldl (\<lambda>vs n. vs @ [f n vs]) vs (xs @ ys) =
    foldl (\<lambda>vs n. vs @ [f n vs]) (foldl (\<lambda>vs n. vs @ [f n vs]) vs xs) ys"
  by simp

lemma nth_block_end:
  assumes "length xs = n" "0 < n"
  shows "(vs @ xs @ ys) ! (length vs + n - 1) = last xs"
proof -
  have "xs \<noteq> []" using assms by auto
  moreover have "length vs + n - 1 = length vs + (length xs - 1)" using assms by simp
  ultimately show ?thesis by (simp only: nth_append_length_plus) (simp add: nth_append last_conv_nth)
qed

lemma operand_ends:
  assumes "length xs = node_count a" "length ys = node_count b"
  shows "(vs @ xs) ! (length vs + node_count a - 1) = last xs"
    "(vs @ xs @ ys) ! (length vs + node_count a - 1) = last xs"
    "(vs @ xs @ ys) ! (length vs + node_count a + node_count b - 1) = last ys"
  using nth_block_end [of xs "node_count a" vs "[]"] nth_block_end [of xs "node_count a" vs ys]
    nth_block_end [of ys "node_count b" "vs @ xs" "[]"] assms by (simp_all add: add.assoc)

text \<open>
  A fold whose step reads the values of the operands only computes the value of the expression
  by recursion on it.
\<close>

locale node_fold =
  fixes f :: "label_node \<Rightarrow> 'r list \<Rightarrow> 'r" and val :: "label \<Rightarrow> 'r"
  assumes f_true: "f (node_of Tt 0 0 0) vs = val LTrue"
    and f_false: "f (node_of Ff 0 0 0) vs = val LFalse"
    and f_ap: "f (node_of Ap n 0 0) vs = val (LAp n)"
    and f_neg: "vs ! l = val a \<Longrightarrow> f (node_of Neg 0 l 0) vs = val (LNot a)"
    and f_conj: "vs ! l = val a \<Longrightarrow> vs ! r = val b \<Longrightarrow> f (node_of Conj 0 l r) vs = val (LAnd a b)"
    and f_disj: "vs ! l = val a \<Longrightarrow> vs ! r = val b \<Longrightarrow> f (node_of Disj 0 l r) vs = val (LOr a b)"
begin

lemma fold_layout:
  "\<exists>xs. foldl (\<lambda>vs n. vs @ [f n vs]) vs (layout (length vs) a) = vs @ xs \<and>
     length xs = node_count a \<and> last xs = val a"
proof (induction a arbitrary: vs)
  case (LNot a)
  then obtain xs where x: "foldl (\<lambda>vs n. vs @ [f n vs]) vs (layout (length vs) a) = vs @ xs"
    "length xs = node_count a" "last xs = val a" by blast
  have "(vs @ xs) ! (length vs + node_count a - 1) = val a"
    using operand_ends(1) [OF x(2) x(2)] x(3) by simp
  then show ?case using x f_neg by (auto intro!: exI [of _ "xs @ [val (LNot a)]"])
next
  case (LAnd a b)
  obtain xs where x: "foldl (\<lambda>vs n. vs @ [f n vs]) vs (layout (length vs) a) = vs @ xs"
    "length xs = node_count a" "last xs = val a" using LAnd.IH(1) by blast
  obtain ys where y: "foldl (\<lambda>vs n. vs @ [f n vs]) (vs @ xs) (layout (length vs + node_count a) b) = vs @ xs @ ys"
    "length ys = node_count b" "last ys = val b" using LAnd.IH(2) [of "vs @ xs"] x(2) by auto
  have "(vs @ xs @ ys) ! (length vs + node_count a - 1) = val a"
      "(vs @ xs @ ys) ! (length vs + node_count a + node_count b - 1) = val b"
    using operand_ends(2,3) [OF x(2) y(2)] x(3) y(3) by simp_all
  then show ?case using x y f_conj by (auto intro!: exI [of _ "xs @ ys @ [val (LAnd a b)]"])
next
  case (LOr a b)
  obtain xs where x: "foldl (\<lambda>vs n. vs @ [f n vs]) vs (layout (length vs) a) = vs @ xs"
    "length xs = node_count a" "last xs = val a" using LOr.IH(1) by blast
  obtain ys where y: "foldl (\<lambda>vs n. vs @ [f n vs]) (vs @ xs) (layout (length vs + node_count a) b) = vs @ xs @ ys"
    "length ys = node_count b" "last ys = val b" using LOr.IH(2) [of "vs @ xs"] x(2) by auto
  have "(vs @ xs @ ys) ! (length vs + node_count a - 1) = val a"
      "(vs @ xs @ ys) ! (length vs + node_count a + node_count b - 1) = val b"
    using operand_ends(2,3) [OF x(2) y(2)] x(3) y(3) by simp_all
  then show ?case using x y f_disj by (auto intro!: exI [of _ "xs @ ys @ [val (LOr a b)]"])
qed (auto simp: f_true f_false f_ap)

lemma label_fold_layout: "label_fold f (layout 0 a) = val a"
proof -
  obtain xs where "fold_nodes f (layout 0 a) = xs" "length xs = node_count a" "last xs = val a"
    using fold_layout [of "[]" a] by (auto simp: fold_nodes_def)
  then show ?thesis by (simp add: label_fold_def)
qed

end

section \<open>Values\<close>

fun holds :: "(nat \<Rightarrow> bool) \<Rightarrow> label \<Rightarrow> bool" where
  "holds v LTrue = True"
| "holds v LFalse = False"
| "holds v (LAp n) = v n"
| "holds v (LNot a) = (\<not> holds v a)"
| "holds v (LAnd a b) = (holds v a \<and> holds v b)"
| "holds v (LOr a b) = (holds v a \<or> holds v b)"

interpretation value_fold: node_fold "eval_node v" "holds v" for v
  by unfold_locales (simp_all add: eval_node_def node_of_def)

lemma eval_layout: "eval_label v (layout 0 a) = holds v a"
  by (simp add: eval_label_def value_fold.label_fold_layout)

section \<open>The sum of products\<close>

definition cube_sat :: "(nat \<Rightarrow> bool) \<Rightarrow> cube \<Rightarrow> bool" where
  "cube_sat v c \<longleftrightarrow> (\<forall>l \<in> set c. v (fst l) = snd l)"

definition dnf_sat :: "(nat \<Rightarrow> bool) \<Rightarrow> dnf \<Rightarrow> bool" where
  "dnf_sat v d \<longleftrightarrow> (\<exists>c \<in> set d. cube_sat v c)"

text \<open>A cube in normal form: indices strictly ascending, so no index twice.\<close>

definition cube_ok :: "cube \<Rightarrow> bool" where
  "cube_ok c \<longleftrightarrow> sorted_wrt (<) (map fst c)"

lemma cube_sat_simps [simp]:
  "cube_sat v [] = True" "cube_sat v (l # c) = (v (fst l) = snd l \<and> cube_sat v c)"
  "cube_sat v (c @ d) = (cube_sat v c \<and> cube_sat v d)"
  by (auto simp: cube_sat_def)

lemma dnf_sat_simps [simp]:
  "dnf_sat v [] = False" "dnf_sat v (c # d) = (cube_sat v c \<or> dnf_sat v d)"
  "dnf_sat v (d @ e) = (dnf_sat v d \<or> dnf_sat v e)"
  by (auto simp: dnf_sat_def)

lemma merge_lits_spec:
  assumes "sorted (rev out @ ls)" "cube_ok (rev out)"
  shows "case merge_lits out ls of
      Some m \<Rightarrow> cube_ok m \<and> (\<forall>v. cube_sat v m = cube_sat v (rev out @ ls))
    | None \<Rightarrow> (\<forall>v. \<not> cube_sat v (rev out @ ls))"
  using assms
proof (induction out ls rule: merge_lits.induct)
  case (3 b out l ls)
  have le: "b \<le> l" using "3.prems"(1) by (simp add: sorted_append)
  show ?case
  proof (cases "fst b = fst l")
    case True
    show ?thesis
    proof (cases "snd b = snd l")
      case False
      then have "\<not> cube_sat v (rev (b # out) @ l # ls)" for v using True by auto
      then show ?thesis using True False by simp
    next
      case same: True
      have "sorted (rev (b # out) @ ls)" using "3.prems"(1) by (auto simp: sorted_append)
      then have ih: "case merge_lits (b # out) ls of
          Some m \<Rightarrow> cube_ok m \<and> (\<forall>v. cube_sat v m = cube_sat v (rev (b # out) @ ls))
        | None \<Rightarrow> (\<forall>v. \<not> cube_sat v (rev (b # out) @ ls))"
        using "3.IH"(1) True same "3.prems"(2) by simp
      have "cube_sat v (rev (b # out) @ l # ls) = cube_sat v (rev (b # out) @ ls)" for v
        using True same by auto
      then show ?thesis using ih True same by (simp split: option.splits)
    qed
  next
    case False
    then have "fst b < fst l" using le by (auto simp: less_eq_prod_def)
    then have "cube_ok (rev (l # b # out))"
      using "3.prems"(2) by (fastforce simp: cube_ok_def sorted_wrt_append)
    then show ?thesis using "3.IH"(2) False "3.prems"(1) by (auto split: option.splits)
  qed
next
  case (2 l ls)
  then show ?case by (simp add: cube_ok_def split: option.splits)
qed (simp add: cube_ok_def)

lemma normalise_cube_spec:
  "case normalise_cube c of
      Some m \<Rightarrow> cube_ok m \<and> (\<forall>v. cube_sat v m = cube_sat v c)
    | None \<Rightarrow> (\<forall>v. \<not> cube_sat v c)"
proof -
  have "cube_sat v (sort c) = cube_sat v c" for v by (simp add: cube_sat_def)
  then show ?thesis using merge_lits_spec [of "[]" "sort c"]
    by (simp add: normalise_cube_def cube_ok_def split: option.splits)
qed

text \<open>What the operations keep: normal cubes, and at most the cap of them.\<close>

definition dnf_ok :: "nat \<Rightarrow> dnf \<Rightarrow> bool" where
  "dnf_ok mx d \<longleftrightarrow> (\<forall>c \<in> set d. cube_ok c) \<and> length d \<le> mx"

lemma and_row_spec:
  "and_row mx ca bs r = Some d \<Longrightarrow> dnf_ok mx r \<Longrightarrow>
    dnf_ok mx d \<and> (\<forall>v. dnf_sat v d = (dnf_sat v r \<or> cube_sat v ca \<and> dnf_sat v bs))"
proof (induction mx ca bs r rule: and_row.induct)
  case (2 mx ca cb bs r)
  let ?r = "case normalise_cube (ca @ cb) of Some m \<Rightarrow> r @ [m] | None \<Rightarrow> r"
  have len: "\<not> length r \<ge> mx" and rec: "and_row mx ca bs ?r = Some d" using 2(2) by (auto split: if_splits)
  have "dnf_ok mx ?r \<and> (\<forall>v. dnf_sat v ?r = (dnf_sat v r \<or> cube_sat v (ca @ cb)))"
    using normalise_cube_spec [of "ca @ cb"] 2(3) len by (auto simp: dnf_ok_def split: option.splits)
  then show ?case using 2(1) [OF len rec] by auto
qed simp

lemma and_rows_spec:
  "and_rows mx a b r = Some d \<Longrightarrow> dnf_ok mx r \<Longrightarrow>
    dnf_ok mx d \<and> (\<forall>v. dnf_sat v d = (dnf_sat v r \<or> dnf_sat v a \<and> dnf_sat v b))"
proof (induction mx a b r rule: and_rows.induct)
  case (2 mx ca cas bs r)
  obtain r' where r': "and_row mx ca bs r = Some r'" "and_rows mx cas bs r' = Some d"
    using 2(2) by (auto simp: bind_Some_iff)
  show ?case using and_row_spec [OF r'(1) 2(3)] 2(1) r' by auto
qed simp

lemma dnf_and_spec:
  "dnf_and a b mx = Some d \<Longrightarrow> dnf_ok mx d \<and> (\<forall>v. dnf_sat v d = (dnf_sat v a \<and> dnf_sat v b))"
  using and_rows_spec [of mx a b "[]" d] by (simp add: dnf_and_def dnf_ok_def)

lemma dnf_or_spec:
  "dnf_or a b mx = Some d \<Longrightarrow> dnf_ok mx a \<Longrightarrow> dnf_ok mx b \<Longrightarrow>
    dnf_ok mx d \<and> (\<forall>v. dnf_sat v d = (dnf_sat v a \<or> dnf_sat v b))"
proof (induction a b mx rule: dnf_or.induct)
  case (2 a cb b mx)
  have "dnf_ok mx (a @ [cb])" "dnf_ok mx b" "\<not> length a \<ge> mx" "dnf_or (a @ [cb]) b mx = Some d"
    using "2.prems" by (auto simp: dnf_ok_def split: if_splits)
  then show ?case using "2.IH" by auto
qed simp

lemma negated_lits: "dnf_sat v (map (\<lambda>l. [(fst l, \<not> snd l)]) c) = (\<not> cube_sat v c)"
  by (induction c) auto

lemma not_cubes_spec:
  "not_cubes mx cs r = Some d \<Longrightarrow> dnf_ok mx r \<Longrightarrow>
    dnf_ok mx d \<and> (\<forall>v. dnf_sat v d = (dnf_sat v r \<and> \<not> dnf_sat v cs))"
proof (induction mx cs r rule: not_cubes.induct)
  case (2 mx c cs r)
  show ?case
  proof (cases "c = []")
    case True
    then show ?thesis using "2.prems" by (auto simp: dnf_ok_def)
  next
    case False
    let ?n = "map (\<lambda>l. [(fst l, \<not> snd l)]) c"
    obtain m where m: "dnf_and r ?n mx = Some m" "not_cubes mx cs m = Some d"
      using 2(2) False by (auto split: option.splits)
    show ?thesis using "2.IH" [OF False m] dnf_and_spec [OF m(1)] by (auto simp: negated_lits)
  qed
qed simp

lemma dnf_not_spec:
  "dnf_not a mx = Some d \<Longrightarrow> 0 < mx \<Longrightarrow> dnf_ok mx d \<and> (\<forall>v. dnf_sat v d = (\<not> dnf_sat v a))"
  using not_cubes_spec [of mx a "[[]]" d] by (simp add: dnf_not_def dnf_ok_def cube_ok_def)

fun dnf_of :: "nat \<Rightarrow> label \<Rightarrow> dnf option" where
  "dnf_of mx LTrue = Some [[]]"
| "dnf_of mx LFalse = Some []"
| "dnf_of mx (LAp n) = Some [[(n, True)]]"
| "dnf_of mx (LNot a) = Option.bind (dnf_of mx a) (\<lambda>d. dnf_not d mx)"
| "dnf_of mx (LAnd a b) = Option.bind (dnf_of mx a) (\<lambda>d. Option.bind (dnf_of mx b) (\<lambda>e. dnf_and d e mx))"
| "dnf_of mx (LOr a b) = Option.bind (dnf_of mx a) (\<lambda>d. Option.bind (dnf_of mx b) (\<lambda>e. dnf_or d e mx))"

interpretation cubes_fold: node_fold "dnf_node mx" "dnf_of mx" for mx
  by unfold_locales (simp_all add: dnf_node_def node_of_def)

lemma dnf_of_spec:
  "dnf_of mx a = Some d \<Longrightarrow> 0 < mx \<Longrightarrow> dnf_ok mx d \<and> (\<forall>v. dnf_sat v d = holds v a)"
proof (induction a arbitrary: d)
  case (LNot a)
  then show ?case using dnf_not_spec by (auto simp: bind_Some_iff)
next
  case (LAnd a b)
  then show ?case using dnf_and_spec by (fastforce simp: bind_Some_iff)
next
  case (LOr a b)
  then obtain d1 d2 where "dnf_of mx a = Some d1" "dnf_of mx b = Some d2" "dnf_or d1 d2 mx = Some d"
    by (auto simp: bind_Some_iff)
  then show ?case using LOr dnf_or_spec [of d1 d2 mx d] by auto
qed (auto simp: dnf_ok_def cube_ok_def)

section \<open>When the cap is met\<close>

text \<open>
  The products of two lists of cubes without a cap, in the order the code forms them, and the
  room they take: the number of cubes kept before the last pair is tried, and one more. The
  code gives up at the first pair it tries with the cap already reached, so this is the least
  cap under which a conjunction answers.
\<close>

definition kept_cubes :: "(cube \<times> cube) list \<Rightarrow> dnf" where
  "kept_cubes ps = List.map_filter (\<lambda>(c, d). normalise_cube (c @ d)) ps"

definition pair_room :: "(cube \<times> cube) list \<Rightarrow> nat" where
  "pair_room ps = (if ps = [] then 0 else Suc (length (kept_cubes (butlast ps))))"

fun pairs_fold :: "nat \<Rightarrow> (cube \<times> cube) list \<Rightarrow> dnf \<Rightarrow> dnf option" where
  "pairs_fold mx [] r = Some r"
| "pairs_fold mx (p # ps) r = (if length r \<ge> mx then None else pairs_fold mx ps (r @ kept_cubes [p]))"

lemma kept_cubes_Nil [simp]: "kept_cubes [] = []"
  by (simp add: kept_cubes_def map_filter_def)

lemma kept_cubes_Cons: "kept_cubes (p # ps) = kept_cubes [p] @ kept_cubes ps"
  by (simp add: kept_cubes_def map_filter_def)

lemma pairs_fold_eq:
  "pairs_fold mx ps r =
     (if ps = [] \<or> length r + length (kept_cubes (butlast ps)) < mx then Some (r @ kept_cubes ps) else None)"
proof (induction ps arbitrary: r)
  case (Cons p ps)
  show ?case
  proof (cases "ps = []")
    case False
    then have "kept_cubes (butlast (p # ps)) = kept_cubes [p] @ kept_cubes (butlast ps)"
      using kept_cubes_Cons [of p "butlast ps"] by simp
    then show ?thesis using Cons.IH [of "r @ kept_cubes [p]"] kept_cubes_Cons [of p ps] False by simp
  qed simp
qed simp

lemma pairs_fold_append:
  "pairs_fold mx (ps @ qs) r = Option.bind (pairs_fold mx ps r) (pairs_fold mx qs)"
  by (induction ps arbitrary: r) simp_all

lemma and_row_pairs: "and_row mx ca bs r = pairs_fold mx (map (Pair ca) bs) r"
  by (induction bs arbitrary: r) (simp_all add: kept_cubes_def map_filter_def split: option.splits)

lemma and_rows_pairs: "and_rows mx a b r = pairs_fold mx (List.product a b) r"
  by (induction a arbitrary: r) (simp_all add: and_row_pairs pairs_fold_append cong: bind_option_cong)

lemma dnf_and_eq:
  "dnf_and a b mx = (if pair_room (List.product a b) \<le> mx then Some (kept_cubes (List.product a b)) else None)"
  by (auto simp: dnf_and_def and_rows_pairs pairs_fold_eq pair_room_def)

lemma dnf_or_eq: "dnf_or a b mx = (if b = [] \<or> length (a @ b) \<le> mx then Some (a @ b) else None)"
  by (induction a b mx rule: dnf_or.induct) (auto split: if_splits)

text \<open>The negation: one conjunction for each cube, until an empty cube decides.\<close>

definition negated_cube :: "cube \<Rightarrow> dnf" where
  "negated_cube c = map (\<lambda>l. [(fst l, \<not> snd l)]) c"

fun cubes_without :: "dnf \<Rightarrow> dnf \<Rightarrow> dnf" where
  "cubes_without r [] = r"
| "cubes_without r (c # cs) = (if c = [] then [] else cubes_without (kept_cubes (List.product r (negated_cube c))) cs)"

fun without_room :: "dnf \<Rightarrow> dnf \<Rightarrow> nat" where
  "without_room r [] = 0"
| "without_room r (c # cs) =
     (if c = [] then 0
      else let ps = List.product r (negated_cube c) in max (pair_room ps) (without_room (kept_cubes ps) cs))"

lemma not_cubes_eq:
  "not_cubes mx cs r = (if without_room r cs \<le> mx then Some (cubes_without r cs) else None)"
  by (induction cs arbitrary: r)
     (simp_all add: dnf_and_eq negated_cube_def [symmetric] Let_def max_def split: option.splits)

text \<open>The cubes of a label without a cap, and the least cap under which the code reaches them.\<close>

fun all_cubes :: "label \<Rightarrow> dnf" where
  "all_cubes LTrue = [[]]"
| "all_cubes LFalse = []"
| "all_cubes (LAp n) = [[(n, True)]]"
| "all_cubes (LNot a) = cubes_without [[]] (all_cubes a)"
| "all_cubes (LAnd a b) = kept_cubes (List.product (all_cubes a) (all_cubes b))"
| "all_cubes (LOr a b) = all_cubes a @ all_cubes b"

fun label_room :: "label \<Rightarrow> nat" where
  "label_room (LNot a) = max (label_room a) (without_room [[]] (all_cubes a))"
| "label_room (LAnd a b) =
     max (max (label_room a) (label_room b)) (pair_room (List.product (all_cubes a) (all_cubes b)))"
| "label_room (LOr a b) =
     max (max (label_room a) (label_room b))
       (if all_cubes b = [] then 0 else length (all_cubes a) + length (all_cubes b))"
| "label_room _ = 0"

lemma dnf_of_eq: "dnf_of mx a = (if label_room a \<le> mx then Some (all_cubes a) else None)"
  by (induction a) (simp_all add: dnf_and_eq dnf_or_eq dnf_not_def not_cubes_eq)

lemma label_room_cubes:
  "Suc 0 \<le> mx \<Longrightarrow> label_room a \<le> mx \<Longrightarrow>
    length (all_cubes a) \<le> mx \<and> (\<forall>v. dnf_sat v (all_cubes a) = holds v a) \<and> (\<forall>c \<in> set (all_cubes a). cube_ok c)"
  using dnf_of_spec [of mx a "all_cubes a"] by (simp add: dnf_of_eq dnf_ok_def)

section \<open>The bound of the indices\<close>

fun aps_of :: "label \<Rightarrow> nat set" where
  "aps_of (LAp n) = {n}"
| "aps_of (LNot a) = aps_of a"
| "aps_of (LAnd a b) = aps_of a \<union> aps_of b"
| "aps_of (LOr a b) = aps_of a \<union> aps_of b"
| "aps_of _ = {}"

lemma ap_bound_from:
  "foldl (\<lambda>b n. if n_kind n = Ap then max b (n_ap n + 1) else b) b e \<le> m \<longleftrightarrow>
    b \<le> m \<and> (\<forall>n \<in> set e. n_kind n = Ap \<longrightarrow> n_ap n < m)"
  by (induction e arbitrary: b) auto

lemma layout_aps: "(\<exists>n \<in> set (layout k a). n_kind n = Ap \<and> n_ap n = i) \<longleftrightarrow> i \<in> aps_of a"
  by (induction a arbitrary: k) (simp_all add: node_of_def bex_Un, blast+)

lemma ap_bound_layout: "ap_bound (layout 0 a) \<le> m \<longleftrightarrow> (\<forall>i \<in> aps_of a. i < m)"
proof -
  have "ap_bound (layout 0 a) \<le> m \<longleftrightarrow> (\<forall>n \<in> set (layout 0 a). n_kind n = Ap \<longrightarrow> n_ap n < m)"
    by (simp add: ap_bound_def ap_bound_from)
  also have "\<dots> \<longleftrightarrow> (\<forall>i. (\<exists>n \<in> set (layout 0 a). n_kind n = Ap \<and> n_ap n = i) \<longrightarrow> i < m)" by blast
  finally show ?thesis by (simp only: layout_aps Ball_def)
qed

lemma holds_cong: "(\<And>i. i \<in> aps_of a \<Longrightarrow> v i = w i) \<Longrightarrow> holds v a = holds w a"
  by (induction a) auto

section \<open>The products as written\<close>

text \<open>The node at an index is the root of an expression.\<close>

fun rooted :: "label_expr \<Rightarrow> nat \<Rightarrow> label \<Rightarrow> bool" where
  "rooted e i LTrue = (e ! i = node_of Tt 0 0 0)"
| "rooted e i LFalse = (e ! i = node_of Ff 0 0 0)"
| "rooted e i (LAp n) = (e ! i = node_of Ap n 0 0)"
| "rooted e i (LNot a) = (n_kind (e ! i) = Neg \<and> rooted e (n_lhs (e ! i)) a)"
| "rooted e i (LAnd a b) =
     (n_kind (e ! i) = Conj \<and> rooted e (n_lhs (e ! i)) a \<and> rooted e (n_rhs (e ! i)) b)"
| "rooted e i (LOr a b) =
     (n_kind (e ! i) = Disj \<and> rooted e (n_lhs (e ! i)) a \<and> rooted e (n_rhs (e ! i)) b)"

lemma layout_rooted:
  "rooted (pre @ layout (length pre) a @ post) (length pre + node_count a - 1) a"
proof (induction a arbitrary: pre post)
  case (LNot a)
  let ?n = "node_of Neg 0 (length pre + node_count a - 1) 0"
  have "(pre @ (layout (length pre) a @ [?n]) @ post) ! (length pre + node_count (LNot a) - 1) = ?n"
    by (subst nth_block_end) simp_all
  then show ?case using LNot [of pre "?n # post"] by (simp add: node_of_def)
next
  case (LAnd a b)
  let ?n = "node_of Conj 0 (length pre + node_count a - 1) (length pre + node_count a + node_count b - 1)"
  let ?l = "layout (length pre) a" and ?r = "layout (length pre + node_count a) b"
  have "(pre @ (?l @ ?r @ [?n]) @ post) ! (length pre + node_count (LAnd a b) - 1) = ?n"
    by (subst nth_block_end) simp_all
  then show ?case
    using LAnd.IH(1) [of pre "?r @ ?n # post"] LAnd.IH(2) [of "pre @ ?l" "?n # post"]
    by (simp add: node_of_def)
next
  case (LOr a b)
  let ?n = "node_of Disj 0 (length pre + node_count a - 1) (length pre + node_count a + node_count b - 1)"
  let ?l = "layout (length pre) a" and ?r = "layout (length pre + node_count a) b"
  have "(pre @ (?l @ ?r @ [?n]) @ post) ! (length pre + node_count (LOr a b) - 1) = ?n"
    by (subst nth_block_end) simp_all
  then show ?case
    using LOr.IH(1) [of pre "?r @ ?n # post"] LOr.IH(2) [of "pre @ ?l" "?n # post"]
    by (simp add: node_of_def)
qed (simp_all add: node_of_def nth_append)

fun disjuncts :: "label \<Rightarrow> label list" where
  "disjuncts (LOr a b) = disjuncts a @ disjuncts b"
| "disjuncts a = [a]"

fun conjuncts :: "label \<Rightarrow> label list" where
  "conjuncts (LAnd a b) = conjuncts a @ conjuncts b"
| "conjuncts a = [a]"

fun literal_of :: "label \<Rightarrow> sop_lit option" where
  "literal_of LTrue = Some \<lparr>sl_kind = Tt, sl_ap = 0, sl_pos = True\<rparr>"
| "literal_of LFalse = Some \<lparr>sl_kind = Ff, sl_ap = 0, sl_pos = True\<rparr>"
| "literal_of (LAp n) = Some \<lparr>sl_kind = Ap, sl_ap = n, sl_pos = True\<rparr>"
| "literal_of (LNot LTrue) = Some \<lparr>sl_kind = Tt, sl_ap = 0, sl_pos = False\<rparr>"
| "literal_of (LNot LFalse) = Some \<lparr>sl_kind = Ff, sl_ap = 0, sl_pos = False\<rparr>"
| "literal_of (LNot (LAp n)) = Some \<lparr>sl_kind = Ap, sl_ap = n, sl_pos = False\<rparr>"
| "literal_of _ = None"

definition literals_of :: "label list \<Rightarrow> sop_lit list option" where
  "literals_of as = those (map literal_of as)"

text \<open>The products of an expression, by recursion on it.\<close>

definition products_of :: "label \<Rightarrow> sop_lit list list option" where
  "products_of a = those (map (\<lambda>d. literals_of (conjuncts d)) (disjuncts a))"


lemma rooted_kind:
  "rooted e i a \<Longrightarrow> n_kind (e ! i) = (case a of LTrue \<Rightarrow> Tt | LFalse \<Rightarrow> Ff | LAp _ \<Rightarrow> Ap | LNot _ \<Rightarrow> Neg
    | LAnd _ _ \<Rightarrow> Conj | LOr _ _ \<Rightarrow> Disj)"
  by (cases a) (auto simp: node_of_def)

lemma split_disj_spec:
  "list_all2 (rooted e) todo as \<Longrightarrow>
    \<exists>ix. split_disj e todo ps = Some (ps @ ix) \<and> list_all2 (rooted e) ix (concat (map disjuncts as))"
proof (induction "sum_list (map node_count as)" arbitrary: todo as ps rule: less_induct)
  case less
  show ?case
  proof (cases todo)
    case Nil
    then show ?thesis using less.prems by (simp add: split_disj.simps)
  next
    case (Cons i rest)
    then obtain a bs where as: "as = a # bs" "rooted e i a" "list_all2 (rooted e) rest bs"
      using less.prems by (auto simp: list_all2_Cons1)
    show ?thesis
    proof (cases "\<exists>b c. a = LOr b c")
      case True
      then obtain b c where a: "a = LOr b c" by blast
      have "split_disj e todo ps = split_disj e (n_lhs (e ! i) # n_rhs (e ! i) # rest) ps"
        using Cons as(2) a by (subst split_disj.simps) simp
      moreover have "list_all2 (rooted e) (n_lhs (e ! i) # n_rhs (e ! i) # rest) (b # c # bs)"
        using as a by simp
      ultimately show ?thesis using less.hyps [of "b # c # bs"] as(1) a by simp
    next
      case False
      then have d: "disjuncts a = [a]" "n_kind (e ! i) \<noteq> Disj"
        using rooted_kind [OF as(2)] by (cases a; simp)+
      then have s: "split_disj e todo ps = split_disj e rest (ps @ [i])"
        using Cons by (subst split_disj.simps) simp
      obtain ix where "split_disj e rest (ps @ [i]) = Some ((ps @ [i]) @ ix)"
          "list_all2 (rooted e) ix (concat (map disjuncts bs))"
        using less.hyps [of bs rest "ps @ [i]"] as by auto
      then show ?thesis using s as d(1) by (auto intro!: exI [of _ "i # ix"])
    qed
  qed
qed

lemma sop_literal_rooted:
  assumes "rooted e i a" "\<nexists>b c. a = LAnd b c"
  shows "sop_literal e i = literal_of a"
proof (cases a)
  case (LNot b)
  then show ?thesis using assms by (cases b) (auto simp: sop_literal_def Let_def node_of_def)
qed (use assms in \<open>auto simp: sop_literal_def Let_def node_of_def\<close>)

lemma literals_of_simps [simp]:
  "literals_of [] = Some []"
  "literals_of (a # as) = Option.bind (literal_of a) (\<lambda>l. map_option ((#) l) (literals_of as))"
  by (auto simp: literals_of_def map_option_case split: option.splits)

lemma literals_of_append:
  "literals_of (as @ bs) = Option.bind (literals_of as) (\<lambda>x. map_option ((@) x) (literals_of bs))"
proof (induction as)
  case Nil
  then show ?case by (cases "literals_of bs") auto
next
  case (Cons a as)
  then show ?case by (cases "literal_of a"; cases "literals_of as"; cases "literals_of bs") auto
qed

lemma split_conj_spec:
  "list_all2 (rooted e) ix as \<Longrightarrow>
    split_conj e ix p = Some (map_option ((@) p) (literals_of (concat (map conjuncts as))))"
proof (induction "sum_list (map node_count as)" arbitrary: ix as p rule: less_induct)
  case less
  show ?case
  proof (cases ix)
    case Nil
    then show ?thesis using less.prems by (simp add: split_conj.simps)
  next
    case (Cons i rest)
    then obtain a bs where as: "as = a # bs" "rooted e i a" "list_all2 (rooted e) rest bs"
      using less.prems by (auto simp: list_all2_Cons1)
    show ?thesis
    proof (cases "\<exists>b c. a = LAnd b c")
      case True
      then obtain b c where a: "a = LAnd b c" by blast
      have "split_conj e ix p = split_conj e (n_lhs (e ! i) # n_rhs (e ! i) # rest) p"
        using Cons as(2) a by (subst split_conj.simps) simp
      moreover have "list_all2 (rooted e) (n_lhs (e ! i) # n_rhs (e ! i) # rest) (b # c # bs)"
        using as a by simp
      ultimately show ?thesis using less.hyps [of "b # c # bs"] as(1) a by simp
    next
      case False
      then have d: "conjuncts a = [a]" "n_kind (e ! i) \<noteq> Conj"
        using rooted_kind [OF as(2)] by (cases a; simp)+
      have "split_conj e ix p = (case literal_of a of None \<Rightarrow> Some None | Some l \<Rightarrow> split_conj e rest (p @ [l]))"
        using Cons d(2) sop_literal_rooted [OF as(2) False] by (subst split_conj.simps) simp
      then show ?thesis
        using less.hyps [of bs rest] as d(1)
        by (cases "literals_of (concat (map conjuncts bs))") (auto split: option.splits)
    qed
  qed
qed

lemma sop_products_spec:
  "list_all2 (rooted e) ix as \<Longrightarrow>
    sop_products e ix ps = Some (map_option ((@) ps) (those (map (\<lambda>d. literals_of (conjuncts d)) as)))"
proof (induction ix as arbitrary: ps rule: list_all2_induct)
  case (Cons i ix a as)
  have "split_conj e [i] [] = Some (literals_of (conjuncts a))"
    using split_conj_spec [of e "[i]" "[a]" "[]"] Cons.hyps by (cases "literals_of (conjuncts a)") auto
  then show ?case using Cons.IH
    by (auto simp: map_option.compositionality o_def map_option_case split: option.splits)
qed simp

lemma sum_of_products_layout: "sum_of_products (layout 0 a) = Some (products_of a)"
proof -
  have "list_all2 (rooted (layout 0 a)) [length (layout 0 a) - 1] [a]"
    using layout_rooted [of "[]" a "[]"] by simp
  from split_disj_spec [OF this, of "[]"] obtain ix where
    "split_disj (layout 0 a) [length (layout 0 a) - 1] [] = Some ix"
    "list_all2 (rooted (layout 0 a)) ix (disjuncts a)" by auto
  then show ?thesis
    using sop_products_spec [of "layout 0 a" ix "disjuncts a" "[]"]
    by (cases "products_of a") (simp_all add: sum_of_products_def products_of_def)
qed

section \<open>What the products mean\<close>

definition lit_holds :: "(nat \<Rightarrow> bool) \<Rightarrow> sop_lit \<Rightarrow> bool" where
  "lit_holds v l \<longleftrightarrow> (case sl_kind l of Tt \<Rightarrow> True | Ap \<Rightarrow> v (sl_ap l) | _ \<Rightarrow> False) = sl_pos l"

lemma holds_disjuncts: "holds v a \<longleftrightarrow> (\<exists>d \<in> set (disjuncts a). holds v d)"
  by (induction a) auto

lemma holds_conjuncts: "holds v a \<longleftrightarrow> (\<forall>c \<in> set (conjuncts a). holds v c)"
  by (induction a) auto

lemma literal_of_holds: "literal_of a = Some l \<Longrightarrow> lit_holds v l = holds v a"
  by (induction a rule: literal_of.induct) (auto simp: lit_holds_def)

lemma literals_of_holds:
  "literals_of as = Some p \<Longrightarrow> (\<forall>l \<in> set p. lit_holds v l) \<longleftrightarrow> (\<forall>a \<in> set as. holds v a)"
  by (induction as arbitrary: p) (auto simp: bind_Some_iff literal_of_holds)

lemma products_holds:
  "those (map (\<lambda>d. literals_of (conjuncts d)) ds) = Some ps \<Longrightarrow>
    (\<exists>p \<in> set ps. \<forall>l \<in> set p. lit_holds v l) \<longleftrightarrow> (\<exists>d \<in> set ds. holds v d)"
proof (induction ds arbitrary: ps)
  case (Cons d ds)
  then obtain p qs where p: "literals_of (conjuncts d) = Some p" "ps = p # qs"
      "those (map (\<lambda>d. literals_of (conjuncts d)) ds) = Some qs"
    by (auto split: option.splits)
  show ?case using literals_of_holds [OF p(1)] Cons.IH [OF p(3)] holds_conjuncts [of v d] p(2) by simp
qed simp

section \<open>Properties\<close>

text \<open>
  C16: the sum of products of a label is computed exactly when the cap (\<open>2 ^ 64 - 1\<close> when
  \<open>max_cubes\<close> is 0) leaves room for its cubes, and is the list of all its cubes then: satisfied
  by exactly the assignments the label is, every cube sorted with no index twice, and no more
  cubes than the cap.
\<close>

theorem label_cubes_exact:
  assumes "is_label s a" and "mx = (if max_cubes \<noteq> 0 then max_cubes else size_max)"
  shows "text_to_dnf s max_cubes = (if label_room a \<le> mx then Some (all_cubes a) else None) \<and>
    (\<forall>v. dnf_sat v (all_cubes a) \<longleftrightarrow> holds v a) \<and>
    (\<forall>c \<in> set (all_cubes a). sorted_wrt (<) (map fst c)) \<and>
    (label_room a \<le> mx \<longrightarrow> length (all_cubes a) \<le> mx)"
proof -
  have mx: "Suc 0 \<le> mx" using assms(2) by (simp add: size_max_def Suc_le_eq)
  have "text_to_dnf s max_cubes = dnf_of mx a"
    using assms(2) read_label_complete [OF assms(1)]
    by (simp add: text_to_dnf_def to_dnf_def cubes_fold.label_fold_layout)
  then show ?thesis
    using label_room_cubes [OF mx, of a] label_room_cubes [of "Suc (label_room a)" a]
    by (simp add: dnf_of_eq cube_ok_def)
qed

theorem label_cubes_exact_witness:
  "text_to_dnf ''!(0 & 1) & 0'' 4 = Some [[(0, True), (1, False)]] \<and>
   (\<forall>v. dnf_sat v [[(0, True), (1, False)]] \<longleftrightarrow> holds v (LAnd (LNot (LAnd (LAp 0) (LAp 1))) (LAp 0)))"
proof -
  let ?s = "''!(0 & 1) & 0''" and ?a = "LAnd (LNot (LAnd (LAp 0) (LAp 1))) (LAp 0)"
  have t: "text_to_dnf ?s 4 = Some [[(0, True), (1, False)]]" by code_simp
  have "label_tokens ?s = Some [TNot, TOpen, TAp 0, TAnd, TAp 1, TClose, TAnd, TAp 0]" by code_simp
  moreover have "is_conj ([TAp 0] @ TAnd # [TAp 1]) (LAnd (LAp 0) (LAp 1))"
    by (intro conj_and conj_atom atom_ap)
  then have "is_atom (TNot # TOpen # ([TAp 0] @ TAnd # [TAp 1]) @ [TClose]) (LNot (LAnd (LAp 0) (LAp 1)))"
    by (intro atom_not atom_paren disj_conj)
  then have "is_disj ((TNot # TOpen # ([TAp 0] @ TAnd # [TAp 1]) @ [TClose]) @ TAnd # [TAp 0]) ?a"
    by (intro disj_conj conj_and conj_atom atom_ap)
  ultimately have "is_label ?s ?a" by (simp add: is_label_def)
  moreover have "all_cubes ?a = [[(0, True), (1, False)]]" "label_room ?a = 2" by code_simp+
  ultimately show ?thesis using label_cubes_exact [of ?s ?a 4 4] by auto
qed

text \<open>
  Evaluating a read label gives its value under the assignment, and the value depends only on
  the propositions below \<open>ap_bound\<close>.
\<close>

theorem label_value:
  assumes "read_label s = Some e" and "is_label s a"
  shows "eval_label v e = holds v a \<and>
    ((\<forall>i < ap_bound e. v i = w i) \<longrightarrow> eval_label v e = eval_label w e)"
proof -
  have e: "e = layout 0 a" using read_label_complete [OF assms(2)] assms(1) by simp
  have "eval_label v e = eval_label w e" if "\<forall>i < ap_bound e. v i = w i"
    using that ap_bound_layout [of a "ap_bound e"] holds_cong [of a v w] by (simp add: e eval_layout)
  then show ?thesis by (simp add: e eval_layout)
qed

theorem label_value_witness:
  "eval_label (\<lambda>i. i = 1) [node_of Ap 1 0 0] = holds (\<lambda>i. i = 1) (LAp 1)"
proof -
  have "read_label ''1'' = Some [node_of Ap 1 0 0]" by code_simp
  moreover have "label_tokens ''1'' = Some [TAp 1]" by code_simp
  then have "is_label ''1'' (LAp 1)"
    by (simp add: is_label_def disj_conj conj_atom atom_ap)
  ultimately show ?thesis using label_value by blast
qed

text \<open>
  C17: the products of a read label are found (the work lists empty) exactly when the label is
  a disjunction of conjunctions of literals; they are its products in the order written and stand
  for the same value.
\<close>

theorem products_as_written:
  assumes "is_label s a" and "read_label s = Some e"
  shows "sum_of_products e = Some (products_of a) \<and>
    (\<forall>ps. products_of a = Some ps \<longrightarrow>
      ((\<exists>p \<in> set ps. \<forall>l \<in> set p. lit_holds v l) \<longleftrightarrow> eval_label v e))"
proof -
  have e: "e = layout 0 a" using read_label_complete [OF assms(1)] assms(2) by simp
  show ?thesis
    using products_holds holds_disjuncts [of v a]
    by (auto simp: e sum_of_products_layout eval_layout products_of_def)
qed

theorem products_as_written_witness:
  "sum_of_products [node_of Ap 1 0 0] =
     Some (Some [[\<lparr>sl_kind = Ap, sl_ap = 1, sl_pos = True\<rparr>]])"
proof -
  have r: "read_label ''1'' = Some [node_of Ap 1 0 0]" by code_simp
  have "label_tokens ''1'' = Some [TAp 1]" by code_simp
  then have "is_label ''1'' (LAp 1)"
    by (simp add: is_label_def disj_conj conj_atom atom_ap)
  from products_as_written [OF this r] show ?thesis by (simp add: products_of_def)
qed

end
