(* ===== verification/Hoa_Scan.thy ===== *)
theory Hoa_Scan imports Hoa_Label_Dnf begin

text \<open>
  \<^verbatim>\<open>src/hoa_scan.h\<close>: the scanner of HOA automata. The cursor over a line is the rest of the line: a
  reading function takes it and returns what it read with the new rest, or nothing. Numbers are
  what \<^verbatim>\<open>strtol\<close> returns, with \<open>-1\<close> for those out of range. An error carries its code and its
  message; the label that quotes the line is left out.
\<close>

section \<open>Characters and lines\<close>

definition printable :: "char \<Rightarrow> bool" where
  "printable c \<longleftrightarrow> 32 \<le> (of_char c :: nat) \<and> (of_char c :: nat) < 127"

text \<open>\<^verbatim>\<open>std::isspace\<close> in the C locale.\<close>

definition is_space :: "char \<Rightarrow> bool" where
  "is_space c \<longleftrightarrow> (of_char c :: nat) = 32 \<or> 9 \<le> (of_char c :: nat) \<and> (of_char c :: nat) \<le> 13"

definition starts_with :: "string \<Rightarrow> string \<Rightarrow> bool" where
  "starts_with w s \<longleftrightarrow> take (length w) s = w"

definition peek :: "string \<Rightarrow> char" where
  "peek s = (case s of [] \<Rightarrow> CHR 0x00 | c # _ \<Rightarrow> c)"

definition eat_char :: "char \<Rightarrow> string \<Rightarrow> string option" where
  "eat_char c s = (if peek s \<noteq> c then None else Some (tl s))"

definition eat_word :: "string \<Rightarrow> string \<Rightarrow> string option" where
  "eat_word w s = (if \<not> starts_with w s then None else Some (drop (length w) s))"

definition blanks :: "string \<Rightarrow> string" where
  "blanks s = dropWhile label_blank s"

definition blanks1 :: "string \<Rightarrow> string option" where
  "blanks1 s = (if \<not> label_blank (peek s) then None else Some (blanks s))"

definition long_max :: int where
  "long_max = 2 ^ 63 - 1"

definition read_num :: "string \<Rightarrow> (int \<times> string) option" where
  "read_num s =
     (let ds = takeWhile is_digit s; v = digits_value 0 ds in
      if ds = [] then None
      else Some (if int v > long_max then -1 else int v, dropWhile is_digit s))"

lemma read_num_shorter: "read_num s = Some (n, r) \<Longrightarrow> length r < length s"
proof -
  assume r: "read_num s = Some (n, r)"
  then have "takeWhile is_digit s \<noteq> []" "r = dropWhile is_digit s"
    by (auto simp: read_num_def Let_def split: if_splits)
  moreover have "length s = length (takeWhile is_digit s) + length (dropWhile is_digit s)"
    by (metis length_append takeWhile_dropWhile_id)
  ultimately show ?thesis by auto
qed

lemma length_blanks: "length (blanks s) \<le> length s"
  by (simp add: blanks_def length_dropWhile_le)

text \<open>\<^verbatim>\<open>nums\<close>: numbers up to the end of the line.\<close>

function nums_loop :: "string \<Rightarrow> int list \<Rightarrow> int list option" where
  "nums_loop s out =
     (let s = blanks s in
      if s = [] then Some out
      else case read_num s of
        None \<Rightarrow> None
      | Some (n, r) \<Rightarrow> if n < 0 then None else nums_loop r (out @ [n]))"
  by auto
termination
proof (relation "measure (length \<circ> fst)", goal_cases)
  case (2 s out t p n r)
  then have "length r < length (blanks s)" by (auto intro: read_num_shorter)
  then show ?case using length_blanks [of s] by simp
qed simp

definition nums :: "string \<Rightarrow> int list option" where
  "nums s = nums_loop s []"

text \<open>\<^verbatim>\<open>acc\<close> and \<^verbatim>\<open>mark\<close>: the acceptance sets of a mark; a mark is optional.\<close>

function acc_loop :: "string \<Rightarrow> int list \<Rightarrow> (int list \<times> string) option" where
  "acc_loop s sets =
     (let s = blanks s in
      case eat_char (CHR 0x7D) s of
        Some r \<Rightarrow> Some (sets, r)
      | None \<Rightarrow>
          (case read_num s of
             None \<Rightarrow> None
           | Some (n, r) \<Rightarrow> if n < 0 then None else acc_loop r (sets @ [n])))"
  by auto
termination
proof (relation "measure (length \<circ> fst)", goal_cases)
  case (2 s sets t p n r)
  then have "length r < length (blanks s)" by (auto intro: read_num_shorter)
  then show ?case using length_blanks [of s] by simp
qed simp

definition read_acc :: "string \<Rightarrow> (int list \<times> string) option" where
  "read_acc s = Option.bind (eat_char (CHR 0x7B) s) (\<lambda>r. acc_loop r [])"

definition read_mark :: "string \<Rightarrow> (int list option \<times> string) option" where
  "read_mark s =
     (case blanks1 s of
        None \<Rightarrow> Some (None, s)
      | Some t \<Rightarrow>
          if peek t \<noteq> CHR 0x7B then Some (None, s)
          else map_option (\<lambda>(sets, r). (Some sets, r)) (read_acc t))"

definition skippable :: "string \<Rightarrow> bool" where
  "skippable s \<longleftrightarrow>
     s = [] \<or> hd s \<noteq> CHR ''-'' \<and> hd s \<noteq> CHR ''['' \<and> list_all (\<lambda>c. printable c \<or> c = CHR 0x09) s"

definition keyword_num :: "string \<Rightarrow> string \<Rightarrow> int option" where
  "keyword_num s keyword =
     Option.bind (eat_word keyword s) (\<lambda>l.
     Option.bind (read_num (blanks l)) (\<lambda>(n, l).
     if blanks l \<noteq> [] then None else Some n))"

section \<open>The lines the scanner reads\<close>

definition name_char :: "char \<Rightarrow> bool" where
  "name_char c \<longleftrightarrow> printable c \<and> c \<noteq> CHR '' '' \<and> c \<noteq> CHR 0x22"

text \<open>One name: quoted, or a run of name characters; nothing read when there is none.\<close>

definition ap_name :: "string \<Rightarrow> (string option \<times> string) option" where
  "ap_name s =
     (if peek s = CHR 0x22 then
        let body = takeWhile (\<lambda>c. c \<noteq> CHR 0x22 \<and> printable c) (tl s);
          rest = drop (length body) (tl s)
        in map_option (\<lambda>r. (Some body, r)) (eat_char (CHR 0x22) rest)
      else
        let name = takeWhile name_char s in
        Some (if name = [] then None else Some name, drop (length name) s))"

lemma ap_name_shorter:
  assumes a: "ap_name s = Some (Some n, r)"
  shows "length r < length s"
proof -
  obtain c cs where s: "s = c # cs"
    using a by (cases s) (auto simp: ap_name_def peek_def Let_def split: if_splits)
  show ?thesis
  proof (cases "c = CHR 0x22")
    case True
    let ?k = "length (takeWhile (\<lambda>c. c \<noteq> CHR 0x22 \<and> printable c) cs)"
    have "r = tl (drop ?k cs)"
      using a s True by (auto simp: ap_name_def peek_def eat_char_def Let_def split: if_splits list.splits)
    then show ?thesis using s by simp
  next
    case False
    then have "takeWhile name_char s \<noteq> []" "r = drop (length (takeWhile name_char s)) s"
      using a s by (auto simp: ap_name_def peek_def Let_def split: if_splits)
    then show ?thesis using s by (simp only: length_drop) simp
  qed
qed

lemma blanks1_length: "blanks1 s = Some t \<Longrightarrow> length t \<le> length s"
  by (auto simp: blanks1_def length_blanks split: if_splits)

function ap_names :: "string \<Rightarrow> string list \<Rightarrow> (string list \<times> string) option" where
  "ap_names s names =
     (case blanks1 s of
        None \<Rightarrow> Some (names, s)
      | Some t \<Rightarrow>
          (case ap_name t of
             None \<Rightarrow> None
           | Some (None, r) \<Rightarrow> Some (names, s)
           | Some (Some n, r) \<Rightarrow> ap_names r (names @ [n])))"
  by auto
termination
proof (relation "measure (length \<circ> fst)", goal_cases)
  case (2 s names t p q r n)
  then have "length r < length t" "length t \<le> length s"
    by (auto intro: ap_name_shorter blanks1_length)
  then show ?case by simp
qed simp

definition ap_line :: "string \<Rightarrow> (int \<times> string list) option" where
  "ap_line s =
     Option.bind (eat_word ''AP:'' s) (\<lambda>l.
     Option.bind (read_num (blanks l)) (\<lambda>(n, l).
     Option.bind (ap_names l []) (\<lambda>(names, l).
     if blanks l \<noteq> [] then None else Some (n, names))))"

definition state_line :: "string \<Rightarrow> (int \<times> int list option) option" where
  "state_line s =
     Option.bind (eat_word ''State:'' s) (\<lambda>l.
     Option.bind (read_num (blanks l)) (\<lambda>(n, l).
     Option.bind (read_mark l) (\<lambda>(acc, l).
     if blanks l \<noteq> [] then None else Some (n, acc))))"

record edge_line =
  el_guard :: string
  el_label :: label_expr
  el_dst :: int
  el_acc :: "int list option"

definition edge_line_of :: "string \<Rightarrow> edge_line option" where
  "edge_line_of s =
     Option.bind (eat_char (CHR ''['') s) (\<lambda>l.
     let g = takeWhile (\<lambda>c. c \<noteq> CHR '']'') l in
     if length g = length l then None
     else Option.bind (read_label g) (\<lambda>lab.
     Option.bind (read_num (blanks (drop (length g + 1) l))) (\<lambda>(n, l).
     Option.bind (read_mark l) (\<lambda>(acc, l).
     if blanks l \<noteq> [] then None
     else Some \<lparr>el_guard = g, el_label = lab, el_dst = n, el_acc = acc\<rparr>))))"

definition marked :: "int list option \<Rightarrow> bool" where
  "marked acc \<longleftrightarrow> (case acc of None \<Rightarrow> False | Some sets \<Rightarrow> sets \<noteq> [])"

section \<open>The automaton\<close>

record scan_edge =
  se_guard :: string
  se_dst :: nat
  se_acc :: "int list option"

record scan_state =
  ss_n :: nat
  ss_acc :: "int list option"
  ss_edges :: "scan_edge list"

record automaton =
  au_num_states :: nat
  au_start :: nat
  au_aps :: "string list"
  au_other :: "string list"
  au_states :: "scan_state list"

definition scan_error :: "string \<Rightarrow> string \<Rightarrow> 'a result" where
  "scan_error what msg = Inl (ParseError, what @ msg)"

definition not_hoa :: "string \<Rightarrow> 'a result" where
  "not_hoa what = scan_error what '' is not a HOA automaton (truncated, a malformed line, or no `--BODY--`)''"

definition drop_cr :: "string \<Rightarrow> string" where
  "drop_cr lin = (if lin \<noteq> [] \<and> last lin = CHR 0x0D then butlast lin else lin)"

text \<open>The lines up to \<^verbatim>\<open>--END--\<close>; nothing when one is not ended or the rest holds a stray byte.\<close>

function hoa_lines :: "string \<Rightarrow> string list \<Rightarrow> string list option" where
  "hoa_lines s lns =
     (if s = [] then Some lns
      else
        let lin = takeWhile (\<lambda>c. c \<noteq> CHR 0x0A) s; rest = drop (length lin + 1) s in
        if length lin = length s then None
        else
          let lin = drop_cr lin in
          if lin = ''--END--'' then
            (if list_all (\<lambda>c. printable c \<or> is_space c) rest then Some lns else None)
          else hoa_lines rest (lns @ [lin]))"
  by auto
termination
  by (relation "measure (length \<circ> fst)") auto

text \<open>The header lines, a line that starts with a blank joined to the one before it.\<close>

fun join_header :: "string list \<Rightarrow> string list \<Rightarrow> string list" where
  "join_header [] header = header"
| "join_header (lin # lns) header =
     (if lin \<noteq> [] \<and> label_blank (hd lin) \<and> header \<noteq> [] then
        let w = dropWhile label_blank lin in
        join_header lns
          (if w \<noteq> [] then butlast header @ [last header @ '' '' @ w] else header)
      else join_header lns (header @ [lin]))"

definition int_max :: int where
  "int_max = 2 ^ 31 - 1"

definition max_states :: "nat \<Rightarrow> int" where
  "max_states hoa_cap = (if hoa_cap \<noteq> 0 then min (int hoa_cap) int_max else int_max)"

text \<open>The header so far: the automaton, the start read and whether a state count was seen.\<close>

record scan_head =
  sh_aut :: automaton
  sh_start :: int
  sh_seen :: bool

fun header_line :: "nat \<Rightarrow> string \<Rightarrow> string \<Rightarrow> scan_head \<Rightarrow> scan_head result" where
  "header_line hoa_cap what lin h =
     (if starts_with ''States:'' lin then
        (case keyword_num lin ''States:'' of
           None \<Rightarrow> scan_error what '' has a malformed state count''
         | Some n \<Rightarrow>
             if n < 1 \<or> n > max_states hoa_cap then scan_error what '' has a malformed state count''
             else Inr (h\<lparr>sh_aut := (sh_aut h)\<lparr>au_num_states := nat n\<rparr>, sh_seen := True\<rparr>))
      else if starts_with ''Start:'' lin then
        (case keyword_num lin ''Start:'' of
           None \<Rightarrow> scan_error what '' has a malformed `Start:` state''
         | Some n \<Rightarrow>
             if n < 0 then scan_error what '' has a malformed `Start:` state''
             else Inr (h\<lparr>sh_start := n\<rparr>))
      else if starts_with ''AP:'' lin then
        (case ap_line lin of
           None \<Rightarrow> scan_error what '' has a malformed `AP:` line''
         | Some (n, names) \<Rightarrow>
             if n < 0 \<or> length names < nat n then
               scan_error what '' has an AP count that does not match the names it lists''
             else Inr (h\<lparr>sh_aut := (sh_aut h)\<lparr>au_aps := take (nat n) names\<rparr>\<rparr>))
      else if \<not> skippable lin then not_hoa what
      else Inr (h\<lparr>sh_aut := (sh_aut h)\<lparr>au_other := au_other (sh_aut h) @ [lin]\<rparr>\<rparr>))"

fun header_lines :: "nat \<Rightarrow> string \<Rightarrow> string list \<Rightarrow> scan_head \<Rightarrow> scan_head result" where
  "header_lines hoa_cap what [] h = Inr h"
| "header_lines hoa_cap what (lin # lns) h =
     rbind (header_line hoa_cap what lin h) (header_lines hoa_cap what lns)"

definition add_edge :: "scan_edge \<Rightarrow> automaton \<Rightarrow> automaton" where
  "add_edge ed a =
     (let st = last (au_states a) in
      a\<lparr>au_states := butlast (au_states a) @ [st\<lparr>ss_edges := ss_edges st @ [ed]\<rparr>]\<rparr>)"

fun body_line :: "string \<Rightarrow> string \<Rightarrow> automaton \<Rightarrow> automaton result" where
  "body_line what lin a =
     (if starts_with ''State:'' lin then
        (case state_line lin of
           None \<Rightarrow> scan_error what '' has a malformed `State:` line''
         | Some (n, acc) \<Rightarrow>
             if n < 0 \<or> nat n \<ge> au_num_states a then
               scan_error what '' has a state number outside the state table''
             else Inr (a\<lparr>au_states := au_states a @ [\<lparr>ss_n = nat n, ss_acc = acc, ss_edges = []\<rparr>]\<rparr>))
      else case edge_line_of lin of
        Some ed \<Rightarrow>
          if au_states a = [] then scan_error what '' has an edge before any `State:` line''
          else if el_dst ed < 0 \<or> nat (el_dst ed) \<ge> au_num_states a then
            scan_error what '' has a transition to a state outside the state table''
          else if ap_bound (el_label ed) > length (au_aps a) then
            scan_error what '' has a label over a proposition outside its AP table''
          else Inr (add_edge \<lparr>se_guard = el_guard ed, se_dst = nat (el_dst ed), se_acc = el_acc ed\<rparr> a)
      | None \<Rightarrow> if \<not> skippable lin then not_hoa what else Inr a)"

fun body_lines :: "string \<Rightarrow> string list \<Rightarrow> automaton \<Rightarrow> automaton result" where
  "body_lines what [] a = Inr a"
| "body_lines what (lin # lns) a = rbind (body_line what lin a) (body_lines what lns)"

definition empty_automaton :: automaton where
  "empty_automaton =
     \<lparr>au_num_states = 0, au_start = 0, au_aps = [], au_other = [], au_states = []\<rparr>"

definition scan :: "nat \<Rightarrow> string \<Rightarrow> string \<Rightarrow> automaton result" where
  "scan hoa_cap text_hoa what =
     (case hoa_lines text_hoa [] of
        None \<Rightarrow> not_hoa what
      | Some lns \<Rightarrow>
          let head = takeWhile (\<lambda>l. l \<noteq> ''--BODY--'') lns in
          if length head = length lns then not_hoa what
          else
            rbind (header_lines hoa_cap what (join_header head [])
              \<lparr>sh_aut = empty_automaton, sh_start = 0, sh_seen = False\<rparr>) (\<lambda>h.
            if \<not> sh_seen h then scan_error what '' has no `States:` header''
            else if nat (sh_start h) \<ge> au_num_states (sh_aut h) then
              scan_error what '' has a `Start:` state that is not one of its states''
            else body_lines what (drop (length head + 1) lns)
              ((sh_aut h)\<lparr>au_start := nat (sh_start h)\<rparr>)))"

declare nums_loop.simps [simp del] acc_loop.simps [simp del] ap_names.simps [simp del]
  hoa_lines.simps [simp del]

section \<open>What a scanned automaton satisfies\<close>

definition guard_ok :: "string list \<Rightarrow> string \<Rightarrow> bool" where
  "guard_ok aps g \<longleftrightarrow> (\<exists>lab. read_label g = Some lab \<and> ap_bound lab \<le> length aps) \<and>
     CHR '']'' \<notin> set g \<and> CHR 0x0A \<notin> set g"

definition edge_ok :: "automaton \<Rightarrow> scan_edge \<Rightarrow> bool" where
  "edge_ok a e \<longleftrightarrow> se_dst e < au_num_states a \<and> guard_ok (au_aps a) (se_guard e)"

definition states_ok :: "automaton \<Rightarrow> bool" where
  "states_ok a \<longleftrightarrow>
     (\<forall>st \<in> set (au_states a). ss_n st < au_num_states a \<and> (\<forall>e \<in> set (ss_edges st). edge_ok a e))"

lemma scan_error_not [simp]: "scan_error what msg \<noteq> Inr x" "not_hoa what \<noteq> Inr x"
  by (simp_all add: scan_error_def not_hoa_def)

lemma rbind_error [simp]: "rbind (scan_error what msg) f = scan_error what msg"
  "rbind (not_hoa what) f = not_hoa what"
  by (simp_all add: scan_error_def not_hoa_def)

definition head_ok :: "nat \<Rightarrow> scan_head \<Rightarrow> bool" where
  "head_ok hoa_cap h \<longleftrightarrow> au_states (sh_aut h) = [] \<and> 0 \<le> sh_start h \<and>
     (sh_seen h \<longrightarrow> 1 \<le> au_num_states (sh_aut h) \<and> int (au_num_states (sh_aut h)) \<le> max_states hoa_cap)"

lemma header_line_ok: "header_line hoa_cap what lin h = Inr h' \<Longrightarrow> head_ok hoa_cap h \<Longrightarrow> head_ok hoa_cap h'"
  by (auto simp: head_ok_def split: if_splits option.splits)

lemma header_lines_ok:
  "header_lines hoa_cap what lns h = Inr h' \<Longrightarrow> head_ok hoa_cap h \<Longrightarrow> head_ok hoa_cap h'"
  by (induction lns arbitrary: h) (auto simp: rbind_Inr_iff simp del: header_line.simps dest: header_line_ok)

lemma edge_line_guard:
  "edge_line_of lin = Some ed \<Longrightarrow> read_label (el_guard ed) = Some (el_label ed) \<and>
    CHR '']'' \<notin> set (el_guard ed) \<and> set (el_guard ed) \<subseteq> set lin"
proof -
  assume "edge_line_of lin = Some ed"
  then have "read_label (el_guard ed) = Some (el_label ed)"
      "el_guard ed = takeWhile (\<lambda>c. c \<noteq> CHR '']'') (tl lin)"
    by (auto simp: edge_line_of_def eat_char_def bind_Some_iff Let_def split: if_splits)
  moreover have "set (takeWhile P (tl l)) \<subseteq> set l" for P and l :: string
    by (cases l) (auto dest: set_takeWhileD)
  ultimately show ?thesis by (metis set_takeWhileD)
qed

definition same_table :: "automaton \<Rightarrow> automaton \<Rightarrow> bool" where
  "same_table a b \<longleftrightarrow> au_num_states b = au_num_states a \<and> au_start b = au_start a \<and>
     au_aps b = au_aps a \<and> au_other b = au_other a"

lemma body_line_ok:
  assumes "body_line what lin a = Inr b" "states_ok a" "CHR 0x0A \<notin> set lin"
  shows "states_ok b \<and> same_table a b"
proof (cases "starts_with ''State:'' lin")
  case True
  then obtain n acc where "state_line lin = Some (n, acc)" "\<not> n < 0" "nat n < au_num_states a"
      "b = a\<lparr>au_states := au_states a @ [\<lparr>ss_n = nat n, ss_acc = acc, ss_edges = []\<rparr>]\<rparr>"
    using assms(1) by (auto split: option.splits if_splits)
  then show ?thesis using assms(2) by (auto simp: states_ok_def same_table_def edge_ok_def)
next
  case nos: False
  show ?thesis
  proof (cases "edge_line_of lin")
    case None
    then show ?thesis using assms nos by (auto simp: same_table_def split: if_splits)
  next
    case (Some ed)
    let ?e = "\<lparr>se_guard = el_guard ed, se_dst = nat (el_dst ed), se_acc = el_acc ed\<rparr>"
    have b: "b = add_edge ?e a" "au_states a \<noteq> []" "nat (el_dst ed) < au_num_states a"
        "ap_bound (el_label ed) \<le> length (au_aps a)"
      using assms(1) nos Some by (auto split: if_splits)
    have "edge_ok a ?e"
      using b edge_line_guard [OF Some] assms(3) by (auto simp: edge_ok_def guard_ok_def)
    moreover have "last (au_states a) \<in> set (au_states a)" using b(2) by simp
    ultimately show ?thesis
      using assms(2) b(1) by (auto simp: states_ok_def same_table_def add_edge_def Let_def edge_ok_def dest: in_set_butlastD)
  qed
qed

lemma same_table_trans: "same_table a b \<Longrightarrow> same_table b c \<Longrightarrow> same_table a c"
  by (simp add: same_table_def)

lemma body_lines_ok:
  "body_lines what lns a = Inr b \<Longrightarrow> states_ok a \<Longrightarrow> \<forall>lin \<in> set lns. CHR 0x0A \<notin> set lin \<Longrightarrow>
    states_ok b \<and> same_table a b"
proof (induction lns arbitrary: a)
  case (Cons lin lns)
  then obtain c where "body_line what lin a = Inr c" "body_lines what lns c = Inr b"
    by (auto simp: rbind_Inr_iff simp del: body_line.simps)
  then show ?case using Cons body_line_ok same_table_trans by (meson list.set_intros)
qed (simp add: same_table_def)

lemma hoa_lines_newline:
  "hoa_lines s lns = Some res \<Longrightarrow> \<forall>lin \<in> set lns. CHR 0x0A \<notin> set lin \<Longrightarrow>
    \<forall>lin \<in> set res. CHR 0x0A \<notin> set lin"
proof (induction s lns rule: hoa_lines.induct)
  case (1 s lns)
  let ?l = "takeWhile (\<lambda>c. c \<noteq> CHR 0x0A) s"
  have "CHR 0x0A \<notin> set (drop_cr ?l)"
    by (auto simp: drop_cr_def dest: set_takeWhileD in_set_butlastD)
  then show ?case
    using "1.prems" "1.IH" [OF _ refl refl]
    by (subst (asm) hoa_lines.simps) (auto simp: Let_def split: if_splits)
qed

lemma scan_parts:
  assumes "scan hoa_cap hoa_text what = Inr a"
  obtains lns hd_lines h where "hoa_lines hoa_text [] = Some lns"
    "hd_lines = takeWhile (\<lambda>l. l \<noteq> ''--BODY--'') lns" "length hd_lines < length lns"
    "header_lines hoa_cap what (join_header hd_lines []) \<lparr>sh_aut = empty_automaton, sh_start = 0, sh_seen = False\<rparr> = Inr h"
    "sh_seen h" "nat (sh_start h) < au_num_states (sh_aut h)"
    "body_lines what (drop (length hd_lines + 1) lns) ((sh_aut h)\<lparr>au_start := nat (sh_start h)\<rparr>) = Inr a"
proof -
  obtain lns where lns: "hoa_lines hoa_text [] = Some lns"
    using assms by (auto simp: scan_def split: option.splits)
  let ?h = "takeWhile (\<lambda>l. l \<noteq> ''--BODY--'') lns"
  have "length ?h \<noteq> length lns" using assms lns by (auto simp: scan_def Let_def)
  moreover have "length ?h \<le> length lns" by (rule length_takeWhile_le)
  ultimately have "length ?h < length lns" by simp
  then show ?thesis
    using assms lns that [of lns ?h]
    by (auto simp: scan_def Let_def rbind_Inr_iff split: if_splits)
qed

lemma scan_ok:
  assumes "scan hoa_cap hoa_text what = Inr a"
  shows "states_ok a \<and> 1 \<le> au_num_states a \<and> int (au_num_states a) \<le> max_states hoa_cap \<and>
    au_start a < au_num_states a"
proof -
  obtain lns hs h where lns: "hoa_lines hoa_text [] = Some lns" and h:
    "header_lines hoa_cap what (join_header hs []) \<lparr>sh_aut = empty_automaton, sh_start = 0, sh_seen = False\<rparr> = Inr h"
    "sh_seen h" "nat (sh_start h) < au_num_states (sh_aut h)"
    "body_lines what (drop (length hs + 1) lns) ((sh_aut h)\<lparr>au_start := nat (sh_start h)\<rparr>) = Inr a"
    using scan_parts [OF assms] by metis
  have ok: "head_ok hoa_cap h"
    using header_lines_ok [OF h(1)] by (simp add: head_ok_def empty_automaton_def)
  have "states_ok ((sh_aut h)\<lparr>au_start := nat (sh_start h)\<rparr>)"
    using ok by (simp add: states_ok_def head_ok_def)
  moreover have "\<forall>lin \<in> set lns. CHR 0x0A \<notin> set lin" using hoa_lines_newline [OF lns] by simp
  then have "\<forall>lin \<in> set (drop (length hs + 1) lns). CHR 0x0A \<notin> set lin" by (meson in_set_dropD)
  ultimately have a: "states_ok a"
    "same_table ((sh_aut h)\<lparr>au_start := nat (sh_start h)\<rparr>) a"
    using body_lines_ok [OF h(4)] by blast+
  have "1 \<le> au_num_states a" "int (au_num_states a) \<le> max_states hoa_cap" "au_start a < au_num_states a"
    using ok h(2,3) a(2) by (simp_all add: head_ok_def same_table_def)
  then show ?thesis using a(1) by blast
qed

text \<open>
  C18: a scanned automaton has at least one state and no more than the cap, starts in one of them,
  and every state and transition target of its body is one of them; every guard is a label, over
  the propositions of its table.
\<close>

theorem scan_well_formed:
  assumes "scan hoa_cap hoa_text what = Inr a"
  shows "1 \<le> au_num_states a \<and> int (au_num_states a) \<le> int_max \<and>
    (hoa_cap \<noteq> 0 \<longrightarrow> au_num_states a \<le> hoa_cap) \<and> au_start a < au_num_states a \<and>
    (\<forall>st \<in> set (au_states a). ss_n st < au_num_states a \<and>
      (\<forall>e \<in> set (ss_edges st). se_dst e < au_num_states a \<and>
        (\<exists>lab. read_label (se_guard e) = Some lab \<and> ap_bound lab \<le> length (au_aps a))))"
  using scan_ok [OF assms]
  by (auto simp: states_ok_def edge_ok_def guard_ok_def max_states_def split: if_splits)

definition sample_hoa :: string where
  "sample_hoa = concat (map (\<lambda>l. l @ [CHR 0x0A])
     [''HOA: v1'', ''States: 1'', ''AP: 1 p'', ''--BODY--'', ''State: 0'', ''[0 | !0] 0'', ''--END--''])"

theorem scan_well_formed_witness:
  "\<exists>a. scan 4 sample_hoa [] = Inr a \<and> au_start a < au_num_states a \<and> length (au_states a) = 1"
proof -
  let ?a = "\<lparr>au_num_states = 1, au_start = 0, au_aps = [''p''], au_other = [''HOA: v1''],
    au_states = [\<lparr>ss_n = 0, ss_acc = None,
      ss_edges = [\<lparr>se_guard = ''0 | !0'', se_dst = 0, se_acc = None\<rparr>]\<rparr>]\<rparr>"
  have s: "scan 4 sample_hoa [] = Inr ?a" by code_simp
  then show ?thesis using scan_well_formed [OF s] by simp
qed

end
