(* ===== verification/Strategy_Minimize.thy ===== *)
theory Strategy_Minimize imports Hoa_Scan "HOL-Library.Word" begin

text \<open>
  The strategy automata of \<^verbatim>\<open>src/ltl_aba_result.h\<close> and their minimisation
  (\<^verbatim>\<open>src/ltl_strategy_minimize.h\<close>). A vector is a list, a state number its index; a \<^verbatim>\<open>std::map\<close> from
  classes is a list sorted by its keys, so that equal maps are equal lists.
\<close>

unbundle bit_operations_syntax

section \<open>Strategy automata\<close>

record hoa_edge =
  he_guard :: string
  he_dst :: nat
  he_accepting :: bool

record hoa_automaton =
  ha_num_states :: nat
  ha_initial :: nat
  ha_aps :: "string list"
  ha_edges :: "hoa_edge list list"
  ha_state_accepting :: "bool list"

section \<open>Truth tables\<close>

type_synonym table = "64 word list"

definition truth_table_max_aps :: nat where
  "truth_table_max_aps = 16"

definition table_words :: "nat \<Rightarrow> nat" where
  "table_words n = (if n \<ge> 6 then 2 ^ (n - 6) else 1)"

definition last_word_mask :: "nat \<Rightarrow> 64 word" where
  "last_word_mask n = (if n \<ge> 6 then NOT 0 else push_bit (2 ^ n) 1 - 1)"

definition mask_last :: "nat \<Rightarrow> table \<Rightarrow> table" where
  "mask_last n t = butlast t @ [last t AND last_word_mask n]"

definition constant_table :: "nat \<Rightarrow> bool \<Rightarrow> table" where
  "constant_table n v = mask_last n (replicate (table_words n) (if v then NOT 0 else 0))"

definition low_patterns :: "64 word list" where
  "low_patterns = [0xAAAAAAAAAAAAAAAA, 0xCCCCCCCCCCCCCCCC, 0xF0F0F0F0F0F0F0F0,
     0xFF00FF00FF00FF00, 0xFFFF0000FFFF0000, 0xFFFFFFFF00000000]"

definition variable_table :: "nat \<Rightarrow> nat \<Rightarrow> table" where
  "variable_table n k =
     mask_last n (map (\<lambda>w. if k < 6 then low_patterns ! k
       else if drop_bit (k - 6) w AND (1::nat) \<noteq> 0 then NOT 0 else 0) [0..<table_words n])"

definition table_node :: "nat \<Rightarrow> label_node \<Rightarrow> table list \<Rightarrow> table" where
  "table_node n nd vs =
     (case n_kind nd of
        Tt \<Rightarrow> constant_table n True
      | Ff \<Rightarrow> constant_table n False
      | Ap \<Rightarrow> variable_table n (n_ap nd)
      | Neg \<Rightarrow> mask_last n (map (\<lambda>w. NOT w) (vs ! n_lhs nd))
      | Conj \<Rightarrow> map2 (AND) (vs ! n_lhs nd) (vs ! n_rhs nd)
      | Disj \<Rightarrow> map2 (OR) (vs ! n_lhs nd) (vs ! n_rhs nd))"

definition guard_table :: "string \<Rightarrow> nat \<Rightarrow> table option" where
  "guard_table g n =
     (case read_label g of
        None \<Rightarrow> None
      | Some e \<Rightarrow> if ap_bound e > n then None else Some (label_fold (table_node n) e))"

section \<open>Minimisation\<close>

text \<open>The reachable states in breadth-first order.\<close>

fun visit_edges :: "hoa_edge list \<Rightarrow> nat list \<Rightarrow> bool list \<Rightarrow> nat list \<times> bool list" where
  "visit_edges [] order seen = (order, seen)"
| "visit_edges (e # es) order seen =
     (if \<not> seen ! he_dst e then visit_edges es (order @ [he_dst e]) (seen[he_dst e := True])
      else visit_edges es order seen)"

partial_function (option) bfs_loop ::
  "hoa_edge list list \<Rightarrow> nat \<Rightarrow> nat list \<Rightarrow> bool list \<Rightarrow> nat list option" where
  "bfs_loop edges k order seen =
     (if k < length order then
        (case visit_edges (edges ! (order ! k)) order seen of
           (order, seen) \<Rightarrow> bfs_loop edges (k + 1) order seen)
      else Some order)"

definition reachable_order :: "hoa_automaton \<Rightarrow> nat list option" where
  "reachable_order a =
     bfs_loop (ha_edges a) 0 [ha_initial a] ((replicate (ha_num_states a) False)[ha_initial a := True])"

text \<open>The tables of the guards, per state; nothing when the reader does not know one.\<close>

definition state_tables :: "hoa_automaton \<Rightarrow> nat \<Rightarrow> table list option" where
  "state_tables a s = those (map (\<lambda>e. guard_table (he_guard e) (length (ha_aps a))) (ha_edges a ! s))"

fun fill_tables :: "hoa_automaton \<Rightarrow> nat list \<Rightarrow> table list list \<Rightarrow> table list list option" where
  "fill_tables a [] tabs = Some tabs"
| "fill_tables a (s # ss) tabs =
     (case state_tables a s of
        None \<Rightarrow> None
      | Some ts \<Rightarrow> fill_tables a ss (tabs[s := ts]))"

text \<open>A signature: for each class moved to, the union of the tables and the set of the texts.\<close>

type_synonym signature = "(nat \<times> table \<times> string set) list"

fun sig_add :: "nat \<Rightarrow> (table \<times> string set \<Rightarrow> table \<times> string set) \<Rightarrow> signature \<Rightarrow> signature" where
  "sig_add c f [] = [(c, f ([], {}))]"
| "sig_add c f ((d, x) # sg) =
     (if c < d then (c, f ([], {})) # (d, x) # sg
      else if c = d then (d, f x) # sg
      else (d, x) # sig_add c f sg)"

definition join_edge :: "bool \<Rightarrow> string \<Rightarrow> table \<Rightarrow> table \<times> string set \<Rightarrow> table \<times> string set" where
  "join_edge by_table g u x =
     (if \<not> by_table then (fst x, insert g (snd x))
      else if fst x = [] then (u, snd x)
      else (map2 (OR) (fst x) u, snd x))"

fun signature_of :: "bool \<Rightarrow> nat list \<Rightarrow> hoa_edge list \<Rightarrow> table list \<Rightarrow> signature \<Rightarrow> signature" where
  "signature_of by_table cls [] ts sg = sg"
| "signature_of by_table cls (e # es) ts sg =
     signature_of by_table cls es (tl ts)
       (sig_add (cls ! he_dst e) (join_edge by_table (he_guard e) (if by_table then hd ts else [])) sg)"

text \<open>One round: the identifiers given so far and the classes of the next round.\<close>

fun refine_round ::
  "(nat \<Rightarrow> nat \<times> signature) \<Rightarrow> nat list \<Rightarrow> ((nat \<times> signature) \<times> nat) list \<Rightarrow> nat list \<Rightarrow>
    ((nat \<times> signature) \<times> nat) list \<times> nat list" where
  "refine_round key [] ids nxt = (ids, nxt)"
| "refine_round key (s # ss) ids nxt =
     (case map_of ids (key s) of
        Some i \<Rightarrow> refine_round key ss ids (nxt[s := i])
      | None \<Rightarrow> refine_round key ss ((key s, length ids) # ids) (nxt[s := length ids]))"

definition state_key ::
  "hoa_automaton \<Rightarrow> bool \<Rightarrow> table list list \<Rightarrow> nat list \<Rightarrow> nat \<Rightarrow> nat \<times> signature" where
  "state_key a by_table tabs cls s =
     (cls ! s, signature_of by_table cls (ha_edges a ! s) (tabs ! s) [])"

partial_function (option) refine_loop ::
  "hoa_automaton \<Rightarrow> bool \<Rightarrow> table list list \<Rightarrow> nat list \<Rightarrow> nat list \<Rightarrow> nat \<Rightarrow> (nat list \<times> nat) option" where
  "refine_loop a by_table tabs order cls classes =
     (case refine_round (state_key a by_table tabs cls) order [] (replicate (ha_num_states a) 0) of
        (ids, cls) \<Rightarrow>
          if length ids = classes then Some (cls, classes)
          else refine_loop a by_table tabs order cls (length ids))"

declare bfs_loop.simps [code] refine_loop.simps [code]

text \<open>The classes numbered by their first state: the number of each class and the states chosen.\<close>

fun number_classes :: "nat list \<Rightarrow> nat list \<Rightarrow> (nat \<rightharpoonup> nat) \<Rightarrow> nat list \<Rightarrow> (nat \<rightharpoonup> nat) \<times> nat list" where
  "number_classes cls [] ids reps = (ids, reps)"
| "number_classes cls (s # ss) ids reps =
     (if ids (cls ! s) = None then number_classes cls ss (ids(cls ! s \<mapsto> length reps)) (reps @ [s])
      else number_classes cls ss ids reps)"

fun quotient_edges :: "(nat \<Rightarrow> nat) \<Rightarrow> hoa_edge list \<Rightarrow> (string \<times> nat) list \<Rightarrow> hoa_edge list" where
  "quotient_edges to [] kept = []"
| "quotient_edges to (e # es) kept =
     (let p = (he_guard e, to (he_dst e)) in
      if p \<in> set kept then quotient_edges to es kept
      else \<lparr>he_guard = fst p, he_dst = snd p, he_accepting = False\<rparr> # quotient_edges to es (p # kept))"

definition quotient :: "hoa_automaton \<Rightarrow> nat list \<Rightarrow> nat list \<Rightarrow> hoa_automaton" where
  "quotient a order cls =
     (case number_classes cls order Map.empty [] of
        (ids, reps) \<Rightarrow>
          \<lparr>ha_num_states = length reps, ha_initial = 0, ha_aps = ha_aps a,
            ha_edges = map (\<lambda>s. quotient_edges (\<lambda>d. the (ids (cls ! d))) (ha_edges a ! s) []) reps,
            ha_state_accepting = replicate (length reps) False\<rparr>)"

definition has_marks :: "hoa_automaton \<Rightarrow> bool" where
  "has_marks a \<longleftrightarrow> list_ex (\<lambda>s. ha_state_accepting a ! s \<or> list_ex he_accepting (ha_edges a ! s))
     [0..<ha_num_states a]"

text \<open>The outer option is a loop that does not end; that they all do is a theorem.\<close>

definition minimize_strategy :: "hoa_automaton \<Rightarrow> hoa_automaton option" where
  "minimize_strategy a =
     (if ha_num_states a = 0 \<or> ha_initial a \<ge> ha_num_states a then Some a
      else if has_marks a then Some a
      else
        Option.bind (reachable_order a) (\<lambda>order.
          let by_table = (length (ha_aps a) \<le> truth_table_max_aps);
            none = replicate (ha_num_states a) []
          in case (if by_table then fill_tables a order none else Some none) of
            None \<Rightarrow> Some a
          | Some tabs \<Rightarrow>
              map_option (\<lambda>(cls, classes). quotient a order cls)
                (refine_loop a by_table tabs order (replicate (ha_num_states a) 0) 1)))"

section \<open>Text\<close>

fun find_from :: "string \<Rightarrow> string \<Rightarrow> nat \<Rightarrow> nat option" where
  "find_from w [] i = (if w = [] then Some i else None)"
| "find_from w (c # cs) i = (if starts_with w (c # cs) then Some i else find_from w cs (i + 1))"

definition find_text :: "string \<Rightarrow> string \<Rightarrow> nat option" where
  "find_text w s = find_from w s 0"

definition head_text_line :: "hoa_automaton \<Rightarrow> string \<Rightarrow> string" where
  "head_text_line a lin =
     (let lin = (if starts_with ''States:'' lin then ''States: '' @ nat_to_string (ha_num_states a)
        else if starts_with ''Start:'' lin then ''Start: '' @ nat_to_string (ha_initial a)
        else lin)
      in if lin \<noteq> [] then lin @ [CHR 0x0A] else [])"

text \<open>The header lines, the last one cut at the body marker.\<close>

function head_text :: "hoa_automaton \<Rightarrow> string \<Rightarrow> string" where
  "head_text a s =
     (if s = [] then []
      else let lin = takeWhile (\<lambda>c. c \<noteq> CHR 0x0A) s
        in head_text_line a lin @ head_text a (drop (length lin + 1) s))"
  by auto
termination
  by (relation "measure (length \<circ> snd)") auto

definition edge_text :: "hoa_edge \<Rightarrow> string" where
  "edge_text e = ''['' @ he_guard e @ ''] '' @ nat_to_string (he_dst e) @ [CHR 0x0A]"

definition state_text :: "hoa_automaton \<Rightarrow> nat \<Rightarrow> string" where
  "state_text a s =
     ''State: '' @ nat_to_string s @ [CHR 0x0A] @ concat (map edge_text (ha_edges a ! s))"

definition hoa_text_of :: "hoa_automaton \<Rightarrow> string \<Rightarrow> string option" where
  "hoa_text_of a original =
     (case find_text ''--BODY--'' original of
        None \<Rightarrow> None
      | Some body \<Rightarrow>
          Some (head_text a (take body original) @ ''--BODY--'' @ [CHR 0x0A] @
            concat (map (state_text a) [0..<ha_num_states a]) @ ''--END--'' @ [CHR 0x0A]))"

end
