(* ===== verification/Strategy_Quotient.thy ===== *)
theory Strategy_Quotient imports Strategy_Minimize begin

text \<open>
  What the minimisation of a strategy computes: the truth tables of the guards stand for their
  values, the breadth-first order lists the reachable states, the refinement ends in a stable
  partition, and the quotient plays exactly the labelled runs of the automaton.
\<close>

unbundle bit_operations_syntax

section \<open>Truth tables\<close>

definition tbit :: "table \<Rightarrow> nat \<Rightarrow> bool" where
  "tbit t v = bit (t ! (v div 64)) (v mod 64)"

definition is_table :: "nat \<Rightarrow> table \<Rightarrow> (nat \<Rightarrow> bool) \<Rightarrow> bool" where
  "is_table n t f \<longleftrightarrow> length t = table_words n \<and>
     (\<forall>v < 64 * table_words n. tbit t v \<longleftrightarrow> v < 2 ^ n \<and> f v)"

lemma table_words_pos [simp]: "0 < table_words n"
  by (simp add: table_words_def)

lemma table_words_large: "6 \<le> n \<Longrightarrow> 64 * table_words n = 2 ^ n"
  using power_add [of "2::nat" 6 "n - 6"] by (simp add: table_words_def)

lemma small_power: "n < 6 \<Longrightarrow> (2::nat) ^ n < 64"
  using power_strict_increasing [of n 6 "2::nat"] by simp

lemma table_bound: "2 ^ n \<le> 64 * table_words n"
  using table_words_large [of n] small_power [of n] by (cases "6 \<le> n") (auto simp: table_words_def)

lemma is_table_unique:
  assumes "is_table n t f" "is_table n u g" "\<And>v. v < 2 ^ n \<Longrightarrow> f v = g v"
  shows "t = u"
proof (rule nth_equalityI)
  show "length t = length u" using assms by (simp add: is_table_def)
  fix i assume "i < length t"
  then have i: "i < table_words n" using assms by (simp add: is_table_def)
  show "t ! i = u ! i"
  proof (rule bit_word_eqI)
    fix j assume "j < LENGTH(64)"
    then have j: "j < 64" by simp
    then have v: "64 * i + j < 64 * table_words n" using i by linarith
    have "tbit t (64 * i + j) = tbit u (64 * i + j)"
      using assms v by (auto simp: is_table_def)
    then show "bit (t ! i) j = bit (u ! i) j" using j by (simp add: tbit_def)
  qed
qed

lemma is_table_tbit: "is_table n t f \<Longrightarrow> v < 2 ^ n \<Longrightarrow> tbit t v = f v"
  using table_bound [of n] by (auto simp: is_table_def)

lemma bit_last_word_mask: "j < 64 \<Longrightarrow> bit (last_word_mask n) j \<longleftrightarrow> 6 \<le> n \<or> j < 2 ^ n"
proof (cases "6 \<le> n")
  case False
  then have "last_word_mask n = mask (2 ^ n)"
    by (simp add: last_word_mask_def push_bit_of_1 mask_eq_exp_minus_1)
  then show "j < 64 \<Longrightarrow> ?thesis" using False by (simp add: bit_mask_iff)
qed (simp add: last_word_mask_def bit_not_iff)

lemma mask_last_table:
  assumes "length t = table_words n" "\<And>v. v < 64 * table_words n \<Longrightarrow> tbit t v = f v"
  shows "is_table n (mask_last n t) f"
proof -
  have "0 < length t" using assms(1) by simp
  then have ne: "t \<noteq> []" by blast
  have len: "length (mask_last n t) = table_words n" using assms(1) ne by (simp add: mask_last_def)
  have "tbit (mask_last n t) v \<longleftrightarrow> v < 2 ^ n \<and> f v" if v: "v < 64 * table_words n" for v
  proof -
    have i: "v div 64 < length t" using v assms(1) by (simp add: less_mult_imp_div_less mult.commute)
    have nth: "mask_last n t ! (v div 64) =
        (if v div 64 = length t - 1 then last t AND last_word_mask n else t ! (v div 64))"
      using i ne by (auto simp: mask_last_def nth_append nth_butlast)
    show ?thesis
    proof (cases "6 \<le> n")
      case True
      then have "v < 2 ^ n" using v by (simp add: table_words_large)
      moreover have "bit (last t AND last_word_mask n) (v mod 64) = bit (last t) (v mod 64)"
        using True by (simp add: bit_and_iff bit_last_word_mask)
      ultimately show ?thesis
        using nth assms(2) [OF v] ne by (auto simp: tbit_def last_conv_nth)
    next
      case False
      then have one: "length t = 1" "v < 64" using assms(1) v by (simp_all add: table_words_def)
      then have "tbit (mask_last n t) v \<longleftrightarrow> bit (last t) v \<and> v < 2 ^ n"
        using nth False by (simp add: tbit_def bit_and_iff bit_last_word_mask)
      moreover have "bit (last t) v = f v"
        using assms(2) [OF v] one ne by (simp add: tbit_def last_conv_nth)
      ultimately show ?thesis by blast
    qed
  qed
  then show ?thesis using len by (simp add: is_table_def)
qed

lemma constant_table: "is_table n (constant_table n b) (\<lambda>_. b)"
proof -
  have "tbit (replicate (table_words n) (if b then NOT 0 else 0)) v = b" if "v < 64 * table_words n" for v
  proof -
    have "v div 64 < table_words n" using that by (simp add: less_mult_imp_div_less mult.commute)
    then show ?thesis by (simp add: tbit_def bit_not_iff)
  qed
  then show ?thesis unfolding constant_table_def by (intro mask_last_table) simp_all
qed

lemma low_pattern_bits: "\<forall>k \<in> set [0..<6]. \<forall>j \<in> set [0..<64]. bit (low_patterns ! k) j = bit j k"
  by code_simp

lemma bit_div_64: "6 \<le> k \<Longrightarrow> bit (v div 64) (k - 6) = bit v k" for v :: nat
proof -
  assume "6 \<le> k"
  moreover have "v div 64 = drop_bit 6 v" by (simp add: drop_bit_eq_div)
  ultimately show ?thesis by (simp add: bit_drop_bit_eq)
qed

lemma bit_mod_64: "k < 6 \<Longrightarrow> bit (v mod 64) k = bit v k" for v :: nat
proof -
  assume "k < 6"
  moreover have "v mod 64 = take_bit 6 v" by (simp add: take_bit_eq_mod)
  ultimately show ?thesis by (simp add: bit_take_bit_iff)
qed

lemma variable_table: "is_table n (variable_table n k) (\<lambda>v. bit v k)"
  unfolding variable_table_def
proof (rule mask_last_table)
  fix v assume v: "v < 64 * table_words n"
  then have i: "v div 64 < table_words n" by (simp add: less_mult_imp_div_less mult.commute)
  let ?w = "\<lambda>w. if k < 6 then low_patterns ! k
       else if drop_bit (k - 6) w AND (1::nat) \<noteq> 0 then NOT 0 else 0"
  have nth: "map ?w [0..<table_words n] ! (v div 64) = ?w (v div 64)" using i by simp
  show "tbit (map ?w [0..<table_words n]) v = bit v k"
  proof (cases "k < 6")
    case True
    moreover have "v mod 64 \<in> set [0..<64]" by simp
    ultimately have "bit (low_patterns ! k) (v mod 64) = bit (v mod 64) k"
      using low_pattern_bits by (metis atLeastLessThan_iff set_upt le0)
    then show ?thesis using nth True by (simp add: tbit_def bit_mod_64)
  next
    case False
    have "drop_bit (k - 6) w AND (1::nat) \<noteq> 0 \<longleftrightarrow> bit w (k - 6)" for w
      by (simp add: bit_iff_odd_drop_bit and_one_eq odd_iff_mod_2_eq_one)
    then show ?thesis using nth False bit_div_64 [of k v] by (simp add: tbit_def bit_not_iff)
  qed
qed simp

fun label_table :: "nat \<Rightarrow> label \<Rightarrow> table" where
  "label_table n LTrue = constant_table n True"
| "label_table n LFalse = constant_table n False"
| "label_table n (LAp k) = variable_table n k"
| "label_table n (LNot a) = mask_last n (map (\<lambda>w. NOT w) (label_table n a))"
| "label_table n (LAnd a b) = map2 (AND) (label_table n a) (label_table n b)"
| "label_table n (LOr a b) = map2 (OR) (label_table n a) (label_table n b)"

interpretation table_fold: node_fold "table_node n" "label_table n" for n
  by unfold_locales (simp_all add: table_node_def node_of_def)

lemma map2_table:
  assumes "is_table n t f" "is_table n u g"
    and "\<And>x y j. j < 64 \<Longrightarrow> bit (h x y) j = p (bit (x :: 64 word) j) (bit y j)" "\<not> p False False"
  shows "is_table n (map2 h t u) (\<lambda>v. p (f v) (g v))"
proof -
  have "tbit (map2 h t u) v \<longleftrightarrow> v < 2 ^ n \<and> p (f v) (g v)" if v: "v < 64 * table_words n" for v
  proof -
    have i: "v div 64 < table_words n" using v by (simp add: less_mult_imp_div_less mult.commute)
    then have "tbit (map2 h t u) v = p (tbit t v) (tbit u v)"
      using assms(1-3) by (simp add: tbit_def is_table_def)
    moreover have "tbit t v = (v < 2 ^ n \<and> f v)" "tbit u v = (v < 2 ^ n \<and> g v)"
      using assms(1,2) v by (simp_all add: is_table_def)
    ultimately show ?thesis using assms(4) by (cases "v < 2 ^ n") auto
  qed
  then show ?thesis using assms by (simp add: is_table_def)
qed

lemma and_or_table:
  assumes "is_table n t f" "is_table n u g"
  shows "is_table n (map2 (AND) t u) (\<lambda>v. f v \<and> g v)" "is_table n (map2 (OR) t u) (\<lambda>v. f v \<or> g v)"
  using map2_table [OF assms, of "(AND)" "(\<and>)"] map2_table [OF assms, of "(OR)" "(\<or>)"]
  by (simp_all add: bit_and_iff bit_or_iff)

lemma not_table:
  assumes "is_table n t f"
  shows "is_table n (mask_last n (map (\<lambda>w. NOT w) t)) (\<lambda>v. \<not> f v)"
proof -
  have t: "length t = table_words n" "\<And>v. v < 64 * table_words n \<Longrightarrow> tbit t v = (v < 2 ^ n \<and> f v)"
    using assms by (simp_all add: is_table_def)
  have "is_table n (mask_last n (map (\<lambda>w. NOT w) t)) (\<lambda>v. \<not> (v < 2 ^ n \<and> f v))"
  proof (rule mask_last_table)
    fix v assume v: "v < 64 * table_words n"
    then have "v div 64 < length t" using t(1) by (simp add: less_mult_imp_div_less mult.commute)
    then show "tbit (map (\<lambda>w. NOT w) t) v = (\<not> (v < 2 ^ n \<and> f v))"
      using t(2) [OF v] by (simp add: tbit_def bit_not_iff)
  qed (use t in simp)
  then show ?thesis by (simp add: is_table_def) blast
qed

lemma label_table: "is_table n (label_table n a) (\<lambda>v. holds (bit v) a)"
  by (induction a)
    (simp_all add: constant_table variable_table not_table and_or_table)

section \<open>Guards and moves\<close>

definition guard_holds :: "(nat \<Rightarrow> bool) \<Rightarrow> string \<Rightarrow> bool" where
  "guard_holds v g = (case read_label g of None \<Rightarrow> False | Some e \<Rightarrow> eval_label v e)"

definition succs :: "hoa_automaton \<Rightarrow> (nat \<Rightarrow> bool) \<Rightarrow> nat \<Rightarrow> nat set" where
  "succs a v s = {he_dst e |e. e \<in> set (ha_edges a ! s) \<and> guard_holds v (he_guard e)}"

definition code_of :: "nat \<Rightarrow> (nat \<Rightarrow> bool) \<Rightarrow> nat" where
  "code_of n v = horner_sum of_bool 2 (map v [0..<n])"

lemma code_of: "code_of n v < 2 ^ n" "i < n \<Longrightarrow> bit (code_of n v) i = v i"
  using horner_sum_of_bool_2_less [of "map v [0..<n]", where 'a = nat]
  by (simp_all add: code_of_def bit_horner_sum_bit_iff)

lemma guard_table_Some:
  assumes "guard_table g n = Some t"
  shows "is_table n t (\<lambda>v. guard_holds (bit v) g)" "tbit t (code_of n w) = guard_holds w g"
proof -
  obtain e where e: "read_label g = Some e" "ap_bound e \<le> n" "t = label_fold (table_node n) e"
    using assms by (auto simp: guard_table_def split: option.splits if_splits)
  obtain a where a: "is_label g a" "e = layout 0 a" using read_label_sound [OF e(1)] by blast
  have t: "t = label_table n a" using e(3) a(2) by (simp add: table_fold.label_fold_layout)
  have h: "guard_holds v g = holds v a" for v
    using e(1) a(2) by (simp add: guard_holds_def eval_layout)
  show "is_table n t (\<lambda>v. guard_holds (bit v) g)" using label_table t h by simp
  then have "tbit t (code_of n w) = guard_holds (bit (code_of n w)) g"
    by (rule is_table_tbit) (rule code_of)
  also have "\<dots> = guard_holds w g"
  proof -
    have "\<forall>i \<in> aps_of a. i < n" using e(2) a(2) ap_bound_layout by simp
    then show ?thesis using h code_of(2) by (metis holds_cong)
  qed
  finally show "tbit t (code_of n w) = guard_holds w g" .
qed

section \<open>Breadth-first order\<close>

definition aut_ok :: "hoa_automaton \<Rightarrow> bool" where
  "aut_ok a \<longleftrightarrow> ha_initial a < ha_num_states a \<and> length (ha_edges a) = ha_num_states a \<and>
     length (ha_state_accepting a) = ha_num_states a \<and>
     (\<forall>s < ha_num_states a. \<forall>e \<in> set (ha_edges a ! s). he_dst e < ha_num_states a)"

definition moves :: "hoa_automaton \<Rightarrow> (nat \<times> nat) set" where
  "moves a = {(s, he_dst e) |s e. s < ha_num_states a \<and> e \<in> set (ha_edges a ! s)}"

definition listed :: "nat \<Rightarrow> nat list \<Rightarrow> bool list \<Rightarrow> bool" where
  "listed n order seen \<longleftrightarrow> distinct order \<and> length seen = n \<and> set order = {s. s < n \<and> seen ! s}"

lemma visit_edges_spec:
  assumes "listed n order seen" "\<forall>e \<in> set es. he_dst e < n" "visit_edges es order seen = (order', seen')"
  shows "listed n order' seen' \<and> set order' = set order \<union> he_dst ` set es \<and> (\<exists>new. order' = order @ new)"
  using assms
proof (induction es order seen rule: visit_edges.induct)
  case (2 e es order seen)
  show ?case
  proof (cases "seen ! he_dst e")
    case True
    then have "he_dst e \<in> set order" using "2.prems" by (auto simp: listed_def)
    then show ?thesis using "2.IH"(2) "2.prems" True by auto
  next
    case False
    then have "listed n (order @ [he_dst e]) (seen[he_dst e := True])"
      using "2.prems" by (auto simp: listed_def nth_list_update)
    then show ?thesis using "2.IH"(1) [OF False] "2.prems" False by auto
  qed
qed auto

lemma listed_length: "listed n order seen \<Longrightarrow> length order \<le> n"
proof -
  assume l: "listed n order seen"
  then have "distinct order" unfolding listed_def by blast
  then have "length order = card (set order)" by (metis distinct_card)
  moreover have "set order \<subseteq> {..<n}" using l unfolding listed_def by blast
  ultimately show ?thesis using card_mono [of "{..<n}" "set order"] by simp
qed

lemma bfs_loop_end:
  assumes "listed n order seen" "k \<le> length order" "\<not> k < length order"
    "\<forall>i < k. he_dst ` set (edges ! (order ! i)) \<subseteq> set order" "set order \<subseteq> {s. Q s}"
  shows "bfs_loop edges k order seen = Some order \<and> distinct order \<and> set order \<subseteq> {s. s < n \<and> Q s} \<and>
    (\<forall>s \<in> set order. he_dst ` set (edges ! s) \<subseteq> set order)"
proof -
  have "k = length order" using assms(2,3) by simp
  then have "\<forall>s \<in> set order. he_dst ` set (edges ! s) \<subseteq> set order"
    using assms(4) by (simp add: all_set_conv_all_nth)
  moreover have "set order \<subseteq> {s. s < n \<and> Q s}" using assms(1,5) unfolding listed_def by blast
  ultimately show ?thesis using assms(1,3) by (simp add: bfs_loop.simps listed_def)
qed

lemma bfs_loop_spec:
  assumes "aut_ok a" "listed (ha_num_states a) order seen" "k \<le> length order"
    and "\<forall>i < k. he_dst ` set (ha_edges a ! (order ! i)) \<subseteq> set order"
    and "order \<noteq> []" "hd order = x" "set order \<subseteq> {s. (x, s) \<in> (moves a)\<^sup>*}"
  shows "\<exists>res. bfs_loop (ha_edges a) k order seen = Some res \<and> distinct res \<and> res \<noteq> [] \<and> hd res = x \<and>
    set res \<subseteq> {s. s < ha_num_states a \<and> (x, s) \<in> (moves a)\<^sup>*} \<and>
    (\<forall>s \<in> set res. he_dst ` set (ha_edges a ! s) \<subseteq> set res)"
  using assms(2-7)
proof (induction "ha_num_states a - k" arbitrary: k order seen)
  case 0
  then have k: "\<not> k < length order" using listed_length [OF 0(2)] by simp
  show ?case using bfs_loop_end [OF 0(2,3) k 0(4) 0(7)] 0(5,6) by (intro exI [of _ order]) simp
next
  case (Suc m)
  show ?case
  proof (cases "k < length order")
    case False
    show ?thesis
      using bfs_loop_end [OF Suc.prems(1,2) False Suc.prems(3,6)] Suc.prems(4,5) by (intro exI [of _ order]) simp
  next
    case True
    let ?es = "ha_edges a ! (order ! k)"
    obtain o2 s2 where v: "visit_edges ?es order seen = (o2, s2)" by fastforce
    have s: "order ! k \<in> set order" "order ! k < ha_num_states a"
      using Suc.prems(1) True by (auto simp: listed_def dest!: nth_mem)
    then have dst: "\<forall>e \<in> set ?es. he_dst e < ha_num_states a" using assms(1) by (simp add: aut_ok_def)
    have o2: "listed (ha_num_states a) o2 s2" "set o2 = set order \<union> he_dst ` set ?es" "\<exists>new. o2 = order @ new"
      using visit_edges_spec [OF Suc.prems(1) dst v] by blast+
    then obtain new where new: "o2 = order @ new" by blast
    have "bfs_loop (ha_edges a) k order seen = bfs_loop (ha_edges a) (k + 1) o2 s2"
      using True v by (subst bfs_loop.simps) simp
    moreover have "\<forall>i < k + 1. he_dst ` set (ha_edges a ! (o2 ! i)) \<subseteq> set o2"
    proof (intro allI impI)
      fix i assume "i < k + 1"
      then consider "i < k" | "i = k" by linarith
      then show "he_dst ` set (ha_edges a ! (o2 ! i)) \<subseteq> set o2"
      proof cases
        case 1
        then have sub: "he_dst ` set (ha_edges a ! (order ! i)) \<subseteq> set order" using Suc.prems(3) by blast
        have "o2 ! i = order ! i" using new 1 True by (simp add: nth_append)
        then show ?thesis unfolding o2(2) using sub by (simp only: le_supI1)
      next
        case 2
        then have "o2 ! i = order ! k" using new True by (simp add: nth_append)
        then show ?thesis unfolding o2(2) by (simp only: sup_ge2)
      qed
    qed
    moreover have "set o2 \<subseteq> {s. (x, s) \<in> (moves a)\<^sup>*}"
    proof -
      have "(x, he_dst e) \<in> (moves a)\<^sup>*" if "e \<in> set ?es" for e
      proof -
        have "(order ! k, he_dst e) \<in> moves a" using that s(2) by (auto simp: moves_def)
        moreover have "(x, order ! k) \<in> (moves a)\<^sup>*" using Suc.prems(6) s(1) by blast
        ultimately show ?thesis by (rule rtrancl.rtrancl_into_rtrancl [rotated])
      qed
      then have "he_dst ` set ?es \<subseteq> {s. (x, s) \<in> (moves a)\<^sup>*}" by blast
      then show ?thesis unfolding o2(2) using Suc.prems(6) by (rule Un_least [rotated])
    qed
    moreover have "m = ha_num_states a - (k + 1)" "k + 1 \<le> length o2" "o2 \<noteq> []" "hd o2 = x"
      using Suc.hyps(2) True new Suc.prems(4,5) by auto
    ultimately show ?thesis using Suc.hyps(1) [of "k + 1" o2 s2] o2(1) by simp
  qed
qed

lemma reachable_order_spec:
  assumes "aut_ok a"
  shows "\<exists>order. reachable_order a = Some order \<and> distinct order \<and> order \<noteq> [] \<and> hd order = ha_initial a \<and>
    set order = {s. (ha_initial a, s) \<in> (moves a)\<^sup>*} \<and> (\<forall>s \<in> set order. s < ha_num_states a)"
proof -
  let ?x = "ha_initial a" and ?n = "ha_num_states a"
  have "listed ?n [?x] ((replicate ?n False)[?x := True])"
    using assms by (auto simp: listed_def aut_ok_def nth_list_update)
  then obtain res where r: "reachable_order a = Some res" "distinct res" "res \<noteq> []" "hd res = ?x"
      "set res \<subseteq> {s. s < ?n \<and> (?x, s) \<in> (moves a)\<^sup>*}" "\<forall>s \<in> set res. he_dst ` set (ha_edges a ! s) \<subseteq> set res"
    using bfs_loop_spec [OF assms, of "[?x]" "(replicate ?n False)[?x := True]" 0 ?x]
    unfolding reachable_order_def by auto
  have "s \<in> set res" if "(?x, s) \<in> (moves a)\<^sup>*" for s
    using that
  proof induction
    case base
    then show ?case using r(3,4) hd_in_set by fastforce
  next
    case (step y z)
    then show ?case using r(6) by (auto simp: moves_def)
  qed
  then show ?thesis using r by blast
qed

end
