(* ===== verification/Strategy_Refinement.thy ===== *)
theory Strategy_Refinement imports Strategy_Quotient begin

text \<open>
  The partition refinement of the minimisation: a round tells two states apart exactly when their
  keys differ, the loop ends, and the classes it ends with are stable.
\<close>

unbundle bit_operations_syntax

section \<open>One round\<close>

definition ids_ok :: "('a \<Rightarrow> 'k) \<Rightarrow> 'a set \<Rightarrow> ('k \<times> nat) list \<Rightarrow> ('a \<Rightarrow> nat) \<Rightarrow> bool" where
  "ids_ok key D ids nxt \<longleftrightarrow> distinct (map fst ids) \<and> fst ` set ids = key ` D \<and>
     (\<forall>s \<in> D. map_of ids (key s) = Some (nxt s)) \<and> (\<forall>i \<in> snd ` set ids. i < length ids) \<and>
     distinct (map snd ids)"

lemma ids_ok_separates:
  assumes "ids_ok key D ids nxt" "s \<in> D" "t \<in> D"
  shows "nxt s = nxt t \<longleftrightarrow> key s = key t"
proof
  assume eq: "nxt s = nxt t"
  have "(key s, nxt s) \<in> set ids" "(key t, nxt t) \<in> set ids"
    using assms by (auto simp: ids_ok_def dest: map_of_SomeD)
  moreover have "inj_on snd (set ids)" using assms(1) by (simp add: ids_ok_def distinct_map)
  ultimately have "(key s, nxt s) = (key t, nxt t)" using eq inj_onD [of snd] by (metis snd_conv)
  then show "key s = key t" by simp
next
  assume "key s = key t"
  then have "Some (nxt s) = Some (nxt t)" using assms by (metis ids_ok_def)
  then show "nxt s = nxt t" by simp
qed

lemma ids_ok_card: "ids_ok key D ids nxt \<Longrightarrow> length ids = card (key ` D)"
  by (metis distinct_card ids_ok_def length_map list.set_map)

lemma refine_round_spec:
  assumes "ids_ok key D ids ((!) nxt)" "distinct ss" "D \<inter> set ss = {}" "\<forall>s \<in> D \<union> set ss. s < length nxt"
    and "refine_round key ss ids nxt = (ids', nxt')"
  shows "ids_ok key (D \<union> set ss) ids' ((!) nxt') \<and> length nxt' = length nxt"
  using assms
proof (induction key ss ids nxt arbitrary: D rule: refine_round.induct)
  case (2 key s ss ids nxt)
  have s: "s \<notin> D" "s < length nxt" using "2.prems" by auto
  have old: "(nxt[s := i]) ! t = nxt ! t" if "t \<in> D" for t i using that s by (cases "t = s") auto
  show ?case
  proof (cases "map_of ids (key s)")
    case (Some i)
    have k: "key s \<in> key ` D" using Some "2.prems"(1)
      by (metis fst_conv ids_ok_def image_eqI map_of_SomeD)
    have "ids_ok key (insert s D) ids ((!) (nxt[s := i]))"
      using "2.prems"(1) Some s k old by (auto simp: ids_ok_def)
    moreover have "refine_round key ss ids (nxt[s := i]) = (ids', nxt')"
      using "2.prems"(5) Some by simp
    ultimately show ?thesis
      using "2.IH"(2) [OF Some, of "insert s D"] "2.prems"(2,3,4) by simp
  next
    case None
    let ?ids = "(key s, length ids) # ids" and ?nxt = "nxt[s := length ids]"
    have k: "key s \<notin> key ` D" using None "2.prems"(1) by (auto simp: ids_ok_def map_of_eq_None_iff)
    have i: "\<forall>i \<in> snd ` set ids. i < length ids" "distinct (map snd ids)" "distinct (map fst ids)"
        "fst ` set ids = key ` D" "\<forall>t \<in> D. map_of ids (key t) = Some (nxt ! t)"
      using "2.prems"(1) by (simp_all add: ids_ok_def)
    have "distinct (map fst ?ids)" using i(3,4) k by auto
    moreover have "distinct (map snd ?ids)" using i(1,2) by auto
    moreover have "\<forall>t \<in> insert s D. map_of ?ids (key t) = Some (?nxt ! t)"
    proof
      fix t assume "t \<in> insert s D"
      then consider "t = s" | "t \<in> D" by blast
      then show "map_of ?ids (key t) = Some (?nxt ! t)"
      proof cases
        case 1 then show ?thesis using s(2) by simp
      next
        case 2
        then have "key t \<in> key ` D" by (rule imageI)
        then have "key t \<noteq> key s" using k by metis
        then show ?thesis using 2 i(5) old by simp
      qed
    qed
    moreover have "\<forall>j \<in> snd ` set ?ids. j < length ?ids"
    proof
      fix j assume "j \<in> snd ` set ?ids"
      then consider "j = length ids" | "j \<in> snd ` set ids" by auto
      then show "j < length ?ids"
      proof cases
        case 2
        then have "j < length ids" using i(1) by blast
        then show ?thesis by simp
      qed simp
    qed
    moreover have "fst ` set ?ids = key ` insert s D" using i(4) by simp
    ultimately have "ids_ok key (insert s D) ?ids ((!) ?nxt)" unfolding ids_ok_def by blast
    moreover have "refine_round key ss ?ids ?nxt = (ids', nxt')"
      using "2.prems"(5) None by simp
    ultimately show ?thesis
      using "2.IH"(1) [OF None, of "insert s D"] "2.prems"(2,3,4) by simp
  qed
qed simp

section \<open>The loop\<close>

definition same_class :: "nat list \<Rightarrow> nat list \<Rightarrow> (nat \<times> nat) set" where
  "same_class order cls = {(s, t). s \<in> set order \<and> t \<in> set order \<and> cls ! s = cls ! t}"

lemma round_result:
  assumes "distinct order" "\<forall>s \<in> set order. s < n"
    and "refine_round key order [] (replicate n 0) = (ids, cls)"
  shows "length cls = n \<and> length ids = card (key ` set order) \<and>
    card ((!) cls ` set order) = length ids \<and>
    (\<forall>s \<in> set order. \<forall>t \<in> set order. cls ! s = cls ! t \<longleftrightarrow> key s = key t)"
proof -
  have "ids_ok key {} [] ((!) (replicate n 0))" by (simp add: ids_ok_def)
  from refine_round_spec [OF this assms(1) _ _ assms(3)] assms(2)
  have r: "ids_ok key (set order) ids ((!) cls)" "length cls = n" by simp_all
  have sep: "\<forall>s \<in> set order. \<forall>t \<in> set order. cls ! s = cls ! t \<longleftrightarrow> key s = key t"
    using ids_ok_separates [OF r(1)] by blast
  have "inj_on (\<lambda>k. the (map_of ids k)) (key ` set order)"
    using r(1) sep by (auto simp: inj_on_def ids_ok_def)
  then have "card ((\<lambda>k. the (map_of ids k)) ` key ` set order) = card (key ` set order)"
    by (rule card_image)
  moreover have "(\<lambda>k. the (map_of ids k)) ` key ` set order = (!) cls ` set order"
    using r(1) by (force simp: ids_ok_def image_image)
  ultimately show ?thesis using r sep ids_ok_card [OF r(1)] by simp
qed

lemma refine_loop_spec:
  fixes a :: hoa_automaton and bt tabs
  defines "key \<equiv> state_key a bt tabs"
  assumes "distinct order" "\<forall>s \<in> set order. s < ha_num_states a" "length cls = ha_num_states a"
    and "classes = card ((!) cls ` set order)" "Q (same_class order cls)"
    and keep: "\<And>c d. Q (same_class order c) \<Longrightarrow>
      (\<And>s t. s \<in> set order \<Longrightarrow> t \<in> set order \<Longrightarrow> d ! s = d ! t \<longleftrightarrow> key c s = key c t) \<Longrightarrow>
      Q (same_class order d)"
  shows "\<exists>c d k. refine_loop a bt tabs order cls classes = Some (d, k) \<and> length d = ha_num_states a \<and>
    same_class order d = same_class order c \<and> Q (same_class order d) \<and>
    (\<forall>s \<in> set order. \<forall>t \<in> set order. d ! s = d ! t \<longleftrightarrow> key c s = key c t)"
  using assms(2-6)
proof (induction "card (set order) - classes" arbitrary: cls classes rule: less_induct)
  case less
  obtain ids d where r: "refine_round (key cls) order [] (replicate (ha_num_states a) 0) = (ids, d)"
    by fastforce
  note res = round_result [OF less.prems(1,2) r]
  have sep: "d ! s = d ! t \<longleftrightarrow> key cls s = key cls t" if "s \<in> set order" "t \<in> set order" for s t
    using res that by blast
  have q: "Q (same_class order d)" using keep [OF less.prems(5)] sep by blast
  have step: "refine_loop a bt tabs order cls classes =
      (if length ids = classes then Some (d, classes) else refine_loop a bt tabs order d (length ids))"
    using r by (subst refine_loop.simps) (simp add: key_def)
  have "fst ` key cls ` set order = (!) cls ` set order"
    by (simp add: key_def state_key_def image_image)
  then have cl: "classes = card (fst ` key cls ` set order)" using less.prems(4) by simp
  show ?case
  proof (cases "length ids = classes")
    case True
    then have inj: "inj_on fst (key cls ` set order)"
      using res cl by (intro eq_card_imp_inj_on) simp_all
    have "key cls s = key cls t" if "s \<in> set order" "t \<in> set order" "cls ! s = cls ! t" for s t
    proof -
      have "fst (key cls s) = fst (key cls t)" using that(3) by (simp add: key_def state_key_def)
      then show ?thesis using inj_onD [OF inj] that(1,2) by blast
    qed
    moreover have "cls ! s = cls ! t" if "key cls s = key cls t" for s t
      using that by (simp add: key_def state_key_def)
    ultimately have "same_class order d = same_class order cls"
      unfolding same_class_def using sep by blast
    moreover have "refine_loop a bt tabs order cls classes = Some (d, classes)" using step True by simp
    ultimately show ?thesis using res sep q by blast
  next
    case False
    have "card (fst ` key cls ` set order) \<le> card (key cls ` set order)" by (rule card_image_le) simp
    then have "classes < length ids" using cl res False by simp
    moreover have "length ids \<le> card (set order)" using res card_image_le [of "set order" "key cls"] by simp
    ultimately have "card (set order) - length ids < card (set order) - classes" by simp
    moreover have "length d = ha_num_states a" "length ids = card ((!) d ` set order)" using res by simp_all
    ultimately show ?thesis
      unfolding step if_not_P [OF False] using less.hyps [OF _ less.prems(1,2) _ _ q] by blast
  qed
qed

section \<open>Signatures\<close>

definition sig_sorted :: "signature \<Rightarrow> bool" where
  "sig_sorted sg \<longleftrightarrow> sorted_wrt (<) (map fst sg)"

lemma sig_add_keys: "fst ` set (sig_add c f sg) = insert c (fst ` set sg)"
  by (induction c f sg rule: sig_add.induct) auto

lemma sig_add_spec:
  "sig_sorted sg \<Longrightarrow> sig_sorted (sig_add c f sg) \<and>
    map_of (sig_add c f sg) d =
      (if d = c then Some (f (case map_of sg c of Some x \<Rightarrow> x | None \<Rightarrow> ([], {}))) else map_of sg d)"
proof (induction c f sg rule: sig_add.induct)
  case (2 c f e x sg)
  then have ih: "c \<noteq> e \<Longrightarrow> \<not> c < e \<Longrightarrow> sig_sorted (sig_add c f sg)" by (simp add: sig_sorted_def)
  have "map_of sg c = None" if "c < e"
    using "2.prems" that by (force simp: sig_sorted_def map_of_eq_None_iff)
  moreover have "sig_sorted ((e, x) # sig_add c f sg)" if "e < c"
    using ih that "2.prems" sig_add_keys [of c f sg] by (force simp: sig_sorted_def)
  ultimately show ?case using 2 by (auto simp: sig_sorted_def)
qed (simp add: sig_sorted_def)

text \<open>The guards an entry stands for: its table, or its texts.\<close>

definition hits :: "bool \<Rightarrow> nat \<Rightarrow> (nat \<Rightarrow> bool) \<Rightarrow> table \<times> string set \<Rightarrow> bool" where
  "hits bt n v x \<longleftrightarrow> (if bt then fst x \<noteq> [] \<and> tbit (fst x) (code_of n v) else \<exists>g \<in> snd x. guard_holds v g)"

definition sig_sat :: "bool \<Rightarrow> nat \<Rightarrow> (nat \<Rightarrow> bool) \<Rightarrow> signature \<Rightarrow> nat \<Rightarrow> bool" where
  "sig_sat bt n v sg c \<longleftrightarrow> (\<exists>x. map_of sg c = Some x \<and> hits bt n v x)"

definition entry_ok :: "nat \<Rightarrow> table \<times> string set \<Rightarrow> bool" where
  "entry_ok n x \<longleftrightarrow> fst x = [] \<or> (\<exists>f. is_table n (fst x) f)"

definition table_of_edge :: "bool \<Rightarrow> nat \<Rightarrow> hoa_edge \<Rightarrow> table \<Rightarrow> bool" where
  "table_of_edge bt n e u \<longleftrightarrow> (bt \<longrightarrow> guard_table (he_guard e) n = Some u)"

lemma is_table_nonempty: "is_table n t f \<Longrightarrow> t \<noteq> []"
  by (metis is_table_def length_greater_0_conv table_words_pos)

lemma join_edge_hits:
  assumes "entry_ok n x" "table_of_edge bt n e u"
  shows "entry_ok n (join_edge bt (he_guard e) u x) \<and>
    hits bt n v (join_edge bt (he_guard e) u x) = (hits bt n v x \<or> guard_holds v (he_guard e))"
proof (cases bt)
  case False
  then show ?thesis using assms(1) by (simp add: join_edge_def entry_ok_def hits_def) blast
next
  case True
  then have u: "guard_table (he_guard e) n = Some u" using assms(2) by (simp add: table_of_edge_def)
  note g = guard_table_Some [OF u]
  show ?thesis
  proof (cases "fst x = []")
    case True
    have "hits bt n v (u, snd x) = guard_holds v (he_guard e)" "\<not> hits bt n v x"
      using g is_table_nonempty [OF g(1)] \<open>bt\<close> True by (simp_all add: hits_def)
    then show ?thesis using g(1) True \<open>bt\<close> unfolding join_edge_def entry_ok_def by auto
  next
    case False
    then obtain f where f: "is_table n (fst x) f" using assms(1) by (auto simp: entry_ok_def)
    let ?o = "map2 (OR) (fst x) u"
    note o = and_or_table(2) [OF f g(1)]
    have "tbit ?o (code_of n v) = (tbit (fst x) (code_of n v) \<or> guard_holds v (he_guard e))"
      using is_table_tbit [OF o code_of(1)] is_table_tbit [OF f code_of(1)]
        is_table_tbit [OF g(1) code_of(1)] g(2) by metis
    moreover have "?o \<noteq> []" using is_table_nonempty [OF o] .
    ultimately show ?thesis
      using o False \<open>bt\<close> by (auto simp: join_edge_def entry_ok_def hits_def)
  qed
qed

lemma signature_of_spec:
  assumes "list_all2 (table_of_edge bt n) es (if bt then ts else map (\<lambda>_. []) es)"
    and "sig_sorted sg" "\<forall>x \<in> snd ` set sg. entry_ok n x"
  shows "sig_sorted (signature_of bt cls es ts sg) \<and>
    (\<forall>c. sig_sat bt n v (signature_of bt cls es ts sg) c \<longleftrightarrow> sig_sat bt n v sg c \<or>
      (\<exists>e \<in> set es. cls ! he_dst e = c \<and> guard_holds v (he_guard e))) \<and>
    fst ` set (signature_of bt cls es ts sg) = fst ` set sg \<union> (\<lambda>e. cls ! he_dst e) ` set es"
  using assms
proof (induction es arbitrary: ts sg)
  case (Cons e es)
  let ?u = "if bt then hd ts else []"
  let ?f = "join_edge bt (he_guard e) ?u" and ?c = "cls ! he_dst e"
  let ?sg = "sig_add ?c ?f sg"
  have u: "table_of_edge bt n e ?u" "list_all2 (table_of_edge bt n) es (if bt then tl ts else map (\<lambda>_. []) es)"
    using Cons.prems(1) by (cases bt; cases ts; simp)+
  note add = sig_add_spec [OF Cons.prems(2), of ?c ?f]
  have mem: "entry_ok n x" if "map_of sg c = Some x" for c x
    using that Cons.prems(3) by (force dest: map_of_SomeD)
  have old: "entry_ok n (case map_of sg ?c of Some x \<Rightarrow> x | None \<Rightarrow> ([], {}))"
    using mem by (auto simp: entry_ok_def split: option.split)
  have sorted: "sig_sorted ?sg" using add by blast
  have "entry_ok n x" if "(c, x) \<in> set ?sg" for c x
  proof -
    have "distinct (map fst ?sg)" by (metis sorted sig_sorted_def strict_sorted_iff)
    then have x: "map_of ?sg c = Some x" using that by simp
    show ?thesis
    proof (cases "c = ?c")
      case True
      then show ?thesis using x add [of c] join_edge_hits [OF old u(1)] by simp
    next
      case False
      then show ?thesis using x add [of c] mem by simp
    qed
  qed
  then have ok: "\<forall>x \<in> snd ` set ?sg. entry_ok n x" by auto
  have "sig_sat bt n v ?sg c \<longleftrightarrow> sig_sat bt n v sg c \<or> ?c = c \<and> guard_holds v (he_guard e)" for c
  proof (cases "c = ?c")
    case False
    then show ?thesis using add [of c] by (simp add: sig_sat_def)
  next
    case True
    have "\<not> hits bt n v ([], {})" by (simp add: hits_def)
    then have "hits bt n v (case map_of sg ?c of Some x \<Rightarrow> x | None \<Rightarrow> ([], {})) = sig_sat bt n v sg ?c"
      by (simp add: sig_sat_def split: option.split)
    then show ?thesis
      using add [of c] True join_edge_hits [OF old u(1), of v] by (simp add: sig_sat_def)
  qed
  moreover have "fst ` set ?sg = insert ?c (fst ` set sg)" by (rule sig_add_keys)
  ultimately show ?case using Cons.IH [OF u(2) sorted ok] by auto
qed simp

end
