(* ===== verification/Strategy_Bisim.thy ===== *)
theory Strategy_Bisim imports Strategy_Refinement begin

text \<open>
  The minimised strategy and the strategy it comes from: the quotient map is a functional
  bisimulation, both play the same labelled runs, and on automata whose guards are compared by
  their tables two states become one exactly when a bisimulation that also matches the edges no
  valuation takes relates them.
\<close>

section \<open>The numbering of the classes\<close>

definition numbered :: "nat list \<Rightarrow> nat set \<Rightarrow> (nat \<rightharpoonup> nat) \<Rightarrow> nat list \<Rightarrow> bool" where
  "numbered cls D ids reps \<longleftrightarrow> set reps \<subseteq> D \<and> distinct reps \<and>
     (\<forall>c i. ids c = Some i \<longrightarrow> i < length reps \<and> cls ! (reps ! i) = c) \<and>
     (\<forall>i < length reps. ids (cls ! (reps ! i)) = Some i) \<and> (\<forall>s \<in> D. ids (cls ! s) \<noteq> None)"

lemma number_classes_spec:
  assumes "numbered cls D ids reps" "number_classes cls ss ids reps = (ids', reps')"
  shows "numbered cls (D \<union> set ss) ids' reps' \<and> ids \<subseteq>\<^sub>m ids'"
  using assms
proof (induction cls ss ids reps arbitrary: D rule: number_classes.induct)
  case (2 cls s ss ids reps)
  show ?case
  proof (cases "ids (cls ! s)")
    case None
    let ?ids = "ids(cls ! s \<mapsto> length reps)"
    have n: "set reps \<subseteq> D" "distinct reps" "\<And>c i. ids c = Some i \<Longrightarrow> i < length reps \<and> cls ! (reps ! i) = c"
        "\<And>i. i < length reps \<Longrightarrow> ids (cls ! (reps ! i)) = Some i" "\<And>t. t \<in> D \<Longrightarrow> ids (cls ! t) \<noteq> None"
      using "2.prems"(1) by (simp_all add: numbered_def)
    have s: "s \<notin> D" using None n(5) by blast
    have "?ids (cls ! ((reps @ [s]) ! i)) = Some i" if "i < length (reps @ [s])" for i
    proof (cases "i = length reps")
      case False
      then have i: "i < length reps" using that by simp
      then have "cls ! (reps ! i) \<noteq> cls ! s" using n(4) None by (metis option.distinct(1))
      then show ?thesis using i n(4) by (simp add: nth_append)
    qed simp
    moreover have "i < length (reps @ [s]) \<and> cls ! ((reps @ [s]) ! i) = c" if "?ids c = Some i" for c i
      using that n(3) by (auto simp: nth_append split: if_splits)
    moreover have "set (reps @ [s]) \<subseteq> insert s D" "distinct (reps @ [s])" using n(1,2) s by auto
    moreover have "?ids (cls ! t) \<noteq> None" if "t \<in> insert s D" for t using that n(5) by auto
    ultimately have "numbered cls (insert s D) ?ids (reps @ [s])" unfolding numbered_def by blast
    moreover have "number_classes cls ss ?ids (reps @ [s]) = (ids', reps')" using "2.prems"(2) None by simp
    ultimately have "numbered cls (insert s D \<union> set ss) ids' reps' \<and> ?ids \<subseteq>\<^sub>m ids'"
      using "2.IH"(1) [OF None] by blast
    moreover have "ids \<subseteq>\<^sub>m ?ids" using None by (auto simp: map_le_def)
    ultimately show ?thesis using map_le_trans by auto
  next
    case (Some i)
    then have "numbered cls (insert s D) ids reps" using "2.prems"(1) by (auto simp: numbered_def)
    then show ?thesis using "2.IH"(2) [of "insert s D"] "2.prems"(2) Some by simp
  qed
qed simp

lemma number_classes_all:
  assumes "number_classes cls order Map.empty [] = (ids, reps)" "order \<noteq> []"
  shows "set reps \<subseteq> set order \<and> distinct reps \<and>
    (\<forall>s \<in> set order. \<exists>i < length reps. ids (cls ! s) = Some i \<and> cls ! (reps ! i) = cls ! s) \<and>
    ids (cls ! hd order) = Some 0 \<and> (\<forall>i < length reps. ids (cls ! (reps ! i)) = Some i)"
proof -
  obtain s ss where o: "order = s # ss" using assms(2) by (cases order) auto
  have n0: "numbered cls {s} [cls ! s \<mapsto> 0] [s]" by (auto simp: numbered_def)
  have "number_classes cls ss [cls ! s \<mapsto> 0] [s] = (ids, reps)" using assms(1) o by simp
  from number_classes_spec [OF n0 this]
  have n: "numbered cls (set order) ids reps" and le: "[cls ! s \<mapsto> 0] \<subseteq>\<^sub>m ids" using o by auto
  have "ids (cls ! s) = Some 0" using le by (auto simp: map_le_def)
  moreover have all: "\<exists>i < length reps. ids (cls ! t) = Some i \<and> cls ! (reps ! i) = cls ! t"
    if "t \<in> set order" for t
    using n that unfolding numbered_def by (metis not_Some_eq)
  ultimately show ?thesis using n o by (auto simp: numbered_def)
qed

section \<open>The quotient\<close>

lemma quotient_edges_set:
  "(\<lambda>e. (he_guard e, he_dst e)) ` set (quotient_edges to es kept) =
    (\<lambda>e. (he_guard e, to (he_dst e))) ` set es - set kept"
  by (induction to es kept rule: quotient_edges.induct) (auto simp: Let_def)

lemma quotient_edges_plain: "e \<in> set (quotient_edges to es kept) \<Longrightarrow> \<not> he_accepting e"
  by (induction to es kept rule: quotient_edges.induct) (auto simp: Let_def split: if_splits)

definition quotient_map :: "hoa_automaton \<Rightarrow> hoa_automaton \<Rightarrow> (nat \<Rightarrow> nat) \<Rightarrow> bool" where
  "quotient_map a q h \<longleftrightarrow> h (ha_initial a) = ha_initial q \<and>
     (\<forall>s. (ha_initial a, s) \<in> (moves a)\<^sup>* \<longrightarrow>
       h s < ha_num_states q \<and> (\<forall>v. succs q v (h s) = h ` succs a v s))"

lemma succs_image:
  "(\<lambda>e. (he_guard e, he_dst e)) ` set es = (\<lambda>e. (he_guard e, to (he_dst e))) ` set fs \<Longrightarrow>
    {he_dst e |e. e \<in> set es \<and> guard_holds v (he_guard e)} =
      to ` {he_dst e |e. e \<in> set fs \<and> guard_holds v (he_guard e)}"
proof -
  assume h: "(\<lambda>e. (he_guard e, he_dst e)) ` set es = (\<lambda>e. (he_guard e, to (he_dst e))) ` set fs"
  have "{he_dst e |e. e \<in> set es \<and> guard_holds v (he_guard e)} =
      snd ` {p \<in> (\<lambda>e. (he_guard e, he_dst e)) ` set es. guard_holds v (fst p)}" by force
  also have "\<dots> = to ` {he_dst e |e. e \<in> set fs \<and> guard_holds v (he_guard e)}" unfolding h by force
  finally show ?thesis .
qed

text \<open>A stable partition of the reachable states gives a quotient map.\<close>

lemma quotient_is_map:
  assumes ok: "aut_ok a"
    and order: "set order = {s. (ha_initial a, s) \<in> (moves a)\<^sup>*}" "order \<noteq> []" "hd order = ha_initial a"
      "\<forall>s \<in> set order. s < ha_num_states a" "distinct order"
    and stable: "\<And>s t v. s \<in> set order \<Longrightarrow> t \<in> set order \<Longrightarrow> cls ! s = cls ! t \<Longrightarrow>
      (!) cls ` succs a v s = (!) cls ` succs a v t"
  shows "\<exists>h. quotient_map a (quotient a order cls) h \<and> aut_ok (quotient a order cls) \<and>
    ha_num_states (quotient a order cls) \<le> ha_num_states a \<and>
    (\<forall>s \<in> set order. \<forall>t \<in> set order. h s = h t \<longleftrightarrow> cls ! s = cls ! t) \<and>
    h ` set order = {..<ha_num_states (quotient a order cls)}"
proof -
  obtain ids reps where n: "number_classes cls order Map.empty [] = (ids, reps)" by fastforce
  note all = number_classes_all [OF n order(2)]
  let ?h = "\<lambda>s. the (ids (cls ! s))" and ?q = "quotient a order cls"
  have q: "ha_num_states ?q = length reps" "ha_initial ?q = 0"
      "ha_edges ?q = map (\<lambda>s. quotient_edges (\<lambda>d. the (ids (cls ! d))) (ha_edges a ! s) []) reps"
      "ha_state_accepting ?q = replicate (length reps) False"
    using n by (simp_all add: quotient_def)
  have h: "?h s < length reps" "cls ! (reps ! ?h s) = cls ! s" if "s \<in> set order" for s
    using all that by auto
  have reps: "reps ! i \<in> set order" "?h (reps ! i) = i" if "i < length reps" for i
    using all that by (auto dest: nth_mem)
  have succ_in: "succs a v s \<subseteq> set order" if "s \<in> set order" for s v
  proof
    fix t assume "t \<in> succs a v s"
    then have "(s, t) \<in> moves a" using that order(4) by (auto simp: succs_def moves_def)
    then show "t \<in> set order" using that order(1) by (auto intro: rtrancl.rtrancl_into_rtrancl)
  qed
  have succ_q: "succs ?q v i = ?h ` succs a v (reps ! i)" if "i < length reps" for i v
    using succs_image [OF quotient_edges_set [of ?h "ha_edges a ! (reps ! i)" "[]", simplified], of v] that
    by (simp add: succs_def q)
  have map: "succs ?q v (?h s) = ?h ` succs a v s" if s: "s \<in> set order" for s v
  proof -
    let ?r = "reps ! ?h s"
    have "?r \<in> set order" "cls ! ?r = cls ! s" using h [OF s] reps(1) by auto
    then have "(!) cls ` succs a v ?r = (!) cls ` succs a v s" using stable s by blast
    then have "(\<lambda>c. the (ids c)) ` (!) cls ` succs a v ?r = (\<lambda>c. the (ids c)) ` (!) cls ` succs a v s" by simp
    then show ?thesis using succ_q [OF h(1) [OF s]] by (simp add: image_image)
  qed
  have "ha_initial a \<in> set order" using order(2,3) hd_in_set by metis
  then have "0 < length reps" using h(1) by fastforce
  have dst: "he_dst e < length reps"
    if "i < length reps" "e \<in> set (quotient_edges ?h (ha_edges a ! (reps ! i)) [])" for i e
  proof -
    have "(he_guard e, he_dst e) \<in> (\<lambda>e. (he_guard e, ?h (he_dst e))) ` set (ha_edges a ! (reps ! i))"
      using that(2) quotient_edges_set [of ?h "ha_edges a ! (reps ! i)" "[]"] by auto
    then obtain f where f: "f \<in> set (ha_edges a ! (reps ! i))" "he_dst e = ?h (he_dst f)" by auto
    have "(reps ! i, he_dst f) \<in> moves a" using f(1) reps(1) [OF that(1)] order(4) by (auto simp: moves_def)
    then have "he_dst f \<in> set order"
      using reps(1) [OF that(1)] order(1) by (auto intro: rtrancl.rtrancl_into_rtrancl)
    then show ?thesis using h(1) f(2) by simp
  qed
  then have "aut_ok ?q" using \<open>0 < length reps\<close> by (simp add: aut_ok_def q)
  moreover have "quotient_map a ?q ?h"
    using map h(1) all order(1,3) by (simp add: quotient_map_def q)
  moreover have "length reps \<le> ha_num_states a"
  proof -
    have "set reps \<subseteq> set order" "distinct reps" using all by blast+
    moreover have "set order \<subseteq> {..<ha_num_states a}" using order(4) by blast
    ultimately have "card (set reps) \<le> ha_num_states a"
      using card_mono [of "{..<ha_num_states a}" "set reps"] by (simp add: subset_trans)
    then show ?thesis using distinct_card [OF \<open>distinct reps\<close>] by simp
  qed
  moreover have "?h s = ?h t \<longleftrightarrow> cls ! s = cls ! t" if "s \<in> set order" "t \<in> set order" for s t
  proof
    assume "cls ! s = cls ! t"
    then show "?h s = ?h t" by (rule arg_cong)
  next
    assume "?h s = ?h t"
    then have "cls ! (reps ! ?h s) = cls ! (reps ! ?h t)" by (rule arg_cong)
    then show "cls ! s = cls ! t" unfolding h(2) [OF that(1)] h(2) [OF that(2)] .
  qed
  moreover have "?h ` set order = {..<length reps}"
  proof (intro set_eqI iffI)
    fix i assume "i \<in> {..<length reps}"
    then have i: "i < length reps" by simp
    show "i \<in> ?h ` set order" by (rule image_eqI [of _ ?h, OF reps(2) [OF i, symmetric] reps(1) [OF i]])
  next
    fix i assume "i \<in> ?h ` set order"
    then obtain s where s: "i = ?h s" "s \<in> set order" by (rule imageE)
    show "i \<in> {..<length reps}" unfolding s(1) using h(1) [OF s(2)] by (simp only: lessThan_iff)
  qed
  ultimately show ?thesis unfolding q(1) by (intro exI [of _ ?h]) blast
qed

section \<open>The minimised strategy\<close>

lemma sig_sat_image:
  assumes "list_all2 (table_of_edge bt n) es (if bt then ts else map (\<lambda>_. []) es)"
  shows "sig_sat bt n v (signature_of bt cls es ts []) c \<longleftrightarrow>
    c \<in> (!) cls ` {he_dst e |e. e \<in> set es \<and> guard_holds v (he_guard e)}"
proof -
  have "sig_sat bt n v (signature_of bt cls es ts []) c \<longleftrightarrow>
      (\<exists>e \<in> set es. cls ! he_dst e = c \<and> guard_holds v (he_guard e))"
    using signature_of_spec [OF assms, where sg = "[]" and v = v and cls = cls]
    by (simp add: sig_sorted_def sig_sat_def)
  then show ?thesis by blast
qed

lemma fill_tables_spec:
  "fill_tables a ss tabs = Some tabs' \<Longrightarrow> \<forall>s \<in> set ss. s < length tabs \<Longrightarrow> distinct ss \<Longrightarrow>
    (\<forall>s \<in> set ss. state_tables a s = Some (tabs' ! s)) \<and> (\<forall>s. s \<notin> set ss \<longrightarrow> tabs' ! s = tabs ! s)"
proof (induction a ss tabs rule: fill_tables.induct)
  case (2 a s ss tabs)
  then obtain ts where "state_tables a s = Some ts" "fill_tables a ss (tabs[s := ts]) = Some tabs'"
    by (auto split: option.splits)
  then show ?case using 2 by auto
qed simp

lemma fill_tables_None:
  "fill_tables a ss tabs = None \<Longrightarrow> \<exists>s \<in> set ss. state_tables a s = None"
  by (induction a ss tabs rule: fill_tables.induct) (auto split: option.splits)

lemma state_tables_edges:
  "state_tables a s = Some ts \<Longrightarrow>
    list_all2 (table_of_edge bt (length (ha_aps a))) (ha_edges a ! s) (if bt then ts else map (\<lambda>_. []) (ha_edges a ! s))"
  by (cases bt) (auto simp: state_tables_def those_list_all2 list_all2_map1 list_all2_map2 table_of_edge_def
    intro: list_all2_mono list_all2_refl)

lemma text_edges: "list_all2 (table_of_edge False n) es (map (\<lambda>_. []) es)"
  by (simp add: list_all2_map2 table_of_edge_def list_all2_same)

text \<open>
  What a run of the loops yields: the order, and classes that are stable because they are the
  classes by the keys of an equal partition.
\<close>

definition separates ::
  "hoa_automaton \<Rightarrow> nat list \<Rightarrow> bool \<Rightarrow> table list list \<Rightarrow> nat list \<Rightarrow> nat list \<Rightarrow> bool" where
  "separates a order bt tabs c d \<longleftrightarrow> (\<forall>s \<in> set order. \<forall>t \<in> set order.
     d ! s = d ! t \<longleftrightarrow> state_key a bt tabs c s = state_key a bt tabs c t)"

definition stable_run ::
  "hoa_automaton \<Rightarrow> nat list \<Rightarrow> bool \<Rightarrow> table list list \<Rightarrow> nat list \<Rightarrow> nat list \<Rightarrow> bool" where
  "stable_run a order bt tabs c d \<longleftrightarrow>
     set order = {s. (ha_initial a, s) \<in> (moves a)\<^sup>*} \<and> order \<noteq> [] \<and> hd order = ha_initial a \<and>
     (\<forall>s \<in> set order. s < ha_num_states a) \<and> distinct order \<and>
     (\<forall>s \<in> set order. list_all2 (table_of_edge bt (length (ha_aps a))) (ha_edges a ! s)
       (if bt then tabs ! s else map (\<lambda>_. []) (ha_edges a ! s))) \<and>
     same_class order d = same_class order c \<and> separates a order bt tabs c d \<and>
     bt = (length (ha_aps a) \<le> truth_table_max_aps) \<and>
     (\<forall>Q. Q (set order \<times> set order) \<longrightarrow>
       (\<forall>c d. Q (same_class order c) \<longrightarrow> separates a order bt tabs c d \<longrightarrow> Q (same_class order d)) \<longrightarrow>
       Q (same_class order d))"

lemma minimize_cases:
  assumes "aut_ok a"
  shows "minimize_strategy a = Some a \<and> (has_marks a \<or> length (ha_aps a) \<le> truth_table_max_aps \<and>
      (\<exists>s. (ha_initial a, s) \<in> (moves a)\<^sup>* \<and> state_tables a s = None)) \<or>
    (\<exists>order bt tabs c d. minimize_strategy a = Some (quotient a order d) \<and> stable_run a order bt tabs c d)"
proof -
  let ?bt = "length (ha_aps a) \<le> truth_table_max_aps" and ?n = "ha_num_states a"
  let ?none = "replicate ?n []"
  have pos: "0 < ?n" "ha_initial a < ?n" using assms by (auto simp: aut_ok_def)
  obtain order where o: "reachable_order a = Some order" "distinct order" "order \<noteq> []"
      "hd order = ha_initial a" "set order = {s. (ha_initial a, s) \<in> (moves a)\<^sup>*}"
      "\<forall>s \<in> set order. s < ?n"
    using reachable_order_spec [OF assms] by blast
  let ?fill = "if ?bt then fill_tables a order ?none else Some ?none"
  show ?thesis
  proof (cases "has_marks a \<or> ?fill = None")
    case True
    then have "minimize_strategy a = Some a"
      using pos o(1) by (auto simp: minimize_strategy_def Let_def)
    moreover have "\<exists>s \<in> set order. state_tables a s = None" if "fill_tables a order ?none = None"
      using that fill_tables_None by blast
    ultimately show ?thesis using True o(5) by (auto split: if_splits)
  next
    case False
    then obtain tabs where t: "?fill = Some tabs" by blast
    have "(!) (replicate ?n (0 :: nat)) ` set order = {0}"
    proof -
      have "(!) (replicate ?n (0 :: nat)) ` set order = (\<lambda>_. 0) ` set order"
        using o(6) by (intro image_cong) auto
      then show ?thesis using o(3) by (simp add: image_constant_conv)
    qed
    then have one: "1 = card ((!) (replicate ?n (0 :: nat)) ` set order)" by simp
    have "same_class order (replicate ?n 0) = set order \<times> set order"
      using o(6) by (auto simp: same_class_def)
    then have loop: "\<exists>c d k. refine_loop a ?bt tabs order (replicate ?n 0) 1 = Some (d, k) \<and>
        length d = ?n \<and> same_class order d = same_class order c \<and> Q (same_class order d) \<and>
        separates a order ?bt tabs c d"
      if "Q (set order \<times> set order)" "\<And>c d. Q (same_class order c) \<Longrightarrow>
        separates a order ?bt tabs c d \<Longrightarrow> Q (same_class order d)" for Q
      using refine_loop_spec [OF o(2,6) _ one, where Q = Q and bt = ?bt and tabs = tabs] that
      unfolding separates_def by simp
    obtain c d k where r: "refine_loop a ?bt tabs order (replicate ?n 0) 1 = Some (d, k)"
        "same_class order d = same_class order c" "separates a order ?bt tabs c d"
      using loop [of "\<lambda>_. True"] by blast
    have coarse: "Q (same_class order d)"
      if "Q (set order \<times> set order)" "\<forall>c d. Q (same_class order c) \<longrightarrow>
        separates a order ?bt tabs c d \<longrightarrow> Q (same_class order d)" for Q
      using loop [of Q] that r(1) by auto
    have q: "minimize_strategy a = Some (quotient a order d)"
      using False pos o(1) t r(1) by (auto simp: minimize_strategy_def Let_def)
    have tabs: "\<forall>s \<in> set order. list_all2 (table_of_edge ?bt (length (ha_aps a))) (ha_edges a ! s)
        (if ?bt then tabs ! s else map (\<lambda>_. []) (ha_edges a ! s))"
    proof (cases ?bt)
      case True
      then have "fill_tables a order ?none = Some tabs" using t by simp
      then have "\<forall>s \<in> set order. state_tables a s = Some (tabs ! s)"
        using fill_tables_spec o(2,6) by simp
      then show ?thesis using state_tables_edges [where bt = True] True by simp
    next
      case bt: False
      then show ?thesis using text_edges by simp
    qed
    have "stable_run a order ?bt tabs c d"
      unfolding stable_run_def using o(2-6) tabs r(2,3) coarse by blast
    then show ?thesis using q by blast
  qed
qed

lemma reachable_succs:
  assumes "aut_ok a" "(ha_initial a, s) \<in> (moves a)\<^sup>*" "t \<in> succs a v s"
  shows "(ha_initial a, t) \<in> (moves a)\<^sup>*" "s < ha_num_states a"
proof -
  obtain order where "set order = {s. (ha_initial a, s) \<in> (moves a)\<^sup>*}" "\<forall>s \<in> set order. s < ha_num_states a"
    using reachable_order_spec [OF assms(1)] by blast
  then show s: "s < ha_num_states a" using assms(2) by blast
  have "(s, t) \<in> moves a" using assms(3) s unfolding succs_def moves_def by blast
  with assms(2) show "(ha_initial a, t) \<in> (moves a)\<^sup>*" by (rule rtrancl.rtrancl_into_rtrancl)
qed

lemma stable_succs:
  assumes "stable_run a order bt tabs c d" "s \<in> set order" "t \<in> set order" "d ! s = d ! t"
    and ok: "aut_ok a"
  shows "(!) d ` succs a v s = (!) d ` succs a v t"
proof -
  let ?n = "length (ha_aps a)"
  have key: "state_key a bt tabs c s = state_key a bt tabs c t"
    using assms unfolding stable_run_def separates_def by blast
  have sat: "c ! x \<in> (!) c ` succs a v y \<longleftrightarrow> sig_sat bt ?n v (snd (state_key a bt tabs c y)) (c ! x)"
    if "y \<in> set order" for x y
  proof -
    have "list_all2 (table_of_edge bt ?n) (ha_edges a ! y) (if bt then tabs ! y else map (\<lambda>_. []) (ha_edges a ! y))"
      using assms(1) that unfolding stable_run_def by blast
    from sig_sat_image [OF this] show ?thesis by (simp add: state_key_def succs_def)
  qed
  have order: "set order = {s. (ha_initial a, s) \<in> (moves a)\<^sup>*}"
    using assms(1) unfolding stable_run_def by blast
  have in_order: "succs a v y \<subseteq> set order" if "y \<in> set order" for y
    using that reachable_succs(1) [OF ok] unfolding order by blast
  have cd: "c ! x = c ! y \<longleftrightarrow> d ! x = d ! y" if "x \<in> set order" "y \<in> set order" for x y
    using assms(1) that unfolding stable_run_def same_class_def by blast
  have "(!) d ` succs a v y \<subseteq> (!) d ` succs a v z"
    if "y \<in> set order" "z \<in> set order" "state_key a bt tabs c y = state_key a bt tabs c z" for y z
  proof
    fix k assume "k \<in> (!) d ` succs a v y"
    then obtain x where x: "k = d ! x" "x \<in> succs a v y" by blast
    have "c ! x \<in> (!) c ` succs a v z" using sat [OF that(1)] sat [OF that(2)] that(3) x(2) by auto
    then obtain w where w: "w \<in> succs a v z" "c ! x = c ! w" by blast
    then have "d ! x = d ! w" using cd in_order that(1,2) x(2) by blast
    then show "k \<in> (!) d ` succs a v z" using x(1) w(1) by blast
  qed
  then show ?thesis using assms(2,3) key by (intro equalityI) simp_all
qed

lemma stable_edges:
  assumes "stable_run a order bt tabs c d" "s \<in> set order" "t \<in> set order" "d ! s = d ! t"
    and ok: "aut_ok a"
  shows "(\<lambda>e. d ! he_dst e) ` set (ha_edges a ! s) = (\<lambda>e. d ! he_dst e) ` set (ha_edges a ! t)"
proof -
  have key: "state_key a bt tabs c s = state_key a bt tabs c t"
    using assms unfolding stable_run_def separates_def by blast
  have order: "set order = {s. (ha_initial a, s) \<in> (moves a)\<^sup>*}" and lt: "\<forall>s \<in> set order. s < ha_num_states a"
    using assms(1) unfolding stable_run_def by blast+
  have keys: "fst ` set (snd (state_key a bt tabs c y)) = (\<lambda>e. c ! he_dst e) ` set (ha_edges a ! y)"
    if "y \<in> set order" for y
  proof -
    have "list_all2 (table_of_edge bt (length (ha_aps a))) (ha_edges a ! y)
        (if bt then tabs ! y else map (\<lambda>_. []) (ha_edges a ! y))"
      using assms(1) that unfolding stable_run_def by blast
    from signature_of_spec [OF this, where sg = "[]" and cls = c] show ?thesis
      by (simp add: state_key_def sig_sorted_def)
  qed
  have dst: "he_dst e \<in> set order" if "y \<in> set order" "e \<in> set (ha_edges a ! y)" for y e
  proof -
    have "(y, he_dst e) \<in> moves a" using that lt unfolding moves_def by blast
    then show ?thesis using that(1) unfolding order by (auto intro: rtrancl.rtrancl_into_rtrancl)
  qed
  have cd: "c ! x = c ! y \<longleftrightarrow> d ! x = d ! y" if "x \<in> set order" "y \<in> set order" for x y
    using assms(1) that unfolding stable_run_def same_class_def by blast
  have "(\<lambda>e. d ! he_dst e) ` set (ha_edges a ! y) \<subseteq> (\<lambda>e. d ! he_dst e) ` set (ha_edges a ! z)"
    if yz: "y \<in> set order" "z \<in> set order"
      and eq: "(\<lambda>e. c ! he_dst e) ` set (ha_edges a ! y) = (\<lambda>e. c ! he_dst e) ` set (ha_edges a ! z)" for y z
  proof
    fix k assume "k \<in> (\<lambda>e. d ! he_dst e) ` set (ha_edges a ! y)"
    then obtain e where e: "e \<in> set (ha_edges a ! y)" "k = d ! he_dst e" by blast
    then obtain f where f: "f \<in> set (ha_edges a ! z)" "c ! he_dst e = c ! he_dst f" using eq by blast
    then have "d ! he_dst e = d ! he_dst f" using cd dst e(1) yz by blast
    then show "k \<in> (\<lambda>e. d ! he_dst e) ` set (ha_edges a ! z)" using e(2) f(1) by blast
  qed
  moreover have "(\<lambda>e. c ! he_dst e) ` set (ha_edges a ! s) = (\<lambda>e. c ! he_dst e) ` set (ha_edges a ! t)"
    using keys [OF assms(2)] keys [OF assms(3)] key by simp
  ultimately show ?thesis using assms(2,3) by (intro equalityI) simp_all
qed

lemma stable_quotient:
  assumes "aut_ok a" "stable_run a order bt tabs c d"
  shows "\<exists>h. quotient_map a (quotient a order d) h \<and> aut_ok (quotient a order d) \<and>
    ha_num_states (quotient a order d) \<le> ha_num_states a \<and> ha_aps (quotient a order d) = ha_aps a \<and>
    (\<forall>s \<in> set order. \<forall>t \<in> set order. h s = h t \<longleftrightarrow> d ! s = d ! t)"
proof -
  note run = assms(2) [unfolded stable_run_def]
  have "\<exists>h. quotient_map a (quotient a order d) h \<and> aut_ok (quotient a order d) \<and>
      ha_num_states (quotient a order d) \<le> ha_num_states a \<and>
      (\<forall>s \<in> set order. \<forall>t \<in> set order. h s = h t \<longleftrightarrow> d ! s = d ! t) \<and>
      h ` set order = {..<ha_num_states (quotient a order d)}"
  proof (rule quotient_is_map [OF assms(1)])
    show "(!) d ` succs a v s = (!) d ` succs a v t"
      if "s \<in> set order" "t \<in> set order" "d ! s = d ! t" for s t v
      by (rule stable_succs [OF assms(2) that assms(1)])
  qed (use run in blast)+
  moreover have "ha_aps (quotient a order d) = ha_aps a"
    by (simp add: quotient_def split: prod.split)
  ultimately show ?thesis by blast
qed

lemma minimize_map:
  assumes "aut_ok a"
  shows "\<exists>q h. minimize_strategy a = Some q \<and> aut_ok q \<and> ha_num_states q \<le> ha_num_states a \<and>
    ha_aps q = ha_aps a \<and> quotient_map a q h"
proof -
  consider "minimize_strategy a = Some a" |
    order bt tabs c d where "minimize_strategy a = Some (quotient a order d)" "stable_run a order bt tabs c d"
    using minimize_cases [OF assms] by blast
  then show ?thesis
  proof cases
    case 1
    have "quotient_map a a id"
      using reachable_order_spec [OF assms] unfolding quotient_map_def id_apply image_id by blast
    then show ?thesis using 1 assms by blast
  next
    case 2
    then show ?thesis using stable_quotient [OF assms] by blast
  qed
qed

section \<open>Bisimilar states\<close>

lemma signature_tables:
  assumes "list_all2 (table_of_edge True n) es ts" "\<forall>x \<in> snd ` set sg. snd x = {} \<and> (\<exists>f. is_table n (fst x) f)"
    and "sig_sorted sg"
  shows "\<forall>x \<in> snd ` set (signature_of True cls es ts sg). snd x = {} \<and> (\<exists>f. is_table n (fst x) f)"
  using assms
proof (induction es arbitrary: ts sg)
  case (Cons e es)
  obtain u us where u0: "ts = u # us" "table_of_edge True n e u" "list_all2 (table_of_edge True n) es us"
    using Cons.prems(1) by (auto simp: list_all2_Cons1)
  then have u: "ts = u # us" "guard_table (he_guard e) n = Some u" "list_all2 (table_of_edge True n) es us"
    by (simp_all only: table_of_edge_def)
  let ?f = "join_edge True (he_guard e) u" and ?c = "cls ! he_dst e"
  let ?sg = "sig_add ?c ?f sg" and ?full = "\<lambda>x. snd x = {} \<and> (\<exists>f. is_table n (fst x) f)"
  note add = sig_add_spec [OF Cons.prems(3), of ?c ?f]
  obtain g where g: "is_table n u g" using guard_table_Some(1) [OF u(2)] by blast
  have new: "?full (?f x)" if "?full x \<or> x = ([], {})" for x
    using that g and_or_table(2) [OF _ g] by (auto simp: join_edge_def)
  have full: "?full x" if "map_of sg k = Some x" for k x
    using that Cons.prems(2) by (force dest: map_of_SomeD)
  have old: "?full (case map_of sg ?c of Some x \<Rightarrow> x | None \<Rightarrow> ([], {})) \<or>
      (case map_of sg ?c of Some x \<Rightarrow> x | None \<Rightarrow> ([], {})) = ([], {})"
    using full by (cases "map_of sg ?c") auto
  have each: "?full x" if "(k, x) \<in> set ?sg" for k x
  proof -
    have "distinct (map fst ?sg)" by (metis add sig_sorted_def strict_sorted_iff)
    then have x: "map_of ?sg k = Some x" using that by simp
    show ?thesis
    proof (cases "k = ?c")
      case True
      then show ?thesis using x add [of k] new [OF old] by simp
    next
      case False
      then show ?thesis using x add [of k] full by simp
    qed
  qed
  have all: "?full (snd p)" if "p \<in> set ?sg" for p
  proof -
    have "(fst p, snd p) \<in> set ?sg" using that by (simp only: prod.collapse)
    then show ?thesis by (rule each)
  qed
  have step: "\<forall>x \<in> snd ` set ?sg. ?full x"
  proof
    fix x assume "x \<in> snd ` set ?sg"
    then obtain p where p: "x = snd p" "p \<in> set ?sg" by (rule imageE)
    show "?full x" unfolding p(1) by (rule all [OF p(2)])
  qed
  have eq: "signature_of True cls (e # es) ts sg = signature_of True cls es us ?sg" using u(1) by simp
  show ?case unfolding eq by (rule Cons.IH [OF u(3) step conjunct1 [OF add]])
qed simp

lemma sorted_signature_eq:
  assumes "sig_sorted sg" "sig_sorted sg'" "set sg = set sg'"
  shows "sg = sg'"
proof -
  have sd: "sorted (map fst sg)" "distinct (map fst sg)" "sorted (map fst sg')" "distinct (map fst sg')"
    using assms(1,2) by (metis sig_sorted_def strict_sorted_iff)+
  have "inj_on fst (set sg \<union> set sg')" using sd(2) assms(3) by (simp add: distinct_map)
  then show ?thesis using sd assms(3) by (rule map_sorted_distinct_set_unique)
qed

lemma code_of_bit: "u < 2 ^ n \<Longrightarrow> code_of n (bit u) = u"
proof -
  assume "u < 2 ^ n"
  then have "take_bit n u = u" by (simp add: take_bit_nat_eq_self)
  moreover have "code_of n (bit u) = take_bit n u"
    by (rule bit_eqI) (auto simp: code_of_def bit_horner_sum_bit_iff bit_take_bit_iff)
  ultimately show ?thesis by simp
qed

lemma tables_equal:
  assumes "snd x = {}" "is_table n (fst x) f" "snd y = {}" "is_table n (fst y) g"
    and "\<And>v. hits True n v x = hits True n v y"
  shows "x = y"
proof -
  have "f u = g u" if "u < 2 ^ n" for u
  proof -
    have "tbit (fst x) u = tbit (fst y) u"
      using assms(5) [of "bit u"] is_table_nonempty [OF assms(2)] is_table_nonempty [OF assms(4)]
      by (simp add: hits_def code_of_bit [OF that])
    then show ?thesis using is_table_tbit [OF assms(2) that] is_table_tbit [OF assms(4) that] by simp
  qed
  then have "fst x = fst y" by (rule is_table_unique [OF assms(2,4)])
  then show ?thesis using assms(1,3) by (simp add: prod_eq_iff)
qed

text \<open>
  Bisimulations: of the runs, where a step needs a valuation that satisfies its guard, and of the
  edges, where the target of every edge is matched as well, whether a valuation satisfies its
  guard or not. The signatures of the code compute the second.
\<close>

definition run_bisimulation :: "hoa_automaton \<Rightarrow> (nat \<times> nat) set \<Rightarrow> bool" where
  "run_bisimulation a R \<longleftrightarrow> sym R \<and>
     (\<forall>s t v x. (s, t) \<in> R \<longrightarrow> x \<in> succs a v s \<longrightarrow> (\<exists>y. y \<in> succs a v t \<and> (x, y) \<in> R))"

definition bisimulation :: "hoa_automaton \<Rightarrow> (nat \<times> nat) set \<Rightarrow> bool" where
  "bisimulation a R \<longleftrightarrow> run_bisimulation a R \<and>
     (\<forall>s t e. (s, t) \<in> R \<longrightarrow> e \<in> set (ha_edges a ! s) \<longrightarrow>
       (\<exists>f \<in> set (ha_edges a ! t). (he_dst e, he_dst f) \<in> R))"

lemma bisimulation_succs:
  "bisimulation a R \<Longrightarrow> (s, t) \<in> R \<Longrightarrow> x \<in> succs a v s \<Longrightarrow> \<exists>y. y \<in> succs a v t \<and> (x, y) \<in> R"
  unfolding bisimulation_def run_bisimulation_def by blast

lemma bisimulation_edge:
  "bisimulation a R \<Longrightarrow> (s, t) \<in> R \<Longrightarrow> e \<in> set (ha_edges a ! s) \<Longrightarrow>
    \<exists>f \<in> set (ha_edges a ! t). (he_dst e, he_dst f) \<in> R"
  unfolding bisimulation_def by blast

lemma bisimulation_sym: "bisimulation a R \<Longrightarrow> (s, t) \<in> R \<Longrightarrow> (t, s) \<in> R"
  unfolding bisimulation_def run_bisimulation_def sym_def by blast

text \<open>Between reachable states only satisfied guards matter when every guard holds somewhere.\<close>

lemma run_bisimulation_edges:
  assumes "run_bisimulation a R"
    and "\<And>s t e. (s, t) \<in> R \<Longrightarrow> e \<in> set (ha_edges a ! s) \<Longrightarrow> \<exists>v. guard_holds v (he_guard e)"
  shows "bisimulation a R"
proof -
  have "\<exists>f \<in> set (ha_edges a ! t). (he_dst e, he_dst f) \<in> R" if st: "(s, t) \<in> R" "e \<in> set (ha_edges a ! s)" for s t e
  proof -
    obtain v where "guard_holds v (he_guard e)" using assms(2) [OF st] by blast
    then have "he_dst e \<in> succs a v s" using st(2) unfolding succs_def by blast
    then obtain y where "y \<in> succs a v t" "(he_dst e, y) \<in> R"
      using assms(1) st(1) unfolding run_bisimulation_def by blast
    then show ?thesis unfolding succs_def by blast
  qed
  then show ?thesis using assms(1) unfolding bisimulation_def by blast
qed

text \<open>Bisimilar states in one class keep the same key.\<close>

lemma bisimilar_signature:
  fixes a :: hoa_automaton
  defines "n \<equiv> length (ha_aps a)"
  assumes ts: "list_all2 (table_of_edge True n) (ha_edges a ! s) (tabs ! s)"
      "list_all2 (table_of_edge True n) (ha_edges a ! t) (tabs ! t)"
    and same: "\<And>v. (!) c ` succs a v s = (!) c ` succs a v t"
    and dsts: "(\<lambda>e. c ! he_dst e) ` set (ha_edges a ! s) = (\<lambda>e. c ! he_dst e) ` set (ha_edges a ! t)"
  shows "signature_of True c (ha_edges a ! s) (tabs ! s) [] = signature_of True c (ha_edges a ! t) (tabs ! t) []"
proof -
  define sg where "sg = (\<lambda>s. signature_of True c (ha_edges a ! s) (tabs ! s) [])"
  have tab: "list_all2 (table_of_edge True n) (ha_edges a ! y) (tabs ! y)" if "y = s \<or> y = t" for y
    using that ts by blast
  have spec: "sig_sorted (sg y)" "\<And>v k. sig_sat True n v (sg y) k \<longleftrightarrow> k \<in> (!) c ` succs a v y"
      "fst ` set (sg y) = (\<lambda>e. c ! he_dst e) ` set (ha_edges a ! y)"
      "\<forall>x \<in> snd ` set (sg y). snd x = {} \<and> (\<exists>f. is_table n (fst x) f)" if "y = s \<or> y = t" for y
    using signature_of_spec [where bt = True and sg = "[]" and ts = "tabs ! y"] tab [OF that]
      sig_sat_image [where bt = True and ts = "tabs ! y"] signature_tables [OF tab [OF that], of "[]"]
    by (simp_all add: sg_def sig_sorted_def succs_def)
  have eqk: "fst ` set (sg s) = fst ` set (sg t)" using spec(3) dsts by simp
  have sub: "set (sg y) \<subseteq> set (sg z)" if yz: "y = s \<and> z = t \<or> y = t \<and> z = s" for y z
  proof
    fix p assume p: "p \<in> set (sg y)"
    obtain k x where kx: "p = (k, x)" by (rule prod.exhaust)
    have y: "y = s \<or> y = t" and z: "z = s \<or> z = t" using yz by blast+
    have "k \<in> fst ` set (sg y)" using p kx by force
    then have "k \<in> fst ` set (sg z)" using eqk yz by auto
    then obtain x' where x': "(k, x') \<in> set (sg z)" by auto
    have dist: "distinct (map fst (sg y))" "distinct (map fst (sg z))"
      using spec(1) y z by (metis sig_sorted_def strict_sorted_iff)+
    have m: "map_of (sg y) k = Some x" "map_of (sg z) k = Some x'" using dist p kx x' by simp_all
    have "hits True n v x = hits True n v x'" for v
      using spec(2) [OF y, of v k] spec(2) [OF z, of v k] m same yz by (auto simp: sig_sat_def)
    moreover obtain f where "snd x = {}" "is_table n (fst x) f" using spec(4) [OF y] p kx by force
    moreover obtain g where "snd x' = {}" "is_table n (fst x') g" using spec(4) [OF z] x' by force
    ultimately have "x = x'" by (intro tables_equal)
    then show "p \<in> set (sg z)" using kx x' by simp
  qed
  have "sg s = sg t"
    using sub [of s t] sub [of t s] spec(1) by (intro sorted_signature_eq) auto
  then show ?thesis by (simp add: sg_def)
qed

text \<open>A round of the refinement keeps the states together that a bisimulation relates.\<close>

lemma bisimulation_stays:
  assumes "aut_ok a" and order: "set order = {s. (ha_initial a, s) \<in> (moves a)\<^sup>*}"
    and R: "bisimulation a R"
    and tabs: "\<And>s. s \<in> set order \<Longrightarrow> list_all2 (table_of_edge True (length (ha_aps a))) (ha_edges a ! s) (tabs ! s)"
    and c: "R \<inter> set order \<times> set order \<subseteq> same_class order c" and sep: "separates a order True tabs c e"
  shows "R \<inter> set order \<times> set order \<subseteq> same_class order e"
proof
  fix p assume p: "p \<in> R \<inter> set order \<times> set order"
  obtain s t where st: "p = (s, t)" by (rule prod.exhaust)
  have s: "s \<in> set order" "t \<in> set order" "(s, t) \<in> R" using p st by blast+
  have lt: "y < ha_num_states a" if "y \<in> set order" for y
    using reachable_order_spec [OF assms(1)] that unfolding order by blast
  have dst: "he_dst f \<in> set order" if "y \<in> set order" "f \<in> set (ha_edges a ! y)" for y f
  proof -
    have "(y, he_dst f) \<in> moves a" using that lt unfolding moves_def by blast
    then show ?thesis using that(1) unfolding order by (auto intro: rtrancl.rtrancl_into_rtrancl)
  qed
  have same: "c ! x = c ! w" if "(x, w) \<in> R" "x \<in> set order" "w \<in> set order" for x w
    using c that unfolding same_class_def by blast
  have sub: "(!) c ` succs a v y \<subseteq> (!) c ` succs a v z \<and>
      (\<lambda>e. c ! he_dst e) ` set (ha_edges a ! y) \<subseteq> (\<lambda>e. c ! he_dst e) ` set (ha_edges a ! z)"
    if yz: "(y, z) \<in> R" "y \<in> set order" "z \<in> set order" for y z v
  proof (intro conjI subsetI)
    fix k assume "k \<in> (!) c ` succs a v y"
    then obtain x where x: "x \<in> succs a v y" "k = c ! x" by blast
    obtain w where w: "w \<in> succs a v z" "(x, w) \<in> R" using bisimulation_succs [OF R yz(1) x(1)] by blast
    have "x \<in> set order" "w \<in> set order"
      using reachable_succs(1) [OF assms(1)] yz(2,3) x(1) w(1) unfolding order by blast+
    then show "k \<in> (!) c ` succs a v z" using x(2) w same by blast
  next
    fix k assume "k \<in> (\<lambda>e. c ! he_dst e) ` set (ha_edges a ! y)"
    then obtain f where f: "f \<in> set (ha_edges a ! y)" "k = c ! he_dst f" by blast
    obtain g where g: "g \<in> set (ha_edges a ! z)" "(he_dst f, he_dst g) \<in> R"
      using bisimulation_edge [OF R yz(1) f(1)] by blast
    have "c ! he_dst f = c ! he_dst g" using same [OF g(2)] dst f(1) g(1) yz(2,3) by blast
    then show "k \<in> (\<lambda>e. c ! he_dst e) ` set (ha_edges a ! z)" using f(2) g(1) by blast
  qed
  have ts: "(t, s) \<in> R" by (rule bisimulation_sym [OF R s(3)])
  note there = sub [OF s(3,1,2)] and return = sub [OF ts s(2,1)]
  have "(!) c ` succs a v s = (!) c ` succs a v t" for v
    by (rule equalityI [OF conjunct1 [OF there] conjunct1 [OF return]])
  moreover have "(\<lambda>e. c ! he_dst e) ` set (ha_edges a ! s) = (\<lambda>e. c ! he_dst e) ` set (ha_edges a ! t)"
    by (rule equalityI [OF conjunct2 [OF there] conjunct2 [OF return]])
  ultimately have "signature_of True c (ha_edges a ! s) (tabs ! s) [] = signature_of True c (ha_edges a ! t) (tabs ! t) []"
    by (rule bisimilar_signature [OF tabs [OF s(1)] tabs [OF s(2)]])
  moreover have "c ! s = c ! t" using same [OF s(3,1,2)] .
  ultimately have "state_key a True tabs c s = state_key a True tabs c t" by (simp add: state_key_def)
  then have "e ! s = e ! t" using sep s unfolding separates_def by blast
  then show "p \<in> same_class order e" using st s unfolding same_class_def by blast
qed

text \<open>The classes the refinement ends with are a bisimulation.\<close>

lemma stable_bisimulation:
  assumes "stable_run a order bt tabs c d" and ok: "aut_ok a"
  shows "bisimulation a (same_class order d)"
proof -
  have order: "set order = {s. (ha_initial a, s) \<in> (moves a)\<^sup>*}" and lt: "\<forall>s \<in> set order. s < ha_num_states a"
    using assms(1) unfolding stable_run_def by blast+
  have "\<exists>y. y \<in> succs a v t \<and> (x, y) \<in> same_class order d"
    if st: "(s, t) \<in> same_class order d" "x \<in> succs a v s" for s t v x
  proof -
    have s: "s \<in> set order" "t \<in> set order" "d ! s = d ! t" using st(1) unfolding same_class_def by blast+
    obtain y where y: "y \<in> succs a v t" "d ! x = d ! y"
      using stable_succs [OF assms(1) s ok, of v] st(2) by blast
    then show ?thesis using reachable_succs(1) [OF ok] st(2) s(1,2) unfolding same_class_def order by blast
  qed
  moreover have "\<exists>f \<in> set (ha_edges a ! t). (he_dst e, he_dst f) \<in> same_class order d"
    if st: "(s, t) \<in> same_class order d" "e \<in> set (ha_edges a ! s)" for s t e
  proof -
    have s: "s \<in> set order" "t \<in> set order" "d ! s = d ! t" using st(1) unfolding same_class_def by blast+
    obtain f where f: "f \<in> set (ha_edges a ! t)" "d ! he_dst e = d ! he_dst f"
      using stable_edges [OF assms(1) s ok] st(2) by blast
    have "he_dst g \<in> set order" if "y \<in> set order" "g \<in> set (ha_edges a ! y)" for y g
    proof -
      have "(y, he_dst g) \<in> moves a" using that lt unfolding moves_def by blast
      then show ?thesis using that(1) unfolding order by (auto intro: rtrancl.rtrancl_into_rtrancl)
    qed
    then show ?thesis using f s(1,2) st(2) unfolding same_class_def by blast
  qed
  moreover have "sym (same_class order d)" unfolding sym_def same_class_def by auto
  ultimately show ?thesis unfolding bisimulation_def run_bisimulation_def by blast
qed

section \<open>Properties\<close>

text \<open>An infinite sequence of valuations an automaton has a run over.\<close>

definition plays :: "hoa_automaton \<Rightarrow> (nat \<Rightarrow> nat \<Rightarrow> bool) \<Rightarrow> bool" where
  "plays a w \<longleftrightarrow> (\<exists>r. r 0 = ha_initial a \<and> (\<forall>i. r (Suc i) \<in> succs a (w i) (r i)))"

lemma quotient_plays:
  assumes "aut_ok a" "quotient_map a q h"
  shows "plays q w \<longleftrightarrow> plays a w"
proof
  note reach = reachable_succs(1) [OF assms(1)]
  {
    assume "plays a w"
    then obtain r where r: "r 0 = ha_initial a" "\<And>i. r (Suc i) \<in> succs a (w i) (r i)" by (auto simp: plays_def)
    have in_reach: "(ha_initial a, r i) \<in> (moves a)\<^sup>*" for i
    proof (induction i)
      case 0
      show ?case unfolding r(1) by (rule rtrancl.rtrancl_refl)
    next
      case (Suc i)
      show ?case by (rule reach [OF Suc r(2)])
    qed
    have "h (r (Suc i)) \<in> succs q (w i) (h (r i))" for i
    proof -
      have "succs q (w i) (h (r i)) = h ` succs a (w i) (r i)"
        using assms(2) in_reach [of i] unfolding quotient_map_def by blast
      then show ?thesis using r(2) [of i] by simp
    qed
    moreover have "h (r 0) = ha_initial q" using assms(2) r(1) by (simp add: quotient_map_def)
    ultimately show "plays q w" unfolding plays_def by (intro exI [of _ "\<lambda>i. h (r i)"]) simp
  next
    assume "plays q w"
    then obtain r where r: "r 0 = ha_initial q" "\<And>i. r (Suc i) \<in> succs q (w i) (r i)" by (auto simp: plays_def)
    let ?P = "\<lambda>i s. (ha_initial a, s) \<in> (moves a)\<^sup>* \<and> h s = r i"
    have "\<exists>t. ?P (Suc i) t \<and> t \<in> succs a (w i) s" if "?P i s" for i s
    proof -
      have "succs q (w i) (h s) = h ` succs a (w i) s"
        using assms(2) that unfolding quotient_map_def by blast
      moreover have "r (Suc i) \<in> succs q (w i) (h s)" using that r(2) [of i] by metis
      ultimately obtain t where t: "t \<in> succs a (w i) s" "r (Suc i) = h t" by blast
      then have "(ha_initial a, t) \<in> (moves a)\<^sup>*" using that reach by blast
      then show ?thesis using t by (intro exI [of _ t]) simp
    qed
    moreover have "?P 0 (ha_initial a)" using assms(2) r(1) by (simp add: quotient_map_def)
    ultimately have "\<exists>f. \<forall>i. (?P i (f i) \<and> (i = 0 \<longrightarrow> f i = ha_initial a)) \<and> f (Suc i) \<in> succs a (w i) (f i)"
      by (intro dependent_nat_choice) auto
    then show "plays a w" unfolding plays_def by blast
  }
qed

text \<open>
  C19: minimising a strategy ends, and the result is a well-formed automaton over the same
  propositions with no more states that plays exactly the infinite sequences of valuations the
  strategy plays.
\<close>

theorem minimize_same_runs:
  assumes "aut_ok a"
  shows "\<exists>q. minimize_strategy a = Some q \<and> aut_ok q \<and> ha_num_states q \<le> ha_num_states a \<and>
    ha_aps q = ha_aps a \<and> (\<forall>w. plays q w \<longleftrightarrow> plays a w)"
  using minimize_map [OF assms] quotient_plays [OF assms] by metis

definition flip_flop :: hoa_automaton where
  "flip_flop = \<lparr>ha_num_states = 2, ha_initial = 0, ha_aps = [''p''],
     ha_edges = [[\<lparr>he_guard = ''0'', he_dst = 1, he_accepting = False\<rparr>],
       [\<lparr>he_guard = ''0 & 0'', he_dst = 0, he_accepting = False\<rparr>]],
     ha_state_accepting = [False, False]\<rparr>"

theorem minimize_same_runs_witness:
  "minimize_strategy flip_flop = Some \<lparr>ha_num_states = 1, ha_initial = 0, ha_aps = [''p''],
     ha_edges = [[\<lparr>he_guard = ''0'', he_dst = 0, he_accepting = False\<rparr>]], ha_state_accepting = [False]\<rparr> \<and>
   (\<exists>q. minimize_strategy flip_flop = Some q \<and> (\<forall>w. plays q w \<longleftrightarrow> plays flip_flop w))"
proof -
  have "aut_ok flip_flop" by (auto simp: aut_ok_def flip_flop_def less_Suc_eq numeral_2_eq_2)
  from minimize_same_runs [OF this]
  have "\<exists>q. minimize_strategy flip_flop = Some q \<and> (\<forall>w. plays q w \<longleftrightarrow> plays flip_flop w)" by blast
  moreover have "minimize_strategy flip_flop = Some \<lparr>ha_num_states = 1, ha_initial = 0, ha_aps = [''p''],
     ha_edges = [[\<lparr>he_guard = ''0'', he_dst = 0, he_accepting = False\<rparr>]], ha_state_accepting = [False]\<rparr>"
    by code_simp
  ultimately show ?thesis by blast
qed

text \<open>
  C20: with at most 16 propositions, no acceptance marks and readable guards on the reachable
  states, the minimised strategy is the quotient by the coarsest bisimulation of the edges: two
  reachable states become one exactly when some bisimulation relates them, where a bisimulation
  matches the runs and the target of every edge, one with an unsatisfiable guard included.
\<close>

theorem minimize_coarsest:
  assumes "aut_ok a" "\<not> has_marks a" "length (ha_aps a) \<le> truth_table_max_aps"
    and guards: "\<And>s e. (ha_initial a, s) \<in> (moves a)\<^sup>* \<Longrightarrow> e \<in> set (ha_edges a ! s) \<Longrightarrow>
      guard_table (he_guard e) (length (ha_aps a)) \<noteq> None"
  shows "\<exists>q h. minimize_strategy a = Some q \<and> quotient_map a q h \<and>
    (\<forall>s t. (ha_initial a, s) \<in> (moves a)\<^sup>* \<longrightarrow> (ha_initial a, t) \<in> (moves a)\<^sup>* \<longrightarrow>
      (h s = h t \<longleftrightarrow> (\<exists>R. bisimulation a R \<and> (s, t) \<in> R)))"
proof -
  have "state_tables a s \<noteq> None" if "(ha_initial a, s) \<in> (moves a)\<^sup>*" for s
  proof -
    have "those (map (\<lambda>e. guard_table (he_guard e) (length (ha_aps a))) es) \<noteq> None"
      if "\<forall>e \<in> set es. guard_table (he_guard e) (length (ha_aps a)) \<noteq> None" for es
      using that by (induction es) auto
    then show ?thesis using guards [OF that] unfolding state_tables_def by blast
  qed
  then obtain order bt tabs c0 d where q: "minimize_strategy a = Some (quotient a order d)"
      and run: "stable_run a order bt tabs c0 d"
    using minimize_cases [OF assms(1)] assms(2) by blast
  note facts = run [unfolded stable_run_def]
  have bt: "bt = True" and order: "set order = {s. (ha_initial a, s) \<in> (moves a)\<^sup>*}"
    using facts assms(3) by blast+
  have tabs: "list_all2 (table_of_edge True (length (ha_aps a))) (ha_edges a ! s) (tabs ! s)"
    if "s \<in> set order" for s
  proof -
    have "list_all2 (table_of_edge bt (length (ha_aps a))) (ha_edges a ! s)
        (if bt then tabs ! s else map (\<lambda>_. []) (ha_edges a ! s))" using facts that by blast
    then show ?thesis using bt by simp
  qed
  have join: "d ! s = d ! t" if "bisimulation a R" "(s, t) \<in> R" "s \<in> set order" "t \<in> set order" for R s t
  proof -
    have "\<forall>Q. Q (set order \<times> set order) \<longrightarrow>
       (\<forall>c d. Q (same_class order c) \<longrightarrow> separates a order bt tabs c d \<longrightarrow> Q (same_class order d)) \<longrightarrow>
       Q (same_class order d)" using facts by blast
    from this [rule_format, of "\<lambda>P. R \<inter> set order \<times> set order \<subseteq> P"]
    have "R \<inter> set order \<times> set order \<subseteq> same_class order d"
      using bisimulation_stays [OF assms(1) order that(1) tabs] bt by blast
    then show ?thesis using that unfolding same_class_def by blast
  qed
  obtain h where h: "quotient_map a (quotient a order d) h"
      "\<forall>s \<in> set order. \<forall>t \<in> set order. h s = h t \<longleftrightarrow> d ! s = d ! t"
    using stable_quotient [OF assms(1) run] by blast
  have "bisimulation a (same_class order d)" by (rule stable_bisimulation [OF run assms(1)])
  then have "h s = h t \<longleftrightarrow> (\<exists>R. bisimulation a R \<and> (s, t) \<in> R)" if "s \<in> set order" "t \<in> set order" for s t
    using that join h(2) unfolding same_class_def by blast
  then show ?thesis using q h(1) unfolding order by blast
qed

theorem minimize_coarsest_witness:
  "\<exists>q h. minimize_strategy flip_flop = Some q \<and> quotient_map flip_flop q h \<and> h 0 = h (1 :: nat)"
proof -
  have ok: "aut_ok flip_flop" by (auto simp: aut_ok_def flip_flop_def less_Suc_eq numeral_2_eq_2)
  have unmarked: "\<not> has_marks flip_flop" by code_simp
  have few: "length (ha_aps flip_flop) \<le> truth_table_max_aps" by code_simp
  have read: "read_label ''0'' = Some [node_of Ap 0 0 0]"
      "read_label ''0 & 0'' = Some [node_of Ap 0 0 0, node_of Ap 0 0 0, node_of Conj 0 0 1]" by code_simp+
  have sem: "guard_holds v ''0'' = v 0" "guard_holds v ''0 & 0'' = v 0" for v
    by (simp_all add: guard_holds_def read eval_label_def label_fold_def fold_nodes_def eval_node_def node_of_def)
  have tab: "guard_table ''0'' 1 \<noteq> None" "guard_table ''0 & 0'' 1 \<noteq> None" by code_simp+
  have reach: "s \<in> {0, 1}" if "(ha_initial flip_flop, s) \<in> (moves flip_flop)\<^sup>*" for s
    using that
  proof induction
    case base
    then show ?case by (simp add: flip_flop_def)
  next
    case (step y z)
    then show ?case by (auto simp: moves_def flip_flop_def)
  qed
  have one: "(ha_initial flip_flop, 1) \<in> (moves flip_flop)\<^sup>*"
    by (rule r_into_rtrancl) (auto simp: moves_def flip_flop_def)
  have succ: "succs flip_flop v 0 = (if v 0 then {1} else {})" "succs flip_flop v (Suc 0) = (if v 0 then {0} else {})" for v
    by (auto simp: succs_def flip_flop_def sem)
  have "run_bisimulation flip_flop ({0, 1} \<times> {0, 1})"
    unfolding run_bisimulation_def
  proof (intro conjI allI impI)
    show "sym ({0, 1} \<times> {0, 1 :: nat})" by (rule symI) blast
    fix s t x :: nat and v :: "nat \<Rightarrow> bool"
    assume "(s, t) \<in> {0, 1} \<times> {0, 1}" "x \<in> succs flip_flop v s"
    then have "v 0" "x \<in> {0, 1}" by (auto simp: succ split: if_splits)
    moreover have "\<exists>y. y \<in> succs flip_flop v t"
      using \<open>v 0\<close> \<open>(s, t) \<in> _\<close> by (auto simp: succ)
    ultimately show "\<exists>y. y \<in> succs flip_flop v t \<and> (x, y) \<in> {0, 1} \<times> {0, 1}"
      using \<open>(s, t) \<in> _\<close> by (auto simp: succ)
  qed
  then have R: "bisimulation flip_flop ({0, 1} \<times> {0, 1})"
    by (rule run_bisimulation_edges) (auto simp: flip_flop_def sem)
  have guards: "guard_table (he_guard e) (length (ha_aps flip_flop)) \<noteq> None"
    if "(ha_initial flip_flop, s) \<in> (moves flip_flop)\<^sup>*" "e \<in> set (ha_edges flip_flop ! s)" for s e
    using reach [OF that(1)] that(2) tab by (auto simp: flip_flop_def)
  have "(ha_initial flip_flop, 0) \<in> (moves flip_flop)\<^sup>*" by (simp add: flip_flop_def)
  moreover have "(0, 1) \<in> {0, 1} \<times> {0, 1 :: nat}" by simp
  moreover have "\<exists>q h. minimize_strategy flip_flop = Some q \<and> quotient_map flip_flop q h \<and>
      (\<forall>s t. (ha_initial flip_flop, s) \<in> (moves flip_flop)\<^sup>* \<longrightarrow>
        (ha_initial flip_flop, t) \<in> (moves flip_flop)\<^sup>* \<longrightarrow>
        (h s = h t \<longleftrightarrow> (\<exists>R. bisimulation flip_flop R \<and> (s, t) \<in> R)))"
    by (rule minimize_coarsest [OF ok unmarked few]) (rule guards)
  ultimately show ?thesis using R one by blast
qed

text \<open>
  The coarsest bisimulation of the runs can be coarser: two states that no run tells apart stay
  two when an edge that no valuation takes leads from one of them elsewhere.
\<close>

definition stray :: hoa_automaton where
  "stray = \<lparr>ha_num_states = 3, ha_initial = 0, ha_aps = [''p''],
     ha_edges = [[\<lparr>he_guard = ''t'', he_dst = 1, he_accepting = False\<rparr>],
       [\<lparr>he_guard = ''t'', he_dst = 0, he_accepting = False\<rparr>, \<lparr>he_guard = ''f'', he_dst = 2, he_accepting = False\<rparr>],
       []], ha_state_accepting = [False, False, False]\<rparr>"

theorem stray_edge_separates:
  "minimize_strategy stray = Some stray \<and> run_bisimulation stray ({0, 1} \<times> {0, 1}) \<and>
   (ha_initial stray, 1) \<in> (moves stray)\<^sup>*"
proof -
  have read: "read_label ''t'' = Some [node_of Tt 0 0 0]" "read_label ''f'' = Some [node_of Ff 0 0 0]"
    by code_simp+
  have sem: "guard_holds v ''t''" "\<not> guard_holds v ''f''" for v
    by (simp_all add: guard_holds_def read eval_label_def label_fold_def fold_nodes_def eval_node_def node_of_def)
  have "{he_dst e |e. e \<in> set es \<and> guard_holds v (he_guard e)} = he_dst ` set (filter (\<lambda>e. guard_holds v (he_guard e)) es)"
    for es v by auto
  then have succ: "succs stray v y = he_dst ` set (filter (\<lambda>e. guard_holds v (he_guard e)) (ha_edges stray ! y))" for v y
    unfolding succs_def by blast
  have "succs stray v 0 = {1}" "succs stray v (Suc 0) = {0}" for v
    unfolding succ by (simp_all add: stray_def sem)
  then have "run_bisimulation stray ({0, 1} \<times> {0, 1})"
    unfolding run_bisimulation_def sym_def by auto
  moreover have "minimize_strategy stray = Some stray" by code_simp
  moreover have "(ha_initial stray, 1) \<in> (moves stray)\<^sup>*"
    by (rule r_into_rtrancl) (auto simp: moves_def stray_def)
  ultimately show ?thesis by blast
qed

end
