(* ===== verification/Strategy_Text.thy ===== *)
theory Strategy_Text imports Strategy_Bisim begin

text \<open>
  Reading and writing strategies: \<^verbatim>\<open>parse_hoa\<close> with its one-entry memo, \<^verbatim>\<open>minimized_strategy\<close> and
  \<^verbatim>\<open>bound_strategy\<close> of \<^verbatim>\<open>src/ltl_aba_synthesis.tmpl.h\<close>, which rewrite the strategy text and prime
  the memo with the minimised automaton. The thread-local memo and the text are state passed.
\<close>

section \<open>Definitions\<close>

definition add_state :: "scan_state \<Rightarrow> hoa_automaton \<Rightarrow> hoa_automaton" where
  "add_state s a =
     (let a = (if marked (ss_acc s)
          then a\<lparr>ha_state_accepting := (ha_state_accepting a)[ss_n s := True]\<rparr> else a);
        new = map (\<lambda>e. \<lparr>he_guard = se_guard e, he_dst = se_dst e, he_accepting = marked (se_acc e)\<rparr>) (ss_edges s)
      in a\<lparr>ha_edges := (ha_edges a)[ss_n s := ha_edges a ! ss_n s @ new]\<rparr>)"

definition propagate :: "hoa_automaton \<Rightarrow> hoa_automaton" where
  "propagate a = a\<lparr>ha_edges := map (map (\<lambda>e.
     if ha_state_accepting a ! he_dst e then e\<lparr>he_accepting := True\<rparr> else e)) (ha_edges a)\<rparr>"

definition build_strategy :: "automaton \<Rightarrow> hoa_automaton" where
  "build_strategy sc = propagate (fold add_state (au_states sc)
     \<lparr>ha_num_states = au_num_states sc, ha_initial = au_start sc, ha_aps = au_aps sc,
       ha_edges = replicate (au_num_states sc) [],
       ha_state_accepting = replicate (au_num_states sc) False\<rparr>)"

definition parse_fresh :: "nat \<Rightarrow> string \<Rightarrow> hoa_automaton result" where
  "parse_fresh hoa_cap s = rbind (scan hoa_cap s ''the HOA strategy'') (\<lambda>sc. Inr (build_strategy sc))"

record hoa_parse_memo =
  hm_text :: string
  hm_cap :: nat
  hm_aut :: hoa_automaton

definition parse_hoa ::
  "nat \<Rightarrow> string \<Rightarrow> hoa_parse_memo option \<Rightarrow> hoa_automaton result \<times> hoa_parse_memo option" where
  "parse_hoa hoa_cap s memo =
     (if (case memo of Some m \<Rightarrow> hm_cap m = hoa_cap \<and> hm_text m = s | None \<Rightarrow> False)
      then (Inr (hm_aut (the memo)), memo)
      else case parse_fresh hoa_cap s of
        Inl e \<Rightarrow> (Inl e, memo)
      | Inr a \<Rightarrow> (Inr a, Some \<lparr>hm_text = s, hm_cap = hoa_cap, hm_aut = a\<rparr>))"

text \<open>The parameters read: \<open>ltl-minimize-strategy\<close> and the cap on the states of a text.\<close>

definition minimized_strategy ::
  "bool \<Rightarrow> nat \<Rightarrow> string \<Rightarrow> hoa_parse_memo option \<Rightarrow> (nat option \<times> string \<times> hoa_parse_memo option) option" where
  "minimized_strategy mini hoa_cap hoa memo =
     (case parse_hoa hoa_cap hoa memo of
        (Inl e, memo) \<Rightarrow> Some (None, hoa, memo)
      | (Inr a, memo) \<Rightarrow>
          if \<not> mini then Some (Some (ha_num_states a), hoa, memo)
          else Option.bind (minimize_strategy a) (\<lambda>q.
            if ha_num_states q < ha_num_states a then
              (case hoa_text_of q hoa of
                 Some t \<Rightarrow> Some (Some (ha_num_states q), t,
                   Some \<lparr>hm_text = t, hm_cap = hoa_cap, hm_aut = q\<rparr>)
               | None \<Rightarrow> Some (Some (ha_num_states q), hoa, memo))
            else Some (Some (ha_num_states q), hoa, memo)))"

text \<open>
  \<^verbatim>\<open>bound_strategy\<close>: \<open>again\<close> is the answer of ltlsynt asked with \<open>--simplify=bwoa-sat\<close>, \<open>has_sat\<close>
  whether the simplification asked for already names \<open>sat\<close>.
\<close>

definition bound_strategy ::
  "bool \<Rightarrow> nat \<Rightarrow> nat \<Rightarrow> bool \<Rightarrow> (bool \<times> string) result \<Rightarrow> string \<Rightarrow> hoa_parse_memo option \<Rightarrow>
    (unit result \<times> string \<times> hoa_parse_memo option) option" where
  "bound_strategy mini hoa_cap bound has_sat again hoa memo =
     (if \<not> mini \<and> bound = 0 then Some (Inr (), hoa, memo)
      else Option.bind (minimized_strategy mini hoa_cap hoa memo) (\<lambda>(states, hoa, memo).
        case states of
          None \<Rightarrow> Some (Inr (), hoa, memo)
        | Some n \<Rightarrow>
            if bound = 0 \<or> n \<le> bound then Some (Inr (), hoa, memo)
            else
              let verdict = (\<lambda>n. if n \<le> bound then Inr ()
                else Inl (SolverError, ''UNKNOWN: the strategy has '' @ nat_to_string n @
                  '' states, above ltl-strategy-max-states ('' @ nat_to_string bound @
                  ''); a smaller one may exist''))
              in if has_sat then Some (verdict n, hoa, memo)
              else case again of
                Inl e \<Rightarrow> Some (Inl e, hoa, memo)
              | Inr (realizable, hoa2) \<Rightarrow>
                  if \<not> realizable then Some (verdict n, hoa, memo)
                  else Option.bind (minimized_strategy mini hoa_cap hoa2 memo) (\<lambda>(fewer, hoa2, memo).
                    case fewer of
                      Some k \<Rightarrow> if k < n then Some (verdict k, hoa2, memo) else Some (verdict n, hoa, memo)
                    | None \<Rightarrow> Some (verdict n, hoa, memo))))"

section \<open>What a parsed strategy is\<close>

lemma fold_add_state_ok:
  assumes "\<forall>st \<in> set sts. ss_n st < n \<and> (\<forall>e \<in> set (ss_edges st). se_dst e < n \<and> guard_ok aps (se_guard e))"
    and "ha_num_states a = n" "length (ha_edges a) = n" "length (ha_state_accepting a) = n"
    and "\<forall>s < n. \<forall>e \<in> set (ha_edges a ! s). he_dst e < n \<and> guard_ok aps (he_guard e)"
  shows "let b = fold add_state sts a in ha_num_states b = n \<and> ha_initial b = ha_initial a \<and>
    ha_aps b = ha_aps a \<and> length (ha_edges b) = n \<and> length (ha_state_accepting b) = n \<and>
    (\<forall>s < n. \<forall>e \<in> set (ha_edges b ! s). he_dst e < n \<and> guard_ok aps (he_guard e))"
  using assms
proof (induction sts arbitrary: a)
  case (Cons st sts)
  let ?b = "add_state st a"
  have "\<forall>s < n. \<forall>e \<in> set (ha_edges ?b ! s). he_dst e < n \<and> guard_ok aps (he_guard e)"
    using Cons.prems by (auto simp: add_state_def Let_def nth_list_update)
  moreover have "ha_num_states ?b = n" "length (ha_edges ?b) = n" "length (ha_state_accepting ?b) = n"
      "ha_initial ?b = ha_initial a" "ha_aps ?b = ha_aps a"
    using Cons.prems by (auto simp: add_state_def Let_def)
  ultimately show ?case using Cons.IH [of ?b] Cons.prems(1) by (simp add: Let_def)
qed simp

definition strategy_ok :: "nat \<Rightarrow> hoa_automaton \<Rightarrow> bool" where
  "strategy_ok hoa_cap a \<longleftrightarrow> aut_ok a \<and> int (ha_num_states a) \<le> max_states hoa_cap \<and>
     (\<forall>s < ha_num_states a. \<forall>e \<in> set (ha_edges a ! s). guard_ok (ha_aps a) (he_guard e))"

lemma parse_fresh_ok:
  assumes "parse_fresh hoa_cap s = Inr a"
  shows "strategy_ok hoa_cap a"
proof -
  obtain sc where sc: "scan hoa_cap s ''the HOA strategy'' = Inr sc" and a: "a = build_strategy sc"
    using assms by (auto simp: parse_fresh_def rbind_Inr_iff)
  obtain lns hs h where h: "hoa_lines s [] = Some lns"
    "header_lines hoa_cap ''the HOA strategy'' (join_header hs []) \<lparr>sh_aut = empty_automaton, sh_start = 0, sh_seen = False\<rparr> = Inr h"
    "sh_seen h" "nat (sh_start h) < au_num_states (sh_aut h)"
    "body_lines ''the HOA strategy'' (drop (length hs + 1) lns) ((sh_aut h)\<lparr>au_start := nat (sh_start h)\<rparr>) = Inr sc"
    using scan_parts [OF sc] by metis
  have hd: "head_ok hoa_cap h"
    using header_lines_ok [OF h(2)] by (simp add: head_ok_def empty_automaton_def)
  have nl: "\<forall>lin \<in> set (drop (length hs + 1) lns). CHR 0x0A \<notin> set lin"
    using hoa_lines_newline [OF h(1)] by (auto dest: in_set_dropD)
  have "states_ok ((sh_aut h)\<lparr>au_start := nat (sh_start h)\<rparr>)"
    using hd by (simp add: states_ok_def head_ok_def)
  from body_lines_ok [OF h(5) this nl] have st: "states_ok sc"
    "same_table ((sh_aut h)\<lparr>au_start := nat (sh_start h)\<rparr>) sc" by blast+
  let ?n = "au_num_states sc"
  have n: "int ?n \<le> max_states hoa_cap" "au_start sc < ?n"
    using hd h(3,4) st(2) by (simp_all add: head_ok_def same_table_def)
  define b0 where "b0 = \<lparr>ha_num_states = ?n, ha_initial = au_start sc, ha_aps = au_aps sc,
       ha_edges = replicate ?n [], ha_state_accepting = replicate ?n False\<rparr>"
  have b0: "ha_num_states b0 = ?n" "length (ha_edges b0) = ?n" "length (ha_state_accepting b0) = ?n"
      "\<forall>s < ?n. \<forall>e \<in> set (ha_edges b0 ! s). he_dst e < ?n \<and> guard_ok (au_aps sc) (he_guard e)"
      "ha_initial b0 = au_start sc" "ha_aps b0 = au_aps sc"
    by (simp_all add: b0_def)
  let ?b = "fold add_state (au_states sc) b0"
  have "\<forall>st \<in> set (au_states sc). ss_n st < ?n \<and>
      (\<forall>e \<in> set (ss_edges st). se_dst e < ?n \<and> guard_ok (au_aps sc) (se_guard e))"
    using st(1) by (auto simp: states_ok_def edge_ok_def)
  from fold_add_state_ok [OF this b0(1-4)]
  have b: "ha_num_states ?b = ?n" "ha_initial ?b = au_start sc" "ha_aps ?b = au_aps sc"
      "length (ha_edges ?b) = ?n" "length (ha_state_accepting ?b) = ?n"
      "\<forall>s < ?n. \<forall>e \<in> set (ha_edges ?b ! s). he_dst e < ?n \<and> guard_ok (au_aps sc) (he_guard e)"
    by (simp_all add: Let_def b0)
  have a: "a = propagate ?b" using a by (simp add: build_strategy_def b0_def)
  show ?thesis
    using b n unfolding a strategy_ok_def aut_ok_def propagate_def by auto
qed

section \<open>The text written is read back\<close>

definition unlines :: "string list \<Rightarrow> string" where
  "unlines ls = concat (map (\<lambda>l. l @ [CHR 0x0A]) ls)"

lemma unlines_simps [simp]:
  "unlines [] = []" "unlines (l # ls) = l @ CHR 0x0A # unlines ls" "unlines (ls @ ms) = unlines ls @ unlines ms"
  by (simp_all add: unlines_def)

lemma take_line: "CHR 0x0A \<notin> set l \<Longrightarrow> takeWhile (\<lambda>c. c \<noteq> CHR 0x0A) (l @ CHR 0x0A # r) = l"
  by (induction l) auto

lemma hoa_lines_unlines:
  "\<forall>l \<in> set ls. CHR 0x0A \<notin> set l \<and> drop_cr l \<noteq> ''--END--'' \<Longrightarrow>
    hoa_lines (unlines ls @ rest) lns = hoa_lines rest (lns @ map drop_cr ls)"
proof (induction ls arbitrary: lns)
  case (Cons l ls)
  have "hoa_lines (l @ CHR 0x0A # unlines ls @ rest) lns = hoa_lines (unlines ls @ rest) (lns @ [drop_cr l])"
    using Cons.prems by (subst hoa_lines.simps) (simp add: take_line Let_def)
  then show ?case using Cons by simp
qed simp

lemma hoa_lines_end: "hoa_lines (unlines [''--END--'']) lns = Some lns"
  by (subst hoa_lines.simps) (simp add: take_line [of "''--END--''" "[]", simplified] Let_def drop_cr_def)

text \<open>Numbers and lines as written.\<close>

lemma take_digits:
  "r = [] \<or> \<not> is_digit (hd r) \<Longrightarrow> takeWhile is_digit (nat_to_string k @ r) = nat_to_string k"
  "r = [] \<or> \<not> is_digit (hd r) \<Longrightarrow> dropWhile is_digit (nat_to_string k @ r) = r"
proof -
  have d: "\<forall>c \<in> set (nat_to_string k). is_digit c" using nat_to_string_digits by blast
  assume "r = [] \<or> \<not> is_digit (hd r)"
  then show "takeWhile is_digit (nat_to_string k @ r) = nat_to_string k"
      "dropWhile is_digit (nat_to_string k @ r) = r"
    using d by (cases r; simp add: takeWhile_append2 dropWhile_append2)+
qed

lemma read_num_written:
  "int k \<le> long_max \<Longrightarrow> r = [] \<or> \<not> is_digit (hd r) \<Longrightarrow> read_num (nat_to_string k @ r) = Some (int k, r)"
  by (simp add: read_num_def take_digits nat_to_string_value Let_def)

lemma digit_not_blank: "is_digit c \<Longrightarrow> \<not> label_blank c"
  by (auto simp: is_digit_iff label_blank_def)

lemma blanks_number: "blanks (CHR '' '' # nat_to_string k @ r) = nat_to_string k @ r"
proof -
  obtain c cs where c: "nat_to_string k = c # cs" by (cases "nat_to_string k") auto
  then have "\<not> label_blank c" using nat_to_string_digits [of c k] digit_not_blank by simp
  then show ?thesis using c by (simp add: blanks_def label_blank_def [of "CHR '' ''"])
qed

lemma blanks_simps [simp]: "blanks [] = []" "blanks1 [] = None"
  by (simp_all add: blanks_def blanks1_def peek_def label_blank_def)

lemma keyword_num_written:
  assumes "int k \<le> long_max"
  shows "keyword_num (kw @ '' '' @ nat_to_string k) kw = Some (int k)"
  using read_num_written [OF assms, of "[]"] blanks_number [of k "[]"]
  by (simp add: keyword_num_def eat_word_def starts_with_def)

lemma state_line_written:
  assumes "int k \<le> long_max"
  shows "state_line (''State: '' @ nat_to_string k) = Some (int k, None)"
  using read_num_written [OF assms, of "[]"] blanks_number [of k "[]"]
  by (simp add: state_line_def eat_word_def starts_with_def read_mark_def)

lemma edge_line_written:
  assumes "int d \<le> long_max" "read_label g = Some lab" "CHR '']'' \<notin> set g"
  shows "edge_line_of (''['' @ g @ ''] '' @ nat_to_string d) =
    Some \<lparr>el_guard = g, el_label = lab, el_dst = int d, el_acc = None\<rparr>"
proof -
  have "takeWhile (\<lambda>c. c \<noteq> CHR '']'') (g @ CHR '']'' # r) = g" for r
    using assms(3) by (induction g) auto
  then show ?thesis
    using assms(2) read_num_written [OF assms(1), of "[]"] blanks_number [of d "[]"]
    by (simp add: edge_line_of_def eat_char_def peek_def Let_def read_mark_def)
qed

definition written_state :: "hoa_automaton \<Rightarrow> nat \<Rightarrow> scan_state" where
  "written_state q s = \<lparr>ss_n = s, ss_acc = None,
     ss_edges = map (\<lambda>e. \<lparr>se_guard = he_guard e, se_dst = he_dst e, se_acc = None\<rparr>) (ha_edges q ! s)\<rparr>"

definition state_lines :: "hoa_automaton \<Rightarrow> nat \<Rightarrow> string list" where
  "state_lines q s = (''State: '' @ nat_to_string s) #
     map (\<lambda>e. ''['' @ he_guard e @ ''] '' @ nat_to_string (he_dst e)) (ha_edges q ! s)"

lemma state_text_lines: "state_text q s = unlines (state_lines q s)"
proof -
  have "concat (map edge_text es) = unlines (map (\<lambda>e. ''['' @ he_guard e @ ''] '' @ nat_to_string (he_dst e)) es)" for es
    by (induction es) (simp_all add: edge_text_def)
  then show ?thesis by (simp add: state_text_def state_lines_def)
qed

lemma body_text_lines: "concat (map (state_text q) ss) = unlines (concat (map (state_lines q) ss))"
  by (induction ss) (simp_all add: state_text_lines)

lemma body_edges:
  assumes "\<forall>e \<in> set es. he_dst e < au_num_states a \<and> guard_ok (au_aps a) (he_guard e)"
    and "int (au_num_states a) \<le> long_max" "au_states a = sts @ [cur]"
  shows "body_lines what (map (\<lambda>e. ''['' @ he_guard e @ ''] '' @ nat_to_string (he_dst e)) es @ lns) a =
    body_lines what lns (a\<lparr>au_states := sts @ [cur\<lparr>ss_edges := ss_edges cur @
      map (\<lambda>e. \<lparr>se_guard = he_guard e, se_dst = he_dst e, se_acc = None\<rparr>) es\<rparr>]\<rparr>)"
  using assms
proof (induction es arbitrary: a cur)
  case Nil
  then have "a\<lparr>au_states := sts @ [cur]\<rparr> = a" by (cases a) simp
  then show ?case by simp
next
  case (Cons e es)
  let ?lin = "''['' @ he_guard e @ ''] '' @ nat_to_string (he_dst e)"
  let ?e = "\<lparr>se_guard = he_guard e, se_dst = he_dst e, se_acc = None\<rparr>"
  let ?a = "a\<lparr>au_states := sts @ [cur\<lparr>ss_edges := ss_edges cur @ [?e]\<rparr>]\<rparr>"
  obtain lab where lab: "read_label (he_guard e) = Some lab" "ap_bound lab \<le> length (au_aps a)" "CHR '']'' \<notin> set (he_guard e)"
    using Cons.prems(1) by (auto simp: guard_ok_def)
  have "int (he_dst e) \<le> long_max" "he_dst e < au_num_states a" using Cons.prems(1,2) by auto
  then have "body_line what ?lin a = Inr ?a"
    using edge_line_written [OF _ lab(1,3)] lab(2) Cons.prems(3)
    by (simp add: starts_with_def add_edge_def Let_def)
  then show ?case using Cons.IH [of ?a "cur\<lparr>ss_edges := ss_edges cur @ [?e]\<rparr>"] Cons.prems
    by (simp del: body_line.simps)
qed

lemma body_states:
  assumes "\<forall>s \<in> set ss. s < au_num_states a \<and>
      (\<forall>e \<in> set (ha_edges q ! s). he_dst e < au_num_states a \<and> guard_ok (au_aps a) (he_guard e))"
    and "int (au_num_states a) \<le> long_max"
  shows "body_lines what (concat (map (state_lines q) ss)) a =
    Inr (a\<lparr>au_states := au_states a @ map (written_state q) ss\<rparr>)"
  using assms
proof (induction ss arbitrary: a)
  case (Cons s ss)
  let ?st = "\<lparr>ss_n = s, ss_acc = None, ss_edges = []\<rparr>"
  let ?a = "a\<lparr>au_states := au_states a @ [?st]\<rparr>"
  have "body_line what (''State: '' @ nat_to_string s) a = Inr ?a"
    using state_line_written [of s] Cons.prems by (simp add: starts_with_def)
  then have "body_lines what (concat (map (state_lines q) (s # ss))) a =
      body_lines what (map (\<lambda>e. ''['' @ he_guard e @ ''] '' @ nat_to_string (he_dst e)) (ha_edges q ! s) @
        concat (map (state_lines q) ss)) ?a"
    by (simp add: state_lines_def del: body_line.simps)
  also have "\<dots> = body_lines what (concat (map (state_lines q) ss)) (a\<lparr>au_states := au_states a @ [written_state q s]\<rparr>)"
    using body_edges [of "ha_edges q ! s" ?a "au_states a" ?st] Cons.prems by (simp add: written_state_def)
  finally show ?case using Cons by simp
qed simp

section \<open>The header rewritten\<close>

definition special :: "string \<Rightarrow> bool" where
  "special x \<longleftrightarrow> starts_with ''States:'' x \<or> starts_with ''Start:'' x"

text \<open>
  The texts whose header the rewriting keeps intact: the body marker is first found at a line of
  its own, no header line is empty or starts like a marker, and no line continues the \<open>States:\<close> or
  the \<open>Start:\<close> line.
\<close>

fun unbroken :: "string list \<Rightarrow> bool" where
  "unbroken (x # y # zs) \<longleftrightarrow> (special x \<longrightarrow> \<not> label_blank (hd y)) \<and> unbroken (y # zs)"
| "unbroken _ \<longleftrightarrow> True"

definition plain_header :: "string list \<Rightarrow> bool" where
  "plain_header hs \<longleftrightarrow> unbroken hs \<and>
     (\<forall>l \<in> set hs. l \<noteq> [] \<and> CHR 0x0A \<notin> set l \<and> last l \<noteq> CHR 0x0D \<and> hd l \<noteq> CHR ''-'')"

definition hoa_form :: "string \<Rightarrow> string list \<Rightarrow> string \<Rightarrow> bool" where
  "hoa_form s hs rest \<longleftrightarrow> s = unlines hs @ ''--BODY--'' @ CHR 0x0A # rest \<and>
     find_text ''--BODY--'' s = Some (length (unlines hs)) \<and> plain_header hs"

definition rewrite_line :: "hoa_automaton \<Rightarrow> string \<Rightarrow> string" where
  "rewrite_line q l = (if starts_with ''States:'' l then ''States: '' @ nat_to_string (ha_num_states q)
     else if starts_with ''Start:'' l then ''Start: '' @ nat_to_string (ha_initial q) else l)"

lemma rewrite_line_nonempty: "l \<noteq> [] \<Longrightarrow> rewrite_line q l \<noteq> []"
  by (simp add: rewrite_line_def)

lemma head_text_lines:
  "\<forall>l \<in> set hs. l \<noteq> [] \<and> CHR 0x0A \<notin> set l \<Longrightarrow> head_text q (unlines hs) = unlines (map (rewrite_line q) hs)"
proof (induction hs)
  case (Cons l hs)
  have "head_text q (l @ CHR 0x0A # unlines hs) = rewrite_line q l @ [CHR 0x0A] @ head_text q (unlines hs)"
    using Cons.prems rewrite_line_nonempty [of l q]
    by (subst head_text.simps) (simp add: take_line Let_def head_text_line_def rewrite_line_def)
  then show ?case using Cons by simp
qed simp

lemma nat_to_string_plain: "c \<in> set (nat_to_string k) \<Longrightarrow> c \<noteq> CHR 0x0A \<and> c \<noteq> CHR 0x0D \<and> c \<noteq> CHR ''-''"
  using nat_to_string_digits [of c k] by (auto simp: is_digit_iff)

lemma nat_to_string_last_plain [simp]: "last (nat_to_string k) \<noteq> CHR 0x0D"
  using nat_to_string_plain [of "last (nat_to_string k)" k] by simp

lemma starts_with_hd: "starts_with (c # w) l \<Longrightarrow> l \<noteq> [] \<and> hd l = c"
  by (cases l) (auto simp: starts_with_def)

lemma rewrite_line_plain:
  assumes "l \<noteq> [] \<and> CHR 0x0A \<notin> set l \<and> last l \<noteq> CHR 0x0D \<and> hd l \<noteq> CHR ''-''"
  shows "rewrite_line q l \<noteq> [] \<and> CHR 0x0A \<notin> set (rewrite_line q l) \<and> last (rewrite_line q l) \<noteq> CHR 0x0D \<and>
    hd (rewrite_line q l) \<noteq> CHR ''-'' \<and> hd (rewrite_line q l) = hd l"
  using assms nat_to_string_plain by (auto simp: rewrite_line_def dest: starts_with_hd)

lemma drop_cr_id: "last l \<noteq> CHR 0x0D \<Longrightarrow> drop_cr l = l"
  by (simp add: drop_cr_def)

definition rel_line :: "hoa_automaton \<Rightarrow> string \<Rightarrow> string \<Rightarrow> bool" where
  "rel_line q x y \<longleftrightarrow> y = rewrite_line q x"

lemma starts_with_space:
  "CHR '' '' \<notin> set w \<Longrightarrow> starts_with w (x @ CHR '' '' # y) = starts_with w x"
proof (induction w arbitrary: x)
  case (Cons c w)
  then show ?case by (cases x) (auto simp: starts_with_def)
qed (simp add: starts_with_def)

lemma join_header_rewrite:
  assumes "list_all2 (rel_line q) acc acc'" "unbroken hs" "\<forall>l \<in> set hs. l \<noteq> []"
    and "acc \<noteq> [] \<and> hs \<noteq> [] \<and> special (last acc) \<longrightarrow> \<not> label_blank (hd (hd hs))"
  shows "list_all2 (rel_line q) (join_header hs acc) (join_header (map (rewrite_line q) hs) acc')"
  using assms
proof (induction hs arbitrary: acc acc')
  case (Cons l hs)
  have l: "l \<noteq> []" and hd: "hd (rewrite_line q l) = hd l" "rewrite_line q l \<noteq> []"
    using Cons.prems(3) by (auto simp: rewrite_line_def dest: starts_with_hd)
  have ub: "unbroken hs" using Cons.prems(2) by (cases hs) auto
  have emp: "acc = [] \<longleftrightarrow> acc' = []" using Cons.prems(1) by auto
  show ?case
  proof (cases "label_blank (hd l) \<and> acc \<noteq> []")
    case False
    have "special l \<longrightarrow> hs \<noteq> [] \<longrightarrow> \<not> label_blank (hd (hd hs))" using Cons.prems(2) by (cases hs) auto
    moreover have "list_all2 (rel_line q) (acc @ [l]) (acc' @ [rewrite_line q l])"
      by (rule list_all2_appendI [OF Cons.prems(1)]) (simp add: rel_line_def)
    moreover have "join_header (l # hs) acc = join_header hs (acc @ [l])"
        "join_header (map (rewrite_line q) (l # hs)) acc' = join_header (map (rewrite_line q) hs) (acc' @ [rewrite_line q l])"
      using False l hd emp by auto
    ultimately show ?thesis
      using Cons.IH [of "acc @ [l]" "acc' @ [rewrite_line q l]"] ub Cons.prems(3) by simp
  next
    case True
    then have ns: "\<not> special (last acc)" using Cons.prems(4) by auto
    have "\<not> special l"
      using True by (auto simp: special_def label_blank_def dest!: starts_with_hd)
    then have rl: "rewrite_line q l = l" by (auto simp: rewrite_line_def special_def)
    let ?w = "dropWhile label_blank l"
    let ?n = "\<lambda>acc. if ?w \<noteq> [] then butlast acc @ [last acc @ '' '' @ ?w] else acc"
    have j: "join_header (l # hs) acc = join_header hs (?n acc)"
        "join_header (map (rewrite_line q) (l # hs)) acc' = join_header (map (rewrite_line q) hs) (?n acc')"
      using True l rl emp by (simp_all add: Let_def)
    obtain b z where acc: "acc = b @ [z]" using True by (metis append_butlast_last_id)
    then obtain b' z' where acc': "acc' = b' @ [z']" "list_all2 (rel_line q) b b'" "rel_line q z z'"
      using Cons.prems(1) by (auto simp: list_all2_append1 list_all2_Cons1)
    have z: "\<not> special z" "z' = z"
      using ns acc acc'(3) by (auto simp: rel_line_def rewrite_line_def special_def)
    have sp: "special (z @ CHR '' '' # ?w) = special z" by (simp add: special_def starts_with_space)
    then have "rel_line q (z @ '' '' @ ?w) (z' @ '' '' @ ?w)"
      using z by (auto simp: rel_line_def rewrite_line_def special_def)
    then have "list_all2 (rel_line q) (?n acc) (?n acc')"
      using acc acc' by (simp add: list_all2_appendI)
    moreover have "\<not> special (last (?n acc))" using acc z(1) sp by simp
    ultimately show ?thesis
      using Cons.IH [of "?n acc" "?n acc'"] ub Cons.prems(3) j by simp
  qed
qed simp

definition head_rel :: "hoa_automaton \<Rightarrow> scan_head \<Rightarrow> scan_head \<Rightarrow> bool" where
  "head_rel q h h' \<longleftrightarrow> sh_seen h' = sh_seen h \<and> sh_start h' = 0 \<and>
     sh_aut h' = (sh_aut h)\<lparr>au_num_states := if sh_seen h then ha_num_states q else au_num_states (sh_aut h)\<rparr>"

lemma header_line_rewrite:
  assumes "header_line hoa_cap what l h = Inr hf" "head_rel q h h'"
    and q: "1 \<le> ha_num_states q" "int (ha_num_states q) \<le> max_states hoa_cap" "ha_initial q = 0"
  shows "\<exists>hf'. header_line hoa_cap what (rewrite_line q l) h' = Inr hf' \<and> head_rel q hf hf'"
proof -
  have big: "int (ha_num_states q) \<le> long_max"
    using q(2) by (auto simp: max_states_def int_max_def long_max_def split: if_splits)
  have k1: "keyword_num (''States: '' @ nat_to_string (ha_num_states q)) ''States:'' = Some (int (ha_num_states q))"
    using keyword_num_written [OF big, of "''States:''"] by simp
  have k2: "keyword_num (''Start: '' @ nat_to_string 0) ''Start:'' = Some 0"
    using keyword_num_written [of 0 "''Start:''"] by (simp add: long_max_def)
  have s: "starts_with ''States:'' (''States: '' @ r)" "\<not> starts_with ''States:'' (''Start: '' @ r)"
      "starts_with ''Start:'' (''Start: '' @ r)" for r by (simp_all add: starts_with_def)
  consider "starts_with ''States:'' l" | "\<not> starts_with ''States:'' l" "starts_with ''Start:'' l" |
    "\<not> special l" by (auto simp: special_def)
  then show ?thesis
  proof cases
    case 1
    then have "hf = h\<lparr>sh_aut := (sh_aut h)\<lparr>au_num_states := au_num_states (sh_aut hf)\<rparr>, sh_seen := True\<rparr>"
      using assms(1) by (auto split: option.splits if_splits)
    then have hf: "sh_start hf = sh_start h" "sh_seen hf"
        "(sh_aut hf)\<lparr>au_num_states := ha_num_states q\<rparr> = (sh_aut h)\<lparr>au_num_states := ha_num_states q\<rparr>"
      using assms(1) 1 by (auto split: option.splits if_splits)
    let ?hf = "h'\<lparr>sh_aut := (sh_aut h')\<lparr>au_num_states := ha_num_states q\<rparr>, sh_seen := True\<rparr>"
    have "header_line hoa_cap what (rewrite_line q l) h' = Inr ?hf"
      using 1 k1 s(1) q(1,2) by (simp add: rewrite_line_def)
    moreover have "head_rel q hf ?hf" using assms(2) hf by (simp add: head_rel_def)
    ultimately show ?thesis by blast
  next
    case 2
    then have hf: "sh_aut hf = sh_aut h" "sh_seen hf = sh_seen h"
      using assms(1) by (auto split: option.splits if_splits)
    have "header_line hoa_cap what (rewrite_line q l) h' = Inr (h'\<lparr>sh_start := 0\<rparr>)"
      using 2 k2 s(2,3) q(3) by (simp add: rewrite_line_def)
    moreover have "head_rel q hf (h'\<lparr>sh_start := 0\<rparr>)" using assms(2) hf by (simp add: head_rel_def)
    ultimately show ?thesis by blast
  next
    case 3
    then have r: "rewrite_line q l = l" by (auto simp: rewrite_line_def special_def)
    show ?thesis
    proof (cases "starts_with ''AP:'' l")
      case True
      then obtain n names where n: "ap_line l = Some (n, names)" "\<not> (n < 0 \<or> length names < nat n)"
          "hf = h\<lparr>sh_aut := (sh_aut h)\<lparr>au_aps := take (nat n) names\<rparr>\<rparr>"
        using assms(1) 3 by (auto simp: special_def split: option.splits if_splits)
      let ?hf = "h'\<lparr>sh_aut := (sh_aut h')\<lparr>au_aps := take (nat n) names\<rparr>\<rparr>"
      have "header_line hoa_cap what l h' = Inr ?hf" using True 3 n(1,2) by (simp add: special_def)
      moreover have "head_rel q hf ?hf" using assms(2) n(3) by (simp add: head_rel_def)
      ultimately show ?thesis using r by auto
    next
      case False
      then have n: "skippable l" "hf = h\<lparr>sh_aut := (sh_aut h)\<lparr>au_other := au_other (sh_aut h) @ [l]\<rparr>\<rparr>"
        using assms(1) 3 by (auto simp: special_def split: if_splits)
      let ?hf = "h'\<lparr>sh_aut := (sh_aut h')\<lparr>au_other := au_other (sh_aut h') @ [l]\<rparr>\<rparr>"
      have "header_line hoa_cap what l h' = Inr ?hf" using False 3 n(1) by (simp add: special_def)
      moreover have "head_rel q hf ?hf" using assms(2) n(2) by (simp add: head_rel_def)
      ultimately show ?thesis using r by auto
    qed
  qed
qed

lemma header_lines_rewrite:
  assumes "list_all2 (rel_line q) ls ls'" "header_lines hoa_cap what ls h = Inr hf" "head_rel q h h'"
    and q: "1 \<le> ha_num_states q" "int (ha_num_states q) \<le> max_states hoa_cap" "ha_initial q = 0"
  shows "\<exists>hf'. header_lines hoa_cap what ls' h' = Inr hf' \<and> head_rel q hf hf'"
  using assms(1-3)
proof (induction arbitrary: h h' rule: list_all2_induct)
  case (Cons l ls l' ls')
  obtain h1 where h1: "header_line hoa_cap what l h = Inr h1" "header_lines hoa_cap what ls h1 = Inr hf"
    using Cons.prems(1) by (auto simp: rbind_Inr_iff simp del: header_line.simps)
  obtain h1' where h1': "header_line hoa_cap what l' h' = Inr h1'" "head_rel q h1 h1'"
    using header_line_rewrite [OF h1(1) Cons.prems(2) q] Cons.hyps(1) unfolding rel_line_def by blast
  show ?case using Cons.IH [OF h1(2) h1'(2)] h1'(1) by (simp del: header_line.simps)
qed simp

section \<open>The minimised strategy from its text\<close>

definition plain :: "hoa_automaton \<Rightarrow> bool" where
  "plain q \<longleftrightarrow> ha_initial q = 0 \<and> ha_state_accepting q = replicate (ha_num_states q) False \<and>
     (\<forall>s < ha_num_states q. \<forall>e \<in> set (ha_edges q ! s). \<not> he_accepting e)"

lemma written_edges:
  "\<forall>e \<in> set es. \<not> he_accepting e \<Longrightarrow>
    map (\<lambda>e. \<lparr>he_guard = he_guard e, he_dst = he_dst e, he_accepting = False\<rparr>) es = es"
  by (induction es) auto

lemma fold_written:
  assumes "i \<le> ha_num_states q" "plain q" "length (ha_edges q) = ha_num_states q"
  shows "fold add_state (map (written_state q) [0..<i])
      (q\<lparr>ha_edges := replicate (ha_num_states q) []\<rparr>) =
    q\<lparr>ha_edges := map (\<lambda>s. ha_edges q ! s) [0..<i] @ replicate (ha_num_states q - i) []\<rparr>"
  using assms(1)
proof (induction i)
  case (Suc i)
  let ?n = "ha_num_states q" and ?m = "map (\<lambda>s. ha_edges q ! s) [0..<i]"
  have "i < ?n" using Suc.prems by simp
  then have "\<forall>e \<in> set (ha_edges q ! i). \<not> he_accepting e" using assms(2) unfolding plain_def by blast
  note e = written_edges [OF this]
  have r: "replicate (?n - i) [] = [] # replicate (?n - Suc i) ([] :: hoa_edge list)"
    using Suc.prems by (metis Suc_diff_Suc Suc_le_lessD replicate_Suc)
  have "add_state (written_state q i) (q\<lparr>ha_edges := ?m @ replicate (?n - i) []\<rparr>) =
      q\<lparr>ha_edges := ?m @ (ha_edges q ! i) # replicate (?n - Suc i) []\<rparr>"
    unfolding r using e
    by (simp add: add_state_def written_state_def marked_def Let_def list_update_append nth_append o_def)
  then show ?case using Suc by simp
qed simp

lemma build_written:
  assumes "plain q" "aut_ok q"
  shows "build_strategy \<lparr>au_num_states = ha_num_states q, au_start = 0, au_aps = ha_aps q,
    au_other = other, au_states = map (written_state q) [0..<ha_num_states q]\<rparr> = q"
proof -
  let ?n = "ha_num_states q"
  have len: "length (ha_edges q) = ?n" using assms(2) by (simp add: aut_ok_def)
  have edges: "map (\<lambda>s. ha_edges q ! s) [0..<?n] = ha_edges q" using len by (metis map_nth)
  have "\<lparr>ha_num_states = ?n, ha_initial = 0, ha_aps = ha_aps q, ha_edges = replicate ?n [],
      ha_state_accepting = replicate ?n False\<rparr> = q\<lparr>ha_edges := replicate ?n []\<rparr>"
    using assms(1) by (cases q) (simp add: plain_def)
  then have "build_strategy \<lparr>au_num_states = ?n, au_start = 0, au_aps = ha_aps q, au_other = other,
      au_states = map (written_state q) [0..<?n]\<rparr> = propagate (q\<lparr>ha_edges := ha_edges q\<rparr>)"
    using fold_written [OF le_refl assms(1) len] edges by (simp add: build_strategy_def)
  also have "\<dots> = propagate q" by simp
  also have "\<dots> = q"
  proof -
    have "\<not> ha_state_accepting q ! he_dst e" if es: "es \<in> set (ha_edges q)" and e: "e \<in> set es" for e es
    proof -
      obtain i where "i < ?n" "es = ha_edges q ! i" using es len by (auto simp: in_set_conv_nth)
      then have "he_dst e < ?n" using assms(2) e unfolding aut_ok_def by blast
      then show ?thesis using assms(1) by (simp add: plain_def)
    qed
    then have "map (map (\<lambda>e. if ha_state_accepting q ! he_dst e then e\<lparr>he_accepting := True\<rparr> else e)) (ha_edges q) = ha_edges q"
      by (intro map_idI) simp
    then show ?thesis by (simp add: propagate_def)
  qed
  finally show ?thesis .
qed

lemma quotient_plain:
  assumes "\<forall>s \<in> set order. \<forall>e \<in> set (ha_edges a ! s). guard_ok (ha_aps a) (he_guard e)" "order \<noteq> []"
  shows "plain (quotient a order d) \<and> (\<forall>s < ha_num_states (quotient a order d).
    \<forall>e \<in> set (ha_edges (quotient a order d) ! s). guard_ok (ha_aps a) (he_guard e))"
proof -
  obtain ids reps where n: "number_classes d order Map.empty [] = (ids, reps)" by fastforce
  have reps: "set reps \<subseteq> set order" using number_classes_all [OF n assms(2)] by blast
  have guard: "he_guard e \<in> he_guard ` set es" if "e \<in> set (quotient_edges to es [])" for e to es
  proof -
    have "(he_guard e, he_dst e) \<in> (\<lambda>e. (he_guard e, to (he_dst e))) ` set es"
      using that quotient_edges_set [of to es "[]"] by auto
    then show ?thesis by auto
  qed
  have "guard_ok (ha_aps a) (he_guard e)"
    if "i < length reps" "e \<in> set (quotient_edges to (ha_edges a ! (reps ! i)) [])" for i e to
  proof -
    have "reps ! i \<in> set order" using reps that(1) by (meson nth_mem subsetD)
    then show ?thesis using guard [OF that(2)] assms(1) by auto
  qed
  then show ?thesis
    using n quotient_edges_plain by (auto simp: plain_def quotient_def)
qed

lemma minimize_smaller:
  assumes "strategy_ok hoa_cap a" "minimize_strategy a = Some q" "ha_num_states q < ha_num_states a"
  shows "plain q \<and> strategy_ok hoa_cap q \<and> ha_aps q = ha_aps a"
proof -
  have ok: "aut_ok a" using assms(1) by (simp add: strategy_ok_def)
  have q: "aut_ok q" "ha_aps q = ha_aps a" using minimize_map [OF ok] assms(2) by auto
  obtain order bt tabs c d where d: "q = quotient a order d" "stable_run a order bt tabs c d"
    using minimize_cases [OF ok] assms(2,3) by auto
  have o: "\<forall>s \<in> set order. s < ha_num_states a" "order \<noteq> []" using d(2) unfolding stable_run_def by blast+
  have "\<forall>s < ha_num_states a. \<forall>e \<in> set (ha_edges a ! s). guard_ok (ha_aps a) (he_guard e)"
    using assms(1) unfolding strategy_ok_def by blast
  then have "\<forall>s \<in> set order. \<forall>e \<in> set (ha_edges a ! s). guard_ok (ha_aps a) (he_guard e)"
    using o(1) by blast
  from quotient_plain [OF this o(2), of d] have "plain q"
      "\<forall>s < ha_num_states q. \<forall>e \<in> set (ha_edges q ! s). guard_ok (ha_aps q) (he_guard e)"
    using d(1) q(2) by simp_all
  moreover have "int (ha_num_states q) \<le> max_states hoa_cap" using assms(1,3) by (simp add: strategy_ok_def)
  ultimately show ?thesis using q by (simp add: strategy_ok_def)
qed

lemma hoa_lines_extends: "hoa_lines s lns = Some res \<Longrightarrow> \<exists>rst. res = lns @ rst"
proof (induction s lns rule: hoa_lines.induct)
  case (1 s lns)
  let ?l = "takeWhile (\<lambda>c. c \<noteq> CHR 0x0A) s"
  show ?case
  proof (cases "s = [] \<or> length ?l = length s \<or> drop_cr ?l = ''--END--''")
    case True
    then have "res = lns"
      using "1.prems" hoa_lines.simps [of s lns] by (auto simp: Let_def split: if_splits)
    then show ?thesis by simp
  next
    case False
    then have "hoa_lines (drop (length ?l + 1) s) (lns @ [drop_cr ?l]) = Some res"
      using "1.prems" hoa_lines.simps [of s lns] by (simp add: Let_def)
    then show ?thesis using "1.IH" [OF _ refl refl _ refl] False by fastforce
  qed
qed

lemma take_body:
  "\<forall>l \<in> set hs. l \<noteq> ''--BODY--'' \<Longrightarrow> takeWhile (\<lambda>l. l \<noteq> ''--BODY--'') (hs @ ''--BODY--'' # rst) = hs"
  by (induction hs) auto

lemma body_marker_plain [simp]: "drop_cr ''--BODY--'' = ''--BODY--''" "CHR 0x0A \<notin> set ''--BODY--''"
  by (simp_all add: drop_cr_def)

lemma plain_lines:
  assumes "\<forall>l \<in> set hs. l \<noteq> [] \<and> CHR 0x0A \<notin> set l \<and> last l \<noteq> CHR 0x0D \<and> hd l \<noteq> CHR ''-''"
  shows "\<forall>l \<in> set hs. CHR 0x0A \<notin> set l \<and> drop_cr l \<noteq> ''--END--''" "map drop_cr hs = hs"
    "\<forall>l \<in> set hs. l \<noteq> ''--BODY--''"
proof -
  have "l \<noteq> ''--END--'' \<and> l \<noteq> ''--BODY--'' \<and> drop_cr l = l" if "l \<in> set hs" for l
  proof -
    have "hd l \<noteq> CHR ''-''" "last l \<noteq> CHR 0x0D" using assms that by blast+
    then show ?thesis by (auto simp: drop_cr_id)
  qed
  then show "\<forall>l \<in> set hs. CHR 0x0A \<notin> set l \<and> drop_cr l \<noteq> ''--END--''" "map drop_cr hs = hs"
      "\<forall>l \<in> set hs. l \<noteq> ''--BODY--''" using assms by (auto intro: map_idI)
qed

lemma body_lines_plain:
  assumes "strategy_ok hoa_cap q" "s < ha_num_states q" "l \<in> set (state_lines q s)"
  shows "l \<noteq> [] \<and> CHR 0x0A \<notin> set l \<and> last l \<noteq> CHR 0x0D \<and> hd l \<noteq> CHR ''-''"
proof -
  have "CHR 0x0A \<notin> set (nat_to_string k)" for k using nat_to_string_plain [of "CHR 0x0A" k] by blast
  moreover have "CHR 0x0A \<notin> set (he_guard e)" if "e \<in> set (ha_edges q ! s)" for e
    using assms(1,2) that unfolding strategy_ok_def guard_ok_def by blast
  ultimately show ?thesis using assms(3) by (auto simp: state_lines_def)
qed

lemma scan_rewritten:
  assumes s: "scan hoa_cap s what = Inr sc" "hoa_form s hs rest" and q: "strategy_ok hoa_cap q" "plain q"
    and aps: "ha_aps q = au_aps sc" and t: "hoa_text_of q s = Some t"
  shows "\<exists>other. scan hoa_cap t what = Inr \<lparr>au_num_states = ha_num_states q, au_start = 0,
    au_aps = ha_aps q, au_other = other, au_states = map (written_state q) [0..<ha_num_states q]\<rparr>"
proof -
  let ?n = "ha_num_states q" and ?b = "concat (map (state_lines q) [0..<ha_num_states q])"
  let ?hs = "map (rewrite_line q) hs"
  have form: "s = unlines (hs @ [''--BODY--'']) @ rest" "find_text ''--BODY--'' s = Some (length (unlines hs))"
      "unbroken hs" and lines: "\<forall>l \<in> set hs. l \<noteq> [] \<and> CHR 0x0A \<notin> set l \<and> last l \<noteq> CHR 0x0D \<and> hd l \<noteq> CHR ''-''"
    using s(2) by (auto simp: hoa_form_def plain_header_def)
  note p = plain_lines [OF lines]
  have lines': "\<forall>l \<in> set ?hs. l \<noteq> [] \<and> CHR 0x0A \<notin> set l \<and> last l \<noteq> CHR 0x0D \<and> hd l \<noteq> CHR ''-''"
    using rewrite_line_plain lines by auto
  note p' = plain_lines [OF lines']
  obtain lns hd_lines h where h: "hoa_lines s [] = Some lns"
    "hd_lines = takeWhile (\<lambda>l. l \<noteq> ''--BODY--'') lns"
    "header_lines hoa_cap what (join_header hd_lines []) \<lparr>sh_aut = empty_automaton, sh_start = 0, sh_seen = False\<rparr> = Inr h"
    "sh_seen h" "body_lines what (drop (length hd_lines + 1) lns) ((sh_aut h)\<lparr>au_start := nat (sh_start h)\<rparr>) = Inr sc"
    using scan_parts [OF s(1)] by metis
  have "hoa_lines s [] = hoa_lines rest (hs @ [''--BODY--''])"
    using hoa_lines_unlines [of "hs @ [''--BODY--'']" rest "[]"] p unfolding form(1) by simp
  then have "hoa_lines rest (hs @ [''--BODY--'']) = Some lns" using h(1) by simp
  from hoa_lines_extends [OF this] obtain rst where rst: "lns = hs @ ''--BODY--'' # rst" by auto
  then have hd: "hd_lines = hs" using h(2) take_body p(3) by simp
  have hdok: "head_ok hoa_cap h" using header_lines_ok [OF h(3)] by (simp add: head_ok_def empty_automaton_def)
  have qn: "1 \<le> ?n" "int ?n \<le> max_states hoa_cap" "ha_initial q = 0"
    using q by (auto simp: strategy_ok_def aut_ok_def plain_def)
  have "list_all2 (rel_line q) (join_header hs []) (join_header ?hs [])"
    using form(3) lines by (intro join_header_rewrite) auto
  moreover have "head_rel q \<lparr>sh_aut = empty_automaton, sh_start = 0, sh_seen = False\<rparr>
      \<lparr>sh_aut = empty_automaton, sh_start = 0, sh_seen = False\<rparr>"
    by (simp add: head_rel_def)
  ultimately obtain h' where h': "header_lines hoa_cap what (join_header ?hs [])
      \<lparr>sh_aut = empty_automaton, sh_start = 0, sh_seen = False\<rparr> = Inr h'" "head_rel q h h'"
    using header_lines_rewrite [OF _ h(3) _ qn] hd by metis
  have nl: "\<forall>lin \<in> set (drop (length hd_lines + 1) lns). CHR 0x0A \<notin> set lin"
    using hoa_lines_newline [OF h(1)] by (auto dest: in_set_dropD)
  have "same_table ((sh_aut h)\<lparr>au_start := nat (sh_start h)\<rparr>) sc"
    using body_lines_ok [OF h(5) _ nl] hdok by (simp add: states_ok_def head_ok_def)
  then have sc: "au_aps sc = au_aps (sh_aut h)" by (simp add: same_table_def)
  have take: "take (length (unlines hs)) s = unlines hs" unfolding form(1) by simp
  have "t = head_text q (unlines hs) @ ''--BODY--'' @ [CHR 0x0A] @ concat (map (state_text q) [0..<?n]) @ ''--END--'' @ [CHR 0x0A]"
    using t form(2) take by (simp add: hoa_text_of_def)
  also have "concat (map (state_text q) [0..<?n]) = unlines ?b"
    by (rule body_text_lines)
  also have "head_text q (unlines hs) = unlines ?hs" using head_text_lines lines by blast
  finally have t: "t = unlines (?hs @ [''--BODY--''] @ ?b) @ unlines [''--END--'']" by simp
  have bl: "\<forall>l \<in> set ?b. l \<noteq> [] \<and> CHR 0x0A \<notin> set l \<and> last l \<noteq> CHR 0x0D \<and> hd l \<noteq> CHR ''-''"
    using body_lines_plain [OF q(1)] by auto
  note pb = plain_lines [OF bl]
  let ?m = "[''--BODY--'']"
  have all: "\<forall>l \<in> set (?hs @ ?m @ ?b). CHR 0x0A \<notin> set l \<and> drop_cr l \<noteq> ''--END--''"
    unfolding set_append ball_Un
  proof (intro conjI)
    show "\<forall>l \<in> set ?m. CHR 0x0A \<notin> set l \<and> drop_cr l \<noteq> ''--END--''" by simp
  qed (rule p'(1), rule pb(1))
  have id: "map drop_cr (?hs @ ?m @ ?b) = ?hs @ ?m @ ?b"
    unfolding map_append p'(2) pb(2) by simp
  have "hoa_lines t [] = hoa_lines (unlines [''--END--'']) ([] @ map drop_cr (?hs @ ?m @ ?b))"
    unfolding t by (rule hoa_lines_unlines [OF all])
  then have "hoa_lines t [] = hoa_lines (unlines [''--END--'']) (?hs @ ''--BODY--'' # ?b)"
    unfolding id by simp
  then have lns': "hoa_lines t [] = Some (?hs @ ''--BODY--'' # ?b)" using hoa_lines_end by simp
  let ?a = "(sh_aut h')\<lparr>au_start := 0\<rparr>"
  have a: "au_num_states ?a = ?n" "au_aps ?a = ha_aps q" "au_states ?a = []" "sh_seen h'" "sh_start h' = 0"
      "au_start ?a = 0"
    using h'(2) h(4) hdok sc aps by (auto simp: head_rel_def head_ok_def)
  have big: "int ?n \<le> long_max"
    using qn(2) by (auto simp: max_states_def int_max_def long_max_def split: if_splits)
  have "body_lines what ?b ?a = Inr (?a\<lparr>au_states := au_states ?a @ map (written_state q) [0..<?n]\<rparr>)"
    using q(1) a(1,2) big by (intro body_states) (auto simp: strategy_ok_def aut_ok_def)
  moreover have "?a\<lparr>au_states := au_states ?a @ map (written_state q) [0..<?n]\<rparr> =
      \<lparr>au_num_states = ?n, au_start = 0, au_aps = ha_aps q, au_other = au_other (sh_aut h'),
        au_states = map (written_state q) [0..<?n]\<rparr>"
    using a(1-3) by (cases "sh_aut h'") simp
  moreover have "scan hoa_cap t what = body_lines what ?b ?a"
  proof -
    have "takeWhile (\<lambda>l. l \<noteq> ''--BODY--'') (?hs @ ''--BODY--'' # ?b) = ?hs" by (rule take_body [OF p'(3)])
    then show ?thesis
      using lns' h'(1) a(1,4,5) qn(1) by (simp add: scan_def Let_def del: map_map)
  qed
  ultimately show ?thesis by simp
qed

lemma text_read_back:
  assumes "parse_fresh hoa_cap s = Inr a" "hoa_form s hs rest"
    and "minimize_strategy a = Some q" "ha_num_states q < ha_num_states a" "hoa_text_of q s = Some t"
  shows "parse_fresh hoa_cap t = Inr q"
proof -
  obtain sc where sc: "scan hoa_cap s ''the HOA strategy'' = Inr sc" and a: "a = build_strategy sc"
    using assms(1) by (auto simp: parse_fresh_def rbind_Inr_iff)
  have q: "plain q" "strategy_ok hoa_cap q" "ha_aps q = ha_aps a"
    using minimize_smaller [OF parse_fresh_ok [OF assms(1)] assms(3,4)] by blast+
  have "ha_aps (fold add_state sts b) = ha_aps b" for sts b
    by (induction sts arbitrary: b) (simp_all add: add_state_def Let_def)
  then have "ha_aps a = au_aps sc" by (simp add: a build_strategy_def propagate_def)
  with q(3) have "ha_aps q = au_aps sc" by simp
  from scan_rewritten [OF sc assms(2) q(2,1) this assms(5)] show ?thesis
    using build_written [OF q(1)] q(2) by (auto simp: parse_fresh_def strategy_ok_def)
qed

section \<open>The memo\<close>

definition memo_ok :: "hoa_parse_memo option \<Rightarrow> bool" where
  "memo_ok memo \<longleftrightarrow> (\<forall>m. memo = Some m \<longrightarrow> parse_fresh (hm_cap m) (hm_text m) = Inr (hm_aut m))"

lemma parse_hoa_memo:
  assumes "memo_ok memo" "parse_hoa hoa_cap s memo = (r, memo')"
  shows "r = parse_fresh hoa_cap s \<and> memo_ok memo'"
  using assms by (auto simp: parse_hoa_def memo_ok_def split: if_splits option.splits sum.splits)

text \<open>A text the strategy of which plays the same runs, and the number of its states.\<close>

definition minimized_from :: "nat \<Rightarrow> string \<Rightarrow> nat option \<Rightarrow> string \<Rightarrow> bool" where
  "minimized_from hoa_cap src n hoa \<longleftrightarrow>
     (case parse_fresh hoa_cap src of
        Inl e \<Rightarrow> n = None \<and> hoa = src
      | Inr a \<Rightarrow> \<exists>b. parse_fresh hoa_cap hoa = Inr b \<and> n = Some (ha_num_states b) \<and>
          ha_num_states b \<le> ha_num_states a \<and> (\<forall>w. plays b w \<longleftrightarrow> plays a w))"

lemma minimized_strategy_spec:
  assumes "memo_ok memo" "hoa_form hoa hs rest"
  shows "\<exists>n hoa' memo'. minimized_strategy mini hoa_cap hoa memo = Some (n, hoa', memo') \<and>
    memo_ok memo' \<and> minimized_from hoa_cap hoa n hoa'"
proof -
  obtain r memo1 where p: "parse_hoa hoa_cap hoa memo = (r, memo1)" by fastforce
  note pr = parse_hoa_memo [OF assms(1) p]
  show ?thesis
  proof (cases r)
    case (Inl e)
    then show ?thesis using p pr by (auto simp: minimized_strategy_def minimized_from_def)
  next
    case (Inr a)
    then have a: "parse_fresh hoa_cap hoa = Inr a" using pr by simp
    show ?thesis
    proof (cases mini)
      case False
      then show ?thesis using p pr Inr a by (auto simp: minimized_strategy_def minimized_from_def)
    next
      case True
      have ok: "aut_ok a" using parse_fresh_ok [OF a] by (simp add: strategy_ok_def)
      obtain q h where q: "minimize_strategy a = Some q" "ha_num_states q \<le> ha_num_states a" "quotient_map a q h"
        using minimize_map [OF ok] by blast
      note runs = quotient_plays [OF ok q(3)]
      show ?thesis
      proof (cases "ha_num_states q < ha_num_states a")
        case False
        then show ?thesis using p pr Inr a True q by (auto simp: minimized_strategy_def minimized_from_def)
      next
        case less: True
        obtain t where t: "hoa_text_of q hoa = Some t"
          using assms(2) by (auto simp: hoa_text_of_def hoa_form_def)
        have "parse_fresh hoa_cap t = Inr q" by (rule text_read_back [OF a assms(2) q(1) less t])
        then show ?thesis
          using p Inr a True q(1,2) less t runs by (auto simp: minimized_strategy_def minimized_from_def memo_ok_def)
      qed
    qed
  qed
qed

text \<open>A text that is read holds the body marker.\<close>

lemma find_from_part: "find_from w (x @ w @ y) k \<noteq> None"
proof (induction x arbitrary: k)
  case Nil
  then show ?case by (cases w; cases y) (auto simp: starts_with_def)
next
  case (Cons c x)
  then show ?case by (auto simp: starts_with_def)
qed

lemma drop_cr_prefix: "\<exists>z. l = drop_cr l @ z"
proof -
  have "l = drop_cr l @ [last l] \<or> l = drop_cr l @ []"
    by (cases l rule: rev_cases) (auto simp: drop_cr_def)
  then show ?thesis by blast
qed

lemma hoa_lines_part:
  "hoa_lines s lns = Some res \<Longrightarrow> l \<in> set res \<Longrightarrow> l \<notin> set lns \<Longrightarrow> \<exists>x y. s = x @ l @ y"
proof (induction s lns rule: hoa_lines.induct)
  case (1 s lns)
  let ?l = "takeWhile (\<lambda>c. c \<noteq> CHR 0x0A) s"
  show ?case
  proof (cases "s = [] \<or> length ?l = length s \<or> drop_cr ?l = ''--END--''")
    case True
    then have "res = lns"
      using "1.prems" hoa_lines.simps [of s lns] by (auto simp: Let_def split: if_splits)
    then show ?thesis using "1.prems" by simp
  next
    case False
    then have rest: "hoa_lines (drop (length ?l + 1) s) (lns @ [drop_cr ?l]) = Some res"
      using "1.prems" hoa_lines.simps [of s lns] by (simp add: Let_def)
    show ?thesis
    proof (cases "l = drop_cr ?l")
      case True
      obtain z where "?l = l @ z" using drop_cr_prefix [of ?l] True by blast
      then have "s = [] @ l @ z @ dropWhile (\<lambda>c. c \<noteq> CHR 0x0A) s" by (metis append.assoc append_Nil takeWhile_dropWhile_id)
      then show ?thesis by blast
    next
      case other: False
      have "\<exists>x y. drop (length ?l + 1) s = x @ l @ y"
        by (rule "1.IH" [OF _ refl refl _ refl _ rest "1.prems"(2)]) (use False other "1.prems"(3) in simp_all)
      then obtain x y where "drop (length ?l + 1) s = x @ l @ y" by blast
      then have "s = (take (length ?l + 1) s @ x) @ l @ y" by (metis append.assoc append_take_drop_id)
      then show ?thesis by blast
    qed
  qed
qed

lemma parsed_has_body: "parse_fresh hoa_cap s = Inr a \<Longrightarrow> find_text ''--BODY--'' s \<noteq> None"
proof -
  assume "parse_fresh hoa_cap s = Inr a"
  then obtain sc where "scan hoa_cap s ''the HOA strategy'' = Inr sc" by (auto simp: parse_fresh_def rbind_Inr_iff)
  then obtain lns hd_lines where lns: "hoa_lines s [] = Some lns" "hd_lines = takeWhile (\<lambda>l. l \<noteq> ''--BODY--'') lns"
    "length hd_lines < length lns"
    by (rule scan_parts)
  have stop: "w \<in> set lns" if "takeWhile (\<lambda>l. l \<noteq> w) lns \<noteq> lns" for w
    using that takeWhile_eq_all_conv [of "\<lambda>l. l \<noteq> w" lns] by blast
  have "''--BODY--'' \<in> set lns"
    by (rule stop) (use lns(3) in \<open>unfold lns(2), intro notI, simp only: less_irrefl\<close>)
  then have "\<exists>x y. s = x @ ''--BODY--'' @ y" by (rule hoa_lines_part [OF lns(1)]) simp
  then obtain x y where "s = x @ ''--BODY--'' @ y" by blast
  then show ?thesis using find_from_part [of "''--BODY--''" x y 0] by (simp add: find_text_def)
qed

text \<open>
  The strategy the memo answers with for the text left, whether that text reads back or not: it
  plays the runs of the strategy the text given was answered with.
\<close>

lemma minimized_strategy_runs:
  assumes "parse_hoa hoa_cap hoa memo = (Inr a, memo1)" "aut_ok a" "find_text ''--BODY--'' hoa \<noteq> None"
  shows "\<exists>hoa' memo' b. minimized_strategy mini hoa_cap hoa memo = Some (Some (ha_num_states b), hoa', memo') \<and>
    fst (parse_hoa hoa_cap hoa' memo') = Inr b \<and> aut_ok b \<and> ha_num_states b \<le> ha_num_states a \<and>
    (\<forall>w. plays b w \<longleftrightarrow> plays a w) \<and>
    (memo' = memo1 \<and> hoa' = hoa \<or> memo' = Some \<lparr>hm_text = hoa', hm_cap = hoa_cap, hm_aut = b\<rparr>) \<and>
    find_text ''--BODY--'' hoa' \<noteq> None"
proof -
  obtain q h where q: "minimize_strategy a = Some q" "aut_ok q" "ha_num_states q \<le> ha_num_states a" "quotient_map a q h"
    using minimize_map [OF assms(2)] by blast
  note runs = quotient_plays [OF assms(2) q(4)]
  show ?thesis
  proof (cases "mini \<and> ha_num_states q < ha_num_states a")
    case True
    obtain t where t: "hoa_text_of q hoa = Some t" using assms(3) by (auto simp: hoa_text_of_def)
    then obtain x y where "t = x @ ''--BODY--'' @ y" by (auto simp: hoa_text_of_def split: option.splits)
    then have "find_text ''--BODY--'' t \<noteq> None"
      using find_from_part [of "''--BODY--''" x y 0] by (simp add: find_text_def)
    then show ?thesis using assms(1) True q(1,2) runs t
      by (auto simp: minimized_strategy_def parse_hoa_def)
  next
    case False
    have hit: "fst (parse_hoa hoa_cap hoa memo1) = Inr a"
      using assms(1) by (auto simp: parse_hoa_def split: if_splits option.splits sum.splits)
    have "minimized_strategy mini hoa_cap hoa memo = Some (Some (ha_num_states a), hoa, memo1)"
      using assms(1) False q(1,3) by (auto simp: minimized_strategy_def)
    then show ?thesis using hit assms(2,3) by blast
  qed
qed

text \<open>The texts whose runs the strategy accepted may play: the one given and the one asked again.\<close>

definition plays_source ::
  "nat \<Rightarrow> (bool \<times> string) result \<Rightarrow> string \<Rightarrow> hoa_automaton \<Rightarrow> bool" where
  "plays_source hoa_cap again hoa b \<longleftrightarrow>
     (\<exists>src a0. (src = hoa \<or> again = Inr (True, src)) \<and> parse_fresh hoa_cap src = Inr a0 \<and>
       (\<forall>w. plays b w \<longleftrightarrow> plays a0 w))"

text \<open>The answer about the second text: fresh, or the minimised strategy the memo holds.\<close>

lemma second_answer:
  assumes "memo_ok memo1" "memo' = memo1 \<or> memo' = Some \<lparr>hm_text = hoa1, hm_cap = hoa_cap, hm_aut = b1\<rparr>"
    and "aut_ok b1" "plays_source hoa_cap again hoa b1" "find_text ''--BODY--'' hoa1 \<noteq> None"
    and "parse_hoa hoa_cap hoa2 memo' = (Inr a2, memo2)" "again = Inr (True, hoa2)"
  shows "aut_ok a2 \<and> find_text ''--BODY--'' hoa2 \<noteq> None \<and> plays_source hoa_cap again hoa a2"
proof -
  have fresh: ?thesis if "parse_fresh hoa_cap hoa2 = Inr a2"
  proof (intro conjI)
    show "aut_ok a2" using parse_fresh_ok [OF that] by (simp add: strategy_ok_def)
    show "find_text ''--BODY--'' hoa2 \<noteq> None" by (rule parsed_has_body [OF that])
    show "plays_source hoa_cap again hoa a2" using that assms(7) unfolding plays_source_def by blast
  qed
  consider "memo' = memo1" | "memo' = Some \<lparr>hm_text = hoa1, hm_cap = hoa_cap, hm_aut = b1\<rparr>" "hoa2 = hoa1"
    | "memo' = Some \<lparr>hm_text = hoa1, hm_cap = hoa_cap, hm_aut = b1\<rparr>" "hoa2 \<noteq> hoa1" using assms(2) by blast
  then show ?thesis
  proof cases
    case 1
    then show ?thesis using parse_hoa_memo [OF assms(1)] assms(6) fresh by metis
  next
    case 2
    then have "a2 = b1" using assms(6) by (simp add: parse_hoa_def)
    then show ?thesis using 2 assms(3-5) by simp
  next
    case 3
    then show ?thesis using assms(6) fresh by (auto simp: parse_hoa_def split: sum.splits)
  qed
qed

lemma bound_strategy_runs:
  assumes "memo_ok memo" "parse_fresh hoa_cap hoa = Inr a"
  shows "\<exists>res hoa' memo'. bound_strategy mini hoa_cap bound has_sat again hoa memo = Some (res, hoa', memo') \<and>
    (bound = 0 \<or> ha_num_states a \<le> bound \<longrightarrow> res = Inr ()) \<and>
    (res = Inr () \<longrightarrow> (\<exists>b. fst (parse_hoa hoa_cap hoa' memo') = Inr b \<and>
      (bound = 0 \<or> ha_num_states b \<le> bound) \<and> plays_source hoa_cap again hoa b))"
proof -
  have own: "plays_source hoa_cap again hoa b" if "\<forall>w. plays b w \<longleftrightarrow> plays a w" for b
    using that assms(2) unfolding plays_source_def by blast
  obtain memo1 where p: "parse_hoa hoa_cap hoa memo = (Inr a, memo1)" "memo_ok memo1"
    using parse_hoa_memo [OF assms(1)] assms(2) by (metis prod.exhaust)
  show ?thesis
  proof (cases "\<not> mini \<and> bound = 0")
    case True
    have "fst (parse_hoa hoa_cap hoa memo) = Inr a" using p by simp
    then show ?thesis using True own [of a] by (simp add: bound_strategy_def)
  next
    case False
    have ok: "aut_ok a" using parse_fresh_ok [OF assms(2)] by (simp add: strategy_ok_def)
    from minimized_strategy_runs [OF p(1) ok parsed_has_body [OF assms(2)]]
    obtain hoa1 memo' b where 1: "minimized_strategy mini hoa_cap hoa memo = Some (Some (ha_num_states b), hoa1, memo')"
      "fst (parse_hoa hoa_cap hoa1 memo') = Inr b" "aut_ok b" "ha_num_states b \<le> ha_num_states a"
      "\<forall>w. plays b w \<longleftrightarrow> plays a w"
      "memo' = memo1 \<or> memo' = Some \<lparr>hm_text = hoa1, hm_cap = hoa_cap, hm_aut = b\<rparr>"
      "find_text ''--BODY--'' hoa1 \<noteq> None" by metis
    show ?thesis
    proof (cases "bound = 0 \<or> ha_num_states b \<le> bound")
      case True
      then show ?thesis using 1(1,2) False own [OF 1(5)] by (auto simp: bound_strategy_def)
    next
      case above: False
      note run = 1(1) False above
      show ?thesis
      proof (cases "has_sat \<or> (\<exists>e. again = Inl e) \<or> (\<exists>t. again = Inr (False, t))")
        case True
        then show ?thesis using run 1(4) by (auto simp: bound_strategy_def Let_def)
      next
        case asked: False
        then obtain hoa2 where h2: "again = Inr (True, hoa2)" by (metis sum.exhaust surj_pair)
        obtain r2 memo2 where r2: "parse_hoa hoa_cap hoa2 memo' = (r2, memo2)" by (rule prod.exhaust)
        show ?thesis
        proof (cases r2)
          case (Inl e)
          then have "minimized_strategy mini hoa_cap hoa2 memo' = Some (None, hoa2, memo2)"
            using r2 by (simp add: minimized_strategy_def)
          then show ?thesis using run 1(4) asked h2 by (auto simp: bound_strategy_def Let_def)
        next
          case (Inr a2)
          note a2 = second_answer [OF p(2) 1(6,3) own [OF 1(5)] 1(7) r2 [unfolded Inr] h2]
          from minimized_strategy_runs [OF r2 [unfolded Inr]] a2
          obtain hoa3 memo3 c where 2: "minimized_strategy mini hoa_cap hoa2 memo' = Some (Some (ha_num_states c), hoa3, memo3)"
            "fst (parse_hoa hoa_cap hoa3 memo3) = Inr c" "\<forall>w. plays c w \<longleftrightarrow> plays a2 w" by metis
          have "plays_source hoa_cap again hoa c" using a2 2(3) unfolding plays_source_def by simp
          then show ?thesis using run 1(4) asked h2 2(1,2) by (auto simp: bound_strategy_def Let_def)
        qed
      qed
    qed
  qed
qed

text \<open>The memo stays coherent when the texts are in the form the rewriting keeps.\<close>

lemma bound_strategy_memo:
  assumes "memo_ok memo" "hoa_form hoa hs rest"
    and forms: "\<And>hoa2. again = Inr (True, hoa2) \<Longrightarrow> \<exists>hs rest. hoa_form hoa2 hs rest"
    and b: "bound_strategy mini hoa_cap bound has_sat again hoa memo = Some (res, hoa', memo')"
  shows "memo_ok memo'"
proof -
  obtain n hoa1 memo1 where 1: "minimized_strategy mini hoa_cap hoa memo = Some (n, hoa1, memo1)" "memo_ok memo1"
    using minimized_strategy_spec [OF assms(1,2)] by metis
  have 2: "\<exists>m hoa3 memo3. minimized_strategy mini hoa_cap hoa2 memo1 = Some (m, hoa3, memo3) \<and> memo_ok memo3"
    if "again = Inr (True, hoa2)" for hoa2
    using forms [OF that] minimized_strategy_spec [OF 1(2)] by metis
  show ?thesis
  proof (cases "\<exists>hoa2. again = Inr (True, hoa2)")
    case True
    then obtain hoa2 m hoa3 memo3 where "again = Inr (True, hoa2)"
      "minimized_strategy mini hoa_cap hoa2 memo1 = Some (m, hoa3, memo3)" "memo_ok memo3" using 2 by blast
    then show ?thesis
      using b 1 assms(1) by (auto simp: bound_strategy_def Let_def split: if_splits option.splits)
  next
    case False
    then show ?thesis
      using b 1 assms(1) by (auto simp: bound_strategy_def Let_def split: if_splits option.splits sum.splits prod.splits)
  qed
qed

lemma bound_strategy_unreadable:
  assumes "memo_ok memo" "parse_fresh hoa_cap hoa = Inl e"
  shows "bound_strategy mini hoa_cap bound has_sat again hoa memo = Some (Inr (), hoa, memo)"
proof -
  obtain r memo1 where p: "parse_hoa hoa_cap hoa memo = (r, memo1)" by (rule prod.exhaust)
  then have "r = Inl e" using parse_hoa_memo [OF assms(1) p] assms(2) by simp
  moreover have "memo1 = memo" using p \<open>r = Inl e\<close> by (auto simp: parse_hoa_def split: if_splits sum.splits)
  ultimately show ?thesis using p by (simp add: bound_strategy_def minimized_strategy_def)
qed

section \<open>Properties\<close>

text \<open>
  C21: the text written for a strategy that minimisation made smaller is read back as exactly that
  strategy, when the text it replaces is in the form \<open>hoa_form\<close>: its first \<^verbatim>\<open>--BODY--\<close> is a line
  of its own, no header line is empty, ends in a carriage return or starts with \<^verbatim>\<open>-\<close>, and no line
  continues the \<^verbatim>\<open>States:\<close> or the \<^verbatim>\<open>Start:\<close> line.
\<close>

theorem minimized_text_roundtrip:
  assumes "parse_fresh hoa_cap s = Inr a" and "hoa_form s hs rest"
    and "minimize_strategy a = Some q" and "ha_num_states q < ha_num_states a"
  shows "\<exists>t. hoa_text_of q s = Some t \<and> parse_fresh hoa_cap t = Inr q"
proof -
  obtain t where "hoa_text_of q s = Some t" using assms(2) by (auto simp: hoa_text_of_def hoa_form_def)
  then show ?thesis using text_read_back [OF assms] by blast
qed

definition twin_header :: "string list" where
  "twin_header = [''HOA: v1'', ''States: 2'', ''Start: 1'', ''AP: 1 p'']"

definition twin_body :: string where
  "twin_body = unlines [''State: 0'', ''[0] 1'', ''State: 1'', ''[0] 0'', ''--END--'']"

definition twin_hoa :: string where
  "twin_hoa = unlines twin_header @ ''--BODY--'' @ CHR 0x0A # twin_body"

lemma twin_form: "hoa_form twin_hoa twin_header twin_body"
proof -
  have "find_text ''--BODY--'' twin_hoa = Some (length (unlines twin_header))" by code_simp
  moreover have "unbroken twin_header"
    by (simp add: twin_header_def special_def starts_with_def label_blank_def)
  moreover have "\<forall>l \<in> set twin_header. l \<noteq> [] \<and> CHR 0x0A \<notin> set l \<and> last l \<noteq> CHR 0x0D \<and> hd l \<noteq> CHR ''-''"
    by (simp add: twin_header_def)
  ultimately show ?thesis by (simp add: hoa_form_def plain_header_def twin_hoa_def)
qed

definition twin_strategy :: hoa_automaton where
  "twin_strategy = \<lparr>ha_num_states = 2, ha_initial = 1, ha_aps = [''p''],
     ha_edges = [[\<lparr>he_guard = ''0'', he_dst = 1, he_accepting = False\<rparr>],
       [\<lparr>he_guard = ''0'', he_dst = 0, he_accepting = False\<rparr>]], ha_state_accepting = [False, False]\<rparr>"

definition twin_quotient :: hoa_automaton where
  "twin_quotient = \<lparr>ha_num_states = 1, ha_initial = 0, ha_aps = [''p''],
     ha_edges = [[\<lparr>he_guard = ''0'', he_dst = 0, he_accepting = False\<rparr>]], ha_state_accepting = [False]\<rparr>"

lemma twin_facts:
  "parse_fresh 4 twin_hoa = Inr twin_strategy" "minimize_strategy twin_strategy = Some twin_quotient"
  by code_simp+

theorem minimized_text_roundtrip_witness:
  "\<exists>t. hoa_text_of twin_quotient twin_hoa = Some t \<and> parse_fresh 4 t = Inr twin_quotient"
  using minimized_text_roundtrip [OF twin_facts(1) twin_form twin_facts(2)]
  by (simp add: twin_quotient_def twin_strategy_def)

text \<open>
  Without that form the text written may not read back: a proposition named \<^verbatim>\<open>--BODY--\<close> is enough,
  as the header is cut at the first occurrence of the marker.
\<close>

definition marker_hoa :: string where
  "marker_hoa = unlines [''HOA: v1'', ''States: 2'', ''Start: 1'', ''AP: 1 '' @ [CHR 0x22] @ ''--BODY--'' @ [CHR 0x22]] @
     ''--BODY--'' @ CHR 0x0A # twin_body"

theorem marker_name_breaks_text:
  "\<exists>a q t. parse_fresh 4 marker_hoa = Inr a \<and> minimize_strategy a = Some q \<and>
     ha_num_states q < ha_num_states a \<and> hoa_text_of q marker_hoa = Some t \<and> parse_fresh 4 t \<noteq> Inr q"
proof -
  let ?a = "twin_strategy\<lparr>ha_aps := [''--BODY--'']\<rparr>" and ?q = "twin_quotient\<lparr>ha_aps := [''--BODY--'']\<rparr>"
  have "parse_fresh 4 marker_hoa = Inr ?a" "minimize_strategy ?a = Some ?q"
    "ha_num_states ?q < ha_num_states ?a" by code_simp+
  moreover have differs: "\<exists>t. X = Some t \<and> f t \<noteq> Inr q"
    if "case X of None \<Rightarrow> False | Some t \<Rightarrow> (case f t of Inl e \<Rightarrow> True | Inr b \<Rightarrow> g b \<noteq> g q)"
    for X :: "string option" and f :: "string \<Rightarrow> hoa_automaton result" and g :: "hoa_automaton \<Rightarrow> string list" and q
    using that by (cases X) (auto split: sum.splits)
  moreover have "(case hoa_text_of ?q marker_hoa of None \<Rightarrow> False | Some t \<Rightarrow>
      (case parse_fresh 4 t of Inl e \<Rightarrow> True | Inr b \<Rightarrow> ha_aps b \<noteq> ha_aps ?q))" by code_simp
  then have "\<exists>t. hoa_text_of ?q marker_hoa = Some t \<and> parse_fresh 4 t \<noteq> Inr ?q" by (rule differs)
  ultimately show ?thesis by blast
qed

text \<open>
  C22: bounding a strategy always ends. An unreadable text is accepted unchanged. A readable one is
  accepted when there is no bound or it is within it; and when it is accepted, the strategy the
  next reading of the text left gives through the memo is within the bound and plays exactly the
  runs of the text given or of the one ltlsynt gave when asked again. When both texts are in the
  form \<open>hoa_form\<close> every reading through the memo left gives what a fresh reading gives.
\<close>

theorem bound_strategy_enforced:
  assumes "memo_ok memo"
  shows "\<exists>res hoa' memo'. bound_strategy mini hoa_cap bound has_sat again hoa memo = Some (res, hoa', memo') \<and>
    (case parse_fresh hoa_cap hoa of
       Inl e \<Rightarrow> res = Inr () \<and> hoa' = hoa
     | Inr a \<Rightarrow> (bound = 0 \<or> ha_num_states a \<le> bound \<longrightarrow> res = Inr ()) \<and>
         (res = Inr () \<longrightarrow> (\<exists>b src a0. fst (parse_hoa hoa_cap hoa' memo') = Inr b \<and>
           (bound = 0 \<or> ha_num_states b \<le> bound) \<and> (src = hoa \<or> again = Inr (True, src)) \<and>
           parse_fresh hoa_cap src = Inr a0 \<and> (\<forall>w. plays b w \<longleftrightarrow> plays a0 w)))) \<and>
    ((\<exists>hs rest. hoa_form hoa hs rest) \<and>
      (\<forall>hoa2. again = Inr (True, hoa2) \<longrightarrow> (\<exists>hs rest. hoa_form hoa2 hs rest)) \<longrightarrow>
      (\<forall>s cap'. fst (parse_hoa cap' s memo') = parse_fresh cap' s))"
proof -
  have coherent: "(\<exists>hs rest. hoa_form hoa hs rest) \<and>
      (\<forall>hoa2. again = Inr (True, hoa2) \<longrightarrow> (\<exists>hs rest. hoa_form hoa2 hs rest)) \<longrightarrow>
      (\<forall>s cap'. fst (parse_hoa cap' s memo') = parse_fresh cap' s)"
    if "bound_strategy mini hoa_cap bound has_sat again hoa memo = Some (res, hoa', memo')" for res hoa' memo'
    using bound_strategy_memo [OF assms _ _ that] parse_hoa_memo by (metis prod.collapse)
  show ?thesis
  proof (cases "parse_fresh hoa_cap hoa")
    case (Inl e)
    then show ?thesis using bound_strategy_unreadable [OF assms Inl] coherent by auto
  next
    case (Inr a)
    obtain res hoa' memo' where r: "bound_strategy mini hoa_cap bound has_sat again hoa memo = Some (res, hoa', memo')"
      "bound = 0 \<or> ha_num_states a \<le> bound \<longrightarrow> res = Inr ()"
      "res = Inr () \<longrightarrow> (\<exists>b. fst (parse_hoa hoa_cap hoa' memo') = Inr b \<and>
        (bound = 0 \<or> ha_num_states b \<le> bound) \<and> plays_source hoa_cap again hoa b)"
      using bound_strategy_runs [OF assms Inr] by metis
    have "res = Inr () \<longrightarrow> (\<exists>b src a0. fst (parse_hoa hoa_cap hoa' memo') = Inr b \<and>
        (bound = 0 \<or> ha_num_states b \<le> bound) \<and> (src = hoa \<or> again = Inr (True, src)) \<and>
        parse_fresh hoa_cap src = Inr a0 \<and> (\<forall>w. plays b w \<longleftrightarrow> plays a0 w))"
      using r(3) unfolding plays_source_def by blast
    then show ?thesis using Inr r(1,2) coherent [OF r(1)] by (intro exI conjI) (simp_all only: sum.case)
  qed
qed

theorem bound_strategy_enforced_witness:
  "\<exists>hoa' memo' b. bound_strategy True 4 1 False (Inl (SolverError, [])) twin_hoa None = Some (Inr (), hoa', memo') \<and>
    parse_fresh 4 hoa' = Inr b \<and> ha_num_states b \<le> 1 \<and> (\<forall>w. plays b w \<longleftrightarrow> plays twin_strategy w)"
proof -
  have m: "memo_ok None" by (simp add: memo_ok_def)
  obtain res hoa' memo' where b: "bound_strategy True 4 1 False (Inl (SolverError, [])) twin_hoa None = Some (res, hoa', memo')"
    "res = Inr () \<longrightarrow> (\<exists>b src a0. fst (parse_hoa 4 hoa' memo') = Inr b \<and> (1 = (0 :: nat) \<or> ha_num_states b \<le> 1) \<and>
       (src = twin_hoa \<or> (Inl (SolverError, []) :: (bool \<times> string) result) = Inr (True, src)) \<and>
       parse_fresh 4 src = Inr a0 \<and> (\<forall>w. plays b w \<longleftrightarrow> plays a0 w))"
    "\<forall>s cap'. fst (parse_hoa cap' s memo') = parse_fresh cap' s"
    using bound_strategy_enforced [OF m, of True 4 1 False "Inl (SolverError, [])" twin_hoa] twin_form
    unfolding twin_facts(1) sum.case by blast
  have "(case bound_strategy True 4 1 False (Inl (SolverError, [])) twin_hoa None of
      Some (Inr (), _) \<Rightarrow> True | _ \<Rightarrow> False)" by code_simp
  then have "res = Inr ()" using b(1) by (auto split: sum.splits)
  then show ?thesis using b twin_facts(1) by auto
qed

end
