(* ===== verification/Parity_Game.thy ===== *)
theory Parity_Game imports Tau_Prelude "HOL-Library.While_Combinator" begin

text \<open>
  The parity games of \<^verbatim>\<open>src/algorithm_d_game.h\<close> and their solver: the product game, the two attractor
  computations (the worklist of \<^verbatim>\<open>zielonka_impl::attractor\<close> and the repeated passes of
  \<^verbatim>\<open>zielonka_win_player1\<close>), the recursion of \<^verbatim>\<open>zielonka_impl::solve\<close> and the removal of dead ends
  before it. A \<^verbatim>\<open>std::set\<close> is a set, walked in the order of its elements; a vector is a list.
  A loop or recursion that does not end is the value \<open>None\<close>.
\<close>

section \<open>The game\<close>

record product_game =
  pg_n_states :: nat
  pg_init :: nat
  pg_player :: "nat list"
  pg_priority :: "int list"
  pg_succs :: "nat list list"

definition empty_game :: product_game where
  "empty_game = \<lparr>pg_n_states = 0, pg_init = 0, pg_player = [], pg_priority = [], pg_succs = []\<rparr>"

text \<open>\<^verbatim>\<open>for (size_t u : V) if (P(u)) out.insert(u)\<close>\<close>

definition keep :: "(nat \<Rightarrow> bool) \<Rightarrow> nat set \<Rightarrow> nat set" where
  "keep P V = set (filter P (sorted_list_of_set V))"

section \<open>The worklist attractor\<close>

fun add_preds :: "nat \<Rightarrow> nat list \<Rightarrow> nat list list \<Rightarrow> nat list list" where
  "add_preds u [] preds = preds"
| "add_preds u (v # vs) preds = add_preds u vs (preds[v := preds ! v @ [u]])"

definition predecessors :: "nat \<Rightarrow> nat list list \<Rightarrow> nat list list" where
  "predecessors n succs = fold (\<lambda>u. add_preds u (succs ! u)) [0..<n] (replicate n [])"

text \<open>The predecessors of one state taken from the work list; the back of the vector is the head.\<close>

fun attr_visit ::
  "nat \<Rightarrow> nat list \<Rightarrow> nat list \<Rightarrow> nat set \<times> nat list \<times> nat list \<Rightarrow> nat set \<times> nat list \<times> nat list" where
  "attr_visit p plr [] (attr, queue, deg) = (attr, queue, deg)"
| "attr_visit p plr (u # us) (attr, queue, deg) =
     (if u \<in> attr then attr_visit p plr us (attr, queue, deg)
      else if plr ! u = p then attr_visit p plr us (insert u attr, u # queue, deg)
      else
        let deg = deg[u := deg ! u - 1] in
        if deg ! u = 0 then attr_visit p plr us (insert u attr, u # queue, deg)
        else attr_visit p plr us (attr, queue, deg))"

partial_function (option) attr_loop ::
  "nat \<Rightarrow> nat list \<Rightarrow> nat list list \<Rightarrow> nat set \<Rightarrow> nat list \<Rightarrow> nat list \<Rightarrow> nat set option" where
  "attr_loop p plr preds attr queue deg =
     (case queue of
        [] \<Rightarrow> Some attr
      | v # rest \<Rightarrow>
          (case attr_visit p plr (preds ! v) (attr, rest, deg) of
             (attr, queue, deg) \<Rightarrow> attr_loop p plr preds attr queue deg))"

definition attractor :: "nat \<Rightarrow> nat set \<Rightarrow> nat \<Rightarrow> nat list \<Rightarrow> nat list list \<Rightarrow> nat set option" where
  "attractor p T n plr succs =
     attr_loop p plr (predecessors n succs) T (rev (sorted_list_of_set T)) (map (\<lambda>u. length (succs ! u)) [0..<n])"

section \<open>The recursion\<close>

definition restrict_succs :: "nat set \<Rightarrow> nat \<Rightarrow> nat list list \<Rightarrow> nat list list" where
  "restrict_succs V n succs =
     map (\<lambda>u. if u \<in> V then filter (\<lambda>v. v \<in> V) (succs ! u) else []) [0..<n]"

definition max_priority :: "int list \<Rightarrow> nat set \<Rightarrow> int" where
  "max_priority pri V = fold (\<lambda>u c. max c (pri ! u)) (sorted_list_of_set V) (-1)"

partial_function (option) solve ::
  "nat set \<Rightarrow> nat \<Rightarrow> nat list \<Rightarrow> int list \<Rightarrow> nat list list \<Rightarrow> (nat set \<times> nat set) option" where
  "solve V n plr pri succs =
     (if V = {} then Some ({}, {})
      else
        let succs_V = restrict_succs V n succs; c_max = max_priority pri V in
        if c_max < 0 then Some ({}, {})
        else
          let A = keep (\<lambda>u. pri ! u = c_max) V; b = nat (c_max mod 2) in
          Option.bind (attractor b A n plr succs_V) (\<lambda>X.
          Option.bind (solve (keep (\<lambda>u. u \<notin> X) V) n plr pri succs) (\<lambda>(W0p, W1p).
            let Wl = (if b = 0 then W1p else W0p) in
            if Wl = {} then Some (if b = 1 then (W0p, V) else (V, W1p))
            else
              Option.bind (attractor (1 - b) Wl n plr succs_V) (\<lambda>Y.
              Option.bind (solve (keep (\<lambda>u. u \<notin> Y) V) n plr pri succs) (\<lambda>(W0pp, W1pp).
                Some (if b = 1 then (Y \<union> Wl \<union> W0pp, W1pp) else (W0pp, Y \<union> Wl \<union> W1pp)))))))"

section \<open>Dead ends\<close>

text \<open>Whether the attractor takes \<open>u\<close>, within the states \<open>V\<close> that are left.\<close>

definition attracts :: "product_game \<Rightarrow> nat set \<Rightarrow> nat \<Rightarrow> nat set \<Rightarrow> nat \<Rightarrow> bool" where
  "attracts pg V p target u =
     (let vs = filter (\<lambda>v. v \<in> V) (pg_succs pg ! u) in
      if pg_player pg ! u = p then list_ex (\<lambda>v. v \<in> target) vs
      else vs \<noteq> [] \<and> list_all (\<lambda>v. v \<in> target) vs)"

text \<open>One pass over the states: the target and whether it changed.\<close>

fun attract_pass :: "product_game \<Rightarrow> nat set \<Rightarrow> nat \<Rightarrow> nat list \<Rightarrow> nat set \<times> bool \<Rightarrow> nat set \<times> bool" where
  "attract_pass pg V p [] (target, changed) = (target, changed)"
| "attract_pass pg V p (u # us) (target, changed) =
     (if u \<in> target then attract_pass pg V p us (target, changed)
      else if attracts pg V p target u then attract_pass pg V p us (insert u target, True)
      else attract_pass pg V p us (target, changed))"

partial_function (option) dead_end_attractor ::
  "product_game \<Rightarrow> nat set \<Rightarrow> nat \<Rightarrow> nat set \<Rightarrow> nat set option" where
  "dead_end_attractor pg V p target =
     (case attract_pass pg V p (sorted_list_of_set V) (target, False) of
        (target, changed) \<Rightarrow> if changed then dead_end_attractor pg V p target else Some target)"

definition dead_end :: "product_game \<Rightarrow> nat set \<Rightarrow> nat \<Rightarrow> bool" where
  "dead_end pg V u \<longleftrightarrow> \<not> list_ex (\<lambda>v. v \<in> V) (pg_succs pg ! u)"

text \<open>The states left and those won by player 1 when no dead end is left.\<close>

partial_function (option) strip_dead_ends ::
  "product_game \<Rightarrow> nat set \<Rightarrow> nat set \<Rightarrow> (nat set \<times> nat set) option" where
  "strip_dead_ends pg V W1acc =
     (let d_sys = keep (\<lambda>u. dead_end pg V u \<and> pg_player pg ! u = 1) V;
          d_env = keep (\<lambda>u. dead_end pg V u \<and> pg_player pg ! u \<noteq> 1) V in
      if d_sys = {} \<and> d_env = {} then Some (V, W1acc)
      else if d_sys \<noteq> {} then
        Option.bind (dead_end_attractor pg V 0 d_sys) (\<lambda>Z. strip_dead_ends pg (V - Z) W1acc)
      else
        Option.bind (dead_end_attractor pg V 1 d_env) (\<lambda>Z. strip_dead_ends pg (V - Z) (W1acc \<union> Z)))"

definition zielonka_win_player1 :: "product_game \<Rightarrow> nat set option" where
  "zielonka_win_player1 pg =
     Option.bind (strip_dead_ends pg (set [0..<pg_n_states pg]) {}) (\<lambda>(V, W1acc).
     Option.bind (solve V (pg_n_states pg) (pg_player pg) (pg_priority pg) (pg_succs pg)) (\<lambda>(W0, W1).
       Some (W1 \<union> W1acc)))"

declare attr_loop.simps [code] solve.simps [code] dead_end_attractor.simps [code] strip_dead_ends.simps [code]

end
