(* ===== verification/Game_Attractor.thy ===== *)
theory Game_Attractor imports Parity_Game begin

text \<open>
  What the two attractor computations return: the least set closed under the moves by which a
  player forces the play into a target. The locale \<open>attractor_contract\<close> states it once, with what
  the solver uses of it; the worklist and the repeated passes are its two interpretations.
\<close>

section \<open>Games and attracted states\<close>

definition game_ok :: "product_game \<Rightarrow> bool" where
  "game_ok pg \<longleftrightarrow> length (pg_player pg) = pg_n_states pg \<and> length (pg_priority pg) = pg_n_states pg \<and>
     length (pg_succs pg) = pg_n_states pg \<and> set (pg_player pg) \<subseteq> {0, 1} \<and>
     (\<forall>vs \<in> set (pg_succs pg). set vs \<subseteq> {..<pg_n_states pg})"

abbreviation states_of :: "product_game \<Rightarrow> nat set" where
  "states_of pg \<equiv> {..<pg_n_states pg}"

abbreviation owner :: "product_game \<Rightarrow> nat \<Rightarrow> nat" where
  "owner pg u \<equiv> pg_player pg ! u"

abbreviation moves_of :: "product_game \<Rightarrow> nat \<Rightarrow> nat set" where
  "moves_of pg u \<equiv> set (pg_succs pg ! u)"

lemma game_okD:
  assumes "game_ok pg" "u < pg_n_states pg"
  shows "owner pg u = 0 \<or> owner pg u = 1" "moves_of pg u \<subseteq> states_of pg"
proof -
  have "owner pg u \<in> set (pg_player pg)" "pg_succs pg ! u \<in> set (pg_succs pg)"
    using assms by (auto simp: game_ok_def)
  then show "owner pg u = 0 \<or> owner pg u = 1" "moves_of pg u \<subseteq> states_of pg"
    using assms(1) unfolding game_ok_def by blast+
qed

inductive_set attracted :: "product_game \<Rightarrow> nat set \<Rightarrow> nat \<Rightarrow> nat set \<Rightarrow> nat set"
  for pg V p T where
  target: "u \<in> T \<Longrightarrow> u \<in> attracted pg V p T"
| own: "u \<in> V \<Longrightarrow> owner pg u = p \<Longrightarrow> v \<in> moves_of pg u \<Longrightarrow> v \<in> V \<Longrightarrow> v \<in> attracted pg V p T \<Longrightarrow>
    u \<in> attracted pg V p T"
| other: "u \<in> V \<Longrightarrow> owner pg u \<noteq> p \<Longrightarrow> moves_of pg u \<inter> V \<noteq> {} \<Longrightarrow>
    (\<And>v. v \<in> moves_of pg u \<Longrightarrow> v \<in> V \<Longrightarrow> v \<in> attracted pg V p T) \<Longrightarrow> u \<in> attracted pg V p T"

lemma attracted_subset: "T \<subseteq> V \<Longrightarrow> attracted pg V p T \<subseteq> V"
proof
  fix u assume "T \<subseteq> V" "u \<in> attracted pg V p T"
  from this(2,1) show "u \<in> V" by induction auto
qed

lemma attracted_least:
  assumes "T \<subseteq> X"
    and "\<And>u. u \<in> V \<Longrightarrow> u \<notin> X \<Longrightarrow> owner pg u = p \<Longrightarrow> moves_of pg u \<inter> V \<inter> X = {}"
    and "\<And>u. u \<in> V \<Longrightarrow> u \<notin> X \<Longrightarrow> owner pg u \<noteq> p \<Longrightarrow> moves_of pg u \<inter> V \<noteq> {} \<Longrightarrow> \<not> moves_of pg u \<inter> V \<subseteq> X"
  shows "attracted pg V p T \<subseteq> X"
proof
  fix u assume "u \<in> attracted pg V p T"
  then show "u \<in> X"
  proof induction
    case (own u v)
    then show ?case using assms(2) by blast
  next
    case (other u)
    then show ?case using assms(3) by blast
  qed (use assms(1) in blast)
qed

text \<open>The layers of an attractor, and the distance to its target.\<close>

primrec layer :: "product_game \<Rightarrow> nat set \<Rightarrow> nat \<Rightarrow> nat set \<Rightarrow> nat \<Rightarrow> nat set" where
  "layer pg V p T 0 = T"
| "layer pg V p T (Suc k) = layer pg V p T k \<union>
     {u \<in> V. if owner pg u = p then moves_of pg u \<inter> V \<inter> layer pg V p T k \<noteq> {}
       else moves_of pg u \<inter> V \<noteq> {} \<and> moves_of pg u \<inter> V \<subseteq> layer pg V p T k}"

definition distance :: "product_game \<Rightarrow> nat set \<Rightarrow> nat \<Rightarrow> nat set \<Rightarrow> nat \<Rightarrow> nat" where
  "distance pg V p T u = (LEAST k. u \<in> layer pg V p T k)"

lemma layer_mono: "i \<le> j \<Longrightarrow> layer pg V p T i \<subseteq> layer pg V p T j"
  by (rule lift_Suc_mono_le) auto

lemma attracted_layer: "u \<in> attracted pg V p T \<Longrightarrow> \<exists>k. u \<in> layer pg V p T k"
proof (induction rule: attracted.induct)
  case (target u)
  then show ?case using layer.simps(1) by blast
next
  case (own u v)
  then obtain k where "v \<in> layer pg V p T k" by blast
  then have "u \<in> layer pg V p T (Suc k)" using own by auto
  then show ?case by blast
next
  case (other u)
  define f where "f v = (SOME k. v \<in> layer pg V p T k)" for v
  have f: "v \<in> layer pg V p T (f v)" if "v \<in> moves_of pg u" "v \<in> V" for v
    unfolding f_def using other.IH [OF that] by (rule someI_ex)
  define k where "k = Max (f ` moves_of pg u)"
  have "v \<in> layer pg V p T k" if "v \<in> moves_of pg u" "v \<in> V" for v
  proof -
    have "f v \<le> k" unfolding k_def using that(1) by (intro Max_ge) auto
    then show ?thesis using f [OF that] layer_mono by blast
  qed
  then have "u \<in> layer pg V p T (Suc k)" using other.hyps by auto
  then show ?case by blast
qed

lemma layer_attracted: "layer pg V p T k \<subseteq> attracted pg V p T"
proof (induction k)
  case (Suc k)
  show ?case
  proof
    fix u assume "u \<in> layer pg V p T (Suc k)"
    then consider "u \<in> layer pg V p T k"
      | "u \<in> V" "owner pg u = p" "moves_of pg u \<inter> V \<inter> layer pg V p T k \<noteq> {}"
      | "u \<in> V" "owner pg u \<noteq> p" "moves_of pg u \<inter> V \<noteq> {}" "moves_of pg u \<inter> V \<subseteq> layer pg V p T k"
      by (auto split: if_splits)
    then show "u \<in> attracted pg V p T"
    proof cases
      case 1
      then show ?thesis using Suc by blast
    next
      case 2
      then obtain v where "v \<in> moves_of pg u" "v \<in> V" "v \<in> layer pg V p T k" by blast
      then show ?thesis using 2(1,2) Suc by (blast intro: attracted.own)
    next
      case 3
      show ?thesis by (rule attracted.other [OF 3(1-3)]) (use 3(4) Suc in blast)
    qed
  qed
qed (auto intro: attracted.target)

lemma attracted_step:
  assumes "u \<in> attracted pg V p T" "u \<notin> T"
  shows "u \<in> V \<and> (if owner pg u = p
    then \<exists>v \<in> moves_of pg u \<inter> V. v \<in> attracted pg V p T \<and> distance pg V p T v < distance pg V p T u
    else moves_of pg u \<inter> V \<noteq> {} \<and>
      (\<forall>v \<in> moves_of pg u \<inter> V. v \<in> attracted pg V p T \<and> distance pg V p T v < distance pg V p T u))"
proof -
  define k where "k = distance pg V p T u"
  have k: "u \<in> layer pg V p T k"
    unfolding k_def distance_def using attracted_layer [OF assms(1)] by (rule LeastI_ex)
  have least: "u \<notin> layer pg V p T j" if "j < k" for j
    using that unfolding k_def distance_def by (rule not_less_Least)
  have lower: "distance pg V p T v \<le> j" if "v \<in> layer pg V p T j" for v j
    using that unfolding distance_def by (rule Least_le)
  obtain j where j: "k = Suc j" using k assms(2) by (cases k) auto
  then have "u \<notin> layer pg V p T j" using least by simp
  then have u: "u \<in> V" "if owner pg u = p then moves_of pg u \<inter> V \<inter> layer pg V p T j \<noteq> {}
       else moves_of pg u \<inter> V \<noteq> {} \<and> moves_of pg u \<inter> V \<subseteq> layer pg V p T j"
    using k unfolding j by auto
  have near: "v \<in> attracted pg V p T \<and> distance pg V p T v < distance pg V p T u"
    if "v \<in> layer pg V p T j" for v
    using layer_attracted [of pg V p T j] that lower [OF that] j unfolding k_def by auto
  show ?thesis
  proof (cases "owner pg u = p")
    case True
    then show ?thesis using u near by auto
  next
    case False
    then show ?thesis using u near by auto
  qed
qed

section \<open>The contract\<close>

locale attractor_contract =
  fixes att :: "product_game \<Rightarrow> nat set \<Rightarrow> nat \<Rightarrow> nat set \<Rightarrow> nat set option"
  assumes att: "game_ok pg \<Longrightarrow> V \<subseteq> states_of pg \<Longrightarrow> T \<subseteq> V \<Longrightarrow> att pg V p T = Some (attracted pg V p T)"
begin

lemma ends:
  assumes "game_ok pg" "V \<subseteq> states_of pg" "T \<subseteq> V"
  obtains X where "att pg V p T = Some X" "T \<subseteq> X" "X \<subseteq> V" "X = attracted pg V p T"
proof
  show "att pg V p T = Some (attracted pg V p T)" by (rule att [OF assms])
  show "T \<subseteq> attracted pg V p T" by (auto intro: attracted.target)
  show "attracted pg V p T \<subseteq> V" by (rule attracted_subset [OF assms(3)])
qed simp

text \<open>Outside an attractor its player has no move into it, and the other player one that avoids it.\<close>

lemma trap:
  assumes "game_ok pg" "V \<subseteq> states_of pg" "T \<subseteq> V" "att pg V p T = Some X" "u \<in> V - X"
  shows "owner pg u = p \<Longrightarrow> moves_of pg u \<inter> V \<inter> X = {}"
    and "owner pg u \<noteq> p \<Longrightarrow> moves_of pg u \<inter> V \<noteq> {} \<Longrightarrow> moves_of pg u \<inter> (V - X) \<noteq> {}"
proof -
  have X: "X = attracted pg V p T" using att [OF assms(1-3)] assms(4) by simp
  show "moves_of pg u \<inter> V \<inter> X = {}" if "owner pg u = p"
    using assms(5) that unfolding X by (blast intro: attracted.own)
  show "moves_of pg u \<inter> (V - X) \<noteq> {}" if "owner pg u \<noteq> p" "moves_of pg u \<inter> V \<noteq> {}"
  proof
    assume "moves_of pg u \<inter> (V - X) = {}"
    then have "v \<in> attracted pg V p T" if "v \<in> moves_of pg u" "v \<in> V" for v
      using that unfolding X by blast
    then have "u \<in> attracted pg V p T" using assms(5) that by (blast intro: attracted.other)
    then show False using assms(5) X by blast
  qed
qed

end

section \<open>The worklist\<close>

lemma length_restrict [simp]: "length (restrict_succs V n succs) = n"
  by (simp add: restrict_succs_def)

lemma restrict_nth: "u < n \<Longrightarrow> restrict_succs V n succs ! u = (if u \<in> V then filter (\<lambda>v. v \<in> V) (succs ! u) else [])"
  by (simp add: restrict_succs_def)

lemma add_preds_count:
  "\<forall>w \<in> set vs. w < length preds \<Longrightarrow> v < length preds \<Longrightarrow>
    length (add_preds u vs preds) = length preds \<and>
    count_list (add_preds u vs preds ! v) x = count_list (preds ! v) x + (if x = u then count_list vs v else 0)"
  by (induction vs arbitrary: preds) (auto simp: nth_list_update)

lemma fold_preds_count:
  assumes "\<forall>u \<in> set us. \<forall>w \<in> set (succs ! u). w < length preds" "v < length preds" "distinct us"
  shows "length (fold (\<lambda>u. add_preds u (succs ! u)) us preds) = length preds \<and>
    count_list (fold (\<lambda>u. add_preds u (succs ! u)) us preds ! v) x =
      count_list (preds ! v) x + (if x \<in> set us then count_list (succs ! x) v else 0)"
  using assms
proof (induction us arbitrary: preds)
  case (Cons u us)
  let ?p = "add_preds u (succs ! u) preds"
  have "length ?p = length preds" "count_list (?p ! v) x = count_list (preds ! v) x + (if x = u then count_list (succs ! u) v else 0)"
    using add_preds_count [of "succs ! u" preds v u x] Cons.prems by auto
  then show ?case using Cons.IH [of ?p] Cons.prems by auto
qed simp

lemma predecessors_count:
  assumes "\<forall>u < n. \<forall>w \<in> set (succs ! u). w < n" "v < n"
  shows "count_list (predecessors n succs ! v) u = (if u < n then count_list (succs ! u) v else 0)"
  using fold_preds_count [of "[0..<n]" succs "replicate n []" v u] assms by (simp add: predecessors_def)

text \<open>
  The state of the worklist while the predecessors \<open>us\<close> of the last state taken are visited:
  \<open>D\<close> are the states taken, and \<open>deg\<close> counts the moves not yet known to lead to them.
\<close>

definition visit_inv ::
  "product_game \<Rightarrow> nat set \<Rightarrow> nat \<Rightarrow> nat set \<Rightarrow> nat set \<Rightarrow> nat list \<Rightarrow> nat set \<times> nat list \<times> nat list \<Rightarrow> bool" where
  "visit_inv pg V p T D us = (\<lambda>(attr, queue, deg).
     let E = restrict_succs V (pg_n_states pg) (pg_succs pg) in
     attr = D \<union> set queue \<and> D \<inter> set queue = {} \<and> distinct queue \<and> T \<subseteq> attr \<and>
     attr \<subseteq> attracted pg V p T \<and> length deg = pg_n_states pg \<and>
     (\<forall>u \<in> V - attr. owner pg u = p \<longrightarrow> set (E ! u) \<inter> D = {} \<or> u \<in> set us) \<and>
     (\<forall>u \<in> V - attr. owner pg u \<noteq> p \<longrightarrow>
        deg ! u = length (filter (\<lambda>w. w \<notin> D) (E ! u)) + count_list us u \<and> (deg ! u = 0 \<longrightarrow> E ! u = [])))"

abbreviation inner_moves :: "product_game \<Rightarrow> nat set \<Rightarrow> nat list list" where
  "inner_moves pg V \<equiv> restrict_succs V (pg_n_states pg) (pg_succs pg)"

lemma visit_invD:
  assumes "visit_inv pg V p T D us (attr, queue, deg)"
  shows "attr = D \<union> set queue" "D \<inter> set queue = {}" "distinct queue" "T \<subseteq> attr" "attr \<subseteq> attracted pg V p T"
    "length deg = pg_n_states pg"
    and "\<And>u. u \<in> V \<Longrightarrow> u \<notin> attr \<Longrightarrow> owner pg u = p \<Longrightarrow> set (inner_moves pg V ! u) \<inter> D = {} \<or> u \<in> set us"
    and "\<And>u. u \<in> V \<Longrightarrow> u \<notin> attr \<Longrightarrow> owner pg u \<noteq> p \<Longrightarrow>
      deg ! u = length (filter (\<lambda>w. w \<notin> D) (inner_moves pg V ! u)) + count_list us u"
    and "\<And>u. u \<in> V \<Longrightarrow> u \<notin> attr \<Longrightarrow> owner pg u \<noteq> p \<Longrightarrow> deg ! u = 0 \<Longrightarrow> inner_moves pg V ! u = []"
  using assms unfolding visit_inv_def Let_def prod.case by blast+

lemma visit_invI:
  assumes "attr = D \<union> set queue" "D \<inter> set queue = {}" "distinct queue" "T \<subseteq> attr" "attr \<subseteq> attracted pg V p T"
    "length deg = pg_n_states pg"
    and "\<And>u. u \<in> V \<Longrightarrow> u \<notin> attr \<Longrightarrow> owner pg u = p \<Longrightarrow> set (inner_moves pg V ! u) \<inter> D = {} \<or> u \<in> set us"
    and "\<And>u. u \<in> V \<Longrightarrow> u \<notin> attr \<Longrightarrow> owner pg u \<noteq> p \<Longrightarrow>
      deg ! u = length (filter (\<lambda>w. w \<notin> D) (inner_moves pg V ! u)) + count_list us u \<and>
      (deg ! u = 0 \<longrightarrow> inner_moves pg V ! u = [])"
  shows "visit_inv pg V p T D us (attr, queue, deg)"
  unfolding visit_inv_def Let_def prod.case using assms by blast

lemma inner_moves_set: "V \<subseteq> states_of pg \<Longrightarrow> u \<in> V \<Longrightarrow> set (inner_moves pg V ! u) = moves_of pg u \<inter> V"
  by (auto simp: restrict_nth)

text \<open>Visiting one predecessor: it is in already, it joins, or one of its moves is counted off.\<close>

lemma visit_known:
  assumes "visit_inv pg V p T D (u # us) (attr, queue, deg)" "u \<in> attr"
  shows "visit_inv pg V p T D us (attr, queue, deg)"
proof (rule visit_invI)
  note inv = visit_invD [OF assms(1)]
  fix w assume w: "w \<in> V" "w \<notin> attr"
  then have "w \<noteq> u" using assms(2) by blast
  then show "set (inner_moves pg V ! w) \<inter> D = {} \<or> w \<in> set us" if "owner pg w = p"
    using inv(7) [OF w that] by simp
  show "deg ! w = length (filter (\<lambda>w. w \<notin> D) (inner_moves pg V ! w)) + count_list us w \<and>
      (deg ! w = 0 \<longrightarrow> inner_moves pg V ! w = [])" if "owner pg w \<noteq> p"
    using inv(8,9) [OF w that] \<open>w \<noteq> u\<close> by simp
qed (use visit_invD(1-6) [OF assms(1)] in blast)+

lemma visit_joins:
  assumes "visit_inv pg V p T D (u # us) (attr, queue, deg)" "u \<notin> attr" "u \<in> attracted pg V p T"
    and "length deg' = length deg" "\<And>w. w \<noteq> u \<Longrightarrow> deg' ! w = deg ! w"
  shows "visit_inv pg V p T D us (insert u attr, u # queue, deg')"
proof (rule visit_invI)
  note inv = visit_invD [OF assms(1)]
  fix w assume "w \<in> V" "w \<notin> insert u attr"
  then have w: "w \<in> V" "w \<notin> attr" "w \<noteq> u" by auto
  show "set (inner_moves pg V ! w) \<inter> D = {} \<or> w \<in> set us" if "owner pg w = p"
    using inv(7) [OF w(1,2) that] w(3) by simp
  show "deg' ! w = length (filter (\<lambda>w. w \<notin> D) (inner_moves pg V ! w)) + count_list us w \<and>
      (deg' ! w = 0 \<longrightarrow> inner_moves pg V ! w = [])" if "owner pg w \<noteq> p"
    using inv(8,9) [OF w(1,2) that] w(3) assms(5) [OF w(3)] by simp
next
  note inv = visit_invD(1-6) [OF assms(1)]
  have "u \<notin> D" "u \<notin> set queue" using assms(2) inv(1) by blast+
  then show "D \<inter> set (u # queue) = {}" "distinct (u # queue)" using inv(2,3) by simp_all
  show "insert u attr = D \<union> set (u # queue)" using inv(1) by simp
  show "T \<subseteq> insert u attr" "insert u attr \<subseteq> attracted pg V p T" using inv(4,5) assms(3) by blast+
  show "length deg' = pg_n_states pg" using inv(6) assms(4) by simp
qed

lemma visit_counts:
  assumes "visit_inv pg V p T D (u # us) (attr, queue, deg)" "u < pg_n_states pg" "deg ! u - 1 \<noteq> 0" "owner pg u \<noteq> p"
  shows "visit_inv pg V p T D us (attr, queue, deg[u := deg ! u - 1])"
proof (rule visit_invI)
  note inv = visit_invD [OF assms(1)]
  fix w assume w: "w \<in> V" "w \<notin> attr"
  show "set (inner_moves pg V ! w) \<inter> D = {} \<or> w \<in> set us" if "owner pg w = p"
    using inv(7) [OF w that] that assms(4) by auto
  show "deg[u := deg ! u - 1] ! w = length (filter (\<lambda>w. w \<notin> D) (inner_moves pg V ! w)) + count_list us w \<and>
      (deg[u := deg ! u - 1] ! w = 0 \<longrightarrow> inner_moves pg V ! w = [])" if "owner pg w \<noteq> p"
    using inv(8,9) [OF w that] assms(2,3) inv(6) by (cases "w = u") (auto simp: nth_list_update)
qed (use visit_invD(1-6) [OF assms(1)] in \<open>simp; blast\<close>)+

lemma attr_visit_inv:
  assumes V: "V \<subseteq> states_of pg" and v: "v \<in> D"
  shows "visit_inv pg V p T D us (attr, queue, deg) \<Longrightarrow>
    \<forall>u \<in> set us. u \<in> V \<and> v \<in> set (inner_moves pg V ! u) \<Longrightarrow>
    visit_inv pg V p T D [] (attr_visit p (pg_player pg) us (attr, queue, deg))"
proof (induction us arbitrary: attr queue deg)
  case (Cons u us)
  note inv = visit_invD [OF Cons.prems(1)]
  have u: "u \<in> V" "v \<in> moves_of pg u" "v \<in> V" "u < pg_n_states pg"
    using Cons.prems(2) V inner_moves_set [OF V] by auto
  have D: "D \<subseteq> attracted pg V p T" using inv(1,5) by blast
  have next': "\<forall>u \<in> set us. u \<in> V \<and> v \<in> set (inner_moves pg V ! u)" using Cons.prems(2) by simp
  consider "u \<in> attr" | "u \<notin> attr" "owner pg u = p" | "u \<notin> attr" "owner pg u \<noteq> p" "deg ! u - 1 = 0"
    | "u \<notin> attr" "owner pg u \<noteq> p" "deg ! u - 1 \<noteq> 0" by blast
  then show ?case
  proof cases
    case 1
    then show ?thesis using Cons.IH [OF visit_known [OF Cons.prems(1) 1] next'] by simp
  next
    case 2
    have "v \<in> attracted pg V p T" using v D by blast
    then have "u \<in> attracted pg V p T" by (rule attracted.own [OF u(1) 2(2) u(2,3)])
    from visit_joins [OF Cons.prems(1) 2(1) this] show ?thesis using Cons.IH next' 2 by simp
  next
    case 3
    have "length (filter (\<lambda>w. w \<notin> D) (inner_moves pg V ! u)) = 0"
      using inv(8) [OF u(1) 3(1,2)] 3(3) by simp
    then have "set (inner_moves pg V ! u) \<subseteq> D" by (auto simp: filter_empty_conv)
    then have "moves_of pg u \<inter> V \<subseteq> attracted pg V p T" using D inner_moves_set [OF V u(1)] by simp
    then have "u \<in> attracted pg V p T"
      using u by (intro attracted.other [OF u(1) 3(2)]) blast+
    from visit_joins [OF Cons.prems(1) 3(1) this, of "deg[u := deg ! u - 1]"] show ?thesis
      using Cons.IH next' 3 inv(6) u(4) by (simp add: Let_def)
  next
    case 4
    from visit_counts [OF Cons.prems(1) u(4) 4(3,2)] show ?thesis
      using Cons.IH next' 4 inv(6) u(4) by (simp add: Let_def)
  qed
qed simp

lemma length_filter_insert:
  "v \<notin> D \<Longrightarrow> length (filter (\<lambda>w. w \<notin> D) xs) = length (filter (\<lambda>w. w \<notin> insert v D) xs) + count_list xs v"
  by (induction xs) auto

lemma visit_takes:
  assumes V: "V \<subseteq> states_of pg" and inv: "visit_inv pg V p T D [] (attr, v # rest, deg)" and v: "v < pg_n_states pg"
  defines "us \<equiv> predecessors (pg_n_states pg) (inner_moves pg V) ! v"
  shows "visit_inv pg V p T (insert v D) us (attr, rest, deg)"
    and "\<forall>u \<in> set us. u \<in> V \<and> v \<in> set (inner_moves pg V ! u)"
proof -
  note inv = visit_invD [OF inv]
  have vD: "v \<notin> D" using inv(2) by simp
  have "\<forall>u < pg_n_states pg. \<forall>w \<in> set (inner_moves pg V ! u). w < pg_n_states pg"
    using V by (auto simp: restrict_nth)
  then have us: "count_list us u = (if u < pg_n_states pg then count_list (inner_moves pg V ! u) v else 0)" for u
    unfolding us_def using v by (rule predecessors_count)
  have preds: "u \<in> set us \<longleftrightarrow> u < pg_n_states pg \<and> v \<in> set (inner_moves pg V ! u)" for u
    using us [of u] by (metis count_list_0_iff)
  show "\<forall>u \<in> set us. u \<in> V \<and> v \<in> set (inner_moves pg V ! u)"
  proof
    fix u assume "u \<in> set us"
    then have u: "u < pg_n_states pg" "v \<in> set (inner_moves pg V ! u)" using preds by blast+
    then have "u \<in> V" by (simp add: restrict_nth split: if_splits)
    then show "u \<in> V \<and> v \<in> set (inner_moves pg V ! u)" using u(2) by blast
  qed
  show "visit_inv pg V p T (insert v D) us (attr, rest, deg)"
  proof (rule visit_invI)
    fix u assume u: "u \<in> V" "u \<notin> attr"
    then have n: "u < pg_n_states pg" using V by auto
    show "set (inner_moves pg V ! u) \<inter> insert v D = {} \<or> u \<in> set us" if "owner pg u = p"
      using inv(7) [OF u that] preds [of u] n by auto
    show "deg ! u = length (filter (\<lambda>w. w \<notin> insert v D) (inner_moves pg V ! u)) + count_list us u \<and>
        (deg ! u = 0 \<longrightarrow> inner_moves pg V ! u = [])" if "owner pg u \<noteq> p"
      using inv(8,9) [OF u that] us [of u] n length_filter_insert [OF vD, of "inner_moves pg V ! u"] by simp
  next
    show "attr = insert v D \<union> set rest" using inv(1) by simp
    show "insert v D \<inter> set rest = {}" "distinct rest" using inv(2,3) by auto
  qed (rule inv(4), rule inv(5), rule inv(6))
qed

lemma visit_finished:
  assumes V: "V \<subseteq> states_of pg" and inv: "visit_inv pg V p T D [] (attr, [], deg)"
  shows "attr = attracted pg V p T"
proof
  note inv = visit_invD [OF inv]
  have attr: "attr = D" using inv(1) by simp
  show "attr \<subseteq> attracted pg V p T" by (rule inv(5))
  show "attracted pg V p T \<subseteq> attr"
  proof (rule attracted_least [OF inv(4)])
    fix u assume u: "u \<in> V" "u \<notin> attr"
    show "moves_of pg u \<inter> V \<inter> attr = {}" if "owner pg u = p"
      using inv(7) [OF u that] inner_moves_set [OF V u(1)] attr by simp
    show "\<not> moves_of pg u \<inter> V \<subseteq> attr" if h: "owner pg u \<noteq> p" "moves_of pg u \<inter> V \<noteq> {}"
    proof
      assume "moves_of pg u \<inter> V \<subseteq> attr"
      then have "set (inner_moves pg V ! u) \<subseteq> D" unfolding inner_moves_set [OF V u(1)] attr .
      then have "filter (\<lambda>w. w \<notin> D) (inner_moves pg V ! u) = []" unfolding filter_empty_conv by blast
      then have "deg ! u = 0" using inv(8) [OF u h(1)] by simp
      then have "inner_moves pg V ! u = []" by (rule inv(9) [OF u h(1)])
      then show False using inner_moves_set [OF V u(1)] h(2) by simp
    qed
  qed
qed

lemma attr_loop_attracted:
  assumes V: "V \<subseteq> states_of pg" and T: "T \<subseteq> V"
  shows "visit_inv pg V p T D [] (attr, queue, deg) \<Longrightarrow>
    attr_loop p (pg_player pg) (predecessors (pg_n_states pg) (inner_moves pg V)) attr queue deg =
      Some (attracted pg V p T)"
proof (induction "card (attracted pg V p T - D)" arbitrary: D attr queue deg rule: less_induct)
  case less
  let ?A = "attracted pg V p T" and ?preds = "predecessors (pg_n_states pg) (inner_moves pg V)"
  note inv = visit_invD [OF less.prems]
  have fin: "finite ?A"
    using attracted_subset [OF T] V by (meson finite_lessThan finite_subset)
  show ?case
  proof (cases queue)
    case Nil
    then show ?thesis using visit_finished [OF V] less.prems by (simp add: attr_loop.simps)
  next
    case (Cons v rest)
    have "v \<in> set queue" using Cons by simp
    then have v: "v \<notin> D" "v \<in> ?A" using inv(1,2,5) by blast+
    then have n: "v < pg_n_states pg" using attracted_subset [OF T] V by auto
    note taken = visit_takes [OF V less.prems [unfolded Cons] n]
    obtain a q d where r: "attr_visit p (pg_player pg) (?preds ! v) (attr, rest, deg) = (a, q, d)"
      by (rule prod_cases3)
    have "visit_inv pg V p T (insert v D) [] (a, q, d)"
      using attr_visit_inv [OF V _ taken] unfolding r by simp
    moreover have "card (?A - insert v D) < card (?A - D)"
      by (rule psubset_card_mono) (use fin v in auto)
    ultimately have "attr_loop p (pg_player pg) ?preds a q d = Some ?A" using less.hyps by blast
    then show ?thesis using Cons r by (simp add: attr_loop.simps)
  qed
qed

lemma attractor_attracted:
  assumes "game_ok pg" "V \<subseteq> states_of pg" "T \<subseteq> V"
  shows "attractor p T (pg_n_states pg) (pg_player pg) (restrict_succs V (pg_n_states pg) (pg_succs pg)) =
    Some (attracted pg V p T)"
proof -
  have fin: "finite T" using assms by (meson finite_lessThan finite_subset)
  have "visit_inv pg V p T {} [] (T, rev (sorted_list_of_set T),
      map (\<lambda>u. length (inner_moves pg V ! u)) [0..<pg_n_states pg])"
  proof (rule visit_invI)
    fix u assume "u \<in> V" "u \<notin> T"
    then have "u < pg_n_states pg" using assms(2) by auto
    then show "map (\<lambda>u. length (inner_moves pg V ! u)) [0..<pg_n_states pg] ! u =
        length (filter (\<lambda>w. w \<notin> {}) (inner_moves pg V ! u)) + count_list [] u \<and>
        (map (\<lambda>u. length (inner_moves pg V ! u)) [0..<pg_n_states pg] ! u = 0 \<longrightarrow> inner_moves pg V ! u = [])"
      by simp
  qed (use fin in \<open>auto intro: attracted.target\<close>)
  from attr_loop_attracted [OF assms(2,3) this] show ?thesis by (simp add: attractor_def)
qed

interpretation worklist: attractor_contract
  "\<lambda>pg V p T. attractor p T (pg_n_states pg) (pg_player pg) (restrict_succs V (pg_n_states pg) (pg_succs pg))"
  by unfold_locales (rule attractor_attracted)

section \<open>The repeated passes\<close>

lemma attracts_iff:
  "attracts pg V p X u \<longleftrightarrow> (if owner pg u = p then moves_of pg u \<inter> V \<inter> X \<noteq> {}
     else moves_of pg u \<inter> V \<noteq> {} \<and> moves_of pg u \<inter> V \<subseteq> X)"
  by (auto simp: attracts_def Let_def list_ex_iff list_all_iff filter_empty_conv)

lemma attract_pass_spec:
  assumes "attract_pass pg V p us (X, c) = (Y, c')" "X \<subseteq> attracted pg V p T" "set us \<subseteq> V"
  shows "X \<subseteq> Y \<and> Y \<subseteq> attracted pg V p T \<and> (c' \<longleftrightarrow> c \<or> Y \<noteq> X) \<and>
    (Y = X \<longrightarrow> (\<forall>u \<in> set us. u \<notin> X \<longrightarrow> \<not> attracts pg V p X u))"
  using assms
proof (induction us arbitrary: X c)
  case (Cons u us)
  show ?case
  proof (cases "u \<notin> X \<and> attracts pg V p X u")
    case True
    have "u \<in> attracted pg V p T"
    proof (cases "owner pg u = p")
      case own: True
      then obtain v where "v \<in> moves_of pg u" "v \<in> V" "v \<in> X" using True by (auto simp: attracts_iff)
      then show ?thesis using Cons.prems(2,3) own by (auto intro: attracted.own)
    next
      case False
      then have h: "moves_of pg u \<inter> V \<noteq> {}" "moves_of pg u \<inter> V \<subseteq> X" using True by (auto simp: attracts_iff)
      have "u \<in> V" using Cons.prems(3) by simp
      then show ?thesis by (rule attracted.other [OF _ False h(1)]) (use h(2) Cons.prems(2) in blast)
    qed
    then have "insert u X \<subseteq> attracted pg V p T" using Cons.prems(2) by simp
    then show ?thesis using Cons.IH [of "insert u X" True] Cons.prems True by auto
  next
    case False
    then have "attract_pass pg V p us (X, c) = (Y, c')" using Cons.prems(1) by (auto split: if_splits)
    from Cons.IH [OF this Cons.prems(2)] show ?thesis using Cons.prems(3) False by auto
  qed
qed simp

lemma dead_end_attractor_attracted:
  assumes V: "V \<subseteq> states_of pg" and T: "T \<subseteq> V"
  shows "T \<subseteq> X \<Longrightarrow> X \<subseteq> attracted pg V p T \<Longrightarrow> dead_end_attractor pg V p X = Some (attracted pg V p T)"
proof (induction "card (attracted pg V p T - X)" arbitrary: X rule: less_induct)
  case less
  let ?A = "attracted pg V p T"
  have fin: "finite ?A" "finite V"
    using attracted_subset [OF T] V by (meson finite_lessThan finite_subset)+
  obtain Y c where r: "attract_pass pg V p (sorted_list_of_set V) (X, False) = (Y, c)" by (rule prod.exhaust)
  from attract_pass_spec [OF r less.prems(2)] fin(2)
  have Y: "X \<subseteq> Y" "Y \<subseteq> ?A" "c \<longleftrightarrow> Y \<noteq> X"
      "Y = X \<Longrightarrow> \<forall>u \<in> V. u \<notin> X \<longrightarrow> \<not> attracts pg V p X u" by auto
  show ?case
  proof (cases "Y = X")
    case True
    have "?A \<subseteq> X"
    proof (rule attracted_least [OF less.prems(1)])
      fix u assume u: "u \<in> V" "u \<notin> X"
      then have "\<not> attracts pg V p X u" using Y(4) [OF True] by blast
      then show "owner pg u = p \<Longrightarrow> moves_of pg u \<inter> V \<inter> X = {}"
        and "owner pg u \<noteq> p \<Longrightarrow> moves_of pg u \<inter> V \<noteq> {} \<Longrightarrow> \<not> moves_of pg u \<inter> V \<subseteq> X"
        by (simp_all add: attracts_iff)
    qed
    then show ?thesis
      using r Y(3) True less.prems(2) by (subst dead_end_attractor.simps) auto
  next
    case False
    then have "card (?A - Y) < card (?A - X)"
      using Y(1,2) fin(1) by (intro psubset_card_mono) auto
    moreover have "T \<subseteq> Y" using less.prems(1) Y(1) by blast
    ultimately have "dead_end_attractor pg V p Y = Some ?A" using less.hyps Y(2) by blast
    then show ?thesis using r Y(3) False by (subst dead_end_attractor.simps) simp
  qed
qed

interpretation passes: attractor_contract dead_end_attractor
  by unfold_locales (auto intro: dead_end_attractor_attracted attracted.target)

end
