(* ===== verification/Zielonka.thy ===== *)
theory Zielonka imports Game_Attractor begin

text \<open>
  The parity game solver is correct: plays and winning regions, the three ways a region grows, and
  the proof that \<open>solve\<close> and \<open>zielonka_win_player1\<close> end and split the states into the winning
  regions of the two players.
\<close>

section \<open>Plays and winning regions\<close>

abbreviation priority_of :: "product_game \<Rightarrow> nat \<Rightarrow> int" where
  "priority_of pg u \<equiv> pg_priority pg ! u"

text \<open>The greatest priority that recurs has the parity of the player.\<close>

definition won_by :: "product_game \<Rightarrow> nat \<Rightarrow> (nat \<Rightarrow> nat) \<Rightarrow> bool" where
  "won_by pg p \<pi> \<longleftrightarrow> (\<exists>m. (\<forall>k. \<exists>i \<ge> k. priority_of pg (\<pi> i) = m) \<and>
     (\<exists>k. \<forall>i \<ge> k. priority_of pg (\<pi> i) \<le> m) \<and> m mod 2 = int p)"

definition obeys :: "product_game \<Rightarrow> nat \<Rightarrow> (nat \<Rightarrow> nat) \<Rightarrow> (nat \<Rightarrow> nat) \<Rightarrow> bool" where
  "obeys pg p \<sigma> \<pi> \<longleftrightarrow>
     (\<forall>i. \<pi> (Suc i) \<in> moves_of pg (\<pi> i) \<and> (owner pg (\<pi> i) = p \<longrightarrow> \<pi> (Suc i) = \<sigma> (\<pi> i)))"

text \<open>
  A region of a player within \<open>V\<close>: the strategy moves inside it, the opponent cannot leave it within
  \<open>V\<close>, and the plays that stay in it are won.
\<close>

definition region :: "product_game \<Rightarrow> nat set \<Rightarrow> nat \<Rightarrow> (nat \<Rightarrow> nat) \<Rightarrow> nat set \<Rightarrow> bool" where
  "region pg V p \<sigma> W \<longleftrightarrow> W \<subseteq> V \<and>
     (\<forall>u \<in> W. if owner pg u = p then \<sigma> u \<in> moves_of pg u \<inter> W else moves_of pg u \<inter> V \<subseteq> W) \<and>
     (\<forall>\<pi>. (\<forall>i. \<pi> i \<in> W) \<longrightarrow> obeys pg p \<sigma> \<pi> \<longrightarrow> won_by pg p \<pi>)"

lemma regionD:
  assumes "region pg V p \<sigma> W"
  shows "W \<subseteq> V"
    and "\<And>u. u \<in> W \<Longrightarrow> owner pg u = p \<Longrightarrow> \<sigma> u \<in> moves_of pg u \<inter> W"
    and "\<And>u. u \<in> W \<Longrightarrow> owner pg u \<noteq> p \<Longrightarrow> moves_of pg u \<inter> V \<subseteq> W"
    and "\<And>\<pi>. (\<And>i. \<pi> i \<in> W) \<Longrightarrow> obeys pg p \<sigma> \<pi> \<Longrightarrow> won_by pg p \<pi>"
proof -
  show "W \<subseteq> V" using assms unfolding region_def by blast
  have all: "\<forall>u \<in> W. if owner pg u = p then \<sigma> u \<in> moves_of pg u \<inter> W else moves_of pg u \<inter> V \<subseteq> W"
    using assms unfolding region_def by blast
  show "\<sigma> u \<in> moves_of pg u \<inter> W" if "u \<in> W" "owner pg u = p" for u
    using all [rule_format, OF that(1)] that(2) by simp
  show "moves_of pg u \<inter> V \<subseteq> W" if "u \<in> W" "owner pg u \<noteq> p" for u
    using all [rule_format, OF that(1)] that(2) by simp
  show "won_by pg p \<pi>" if "\<And>i. \<pi> i \<in> W" "obeys pg p \<sigma> \<pi>" for \<pi>
    using assms that unfolding region_def by blast
qed

lemma regionI:
  assumes "W \<subseteq> V"
    and "\<And>u. u \<in> W \<Longrightarrow> owner pg u = p \<Longrightarrow> \<sigma> u \<in> moves_of pg u \<inter> W"
    and "\<And>u. u \<in> W \<Longrightarrow> owner pg u \<noteq> p \<Longrightarrow> moves_of pg u \<inter> V \<subseteq> W"
    and "\<And>\<pi>. (\<And>i. \<pi> i \<in> W) \<Longrightarrow> obeys pg p \<sigma> \<pi> \<Longrightarrow> won_by pg p \<pi>"
  shows "region pg V p \<sigma> W"
  unfolding region_def using assms by simp

lemma region_empty: "region pg V p \<sigma> {}"
  by (rule regionI) simp_all

lemma won_by_suffix:
  assumes "won_by pg p (\<lambda>i. \<pi> (i + k))"
  shows "won_by pg p \<pi>"
proof -
  obtain m j where m: "\<forall>k'. \<exists>i \<ge> k'. priority_of pg (\<pi> (i + k)) = m"
      "\<forall>i \<ge> j. priority_of pg (\<pi> (i + k)) \<le> m" "m mod 2 = int p"
    using assms unfolding won_by_def by blast
  have "\<exists>i \<ge> k'. priority_of pg (\<pi> i) = m" for k'
  proof -
    obtain i where "i \<ge> k'" "priority_of pg (\<pi> (i + k)) = m" using m(1) by blast
    then show ?thesis by (intro exI [of _ "i + k"]) simp
  qed
  moreover have "priority_of pg (\<pi> i) \<le> m" if "i \<ge> j + k" for i
    using m(2) [rule_format, of "i - k"] that by simp
  ultimately show ?thesis unfolding won_by_def using m(3) by blast
qed

lemma obeys_suffix: "obeys pg p \<sigma> \<pi> \<Longrightarrow> obeys pg p \<sigma> (\<lambda>i. \<pi> (i + k))"
  by (simp add: obeys_def)

lemma obeys_cong:
  assumes "obeys pg p \<sigma> \<pi>" "\<And>i. owner pg (\<pi> i) = p \<Longrightarrow> \<sigma>' (\<pi> i) = \<sigma> (\<pi> i)"
  shows "obeys pg p \<sigma>' \<pi>"
  using assms by (simp add: obeys_def)

text \<open>A play that enters a region and follows its strategy there stays in it, and is won.\<close>

lemma region_entered:
  assumes R: "region pg V p \<sigma> W" and \<pi>: "\<And>i. \<pi> i \<in> V" "obeys pg p \<sigma>' \<pi>"
    and same: "\<And>u. u \<in> W \<Longrightarrow> \<sigma>' u = \<sigma> u" and k: "\<pi> k \<in> W"
  shows "won_by pg p \<pi>"
proof -
  have stays: "\<pi> (i + k) \<in> W" for i
  proof (induction i)
    case (Suc i)
    have step: "\<pi> (Suc (i + k)) \<in> moves_of pg (\<pi> (i + k))"
        "owner pg (\<pi> (i + k)) = p \<Longrightarrow> \<pi> (Suc (i + k)) = \<sigma> (\<pi> (i + k))"
      using \<pi>(2) same [OF Suc] unfolding obeys_def by auto
    show ?case
    proof (cases "owner pg (\<pi> (i + k)) = p")
      case True
      then show ?thesis using step(2) regionD(2) [OF R Suc True] by simp
    next
      case False
      then show ?thesis using step(1) regionD(3) [OF R Suc False] \<pi>(1) by auto
    qed
  qed (use k in simp)
  have "obeys pg p \<sigma> (\<lambda>i. \<pi> (i + k))"
    by (rule obeys_cong [OF obeys_suffix [OF \<pi>(2)]]) (use same stays in simp)
  from regionD(4) [OF R stays this] show ?thesis by (rule won_by_suffix)
qed

section \<open>How a region grows\<close>

text \<open>By states from which its player forces the play into it, measured by a distance.\<close>

lemma extend_region:
  fixes d :: "nat \<Rightarrow> nat"
  assumes R: "region pg V p \<sigma> W" and Z: "Z \<subseteq> V"
    and own: "\<And>u. u \<in> Z - W \<Longrightarrow> owner pg u = p \<Longrightarrow> \<tau> u \<in> moves_of pg u \<and> (\<tau> u \<in> W \<or> \<tau> u \<in> Z \<and> d (\<tau> u) < d u)"
    and other: "\<And>u v. u \<in> Z - W \<Longrightarrow> owner pg u \<noteq> p \<Longrightarrow> v \<in> moves_of pg u \<Longrightarrow> v \<in> V \<Longrightarrow>
      v \<in> W \<or> v \<in> Z \<and> d v < d u"
  shows "region pg V p (\<lambda>u. if u \<in> W then \<sigma> u else \<tau> u) (W \<union> Z)" (is "region pg V p ?s _")
proof (rule regionI)
  show "W \<union> Z \<subseteq> V" using regionD(1) [OF R] Z by blast
  fix u assume u: "u \<in> W \<union> Z"
  show "?s u \<in> moves_of pg u \<inter> (W \<union> Z)" if "owner pg u = p"
    using u regionD(2) [OF R, of u] own [of u] that by auto
  show "moves_of pg u \<inter> V \<subseteq> W \<union> Z" if "owner pg u \<noteq> p"
    using u regionD(3) [OF R, of u] other [of u] that by auto
next
  fix \<pi> assume \<pi>: "\<And>i. \<pi> i \<in> W \<union> Z" "obeys pg p ?s \<pi>"
  have V: "\<pi> i \<in> V" for i using \<pi>(1) [of i] regionD(1) [OF R] Z by blast
  have "\<exists>k. \<pi> k \<in> W" if "d (\<pi> i) = n" for i n
    using that
  proof (induction n arbitrary: i rule: less_induct)
    case (less n)
    show ?case
    proof (cases "\<pi> i \<in> W \<or> \<pi> (Suc i) \<in> W")
      case out: False
      then have Zi: "\<pi> i \<in> Z - W" using \<pi>(1) by blast
      have step: "\<pi> (Suc i) \<in> moves_of pg (\<pi> i)" "owner pg (\<pi> i) = p \<Longrightarrow> \<pi> (Suc i) = \<tau> (\<pi> i)"
        using \<pi>(2) out unfolding obeys_def by auto
      have "d (\<pi> (Suc i)) < n"
      proof (cases "owner pg (\<pi> i) = p")
        case True
        then show ?thesis using own [OF Zi True] step(2) out less.prems by auto
      next
        case False
        then show ?thesis using other [OF Zi False step(1) V] out less.prems by auto
      qed
      from less.IH [OF this refl] show ?thesis .
    qed blast
  qed
  then obtain k where "\<pi> k \<in> W" by blast
  from region_entered [OF R V \<pi>(2) _ this] show "won_by pg p \<pi>" by simp
qed

text \<open>By a region of a subgame that the opponent can leave only into it.\<close>

lemma join_region:
  assumes R: "region pg U p \<sigma> W" and R': "region pg V p \<sigma>' W'" and V: "V \<subseteq> U"
    and other: "\<And>u. u \<in> W' \<Longrightarrow> owner pg u \<noteq> p \<Longrightarrow> moves_of pg u \<inter> U \<subseteq> W \<union> V"
  shows "region pg U p (\<lambda>u. if u \<in> W then \<sigma> u else \<sigma>' u) (W \<union> W')" (is "region pg U p ?s _")
proof (rule regionI)
  show "W \<union> W' \<subseteq> U" using regionD(1) [OF R] regionD(1) [OF R'] V by blast
  fix u assume u: "u \<in> W \<union> W'"
  show "?s u \<in> moves_of pg u \<inter> (W \<union> W')" if "owner pg u = p"
    using u regionD(2) [OF R, of u] regionD(2) [OF R', of u] that by auto
  show "moves_of pg u \<inter> U \<subseteq> W \<union> W'" if p: "owner pg u \<noteq> p"
  proof (cases "u \<in> W")
    case True
    then show ?thesis using regionD(3) [OF R True p] by blast
  next
    case False
    then have "u \<in> W'" using u by blast
    then show ?thesis using regionD(3) [OF R' _ p] other [OF _ p] by blast
  qed
next
  fix \<pi> assume \<pi>: "\<And>i. \<pi> i \<in> W \<union> W'" "obeys pg p ?s \<pi>"
  have U: "\<pi> i \<in> U" for i using \<pi>(1) [of i] regionD(1) [OF R] regionD(1) [OF R'] V by blast
  show "won_by pg p \<pi>"
  proof (cases "\<exists>k. \<pi> k \<in> W")
    case True
    then obtain k where "\<pi> k \<in> W" by blast
    from region_entered [OF R U \<pi>(2) _ this] show ?thesis by simp
  next
    case False
    then have "\<And>i. \<pi> i \<in> W'" using \<pi>(1) by blast
    moreover have "obeys pg p \<sigma>' \<pi>" by (rule obeys_cong [OF \<pi>(2)]) (use False in simp)
    ultimately show ?thesis by (rule regionD(4) [OF R'])
  qed
qed

text \<open>An attractor of a region is a region.\<close>

lemma attracted_region:
  assumes R: "region pg V p \<sigma> W" and T: "T \<subseteq> W"
  shows "\<exists>\<sigma>'. region pg V p \<sigma>' (W \<union> attracted pg V p T)"
proof -
  let ?d = "distance pg V p T" and ?A = "attracted pg V p T"
  define \<tau> where "\<tau> u = (SOME v. v \<in> moves_of pg u \<and> v \<in> ?A \<and> ?d v < ?d u)" for u
  have TV: "T \<subseteq> V" using T regionD(1) [OF R] by blast
  have "region pg V p (\<lambda>u. if u \<in> W then \<sigma> u else \<tau> u) (W \<union> ?A)"
  proof (rule extend_region [OF R attracted_subset [OF TV]])
    fix u assume u: "u \<in> ?A - W"
    then have "u \<in> ?A" "u \<notin> T" using T by blast+
    note step = attracted_step [OF this]
    show "\<tau> u \<in> moves_of pg u \<and> (\<tau> u \<in> W \<or> \<tau> u \<in> ?A \<and> ?d (\<tau> u) < ?d u)" if "owner pg u = p"
    proof -
      have "\<exists>v. v \<in> moves_of pg u \<and> v \<in> ?A \<and> ?d v < ?d u" using step that by auto
      then show ?thesis unfolding \<tau>_def by (rule someI2_ex) blast
    qed
    show "v \<in> W \<or> v \<in> ?A \<and> ?d v < ?d u"
      if "owner pg u \<noteq> p" "v \<in> moves_of pg u" "v \<in> V" for v
      using step that by auto
  qed
  then show ?thesis by blast
qed

text \<open>
  When its player wins the rest of a subgame without dead ends, the attractor of the states of
  greatest priority makes the whole subgame a region: a play returns to those states or ends up in
  the rest.
\<close>

lemma top_region:
  assumes live: "\<And>u. u \<in> V \<Longrightarrow> moves_of pg u \<inter> V \<noteq> {}"
    and A: "A = {u \<in> V. priority_of pg u = c}" and top: "\<And>u. u \<in> V \<Longrightarrow> priority_of pg u \<le> c" and c: "c mod 2 = int b"
    and R: "region pg (V - attracted pg V b A) b \<sigma> (V - attracted pg V b A)"
  shows "\<exists>\<sigma>'. region pg V b \<sigma>' V"
proof -
  let ?X = "attracted pg V b A" and ?d = "distance pg V b A"
  define \<tau> where "\<tau> u = (if u \<in> A then SOME v. v \<in> moves_of pg u \<inter> V
    else SOME v. v \<in> moves_of pg u \<inter> V \<and> v \<in> ?X \<and> ?d v < ?d u)" for u
  define s where "s u = (if u \<in> ?X then \<tau> u else \<sigma> u)" for u
  have \<tau>A: "\<tau> u \<in> moves_of pg u \<inter> V" if "u \<in> A" for u
  proof -
    have "\<exists>v. v \<in> moves_of pg u \<inter> V" using live that A by blast
    then have "(SOME v. v \<in> moves_of pg u \<inter> V) \<in> moves_of pg u \<inter> V" by (rule someI_ex)
    then show ?thesis unfolding \<tau>_def using that by simp
  qed
  have \<tau>X: "\<tau> u \<in> moves_of pg u \<inter> V \<and> \<tau> u \<in> ?X \<and> ?d (\<tau> u) < ?d u" if "u \<in> ?X" "u \<notin> A" "owner pg u = b" for u
  proof -
    have "\<exists>v. v \<in> moves_of pg u \<inter> V \<and> v \<in> ?X \<and> ?d v < ?d u"
      using attracted_step [OF that(1,2)] that(3) by auto
    then have "(SOME v. v \<in> moves_of pg u \<inter> V \<and> v \<in> ?X \<and> ?d v < ?d u) \<in> moves_of pg u \<inter> V \<and>
       (SOME v. v \<in> moves_of pg u \<inter> V \<and> v \<in> ?X \<and> ?d v < ?d u) \<in> ?X \<and>
       ?d (SOME v. v \<in> moves_of pg u \<inter> V \<and> v \<in> ?X \<and> ?d v < ?d u) < ?d u" by (rule someI_ex)
    then show ?thesis unfolding \<tau>_def using that(2) by simp
  qed
  have "region pg V b s V"
  proof (rule regionI)
    fix u assume u: "u \<in> V" "owner pg u = b"
    show "s u \<in> moves_of pg u \<inter> V"
    proof (cases "u \<in> ?X")
      case True
      then show ?thesis using \<tau>A [of u] \<tau>X [OF True _ u(2)] unfolding s_def by (cases "u \<in> A") auto
    next
      case False
      then show ?thesis using regionD(2) [OF R, of u] u unfolding s_def by auto
    qed
  next
    fix \<pi> assume \<pi>: "\<And>i. \<pi> i \<in> V" "obeys pg b s \<pi>"
    show "won_by pg b \<pi>"
    proof (cases "\<forall>k. \<exists>i \<ge> k. \<pi> i \<in> ?X")
      case True
      have hits: "\<exists>j \<ge> i. \<pi> j \<in> A" if "\<pi> i \<in> ?X" "?d (\<pi> i) = n" for i n
        using that
      proof (induction n arbitrary: i rule: less_induct)
        case (less n)
        show ?case
        proof (cases "\<pi> i \<in> A")
          case False
          have step: "\<pi> (Suc i) \<in> moves_of pg (\<pi> i)" "owner pg (\<pi> i) = b \<Longrightarrow> \<pi> (Suc i) = \<tau> (\<pi> i)"
            using \<pi>(2) less.prems(1) unfolding obeys_def s_def by auto
          have "\<pi> (Suc i) \<in> ?X \<and> ?d (\<pi> (Suc i)) < n"
          proof (cases "owner pg (\<pi> i) = b")
            case True
            then show ?thesis using \<tau>X [OF less.prems(1) False True] step(2) less.prems(2) by simp
          next
            case other: False
            then show ?thesis using attracted_step [OF less.prems(1) False] step(1) \<pi>(1) less.prems(2) by auto
          qed
          then obtain j where "j \<ge> Suc i" "\<pi> j \<in> A" using less.IH by blast
          then show ?thesis by (meson Suc_leD)
        qed blast
      qed
      have "\<exists>i \<ge> k. priority_of pg (\<pi> i) = c" for k
      proof -
        obtain i where "i \<ge> k" "\<pi> i \<in> ?X" using True by blast
        then obtain j where "j \<ge> k" "\<pi> j \<in> A" using hits by (meson order_trans)
        then show ?thesis using A by blast
      qed
      moreover have "\<forall>i \<ge> 0. priority_of pg (\<pi> i) \<le> c" using top \<pi>(1) by blast
      ultimately show ?thesis unfolding won_by_def using c by blast
    next
      case False
      then obtain k where k: "\<And>i. i \<ge> k \<Longrightarrow> \<pi> i \<notin> ?X" by blast
      have rest: "\<pi> (i + k) \<in> V - ?X" for i using k [of "i + k"] \<pi>(1) by simp
      have "obeys pg b \<sigma> (\<lambda>i. \<pi> (i + k))"
        by (rule obeys_cong [OF obeys_suffix [OF \<pi>(2)]]) (use rest in \<open>simp add: s_def\<close>)
      from regionD(4) [OF R rest this] show ?thesis by (rule won_by_suffix)
    qed
  qed simp_all
  then show ?thesis by blast
qed

section \<open>The recursion\<close>

lemma keep_diff: "finite V \<Longrightarrow> keep P V = {u \<in> V. P u}"
  by (auto simp: keep_def)

lemma fold_max:
  fixes pri :: "int list"
  shows "(\<forall>u \<in> set us. pri ! u \<le> fold (\<lambda>u c. max c (pri ! u)) us c) \<and> c \<le> fold (\<lambda>u c. max c (pri ! u)) us c \<and>
    (fold (\<lambda>u c. max c (pri ! u)) us c = c \<or> (\<exists>u \<in> set us. fold (\<lambda>u c. max c (pri ! u)) us c = pri ! u))"
proof (induction us arbitrary: c)
  case (Cons u us)
  show ?case using Cons.IH [of "max c (pri ! u)"] by (auto simp: max_def split: if_splits)
qed simp

lemma max_priority_greatest:
  assumes "finite V" "V \<noteq> {}" "\<And>u. u \<in> V \<Longrightarrow> 0 \<le> pri ! u"
  shows "0 \<le> max_priority pri V \<and> (\<forall>u \<in> V. pri ! u \<le> max_priority pri V) \<and> (\<exists>u \<in> V. pri ! u = max_priority pri V)"
proof -
  let ?c = "max_priority pri V"
  have all: "\<forall>u \<in> V. pri ! u \<le> ?c" and ex: "?c = -1 \<or> (\<exists>u \<in> V. ?c = pri ! u)"
    using fold_max [where us = "sorted_list_of_set V" and c = "-1" and pri = pri] assms(1)
    unfolding max_priority_def by simp_all
  obtain u where "u \<in> V" using assms(2) by blast
  then have "0 \<le> ?c" using all assms(3) by (meson order_trans)
  then show ?thesis using all ex by auto
qed

text \<open>A split of \<open>V\<close> into a region of player \<open>b\<close> and one of the other player.\<close>

definition split_regions :: "product_game \<Rightarrow> nat set \<Rightarrow> nat \<Rightarrow> nat set \<Rightarrow> nat set \<Rightarrow> bool" where
  "split_regions pg V b Wb Wo \<longleftrightarrow> Wb \<union> Wo = V \<and> Wb \<inter> Wo = {} \<and>
     (\<exists>\<sigma>. region pg V b \<sigma> Wb) \<and> (\<exists>\<sigma>. region pg V (1 - b) \<sigma> Wo)"

definition live :: "product_game \<Rightarrow> nat set \<Rightarrow> bool" where
  "live pg V \<longleftrightarrow> (\<forall>u \<in> V. moves_of pg u \<inter> V \<noteq> {})"

lemma split_regions_swap: "b \<le> 1 \<Longrightarrow> split_regions pg V b Wb Wo \<Longrightarrow> split_regions pg V (1 - b) Wo Wb"
  unfolding split_regions_def by auto

text \<open>The rest after an attractor: it is smaller, has no dead ends, and its player cannot leave it.\<close>

lemma rest_game:
  assumes pg: "game_ok pg" "V \<subseteq> states_of pg" "live pg V" and T: "T \<subseteq> V" "T \<noteq> {}"
    and X: "attractor b T (pg_n_states pg) (pg_player pg) (inner_moves pg V) = Some X"
  shows "V - X \<subset> V" "live pg (V - X)" "\<And>u. u \<in> V - X \<Longrightarrow> owner pg u = b \<Longrightarrow> moves_of pg u \<inter> V \<subseteq> V - X"
    "X = attracted pg V b T" "T \<subseteq> X" "X \<subseteq> V"
proof -
  obtain X' where X': "attractor b T (pg_n_states pg) (pg_player pg) (inner_moves pg V) = Some X'"
      "T \<subseteq> X'" "X' \<subseteq> V" "X' = attracted pg V b T"
    using worklist.ends [OF pg(1,2) T(1), of b] by blast
  then show eq: "X = attracted pg V b T" "T \<subseteq> X" "X \<subseteq> V" using X by simp_all
  note trap = worklist.trap [OF pg(1,2) T(1) X]
  show own: "moves_of pg u \<inter> V \<subseteq> V - X" if "u \<in> V - X" "owner pg u = b" for u
    using trap(1) [OF that] by blast
  show "live pg (V - X)"
    unfolding live_def
  proof
    fix u assume u: "u \<in> V - X"
    then have l: "moves_of pg u \<inter> V \<noteq> {}" using pg(3) unfolding live_def by blast
    show "moves_of pg u \<inter> (V - X) \<noteq> {}"
    proof (cases "owner pg u = b")
      case True
      then show ?thesis using own [OF u True] l by blast
    next
      case False
      then show ?thesis using trap(2) [OF u False l] by blast
    qed
  qed
  show "V - X \<subset> V" using T eq(2,3) by blast
qed

lemma beneficiary_wins:
  assumes pg: "game_ok pg" "V \<subseteq> states_of pg" "live pg V" and b: "b \<le> 1"
    and A: "A = {u \<in> V. priority_of pg u = c}" "A \<noteq> {}" and top: "\<And>u. u \<in> V \<Longrightarrow> priority_of pg u \<le> c" "c mod 2 = int b"
    and X: "attractor b A (pg_n_states pg) (pg_player pg) (inner_moves pg V) = Some X"
    and rest: "split_regions pg (V - X) b Wb {}"
  shows "split_regions pg V b V {}"
proof -
  have AV: "A \<subseteq> V" using A(1) by blast
  note rg = rest_game [OF pg AV A(2) X]
  obtain \<sigma> where "region pg (V - X) b \<sigma> (V - X)" using rest unfolding split_regions_def by auto
  then have "region pg (V - attracted pg V b A) b \<sigma> (V - attracted pg V b A)" unfolding rg(4) .
  from top_region [OF _ A(1) top this] pg(3) obtain \<sigma>' where "region pg V b \<sigma>' V" unfolding live_def by blast
  then show ?thesis using region_empty unfolding split_regions_def by blast
qed

lemma opponent_wins:
  assumes pg: "game_ok pg" "V \<subseteq> states_of pg" "live pg V" and b: "b \<le> 1" and T: "T \<subseteq> V" "T \<noteq> {}"
    and X: "attractor b T (pg_n_states pg) (pg_player pg) (inner_moves pg V) = Some X"
    and rest: "split_regions pg (V - X) b Wb Wl" "Wl \<noteq> {}"
    and Y: "attractor (1 - b) Wl (pg_n_states pg) (pg_player pg) (inner_moves pg V) = Some Y"
    and last: "split_regions pg (V - Y) b Wbb Woo"
  shows "split_regions pg V b Wbb (Y \<union> Wl \<union> Woo)"
proof -
  have flip: "owner pg u = b \<longleftrightarrow> owner pg u \<noteq> 1 - b" if "u \<in> V" for u
  proof -
    have "u < pg_n_states pg" using that pg(2) by auto
    then have "owner pg u = 0 \<or> owner pg u = 1" by (rule game_okD(1) [OF pg(1)])
    then show ?thesis using b by auto
  qed
  note rg = rest_game [OF pg T X]
  obtain \<sigma>l where l: "region pg (V - X) (1 - b) \<sigma>l Wl" using rest(1) unfolding split_regions_def by blast
  have WlV: "Wl \<subseteq> V" using regionD(1) [OF l] by blast
  note ry = rest_game [OF pg WlV rest(2) Y]
  have "region pg V (1 - b) \<sigma>l Wl"
  proof (rule regionI)
    fix u assume u: "u \<in> Wl"
    show "\<sigma>l u \<in> moves_of pg u \<inter> Wl" if "owner pg u = 1 - b" by (rule regionD(2) [OF l u that])
    show "moves_of pg u \<inter> V \<subseteq> Wl" if "owner pg u \<noteq> 1 - b"
    proof -
      have uV: "u \<in> V - X" "owner pg u = b" using regionD(1) [OF l] u flip that by auto
      from rg(3) [OF uV] regionD(3) [OF l u that] show ?thesis by blast
    qed
  qed (use WlV regionD(4) [OF l] in auto)
  from attracted_region [OF this subset_refl] obtain \<sigma>y where "region pg V (1 - b) \<sigma>y (Wl \<union> Y)"
    unfolding ry(4) by blast
  moreover have "Wl \<union> Y = Y" using ry(5) by blast
  ultimately have y: "region pg V (1 - b) \<sigma>y Y" by simp
  obtain \<sigma>o where o: "region pg (V - Y) (1 - b) \<sigma>o Woo" using last unfolding split_regions_def by blast
  obtain \<sigma>b where bb: "region pg (V - Y) b \<sigma>b Wbb" using last unfolding split_regions_def by blast
  have "\<exists>\<sigma>. region pg V (1 - b) \<sigma> (Y \<union> Woo)"
    using join_region [OF y o] by blast
  moreover have "Y \<union> Wl \<union> Woo = Y \<union> Woo" using ry(5) by blast
  moreover have "region pg V b (\<lambda>u. if u \<in> {} then u else \<sigma>b u) ({} \<union> Wbb)"
  proof (rule join_region [OF region_empty bb])
    fix u assume u: "u \<in> Wbb" "owner pg u \<noteq> b"
    then have uV: "u \<in> V - Y" using regionD(1) [OF bb] by blast
    then have "owner pg u = 1 - b" using flip u(2) by blast
    then show "moves_of pg u \<inter> V \<subseteq> {} \<union> (V - Y)" using ry(3) [OF uV] by blast
  qed blast
  moreover have "Wbb \<union> (Y \<union> Woo) = V" "Wbb \<inter> (Y \<union> Woo) = {}"
    using last ry(6) regionD(1) [OF bb] unfolding split_regions_def by auto
  ultimately show ?thesis unfolding split_regions_def by auto
qed

lemma solve_splits:
  assumes pg: "game_ok pg"
  shows "V \<subseteq> states_of pg \<Longrightarrow> live pg V \<Longrightarrow> (\<And>u. u \<in> V \<Longrightarrow> 0 \<le> priority_of pg u) \<Longrightarrow>
    \<exists>W0 W1. solve V (pg_n_states pg) (pg_player pg) (pg_priority pg) (pg_succs pg) = Some (W0, W1) \<and>
      split_regions pg V 0 W0 W1"
proof (induction "card V" arbitrary: V rule: less_induct)
  case less
  let ?solve = "\<lambda>V. solve V (pg_n_states pg) (pg_player pg) (pg_priority pg) (pg_succs pg)"
  let ?att = "\<lambda>p T. attractor p T (pg_n_states pg) (pg_player pg) (inner_moves pg V)"
  have fin: "finite V" using less.prems(1) by (meson finite_lessThan finite_subset)
  show ?case
  proof (cases "V = {}")
    case True
    have "split_regions pg {} 0 {} {}" using region_empty unfolding split_regions_def by blast
    then show ?thesis using True by (simp add: solve.simps)
  next
    case False
    define c where "c = max_priority (pg_priority pg) V"
    have c: "0 \<le> c" "\<And>u. u \<in> V \<Longrightarrow> priority_of pg u \<le> c" "\<exists>u \<in> V. priority_of pg u = c"
      using max_priority_greatest [OF fin False less.prems(3)] unfolding c_def by blast+
    define b where "b = nat (c mod 2)"
    have b: "b = 0 \<or> b = 1" "c mod 2 = int b" "b \<le> 1" unfolding b_def by linarith+
    define A where "A = {u \<in> V. priority_of pg u = c}"
    have A: "A \<subseteq> V" "A \<noteq> {}" using c(3) unfolding A_def by blast+
    obtain X where X: "?att b A = Some X" using worklist.ends [OF pg less.prems(1) A(1), of b] by blast
    note rg = rest_game [OF pg less.prems(1,2) A X]
    have IH: "\<exists>W0 W1. ?solve (V - Z) = Some (W0, W1) \<and> split_regions pg (V - Z) 0 W0 W1"
      if Z: "V - Z \<subset> V" "live pg (V - Z)" for Z
      by (rule less.hyps) (use Z less.prems fin in \<open>auto intro: psubset_card_mono\<close>)
    obtain W0p W1p where p: "?solve (V - X) = Some (W0p, W1p)" "split_regions pg (V - X) 0 W0p W1p"
      using IH [OF rg(1,2)] by blast
    define Wl where "Wl = (if b = 0 then W1p else W0p)"
    define Wb where "Wb = (if b = 0 then W0p else W1p)"
    have keeps: "keep (\<lambda>u. u \<notin> Z) V = V - Z" "keep (\<lambda>u. priority_of pg u = c) V = A" for Z
      using keep_diff [OF fin] unfolding A_def by auto
    have sp: "split_regions pg (V - X) b Wb Wl"
      using p(2) b(1) split_regions_swap [of 0] unfolding Wl_def Wb_def by auto
    have unfolded: "?solve V = (if Wl = {} then Some (if b = 1 then (W0p, V) else (V, W1p))
        else Option.bind (?att (1 - b) Wl) (\<lambda>Y. Option.bind (?solve (V - Y)) (\<lambda>(W0pp, W1pp).
          Some (if b = 1 then (Y \<union> Wl \<union> W0pp, W1pp) else (W0pp, Y \<union> Wl \<union> W1pp)))))"
      using b(1)
    proof
      assume "b = 0"
      then show ?thesis
        using False c(1) X p(1)
        by (subst solve.simps) (simp add: Let_def keeps c_def [symmetric] b_def [symmetric] Wl_def)
    next
      assume "b = 1"
      then show ?thesis
        using False c(1) X p(1)
        by (subst solve.simps) (simp add: Let_def keeps c_def [symmetric] b_def [symmetric] Wl_def)
    qed
    show ?thesis
    proof (cases "Wl = {}")
      case empty: True
      have "split_regions pg (V - X) b Wb {}" using sp empty by simp
      from beneficiary_wins [OF pg less.prems(1,2) b(3) A_def A(2) c(2) b(2) X this]
      have "split_regions pg V b V {}" .
      moreover have "?solve V = Some (if b = 1 then ({}, V) else (V, {}))"
        using unfolded empty b(1) unfolding Wl_def by auto
      ultimately show ?thesis using b(1) split_regions_swap [of 1] by auto
    next
      case left: False
      have WlV: "Wl \<subseteq> V" using sp unfolding split_regions_def by blast
      obtain Y where Y: "?att (1 - b) Wl = Some Y" using worklist.ends [OF pg less.prems(1) WlV, of "1 - b"] by blast
      note ry = rest_game [OF pg less.prems(1,2) WlV left Y]
      obtain W0pp W1pp where q: "?solve (V - Y) = Some (W0pp, W1pp)" "split_regions pg (V - Y) 0 W0pp W1pp"
        using IH [OF ry(1,2)] by blast
      have "split_regions pg (V - Y) b (if b = 0 then W0pp else W1pp) (if b = 0 then W1pp else W0pp)"
        using q(2) b(1) split_regions_swap [of 0] by auto
      from opponent_wins [OF pg less.prems(1,2) b(3) A X sp left Y this]
      have "split_regions pg V b (if b = 0 then W0pp else W1pp) (Y \<union> Wl \<union> (if b = 0 then W1pp else W0pp))" .
      moreover have "?solve V = Some (if b = 1 then (Y \<union> Wl \<union> W0pp, W1pp) else (W0pp, Y \<union> Wl \<union> W1pp))"
        using unfolded left Y q(1) by simp
      ultimately show ?thesis using b(1) split_regions_swap [of 1] by auto
    qed
  qed
qed

section \<open>Dead ends\<close>

text \<open>
  The states taken out so far: \<open>R p\<close> is won by player \<open>p\<close>, and no state left of player \<open>p\<close> has a
  move into it.
\<close>

definition stripped :: "product_game \<Rightarrow> nat set \<Rightarrow> (nat \<Rightarrow> nat set) \<Rightarrow> bool" where
  "stripped pg V R \<longleftrightarrow> V \<union> R 0 \<union> R 1 = states_of pg \<and> V \<inter> R 0 = {} \<and> V \<inter> R 1 = {} \<and> R 0 \<inter> R 1 = {} \<and>
     (\<forall>p \<le> 1. (\<exists>\<sigma>. region pg (states_of pg) p \<sigma> (R p)) \<and>
       (\<forall>u \<in> V. owner pg u = p \<longrightarrow> moves_of pg u \<inter> R p = {}))"

lemma stripped_cover:
  assumes "stripped pg V R" "p \<le> 1"
  shows "states_of pg = V \<union> R p \<union> R (1 - p)" "V \<inter> R p = {}" "V \<inter> R (1 - p) = {}" "R p \<inter> R (1 - p) = {}"
proof -
  have parts: "V \<union> R 0 \<union> R 1 = states_of pg" "V \<inter> R 0 = {}" "V \<inter> R 1 = {}" "R 0 \<inter> R 1 = {}"
    using assms(1) unfolding stripped_def by blast+
  have "p = 0 \<or> p = 1" using assms(2) by linarith
  then have "states_of pg = V \<union> R p \<union> R (1 - p) \<and> V \<inter> R p = {} \<and> V \<inter> R (1 - p) = {} \<and> R p \<inter> R (1 - p) = {}"
  proof
    assume "p = 0"
    then show ?thesis using parts by (simp del: One_nat_def)
  next
    assume "p = 1"
    then show ?thesis using parts by (simp add: Un_ac Int_commute del: One_nat_def)
  qed
  then show "states_of pg = V \<union> R p \<union> R (1 - p)" "V \<inter> R p = {}" "V \<inter> R (1 - p) = {}" "R p \<inter> R (1 - p) = {}"
    by blast+
qed

lemma owner_flip:
  assumes "game_ok pg" "u < pg_n_states pg" "p \<le> 1" "owner pg u \<noteq> p"
  shows "owner pg u = 1 - p"
  using game_okD(1) [OF assms(1,2)] assms(3,4) by linarith

lemma stripped_step:
  assumes pg: "game_ok pg" and st: "stripped pg V R" and p: "p \<le> 1"
    and D: "D \<subseteq> V" "\<And>u. u \<in> D \<Longrightarrow> owner pg u \<noteq> p \<and> moves_of pg u \<inter> V = {}"
  shows "stripped pg (V - attracted pg V p D) (R(p := R p \<union> attracted pg V p D))"
proof -
  let ?Z = "attracted pg V p D" and ?d = "distance pg V p D"
  have V: "V \<subseteq> states_of pg" using st unfolding stripped_def by blast
  have Z: "?Z \<subseteq> V" by (rule attracted_subset [OF D(1)])
  note cover = stripped_cover [OF st p]
  have inv: "moves_of pg u \<inter> R q = {}" if "u \<in> V" "owner pg u = q" "q \<le> 1" for u q
    using st that unfolding stripped_def by blast
  have flip: "owner pg u = 1 - p" if "u \<in> V" "owner pg u \<noteq> p" for u
    by (rule owner_flip [OF pg _ p that(2)]) (use V that(1) in auto)
  obtain \<sigma> where \<sigma>: "region pg (states_of pg) p \<sigma> (R p)" using st p unfolding stripped_def by blast
  define \<tau> where "\<tau> u = (SOME v. v \<in> moves_of pg u \<and> v \<in> ?Z \<and> ?d v < ?d u)" for u
  have "region pg (states_of pg) p (\<lambda>u. if u \<in> R p then \<sigma> u else \<tau> u) (R p \<union> ?Z)"
  proof (rule extend_region [OF \<sigma>])
    show "?Z \<subseteq> states_of pg" using Z V by blast
    fix u assume "u \<in> ?Z - R p"
    then have u: "u \<in> ?Z" "u \<in> V" using Z by blast+
    show "\<tau> u \<in> moves_of pg u \<and> (\<tau> u \<in> R p \<or> \<tau> u \<in> ?Z \<and> ?d (\<tau> u) < ?d u)" if "owner pg u = p"
    proof -
      have "u \<notin> D" using D(2) that by blast
      then have "\<exists>v. v \<in> moves_of pg u \<and> v \<in> ?Z \<and> ?d v < ?d u"
        using attracted_step [OF u(1)] that by auto
      then show ?thesis unfolding \<tau>_def by (rule someI2_ex) blast
    qed
    show "v \<in> R p \<or> v \<in> ?Z \<and> ?d v < ?d u"
      if h: "owner pg u \<noteq> p" "v \<in> moves_of pg u" "v \<in> states_of pg" for v
    proof -
      have "v \<notin> R (1 - p)" using inv [OF u(2) flip [OF u(2) h(1)]] h(2) by auto
      then have "v \<in> V \<or> v \<in> R p" using h(3) cover(1) by blast
      moreover have "v \<in> ?Z \<and> ?d v < ?d u" if "v \<in> V"
      proof -
        have "u \<notin> D" using D(2) that h(2) by blast
        then show ?thesis using attracted_step [OF u(1)] h(1,2) that by auto
      qed
      ultimately show ?thesis by blast
    qed
  qed
  moreover have "moves_of pg u \<inter> (R p \<union> ?Z) = {}" if "u \<in> V - ?Z" "owner pg u = p" for u
  proof -
    have "moves_of pg u \<inter> ?Z = {}"
      using that Z by (blast intro: attracted.own)
    then show ?thesis using inv [OF _ that(2) p] that(1) by blast
  qed
  moreover have "\<exists>\<sigma>. region pg (states_of pg) (1 - p) \<sigma> (R (1 - p))"
    using st unfolding stripped_def by simp
  moreover have "moves_of pg u \<inter> R (1 - p) = {}" if "u \<in> V" "owner pg u = 1 - p" for u
    using inv [OF that] by simp
  ultimately show ?thesis
    using cover Z p unfolding stripped_def by (cases "p = 0") (auto simp: le_Suc_eq)
qed

lemma dead_end_iff: "dead_end pg V u \<longleftrightarrow> moves_of pg u \<inter> V = {}"
  by (auto simp: dead_end_def list_ex_iff)

lemma strip_dead_ends_strips:
  assumes pg: "game_ok pg"
  shows "stripped pg V R \<Longrightarrow> \<exists>V' R'. strip_dead_ends pg V (R 1) = Some (V', R' 1) \<and> stripped pg V' R' \<and> live pg V'"
proof (induction "card V" arbitrary: V R rule: less_induct)
  case less
  have V: "V \<subseteq> states_of pg" using less.prems unfolding stripped_def by blast
  then have fin: "finite V" by (meson finite_lessThan finite_subset)
  let ?D = "\<lambda>P. {u \<in> V. dead_end pg V u \<and> P (owner pg u)}"
  have keeps: "keep (\<lambda>u. dead_end pg V u \<and> owner pg u = 1) V = ?D (\<lambda>q. q = 1)"
      "keep (\<lambda>u. dead_end pg V u \<and> owner pg u \<noteq> 1) V = ?D (\<lambda>q. q \<noteq> 1)"
    using keep_diff [OF fin] by auto
  have step: "\<exists>V' R'. strip_dead_ends pg (V - Z) ((R(p := R p \<union> Z)) 1) = Some (V', R' 1) \<and>
      stripped pg V' R' \<and> live pg V'"
    if h: "p \<le> 1" "D \<subseteq> V" "D \<noteq> {}" "\<And>u. u \<in> D \<Longrightarrow> owner pg u \<noteq> p \<and> moves_of pg u \<inter> V = {}"
      "Z = attracted pg V p D" for p D Z
  proof (rule less.hyps)
    have "D \<subseteq> Z" unfolding h(5) by (auto intro: attracted.target)
    then show "card (V - Z) < card V" using h(2,3) fin by (intro psubset_card_mono) auto
    show "stripped pg (V - Z) (R(p := R p \<union> Z))"
      unfolding h(5) by (rule stripped_step [OF pg less.prems h(1,2,4)])
  qed
  consider "?D (\<lambda>q. q = 1) \<noteq> {}" | "?D (\<lambda>q. q = 1) = {}" "?D (\<lambda>q. q \<noteq> 1) \<noteq> {}"
    | "?D (\<lambda>q. q = 1) = {}" "?D (\<lambda>q. q \<noteq> 1) = {}" by blast
  then show ?case
  proof cases
    case 1
    let ?T = "?D (\<lambda>q. q = 1)"
    have "?T \<subseteq> V" by blast
    then obtain Z where Z: "dead_end_attractor pg V 0 ?T = Some Z" "Z = attracted pg V 0 ?T"
      using passes.att [OF pg V] by blast
    have "\<And>u. u \<in> ?T \<Longrightarrow> owner pg u \<noteq> 0 \<and> moves_of pg u \<inter> V = {}" by (simp add: dead_end_iff)
    from step [OF _ \<open>?T \<subseteq> V\<close> 1 this Z(2)] show ?thesis
      using 1 Z(1) by (subst strip_dead_ends.simps) (auto simp: Let_def keeps simp del: One_nat_def)
  next
    case 2
    let ?T = "?D (\<lambda>q. q \<noteq> 1)"
    have "?T \<subseteq> V" by blast
    then obtain Z where Z: "dead_end_attractor pg V 1 ?T = Some Z" "Z = attracted pg V 1 ?T"
      using passes.att [OF pg V] by blast
    have "\<And>u. u \<in> ?T \<Longrightarrow> owner pg u \<noteq> 1 \<and> moves_of pg u \<inter> V = {}" by (simp add: dead_end_iff)
    from step [OF _ \<open>?T \<subseteq> V\<close> 2(2) this Z(2)] show ?thesis
      using 2 Z(1) by (subst strip_dead_ends.simps) (auto simp: Let_def keeps simp del: One_nat_def)
  next
    case 3
    then have "live pg V" unfolding live_def dead_end_iff by blast
    then show ?thesis using 3 less.prems by (subst strip_dead_ends.simps) (auto simp: Let_def keeps simp del: One_nat_def)
  qed
qed

lemma zielonka_regions:
  assumes pg: "game_ok pg" and nonneg: "\<forall>c \<in> set (pg_priority pg). 0 \<le> c"
  shows "\<exists>W1. zielonka_win_player1 pg = Some W1 \<and> W1 \<subseteq> states_of pg \<and>
    (\<exists>\<sigma>. region pg (states_of pg) 1 \<sigma> W1) \<and> (\<exists>\<sigma>. region pg (states_of pg) 0 \<sigma> (states_of pg - W1))"
proof -
  have "stripped pg (states_of pg) (\<lambda>_. {})" using region_empty unfolding stripped_def by simp
  from strip_dead_ends_strips [OF pg this] obtain V R where
    s: "strip_dead_ends pg (states_of pg) {} = Some (V, R 1)" "stripped pg V R" "live pg V" by auto
  have V: "V \<subseteq> states_of pg" using s(2) unfolding stripped_def by blast
  have "0 \<le> priority_of pg u" if "u \<in> V" for u
    using nonneg that V pg unfolding game_ok_def by auto
  from solve_splits [OF pg V s(3) this] obtain W0 W1 where
    w: "solve V (pg_n_states pg) (pg_player pg) (pg_priority pg) (pg_succs pg) = Some (W0, W1)"
      "split_regions pg V 0 W0 W1" by blast
  have result: "zielonka_win_player1 pg = Some (W1 \<union> R 1)"
    using s(1) w(1) by (simp add: zielonka_win_player1_def lessThan_atLeast0)
  have join: "\<exists>\<sigma>. region pg (states_of pg) p \<sigma> (R p \<union> W)"
    if p: "p \<le> 1" and W: "region pg V p \<tau> W" for p \<tau> W
  proof -
    obtain \<sigma> where \<sigma>: "region pg (states_of pg) p \<sigma> (R p)" using s(2) p unfolding stripped_def by blast
    have "moves_of pg u \<inter> states_of pg \<subseteq> R p \<union> V" if "u \<in> W" "owner pg u \<noteq> p" for u
    proof -
      have u: "u \<in> V" using that(1) regionD(1) [OF W] by blast
      then have "owner pg u = 1 - p" using owner_flip [OF pg _ p that(2)] V by auto
      then have "moves_of pg u \<inter> R (1 - p) = {}" using s(2) u unfolding stripped_def by simp
      moreover note stripped_cover(1) [OF s(2) p]
      ultimately show ?thesis by blast
    qed
    from join_region [OF \<sigma> W V this] show ?thesis by blast
  qed
  obtain \<sigma>0 \<sigma>1 where "region pg V 0 \<sigma>0 W0" "region pg V 1 \<sigma>1 W1"
    using w(2) unfolding split_regions_def by auto
  from join [OF _ this(1)] join [OF _ this(2)]
  have "\<exists>\<sigma>. region pg (states_of pg) 0 \<sigma> (R 0 \<union> W0)" "\<exists>\<sigma>. region pg (states_of pg) 1 \<sigma> (W1 \<union> R 1)"
    by (simp_all add: Un_commute)
  moreover have "R 0 \<union> W0 = states_of pg - (W1 \<union> R 1)" "W1 \<union> R 1 \<subseteq> states_of pg"
    using s(2) w(2) unfolding stripped_def split_regions_def by blast+
  ultimately show ?thesis using result by metis
qed

section \<open>Winning strategies\<close>

inductive follows :: "product_game \<Rightarrow> nat \<Rightarrow> (nat \<Rightarrow> nat) \<Rightarrow> nat \<Rightarrow> nat \<Rightarrow> bool" for pg p \<sigma> s where
  start: "follows pg p \<sigma> s s"
| step: "follows pg p \<sigma> s u \<Longrightarrow> v \<in> moves_of pg u \<Longrightarrow> (owner pg u = p \<Longrightarrow> v = \<sigma> u) \<Longrightarrow> follows pg p \<sigma> s v"

text \<open>
  A positional strategy wins from a state when it always has a move (a player who cannot move loses)
  and every infinite play it allows is won.
\<close>

definition wins :: "product_game \<Rightarrow> nat \<Rightarrow> (nat \<Rightarrow> nat) \<Rightarrow> nat \<Rightarrow> bool" where
  "wins pg p \<sigma> s \<longleftrightarrow>
     (\<forall>u. follows pg p \<sigma> s u \<longrightarrow> owner pg u = p \<longrightarrow> \<sigma> u \<in> moves_of pg u) \<and>
     (\<forall>\<pi>. \<pi> 0 = s \<longrightarrow> obeys pg p \<sigma> \<pi> \<longrightarrow> won_by pg p \<pi>)"

lemma region_wins:
  assumes pg: "game_ok pg" and R: "region pg (states_of pg) p \<sigma> W" and s: "s \<in> W"
  shows "wins pg p \<sigma> s"
proof -
  have stay: "v \<in> W" if "u \<in> W" "v \<in> moves_of pg u" "owner pg u = p \<Longrightarrow> v = \<sigma> u" for u v
  proof (cases "owner pg u = p")
    case True
    then show ?thesis using regionD(2) [OF R that(1) True] that(3) by blast
  next
    case False
    have "u < pg_n_states pg" using regionD(1) [OF R] that(1) by auto
    then have "v \<in> states_of pg" using game_okD(2) [OF pg] that(2) by blast
    then show ?thesis using regionD(3) [OF R that(1) False] that(2) by blast
  qed
  have reach: "u \<in> W" if "follows pg p \<sigma> s u" for u
    using that by induction (use s stay in blast)+
  have "won_by pg p \<pi>" if "\<pi> 0 = s" "obeys pg p \<sigma> \<pi>" for \<pi>
  proof -
    have "\<pi> i \<in> W" for i
      by (induction i) (use that s stay in \<open>auto simp: obeys_def\<close>)
    then show ?thesis by (rule regionD(4) [OF R _ that(2)])
  qed
  then show ?thesis using reach regionD(2) [OF R] unfolding wins_def by blast
qed

lemma won_by_one: "won_by pg p \<pi> \<Longrightarrow> won_by pg q \<pi> \<Longrightarrow> p = q"
proof -
  assume "won_by pg p \<pi>" "won_by pg q \<pi>"
  then obtain m j n k where m: "\<forall>k. \<exists>i \<ge> k. priority_of pg (\<pi> i) = m" "\<forall>i \<ge> j. priority_of pg (\<pi> i) \<le> m" "m mod 2 = int p"
    and n: "\<forall>k. \<exists>i \<ge> k. priority_of pg (\<pi> i) = n" "\<forall>i \<ge> k. priority_of pg (\<pi> i) \<le> n" "n mod 2 = int q"
    unfolding won_by_def by blast
  have "m \<le> n" using m(1) n(2) by metis
  moreover have "n \<le> m" using n(1) m(2) by metis
  ultimately show "p = q" using m(3) n(3) by simp
qed

lemma not_both_win:
  assumes pg: "game_ok pg" and s: "s < pg_n_states pg" and w: "wins pg 0 \<sigma>0 s" "wins pg 1 \<sigma>1 s"
  shows False
proof -
  define nxt where "nxt u = (if owner pg u = 1 then \<sigma>1 u else \<sigma>0 u)" for u
  define \<pi> where "\<pi> i = (nxt ^^ i) s" for i
  have S: "\<pi> (Suc i) = nxt (\<pi> i)" for i by (simp add: \<pi>_def)
  have w0: "owner pg u = 0 \<longrightarrow> \<sigma>0 u \<in> moves_of pg u" if "follows pg 0 \<sigma>0 s u" for u
    using w(1) that unfolding wins_def by blast
  have w1: "owner pg u = 1 \<longrightarrow> \<sigma>1 u \<in> moves_of pg u" if "follows pg 1 \<sigma>1 s u" for u
    using w(2) that unfolding wins_def by blast
  have moves: "nxt u \<in> moves_of pg u"
    if "follows pg 0 \<sigma>0 s u" "follows pg 1 \<sigma>1 s u" "u < pg_n_states pg" for u
    using w0 [OF that(1)] w1 [OF that(2)] game_okD(1) [OF pg that(3)] unfolding nxt_def by auto
  have "follows pg 0 \<sigma>0 s (\<pi> i) \<and> follows pg 1 \<sigma>1 s (\<pi> i) \<and> \<pi> i < pg_n_states pg \<and>
      nxt (\<pi> i) \<in> moves_of pg (\<pi> i)" for i
  proof (induction i)
    case 0
    have "nxt s \<in> moves_of pg s" by (rule moves [OF follows.start follows.start s])
    then show ?case using s by (simp add: \<pi>_def follows.start)
  next
    case (Suc i)
    then have i: "follows pg 0 \<sigma>0 s (\<pi> i)" "follows pg 1 \<sigma>1 s (\<pi> i)" "\<pi> i < pg_n_states pg"
      "\<pi> (Suc i) \<in> moves_of pg (\<pi> i)" unfolding S by blast+
    have lt: "\<pi> (Suc i) < pg_n_states pg" using i(4) game_okD(2) [OF pg i(3)] by blast
    have "follows pg 0 \<sigma>0 s (\<pi> (Suc i))" by (rule follows.step [OF i(1,4)]) (simp add: S nxt_def)
    moreover have "follows pg 1 \<sigma>1 s (\<pi> (Suc i))" by (rule follows.step [OF i(2,4)]) (simp add: S nxt_def)
    ultimately have f: "follows pg 0 \<sigma>0 s (\<pi> (Suc i))" "follows pg 1 \<sigma>1 s (\<pi> (Suc i))" by blast+
    then have "nxt (\<pi> (Suc i)) \<in> moves_of pg (\<pi> (Suc i))" using lt by (rule moves)
    then show ?case using lt f by blast
  qed
  then have "nxt (\<pi> i) \<in> moves_of pg (\<pi> i)" for i by blast
  then have "obeys pg 0 \<sigma>0 \<pi>" "obeys pg 1 \<sigma>1 \<pi>"
    unfolding obeys_def S by (simp_all add: nxt_def)
  then have "won_by pg 0 \<pi>" "won_by pg 1 \<pi>" using w unfolding wins_def by (auto simp: \<pi>_def)
  then show False using won_by_one by fastforce
qed

text \<open>
  C23: on every finite game with non-negative priorities the solver ends, and the states it returns
  are exactly those from which player 1 (the system) has a positional winning strategy; from every
  other state player 0 has one. A player who cannot move loses.
\<close>

theorem zielonka_winning_region:
  assumes "game_ok pg" and "\<forall>c \<in> set (pg_priority pg). 0 \<le> c"
  shows "\<exists>W1. zielonka_win_player1 pg = Some W1 \<and>
    (\<forall>s < pg_n_states pg. (s \<in> W1 \<longleftrightarrow> (\<exists>\<sigma>. wins pg 1 \<sigma> s)) \<and> (s \<notin> W1 \<longleftrightarrow> (\<exists>\<sigma>. wins pg 0 \<sigma> s)))"
proof -
  obtain W1 \<sigma>0 \<sigma>1 where W: "zielonka_win_player1 pg = Some W1" "region pg (states_of pg) 1 \<sigma>1 W1"
      "region pg (states_of pg) 0 \<sigma>0 (states_of pg - W1)"
    using zielonka_regions [OF assms] by blast
  have "(s \<in> W1 \<longleftrightarrow> (\<exists>\<sigma>. wins pg 1 \<sigma> s)) \<and> (s \<notin> W1 \<longleftrightarrow> (\<exists>\<sigma>. wins pg 0 \<sigma> s))" if s: "s < pg_n_states pg" for s
  proof (cases "s \<in> W1")
    case True
    then show ?thesis using region_wins [OF assms(1) W(2)] not_both_win [OF assms(1) s] by blast
  next
    case False
    then have "s \<in> states_of pg - W1" using s by simp
    then show ?thesis using region_wins [OF assms(1) W(3)] not_both_win [OF assms(1) s] False by blast
  qed
  then show ?thesis using W(1) by blast
qed

definition sample_game :: product_game where
  "sample_game = \<lparr>pg_n_states = 4, pg_init = 0, pg_player = [1, 0, 1, 0], pg_priority = [1, 2, 0, 1],
     pg_succs = [[1, 2], [0, 1], [0], []]\<rparr>"

theorem zielonka_winning_region_witness:
  "zielonka_win_player1 sample_game = Some {0, 2, 3} \<and> (\<exists>\<sigma>. wins sample_game 1 \<sigma> 0) \<and> (\<exists>\<sigma>. wins sample_game 0 \<sigma> 1)"
proof -
  have ok: "game_ok sample_game" by (auto simp: game_ok_def sample_game_def)
  have pos: "\<forall>c \<in> set (pg_priority sample_game). 0 \<le> c" by (simp add: sample_game_def)
  have run: "zielonka_win_player1 sample_game = Some {0, 2, 3}" by code_simp
  obtain W1 where W: "zielonka_win_player1 sample_game = Some W1"
      "\<forall>s < pg_n_states sample_game. (s \<in> W1 \<longleftrightarrow> (\<exists>\<sigma>. wins sample_game 1 \<sigma> s)) \<and> (s \<notin> W1 \<longleftrightarrow> (\<exists>\<sigma>. wins sample_game 0 \<sigma> s))"
    using zielonka_winning_region [OF ok pos] by blast
  have "W1 = {0, 2, 3}" using W(1) run by simp
  then show ?thesis using run W(2) [rule_format, of 0] W(2) [rule_format, of 1] by (simp add: sample_game_def)
qed

end
