(* ===== verification/Omcat_Types.thy ===== *)
theory Omcat_Types imports Exact_Rational begin

text \<open>
  \<^verbatim>\<open>src/omcat_types.h\<close>: the types of tuples of rationals over named constants. The 128-bit products
  and sums of 64-bit parts are exact, so they are integers; a type position is a natural number. \<open>make_reduced\<close> refuses, as the code does,
  the numerator \<open>- 2 ^ 63\<close> although a \<^verbatim>\<open>long long\<close> holds it.
\<close>

section \<open>Rationals\<close>

record rational =
  rt_p :: int
  rt_q :: int

definition mk_rational :: "int \<Rightarrow> int \<Rightarrow> rational" where
  "mk_rational p q = (if q < 0 then \<lparr>rt_p = - p, rt_q = - q\<rparr> else \<lparr>rt_p = p, rt_q = q\<rparr>)"

definition cmp :: "rational \<Rightarrow> rational \<Rightarrow> int" where
  "cmp a b =
     (let lhs = rt_p a * rt_q b; rhs = rt_p b * rt_q a in
      if lhs < rhs then -1 else if lhs > rhs then 1 else 0)"

section \<open>Types of one element\<close>

record qlt_type1 =
  t1_pos :: nat
  t1_constants :: "rational list"

definition is_point :: "qlt_type1 \<Rightarrow> bool" where
  "is_point t \<longleftrightarrow> t1_pos t mod 2 = 1"

definition is_interval :: "qlt_type1 \<Rightarrow> bool" where
  "is_interval t \<longleftrightarrow> \<not> is_point t"

definition num_constants :: "qlt_type1 \<Rightarrow> nat" where
  "num_constants t = length (t1_constants t)"

definition less_than :: "qlt_type1 \<Rightarrow> nat \<Rightarrow> bool" where
  "less_than t j = (let hp = t1_pos t div 2 in if is_point t then hp < j else hp \<le> j)"

definition equal_to :: "qlt_type1 \<Rightarrow> nat \<Rightarrow> bool" where
  "equal_to t j \<longleftrightarrow> is_point t \<and> t1_pos t div 2 = j"

definition greater_than :: "qlt_type1 \<Rightarrow> nat \<Rightarrow> bool" where
  "greater_than t j = (let hp = t1_pos t div 2 in hp > j)"

function euclid :: "int \<Rightarrow> int \<Rightarrow> int" where
  "euclid x y = (if y > 0 then euclid y (x mod y) else x)"
  by auto
termination
  by (relation "measure (nat \<circ> snd)") auto

declare euclid.simps [simp del]

definition ll_max :: int where
  "ll_max = 2 ^ 63 - 1"

definition make_reduced :: "int \<Rightarrow> int \<Rightarrow> rational option" where
  "make_reduced n d =
     (let num = (if d < 0 then - n else n); den = (if d < 0 then - d else d);
          x = euclid (if num < 0 then - num else num) den;
          num = (if x > 1 then num sdiv x else num); den = (if x > 1 then den sdiv x else den) in
      if num > ll_max \<or> num < - ll_max \<or> den > ll_max then None else Some (mk_rational num den))"

definition realize :: "qlt_type1 \<Rightarrow> rational option" where
  "realize t =
     (let k = length (t1_constants t); i = t1_pos t div 2 in
      if is_point t then Some (t1_constants t ! i)
      else if i = 0 then
        (if k = 0 then Some (mk_rational 0 1)
         else let c = t1_constants t ! 0 in make_reduced (rt_p c - rt_q c) (rt_q c))
      else if i = k then let c = t1_constants t ! (k - 1) in make_reduced (rt_p c + rt_q c) (rt_q c)
      else
        let a = t1_constants t ! (i - 1); b = t1_constants t ! i in
        make_reduced (rt_p a + rt_p b) (rt_q a + rt_q b))"

text \<open>
  The constants sorted and deduplicated. \<^verbatim>\<open>std::sort\<close> leaves the order of equal constants open; this
  one keeps it, and nothing below depends on more than their values.
\<close>

fun insert_constant :: "rational \<Rightarrow> rational list \<Rightarrow> rational list" where
  "insert_constant a [] = [a]"
| "insert_constant a (b # bs) = (if cmp b a < 0 then b # insert_constant a bs else a # b # bs)"

definition sort_constants :: "rational list \<Rightarrow> rational list" where
  "sort_constants cs = foldr insert_constant cs []"

fun unique_constants :: "rational list \<Rightarrow> rational list" where
  "unique_constants [] = []"
| "unique_constants [a] = [a]"
| "unique_constants (a # b # bs) =
     (if cmp a b = 0 then unique_constants (a # bs) else a # unique_constants (b # bs))"

definition enumerate_qlt_T1 :: "rational list \<Rightarrow> qlt_type1 list" where
  "enumerate_qlt_T1 constants =
     (let cs = unique_constants (sort_constants constants) in
      map (\<lambda>p. \<lparr>t1_pos = p, t1_constants = cs\<rparr>) [0..<2 * length cs + 1])"

fun type_from :: "nat \<Rightarrow> rational \<Rightarrow> rational list \<Rightarrow> nat" where
  "type_from i v [] = 2 * i"
| "type_from i v (cst # cs) =
     (let c = cmp v cst in
      if c < 0 then 2 * i else if c = 0 then 2 * i + 1 else type_from (i + 1) v cs)"

definition qlt_type_of :: "rational \<Rightarrow> rational list \<Rightarrow> nat" where
  "qlt_type_of v sorted_consts = type_from 0 v sorted_consts"

section \<open>Types of two and three elements\<close>

datatype relation = LT | EQ | GT

definition rel_at :: "int \<Rightarrow> relation" where
  "rel_at r = (if r = 0 then LT else if r = 1 then EQ else GT)"

record qlt_type2 =
  t2_pos_m :: nat
  t2_pos_x :: nat
  t2_rel :: relation
  t2_constants :: "rational list"

definition t2_restrict_m :: "qlt_type2 \<Rightarrow> qlt_type1" where
  "t2_restrict_m t = \<lparr>t1_pos = t2_pos_m t, t1_constants = t2_constants t\<rparr>"

definition t2_restrict_x :: "qlt_type2 \<Rightarrow> qlt_type1" where
  "t2_restrict_x t = \<lparr>t1_pos = t2_pos_x t, t1_constants = t2_constants t\<rparr>"

definition forced_rel_between :: "qlt_type1 \<Rightarrow> qlt_type1 \<Rightarrow> int" where
  "forced_rel_between ta tb =
     (if is_interval ta \<and> is_interval tb \<and> t1_pos ta = t1_pos tb then -1
      else if t1_pos ta < t1_pos tb then 0 else if t1_pos ta = t1_pos tb then 1 else 2)"

definition enumerate_qlt_T2 :: "rational list \<Rightarrow> qlt_type2 list" where
  "enumerate_qlt_T2 constants =
     (let t1 = enumerate_qlt_T1 constants in
      concat (map (\<lambda>tm. concat (map (\<lambda>tx.
        let f = forced_rel_between tm tx;
            triple = (\<lambda>r. \<lparr>t2_pos_m = t1_pos tm, t2_pos_x = t1_pos tx, t2_rel = r, t2_constants = t1_constants tm\<rparr>)
        in if f < 0 then map triple [LT, EQ, GT] else [triple (rel_at f)]) t1)) t1))"

definition rel3_consistent :: "relation \<Rightarrow> relation \<Rightarrow> relation \<Rightarrow> bool" where
  "rel3_consistent r_mx r_xy r_my =
     (if r_mx = LT \<and> r_xy = LT then r_my = LT
      else if r_mx = LT \<and> r_xy = EQ then r_my = LT
      else if r_mx = EQ \<and> r_xy = LT then r_my = LT
      else if r_mx = EQ \<and> r_xy = EQ then r_my = EQ
      else if r_mx = EQ \<and> r_xy = GT then r_my = GT
      else if r_mx = GT \<and> r_xy = EQ then r_my = GT
      else if r_mx = GT \<and> r_xy = GT then r_my = GT
      else True)"

record qlt_type3 =
  t3_pos_m :: nat
  t3_pos_x :: nat
  t3_pos_y :: nat
  t3_rel_mx :: relation
  t3_rel_my :: relation
  t3_rel_xy :: relation
  t3_constants :: "rational list"

definition t3_restrict_m :: "qlt_type3 \<Rightarrow> qlt_type1" where
  "t3_restrict_m t = \<lparr>t1_pos = t3_pos_m t, t1_constants = t3_constants t\<rparr>"

definition t3_restrict_x :: "qlt_type3 \<Rightarrow> qlt_type1" where
  "t3_restrict_x t = \<lparr>t1_pos = t3_pos_x t, t1_constants = t3_constants t\<rparr>"

definition t3_restrict_y :: "qlt_type3 \<Rightarrow> qlt_type1" where
  "t3_restrict_y t = \<lparr>t1_pos = t3_pos_y t, t1_constants = t3_constants t\<rparr>"

text \<open>The relations a forced one leaves: all three, or itself.\<close>

definition allowed :: "int \<Rightarrow> int list" where
  "allowed f = filter (\<lambda>i. \<not> (f \<ge> 0 \<and> i \<noteq> f)) [0, 1, 2]"

definition types3_of :: "qlt_type1 \<Rightarrow> qlt_type1 \<Rightarrow> qlt_type1 \<Rightarrow> qlt_type3 list" where
  "types3_of tm tx ty =
     (let f_mx = forced_rel_between tm tx; f_my = forced_rel_between tm ty; f_xy = forced_rel_between tx ty in
      concat (map (\<lambda>i_mx. concat (map (\<lambda>i_xy. concat (map (\<lambda>i_my.
        let r_mx = rel_at i_mx; r_xy = rel_at i_xy; r_my = rel_at i_my in
        if rel3_consistent r_mx r_xy r_my then
          [\<lparr>t3_pos_m = t1_pos tm, t3_pos_x = t1_pos tx, t3_pos_y = t1_pos ty,
            t3_rel_mx = r_mx, t3_rel_my = r_my, t3_rel_xy = r_xy, t3_constants = t1_constants tm\<rparr>]
        else []) (allowed f_my))) (allowed f_xy))) (allowed f_mx)))"

definition enumerate_qlt_T3 :: "rational list \<Rightarrow> qlt_type3 list" where
  "enumerate_qlt_T3 constants =
     (let t1 = enumerate_qlt_T1 constants in
      concat (map (\<lambda>tm. concat (map (\<lambda>tx. concat (map (\<lambda>ty. types3_of tm tx ty) t1)) t1)) t1))"

end
