(* ===== verification/Omcat_Realised.thy ===== *)
theory Omcat_Realised imports Omcat_Types begin

text \<open>
  What the enumerations of \<open>Omcat_Types\<close> mean: a position is a point or an interval of the rationals
  cut by the constants, \<open>realize\<close> returns an element of its type, and the two- and three-element
  types are exactly those that some rationals have.
\<close>

section \<open>Positions\<close>

definition rt_val :: "rational \<Rightarrow> rat" where
  "rt_val a = Fract (rt_p a) (rt_q a)"

text \<open>Positive denominators; the constants need not be reduced.\<close>

definition rt_ok :: "rational \<Rightarrow> bool" where
  "rt_ok a \<longleftrightarrow> 0 < rt_q a"

lemma cmp_val: "rt_ok a \<Longrightarrow> rt_ok b \<Longrightarrow>
  cmp a b = (if rt_val a < rt_val b then -1 else if rt_val a = rt_val b then 0 else 1)"
  by (auto simp: cmp_def rt_val_def rt_ok_def Let_def eq_rat)

fun position :: "rat list \<Rightarrow> rat \<Rightarrow> nat" where
  "position [] v = 0"
| "position (c # cs) v = (if v < c then 0 else if v = c then 1 else position cs v + 2)"

abbreviation increasing :: "rat list \<Rightarrow> bool" where
  "increasing cs \<equiv> sorted_wrt (<) cs"

lemma position_le: "position cs v \<le> 2 * length cs"
  by (induction cs) auto

lemma position_mono: "v \<le> w \<Longrightarrow> position cs v \<le> position cs w"
  by (induction cs) auto

lemma position_less: "position cs v < position cs w \<Longrightarrow> v < w"
  using position_mono [of w v cs] by (meson leD not_le_imp_less)

lemma position_point:
  "increasing cs \<Longrightarrow> i < length cs \<Longrightarrow> position cs v = 2 * i + 1 \<longleftrightarrow> v = cs ! i"
proof (induction cs arbitrary: i)
  case (Cons c cs)
  show ?case
  proof (cases i)
    case 0
    then show ?thesis by auto
  next
    case (Suc j)
    then have j: "c < cs ! j" "j < length cs" using Cons.prems by auto
    have "position cs v = 2 * j + 1 \<longleftrightarrow> v = cs ! j" using Cons.IH [OF _ j(2)] Cons.prems(1) by simp
    then show ?thesis using Suc j(1) by (cases "v < c"; cases "v = c") auto
  qed
qed simp

lemma position_interval:
  assumes "increasing cs" "i \<le> length cs"
  shows "position cs v = 2 * i \<longleftrightarrow> (0 < i \<longrightarrow> cs ! (i - 1) < v) \<and> (i < length cs \<longrightarrow> v < cs ! i)"
  using assms
proof (induction cs arbitrary: i)
  case (Cons c cs)
  show ?case
  proof (cases i)
    case 0
    then show ?thesis by auto
  next
    case (Suc j)
    have j: "j \<le> length cs" using Suc Cons.prems(2) by simp
    have IH: "position cs v = 2 * j \<longleftrightarrow> (0 < j \<longrightarrow> cs ! (j - 1) < v) \<and> (j < length cs \<longrightarrow> v < cs ! j)"
      using Cons.IH [OF _ j] Cons.prems(1) by simp
    have "0 < j \<Longrightarrow> c < cs ! (j - 1)" using Cons.prems(1) j by simp
    then show ?thesis using Suc IH by (cases j) auto
  qed
qed simp

lemma type_from_position:
  "\<forall>c \<in> set cs. rt_ok c \<Longrightarrow> rt_ok v \<Longrightarrow> type_from i v cs = 2 * i + position (map rt_val cs) (rt_val v)"
  by (induction cs arbitrary: i) (auto simp: cmp_val Let_def)

section \<open>The constants\<close>

lemma insert_constant_set: "set (insert_constant a bs) = insert a (set bs)"
  by (induction bs) auto

lemma insert_constant_sorted:
  assumes "rt_ok a" "\<forall>b \<in> set bs. rt_ok b" "sorted (map rt_val bs)"
  shows "sorted (map rt_val (insert_constant a bs))"
  using assms(2,3)
proof (induction bs)
  case (Cons b bs)
  then show ?case
    using assms(1) by (auto simp: cmp_val insert_constant_set not_less split: if_splits)
qed simp

lemma sort_constants_sorted:
  "\<forall>c \<in> set cs. rt_ok c \<Longrightarrow> set (sort_constants cs) = set cs \<and> sorted (map rt_val (sort_constants cs))"
  by (induction cs) (auto simp: sort_constants_def insert_constant_set intro: insert_constant_sorted)

lemma unique_constants_increasing:
  "\<forall>c \<in> set cs. rt_ok c \<Longrightarrow> sorted (map rt_val cs) \<Longrightarrow>
    increasing (map rt_val (unique_constants cs)) \<and> rt_val ` set (unique_constants cs) = rt_val ` set cs \<and>
    set (unique_constants cs) \<subseteq> set cs"
proof (induction cs rule: unique_constants.induct)
  case (3 a b bs)
  show ?case
  proof (cases "cmp a b = 0")
    case True
    then have eq: "rt_val a = rt_val b" using 3 by (simp add: cmp_val split: if_splits)
    have "increasing (map rt_val (unique_constants (a # bs))) \<and>
        rt_val ` set (unique_constants (a # bs)) = rt_val ` set (a # bs) \<and>
        set (unique_constants (a # bs)) \<subseteq> set (a # bs)"
      using 3 True by auto
    then show ?thesis using True eq by auto
  next
    case False
    then have lt: "rt_val a < rt_val b" using 3 by (auto simp: cmp_val split: if_splits)
    have IH: "increasing (map rt_val (unique_constants (b # bs)))"
        "rt_val ` set (unique_constants (b # bs)) = rt_val ` set (b # bs)"
        "set (unique_constants (b # bs)) \<subseteq> set (b # bs)"
      using 3 False by auto
    have "\<forall>c \<in> set (b # bs). rt_val a < rt_val c" using lt 3 by auto
    then have "\<forall>x \<in> rt_val ` set (unique_constants (b # bs)). rt_val a < x" using IH(2) by auto
    then show ?thesis using False IH by auto
  qed
qed auto

definition constants_of :: "rational list \<Rightarrow> rational list" where
  "constants_of cs = unique_constants (sort_constants cs)"

definition cuts :: "rational list \<Rightarrow> rat list" where
  "cuts cs = map rt_val (constants_of cs)"

lemma cuts_increasing:
  assumes "\<forall>c \<in> set cs. rt_ok c"
  shows "increasing (cuts cs)" "set (cuts cs) = rt_val ` set cs" "\<forall>c \<in> set (constants_of cs). rt_ok c"
proof -
  have s: "set (sort_constants cs) = set cs" "sorted (map rt_val (sort_constants cs))"
    using sort_constants_sorted [OF assms] by blast+
  from unique_constants_increasing [of "sort_constants cs"] s assms
  show "increasing (cuts cs)" "set (cuts cs) = rt_val ` set cs" "\<forall>c \<in> set (constants_of cs). rt_ok c"
    unfolding cuts_def constants_of_def by auto
qed

lemma qlt_type_of_position:
  assumes "\<forall>c \<in> set cs. rt_ok c" "rt_ok v"
  shows "qlt_type_of v (constants_of cs) = position (cuts cs) (rt_val v)"
  using type_from_position [OF cuts_increasing(3) [OF assms(1)] assms(2), of 0]
  by (simp add: qlt_type_of_def cuts_def)

lemma enumerate_T1: "enumerate_qlt_T1 cs =
  map (\<lambda>p. \<lparr>t1_pos = p, t1_constants = constants_of cs\<rparr>) [0..<2 * length (cuts cs) + 1]"
  by (simp add: enumerate_qlt_T1_def constants_of_def cuts_def Let_def)

section \<open>Elements of a type\<close>

lemma euclid_gcd: "0 \<le> x \<Longrightarrow> 0 \<le> y \<Longrightarrow> euclid x y = gcd x y"
proof (induction x y rule: euclid.induct)
  case (1 x y)
  show ?case
  proof (cases "y > 0")
    case True
    then have "euclid x y = euclid y (x mod y)" by (subst euclid.simps) simp
    also have "\<dots> = gcd y (x mod y)" using 1 True by (intro "1.IH") simp_all
    finally show ?thesis by (simp add: gcd_red_int [symmetric] gcd.commute)
  next
    case False
    then show ?thesis using 1 by (subst euclid.simps) simp
  qed
qed

lemma make_reduced_val:
  assumes "0 < d" "make_reduced n d = Some r"
  shows "rt_val r = Fract n d \<and> rt_ok r"
proof -
  define x where "x = gcd n d"
  have x: "euclid (if n < 0 then - n else n) d = x" "0 < x" "x dvd n" "x dvd d"
    using assms(1) euclid_gcd [of "\<bar>n\<bar>" d] by (auto simp: x_def abs_if)
  have d: "0 < d div x" using x assms(1) by (simp add: pos_imp_zdiv_pos_iff zdvd_imp_le)
  have "Fract (n div x) (d div x) = Fract n d"
    using x(2-4) assms(1) d by (auto simp: eq_rat dvd_def)
  moreover have "r = mk_rational (n div x) (d div x)"
  proof (cases "x > 1")
    case True
    then show ?thesis using assms x by (simp add: make_reduced_def Let_def sdiv_dvd split: if_splits)
  next
    case False
    then have "x = 1" using x(2) by simp
    then show ?thesis using assms x(1) by (simp add: make_reduced_def Let_def split: if_splits)
  qed
  ultimately show ?thesis using d by (simp add: rt_val_def rt_ok_def mk_rational_def)
qed

text \<open>
  The rationals \<open>make_reduced\<close> accepts: those the lowest terms of which have a numerator of absolute
  value, and a denominator, at most \<open>2 ^ 63 - 1\<close> (so the numerator \<open>- 2 ^ 63\<close> is refused).
\<close>

definition narrow :: "rat \<Rightarrow> bool" where
  "narrow c \<longleftrightarrow> (\<exists>p q. quotient_of c = (p, q) \<and> \<bar>p\<bar> \<le> ll_max \<and> q \<le> ll_max)"

lemma make_reduced_eq:
  assumes "0 < d"
  shows "make_reduced n d = (if narrow (Fract n d)
    then Some (mk_rational (fst (quotient_of (Fract n d))) (snd (quotient_of (Fract n d)))) else None)"
proof -
  define x where "x = gcd n d"
  have x: "euclid (if n < 0 then - n else n) d = x" "0 < x" "x dvd n" "x dvd d"
    using assms(1) euclid_gcd [of "\<bar>n\<bar>" d] by (auto simp: x_def abs_if)
  have d: "0 < d div x" using x assms(1) by (simp add: pos_imp_zdiv_pos_iff zdvd_imp_le)
  have q: "quotient_of (Fract n d) = (n div x, d div x)"
    using assms by (simp add: quotient_of_Fract Rat.normalize_def x_def Let_def)
  have "x = 1 \<or> x > 1" using x(2) by linarith
  then have "make_reduced n d = (if n div x > ll_max \<or> n div x < - ll_max \<or> d div x > ll_max
      then None else Some (mk_rational (n div x) (d div x)))"
    using assms x(1) sdiv_dvd [OF x(3)] sdiv_dvd [OF x(4)] by (auto simp: make_reduced_def Let_def)
  then show ?thesis by (auto simp: q narrow_def)
qed

lemma Fract_less:
  assumes "0 < b" "0 < d"
  shows "Fract a b < Fract c d \<longleftrightarrow> a * d < c * b"
proof -
  have pos: "0 < b * d" using assms by simp
  have "Fract a b < Fract c d \<longleftrightarrow> a * d * (b * d) < c * b * (b * d)" by (rule less_rat) (use assms in auto)
  then show ?thesis unfolding mult_less_cancel_right_pos [OF pos] .
qed

lemma mediant_between:
  assumes "rt_ok a" "rt_ok b" "rt_val a < rt_val b"
  shows "rt_val a < Fract (rt_p a + rt_p b) (rt_q a + rt_q b)" "Fract (rt_p a + rt_p b) (rt_q a + rt_q b) < rt_val b"
proof -
  have "rt_p a * rt_q b < rt_p b * rt_q a"
    using assms by (simp add: rt_val_def rt_ok_def Fract_less del: less_rat)
  then show "rt_val a < Fract (rt_p a + rt_p b) (rt_q a + rt_q b)" "Fract (rt_p a + rt_p b) (rt_q a + rt_q b) < rt_val b"
    using assms(1,2) by (simp_all add: rt_val_def rt_ok_def Fract_less algebra_simps del: less_rat)
qed

text \<open>
  The element a type is realised by, before it is reduced and narrowed: a constant, the first one
  less one, the last one and one, the mediant of two neighbours, or 0 without constants.
\<close>

definition representative :: "qlt_type1 \<Rightarrow> rat" where
  "representative t =
     (let k = length (t1_constants t); i = t1_pos t div 2; c = (\<lambda>j. t1_constants t ! j) in
      if is_point t then rt_val (c i)
      else if k = 0 then 0
      else if i = 0 then rt_val (c 0) - 1
      else if i = k then rt_val (c (k - 1)) + 1
      else Fract (rt_p (c (i - 1)) + rt_p (c i)) (rt_q (c (i - 1)) + rt_q (c i)))"

lemma realize_candidate:
  assumes "\<forall>c \<in> set cs. rt_ok c" "p \<le> 2 * length (cuts cs)"
  defines "t \<equiv> \<lparr>t1_pos = p, t1_constants = constants_of cs\<rparr>"
  shows "position (cuts cs) (representative t) = p \<and>
    ((\<exists>r. realize t = Some r \<and> rt_ok r \<and> rt_val r = representative t \<and> (is_interval t \<longrightarrow> narrow (representative t))) \<or>
    (\<exists>n d. is_interval t \<and> 0 < d \<and> realize t = make_reduced n d \<and> Fract n d = representative t))"
proof -
  let ?cs = "constants_of cs" and ?i = "p div 2"
  note cuts = cuts_increasing [OF assms(1)]
  have len: "length ?cs = length (cuts cs)" by (simp add: cuts_def)
  have nth: "cuts cs ! j = rt_val (?cs ! j)" "rt_ok (?cs ! j)" if "j < length (cuts cs)" for j
  proof -
    have "j < length ?cs" using that len by simp
    then show "cuts cs ! j = rt_val (?cs ! j)" "rt_ok (?cs ! j)" using cuts(3) by (simp_all add: cuts_def)
  qed
  show ?thesis
  proof (cases "p mod 2 = 1")
    case True
    then have p: "p = 2 * ?i + 1" "?i < length (cuts cs)" using assms(2) by presburger+
    have "realize t = Some (?cs ! ?i)" using True by (simp add: t_def realize_def is_point_def Let_def)
    moreover have "representative t = rt_val (?cs ! ?i)" "\<not> is_interval t"
      using True by (simp_all add: t_def representative_def is_interval_def is_point_def Let_def)
    ultimately show ?thesis using nth [OF p(2)] position_point [OF cuts(1) p(2)] p(1) by simp
  next
    case False
    then have p: "p = 2 * ?i" "?i \<le> length (cuts cs)" using assms(2) by presburger+
    have int: "is_interval t" using False by (simp add: t_def is_interval_def is_point_def)
    note iff = position_interval [OF cuts(1) p(2)]
    consider "?i = 0" "length (cuts cs) = 0" | "?i = 0" "0 < length (cuts cs)"
      | "0 < ?i" "?i = length (cuts cs)" | "0 < ?i" "?i < length (cuts cs)" using p(2) by linarith
    then show ?thesis
    proof cases
      case 1
      then have "realize t = Some (mk_rational 0 1)" using False len by (simp add: t_def realize_def is_point_def Let_def)
      moreover have "representative t = 0" "\<not> is_point t"
        using False 1 len by (simp_all add: t_def representative_def is_point_def Let_def)
      moreover have "rt_ok (mk_rational 0 1)" "rt_val (mk_rational 0 1) = 0" "narrow 0"
        by (simp_all add: rt_ok_def mk_rational_def rt_val_def narrow_def ll_max_def rat_number_collapse)
      ultimately show ?thesis using iff 1 p(1) by simp
    next
      case 2
      let ?c = "?cs ! 0"
      note c = nth [OF 2(2)]
      have "realize t = make_reduced (rt_p ?c - rt_q ?c) (rt_q ?c)"
        using False 2 len by (simp add: t_def realize_def is_point_def Let_def)
      moreover have rep: "representative t = rt_val ?c - 1"
        using False 2 len by (simp add: t_def representative_def is_point_def Let_def)
      moreover have "Fract (rt_p ?c - rt_q ?c) (rt_q ?c) = rt_val ?c - 1"
        using c(2) by (simp add: rt_val_def rt_ok_def Rat.One_rat_def)
      moreover have "position (cuts cs) (representative t) = p" using iff c(1) 2 p(1) rep by simp
      ultimately show ?thesis using int c(2) unfolding rt_ok_def by metis
    next
      case 3
      let ?c = "?cs ! (?i - 1)"
      have j: "?i - 1 < length (cuts cs)" using 3 by simp
      note c = nth [OF j]
      have "realize t = make_reduced (rt_p ?c + rt_q ?c) (rt_q ?c)"
        using False 3 len by (simp add: t_def realize_def is_point_def Let_def)
      moreover have rep: "representative t = rt_val ?c + 1"
        using False 3 len by (simp add: t_def representative_def is_point_def Let_def)
      moreover have "Fract (rt_p ?c + rt_q ?c) (rt_q ?c) = rt_val ?c + 1"
        using c(2) by (simp add: rt_val_def rt_ok_def Rat.One_rat_def)
      moreover have "position (cuts cs) (representative t) = p" using iff c(1) 3 p(1) rep by simp
      ultimately show ?thesis using int c(2) unfolding rt_ok_def by metis
    next
      case 4
      let ?a = "?cs ! (?i - 1)" and ?b = "?cs ! ?i"
      have j: "?i - 1 < length (cuts cs)" using 4 by simp
      note a = nth [OF j] and b = nth [OF 4(2)]
      have "cuts cs ! (?i - 1) < cuts cs ! ?i" using cuts(1) 4 by (simp add: sorted_wrt_nth_less)
      then have "rt_val ?a < rt_val ?b" using a(1) b(1) by simp
      note between = mediant_between [OF a(2) b(2) this]
      have "realize t = make_reduced (rt_p ?a + rt_p ?b) (rt_q ?a + rt_q ?b)"
        using False 4 len by (simp add: t_def realize_def is_point_def Let_def)
      moreover have "0 < rt_q ?a + rt_q ?b" using a(2) b(2) by (simp add: rt_ok_def)
      moreover have "representative t = Fract (rt_p ?a + rt_p ?b) (rt_q ?a + rt_q ?b)"
        using False 4 len by (auto simp: t_def representative_def is_point_def Let_def)
      moreover from this have "position (cuts cs) (representative t) = p"
        using between a(1) b(1) iff 4 p(1) by simp
      ultimately show ?thesis using int by metis
    qed
  qed
qed

lemma realize_eq:
  assumes "\<forall>c \<in> set cs. rt_ok c" "t \<in> set (enumerate_qlt_T1 cs)"
  shows "position (cuts cs) (representative t) = t1_pos t" "t1_constants t = constants_of cs"
    "realize t = None \<longleftrightarrow> is_interval t \<and> \<not> narrow (representative t)"
    "realize t = Some r \<Longrightarrow> rt_ok r \<and> rt_val r = representative t"
proof -
  obtain p where t: "t = \<lparr>t1_pos = p, t1_constants = constants_of cs\<rparr>" "p \<le> 2 * length (cuts cs)"
    using assms(2) by (auto simp: enumerate_T1)
  note cand = realize_candidate [OF assms(1) t(2), folded t(1)]
  show "position (cuts cs) (representative t) = t1_pos t" "t1_constants t = constants_of cs"
    using cand t(1) by simp_all
  show "realize t = None \<longleftrightarrow> is_interval t \<and> \<not> narrow (representative t)"
    using cand make_reduced_eq by (metis option.distinct(1))
  show "rt_ok r \<and> rt_val r = representative t" if "realize t = Some r"
    using cand that make_reduced_val by (metis option.inject)
qed

section \<open>Tuples\<close>

definition rel_of :: "'a::linorder \<Rightarrow> 'a \<Rightarrow> relation" where
  "rel_of a b = (if a < b then LT else if a = b then EQ else GT)"

text \<open>Three increasing elements of an interval, or a point three times.\<close>

lemma position_samples:
  assumes "increasing cs" "p \<le> 2 * length cs"
  shows "\<exists>f :: nat \<Rightarrow> rat. (\<forall>n. position cs (f n) = p) \<and> (even p \<longrightarrow> (\<forall>i j. rel_of (f i) (f j) = rel_of i j))"
proof (cases "even p")
  case False
  then have p: "p = 2 * (p div 2) + 1" "p div 2 < length cs" using assms(2) by presburger+
  have "position cs (cs ! (p div 2)) = p" using position_point [OF assms(1) p(2)] p(1) by simp
  then show ?thesis using False by (intro exI [of _ "\<lambda>_. cs ! (p div 2)"]) simp
next
  case True
  define i where "i = p div 2"
  have p: "p = 2 * i" "i \<le> length cs" using True assms(2) by (auto simp: i_def)
  define lo where "lo = (if 0 < i then cs ! (i - 1) else if i < length cs then cs ! i - 1 else 0)"
  define hi where "hi = (if i < length cs then cs ! i else lo + 1)"
  have less: "lo < hi"
    using assms(1) p(2) by (auto simp: lo_def hi_def sorted_wrt_nth_less)
  define f where "f n = hi - (hi - lo) / (of_nat n + 2)" for n :: nat
  have f: "lo < f n" "f n < hi" for n
  proof -
    have "(hi - lo) / (of_nat n + 2) < hi - lo"
      using less by (simp add: divide_less_eq mult_less_cancel_left1)
    then show "lo < f n" by (simp add: f_def)
    show "f n < hi" using less by (simp add: f_def add_nonneg_pos)
  qed
  have "position cs (f n) = p" for n
    unfolding p(1) position_interval [OF assms(1) p(2)]
    using f [of n] by (auto simp: lo_def hi_def split: if_splits)
  moreover have strict: "f m < f n" if "m < n" for m n
    using less that by (simp add: f_def divide_strict_left_mono add_pos_pos)
  have "rel_of (f m) (f n) = rel_of m n" for m n
    using strict [of m n] strict [of n m] by (cases m n rule: linorder_cases) (auto simp: rel_of_def)
  ultimately show ?thesis by blast
qed

definition forced :: "nat \<Rightarrow> nat \<Rightarrow> int" where
  "forced p q = (if even p \<and> p = q then -1 else if p < q then 0 else if p = q then 1 else 2)"

lemma forced_rel: "forced_rel_between ta tb = forced (t1_pos ta) (t1_pos tb)"
  by (auto simp: forced_rel_between_def forced_def is_interval_def is_point_def)

lemma allowed_iff: "r \<in> rel_at ` set (allowed (forced p q)) \<longleftrightarrow> (even p \<and> p = q) \<or> r = rel_of p q"
  by (cases r) (auto simp: allowed_def forced_def rel_at_def rel_of_def split: if_splits)

lemma position_rel:
  assumes "increasing cs" "position cs a = p" "position cs b = q"
  shows "(even p \<and> p = q) \<or> rel_of a b = rel_of p q"
proof (cases "p = q")
  case True
  show ?thesis
  proof (cases "even p")
    case False
    have "p \<le> 2 * length cs" using position_le assms(2) by blast
    then have i: "p = 2 * (p div 2) + 1" "p div 2 < length cs" using False by presburger+
    have "a = b" using position_point [OF assms(1) i(2)] i(1) assms(2,3) True by metis
    then show ?thesis using True by (simp add: rel_of_def)
  qed (use True in simp)
next
  case False
  then consider "p < q" | "q < p" by linarith
  then show ?thesis
  proof cases
    case 1
    then have "a < b" using position_less assms(2,3) by blast
    then show ?thesis using 1 by (simp add: rel_of_def)
  next
    case 2
    then have "b < a" using position_less assms(2,3) by blast
    then show ?thesis using 2 by (auto simp: rel_of_def)
  qed
qed

text \<open>A consistent triple of relations is the order of three numbers below three.\<close>

lemma consistent_ranks:
  assumes "rel3_consistent r_mx r_xy r_my"
  shows "\<exists>m x y :: nat. rel_of m x = r_mx \<and> rel_of x y = r_xy \<and> rel_of m y = r_my"
proof -
  have "\<exists>m \<in> {0, 1, 2}. \<exists>x \<in> {0, 1, 2}. \<exists>y \<in> {0, 1, 2 :: nat}. rel_of m x = r_mx \<and> rel_of x y = r_xy \<and> rel_of m y = r_my"
    using assms by (cases r_mx; cases r_xy; cases r_my) (simp_all add: rel3_consistent_def rel_of_def)
  then show ?thesis by blast
qed

lemma rel_of_consistent: "rel3_consistent (rel_of m x) (rel_of x y) (rel_of m y)"
  by (auto simp: rel3_consistent_def rel_of_def)

lemma upt_positions: "set [0..<2 * n + 1] = {..2 * n}"
  by auto

lemma types2_enumerated:
  "(\<exists>t \<in> set (enumerate_qlt_T2 cs). t2_pos_m t = p \<and> t2_pos_x t = q \<and> t2_rel t = r) \<longleftrightarrow>
    p \<le> 2 * length (cuts cs) \<and> q \<le> 2 * length (cuts cs) \<and> ((even p \<and> p = q) \<or> r = rel_of p q)"
proof -
  let ?triple = "\<lambda>p q r. \<lparr>t2_pos_m = p, t2_pos_x = q, t2_rel = r, t2_constants = constants_of cs\<rparr>"
  have all: "UNIV = {LT, EQ, GT}" using relation.exhaust by auto
  have inner: "set (if forced p q < 0 then map (?triple p q) [LT, EQ, GT] else [?triple p q (rel_at (forced p q))]) =
      ?triple p q ` {r. (even p \<and> p = q) \<or> r = rel_of p q}" for p q
  proof (cases "even p \<and> p = q")
    case True
    then show ?thesis using all by (auto simp: forced_def)
  next
    case False
    then have "0 \<le> forced p q" "rel_at (forced p q) = rel_of p q" by (auto simp: forced_def rel_at_def rel_of_def)
    then show ?thesis using False by auto
  qed
  have "set (enumerate_qlt_T2 cs) = (\<Union>p \<in> {..2 * length (cuts cs)}. \<Union>q \<in> {..2 * length (cuts cs)}.
      ?triple p q ` {r. (even p \<and> p = q) \<or> r = rel_of p q})"
    by (simp only: enumerate_qlt_T2_def enumerate_T1 Let_def set_concat set_map image_image upt_positions forced_rel
      qlt_type1.simps inner)
  then show ?thesis by auto
qed

lemma types3_enumerated:
  "(\<exists>t \<in> set (enumerate_qlt_T3 cs). t3_pos_m t = p \<and> t3_pos_x t = q \<and> t3_pos_y t = s \<and>
      t3_rel_mx t = r_mx \<and> t3_rel_xy t = r_xy \<and> t3_rel_my t = r_my) \<longleftrightarrow>
    p \<le> 2 * length (cuts cs) \<and> q \<le> 2 * length (cuts cs) \<and> s \<le> 2 * length (cuts cs) \<and>
    ((even p \<and> p = q) \<or> r_mx = rel_of p q) \<and> ((even q \<and> q = s) \<or> r_xy = rel_of q s) \<and>
    ((even p \<and> p = s) \<or> r_my = rel_of p s) \<and> rel3_consistent r_mx r_xy r_my"
proof -
  let ?t = "\<lambda>p. \<lparr>t1_pos = p, t1_constants = constants_of cs\<rparr>"
  have "(\<exists>t \<in> set (types3_of (?t p) (?t q) (?t s)). t3_rel_mx t = r_mx \<and> t3_rel_xy t = r_xy \<and> t3_rel_my t = r_my) \<longleftrightarrow>
      r_mx \<in> rel_at ` set (allowed (forced p q)) \<and> r_xy \<in> rel_at ` set (allowed (forced q s)) \<and>
      r_my \<in> rel_at ` set (allowed (forced p s)) \<and> rel3_consistent r_mx r_xy r_my"
    by (auto simp: types3_of_def forced_rel Let_def split: if_splits)
  moreover have "t \<in> set (types3_of (?t p) (?t q) (?t s)) \<Longrightarrow> t3_pos_m t = p \<and> t3_pos_x t = q \<and> t3_pos_y t = s" for t p q s
    by (auto simp: types3_of_def Let_def split: if_splits)
  moreover have "set (enumerate_qlt_T3 cs) = (\<Union>p \<in> {..2 * length (cuts cs)}. \<Union>q \<in> {..2 * length (cuts cs)}.
      \<Union>s \<in> {..2 * length (cuts cs)}. set (types3_of (?t p) (?t q) (?t s)))"
    by (simp only: enumerate_qlt_T3_def enumerate_T1 Let_def set_concat set_map image_image upt_positions)
  ultimately show ?thesis unfolding allowed_iff by blast
qed

text \<open>
  C24: the two- and three-element types enumerated over the constants are exactly the positions and
  the order relations that some rationals have, whatever the order and repetition of the constants.
\<close>

theorem types_realised:
  assumes "\<forall>c \<in> set cs. rt_ok c"
  shows "((\<exists>t \<in> set (enumerate_qlt_T2 cs). t2_pos_m t = p \<and> t2_pos_x t = q \<and> t2_rel t = r) \<longleftrightarrow>
      (\<exists>m x. position (cuts cs) m = p \<and> position (cuts cs) x = q \<and> rel_of m x = r)) \<and>
    ((\<exists>t \<in> set (enumerate_qlt_T3 cs). t3_pos_m t = p \<and> t3_pos_x t = q \<and> t3_pos_y t = s \<and>
        t3_rel_mx t = r_mx \<and> t3_rel_xy t = r_xy \<and> t3_rel_my t = r_my) \<longleftrightarrow>
      (\<exists>m x y. position (cuts cs) m = p \<and> position (cuts cs) x = q \<and> position (cuts cs) y = s \<and>
        rel_of m x = r_mx \<and> rel_of x y = r_xy \<and> rel_of m y = r_my))"
proof -
  note inc = cuts_increasing(1) [OF assms]
  let ?k = "2 * length (cuts cs)"
  have choose: "\<exists>m x y. position (cuts cs) m = p \<and> position (cuts cs) x = q \<and> position (cuts cs) y = s \<and>
      (even p \<and> p = q \<longrightarrow> rel_of m x = rel_of i j) \<and> (even q \<and> q = s \<longrightarrow> rel_of x y = rel_of j k) \<and>
      (even p \<and> p = s \<longrightarrow> rel_of m y = rel_of i k)"
    if "p \<le> ?k" "q \<le> ?k" "s \<le> ?k" for p q s and i j k :: nat
  proof -
    define f where "f p = (SOME f :: nat \<Rightarrow> rat. (\<forall>n. position (cuts cs) (f n) = p) \<and>
      (even p \<longrightarrow> (\<forall>i j. rel_of (f i) (f j) = rel_of i j)))" for p
    have f: "(\<forall>n. position (cuts cs) (f p n) = p) \<and> (even p \<longrightarrow> (\<forall>i j. rel_of (f p i) (f p j) = rel_of i j))"
      if "p \<le> ?k" for p
      unfolding f_def using position_samples [OF inc that] by (rule someI_ex)
    show ?thesis
      by (rule exI [of _ "f p i"], rule exI [of _ "f q j"], rule exI [of _ "f s k"])
        (use f [OF that(1)] f [OF that(2)] f [OF that(3)] in auto)
  qed
  have "(\<exists>t \<in> set (enumerate_qlt_T2 cs). t2_pos_m t = p \<and> t2_pos_x t = q \<and> t2_rel t = r) \<longleftrightarrow>
      (\<exists>m x. position (cuts cs) m = p \<and> position (cuts cs) x = q \<and> rel_of m x = r)" (is "?E \<longleftrightarrow> ?R")
  proof
    assume ?E
    then have e: "p \<le> ?k" "q \<le> ?k" "(even p \<and> p = q) \<or> r = rel_of p q" unfolding types2_enumerated by blast+
    obtain i j :: nat where ij: "rel_of i j = r"
      using consistent_ranks [of r EQ r] by (cases r) (auto simp: rel3_consistent_def)
    from choose [OF e(1,2,2), of i j j] obtain m x where
      "position (cuts cs) m = p" "position (cuts cs) x = q" "even p \<and> p = q \<longrightarrow> rel_of m x = r"
      unfolding ij by blast
    then show ?R using position_rel [OF inc, of m p x q] e(3) by metis
  next
    assume ?R
    then show ?E unfolding types2_enumerated using position_rel [OF inc] position_le by metis
  qed
  moreover have "(\<exists>t \<in> set (enumerate_qlt_T3 cs). t3_pos_m t = p \<and> t3_pos_x t = q \<and> t3_pos_y t = s \<and>
        t3_rel_mx t = r_mx \<and> t3_rel_xy t = r_xy \<and> t3_rel_my t = r_my) \<longleftrightarrow>
      (\<exists>m x y. position (cuts cs) m = p \<and> position (cuts cs) x = q \<and> position (cuts cs) y = s \<and>
        rel_of m x = r_mx \<and> rel_of x y = r_xy \<and> rel_of m y = r_my)" (is "?E \<longleftrightarrow> ?R")
  proof
    assume ?E
    then have e: "p \<le> ?k" "q \<le> ?k" "s \<le> ?k" "(even p \<and> p = q) \<or> r_mx = rel_of p q"
        "(even q \<and> q = s) \<or> r_xy = rel_of q s" "(even p \<and> p = s) \<or> r_my = rel_of p s" "rel3_consistent r_mx r_xy r_my"
      unfolding types3_enumerated by blast+
    from consistent_ranks [OF e(7)] obtain i j k :: nat where
      ijk: "rel_of i j = r_mx" "rel_of j k = r_xy" "rel_of i k = r_my" by blast
    from choose [OF e(1-3), of i j k] obtain m x y where
      v: "position (cuts cs) m = p" "position (cuts cs) x = q" "position (cuts cs) y = s"
        "even p \<and> p = q \<longrightarrow> rel_of m x = r_mx" "even q \<and> q = s \<longrightarrow> rel_of x y = r_xy"
        "even p \<and> p = s \<longrightarrow> rel_of m y = r_my"
      unfolding ijk by blast
    have "rel_of m x = r_mx" using position_rel [OF inc v(1,2)] v(4) e(4) by blast
    moreover have "rel_of x y = r_xy" using position_rel [OF inc v(2,3)] v(5) e(5) by blast
    moreover have "rel_of m y = r_my" using position_rel [OF inc v(1,3)] v(6) e(6) by blast
    ultimately show ?R using v(1-3) by blast
  next
    assume ?R
    then obtain m x y where v: "position (cuts cs) m = p" "position (cuts cs) x = q" "position (cuts cs) y = s"
      "rel_of m x = r_mx" "rel_of x y = r_xy" "rel_of m y = r_my" by blast
    show ?E
      unfolding types3_enumerated
      using position_rel [OF inc v(1,2)] position_rel [OF inc v(2,3)] position_rel [OF inc v(1,3)]
        rel_of_consistent [of m x y] position_le [of "cuts cs"] v by auto
  qed
  ultimately show ?thesis by (rule conjI)
qed

theorem types_realised_witness:
  "\<exists>m x y. position (cuts [mk_rational 1 2]) m = 0 \<and> position (cuts [mk_rational 1 2]) x = 1 \<and>
     position (cuts [mk_rational 1 2]) y = 0 \<and> rel_of m x = LT \<and> rel_of x y = GT \<and> rel_of m y = GT"
proof -
  have ok: "\<forall>c \<in> set [mk_rational 1 2]. rt_ok c" by (simp add: rt_ok_def mk_rational_def)
  have "list_ex (\<lambda>t. t3_pos_m t = 0 \<and> t3_pos_x t = 1 \<and> t3_pos_y t = 0 \<and>
      t3_rel_mx t = LT \<and> t3_rel_xy t = GT \<and> t3_rel_my t = GT) (enumerate_qlt_T3 [mk_rational 1 2])" by code_simp
  then show ?thesis using types_realised [OF ok, THEN conjunct2] by (simp add: list_ex_iff)
qed

text \<open>
  C25: the element that stands for an enumerated type, the constant of a point and for an interval
  its ends moved by one, the mediant of its two constants or 0, lies at the position of the type;
  \<open>realize\<close> returns exactly it, and returns none exactly for an interval whose element has in lowest
  terms a numerator of absolute value or a denominator above \<open>2 ^ 63 - 1\<close>.
\<close>

theorem realize_in_type:
  assumes "\<forall>c \<in> set cs. rt_ok c" and "t \<in> set (enumerate_qlt_T1 cs)"
  shows "position (map rt_val (t1_constants t)) (representative t) = t1_pos t \<and>
    (realize t = None \<longleftrightarrow> is_interval t \<and> \<not> narrow (representative t)) \<and>
    (\<forall>r. realize t = Some r \<longrightarrow>
      rt_ok r \<and> rt_val r = representative t \<and> qlt_type_of r (t1_constants t) = t1_pos t)"
  using realize_eq [OF assms] qlt_type_of_position [OF assms(1)] by (simp add: cuts_def)

definition tiny :: rational where "tiny = mk_rational 1 (2 ^ 63 - 1)"
definition above_one :: rational where "above_one = mk_rational (2 ^ 63 - 1) (2 ^ 63 - 2)"

theorem realize_in_type_witness:
  "realize \<lparr>t1_pos = 2, t1_constants = [mk_rational 0 1, mk_rational 1 2]\<rparr> = Some (mk_rational 1 3) \<and>
   qlt_type_of (mk_rational 1 3) [mk_rational 0 1, mk_rational 1 2] = 2 \<and>
   \<not> narrow (representative \<lparr>t1_pos = 2, t1_constants = [tiny, above_one]\<rparr>)"
proof -
  let ?cs = "[mk_rational 1 2, mk_rational 0 1]"
  let ?t = "\<lparr>t1_pos = 2, t1_constants = [mk_rational 0 1, mk_rational 1 2]\<rparr>"
    and ?u = "\<lparr>t1_pos = 2, t1_constants = [tiny, above_one]\<rparr>"
  have ok: "\<forall>c \<in> set ?cs. rt_ok c" "\<forall>c \<in> set [tiny, above_one]. rt_ok c"
    by (simp_all add: rt_ok_def mk_rational_def tiny_def above_one_def)
  have "enumerate_qlt_T1 ?cs ! 2 = ?t" "length (enumerate_qlt_T1 ?cs) = 5"
    "enumerate_qlt_T1 [tiny, above_one] ! 2 = ?u" "length (enumerate_qlt_T1 [tiny, above_one]) = 5" by code_simp+
  then have mem: "?t \<in> set (enumerate_qlt_T1 ?cs)" "?u \<in> set (enumerate_qlt_T1 [tiny, above_one])"
    using nth_mem [of 2 "enumerate_qlt_T1 ?cs"] nth_mem [of 2 "enumerate_qlt_T1 [tiny, above_one]"] by simp_all
  have "realize ?t = Some (mk_rational 1 3)" "realize ?u = None" by code_simp+
  then show ?thesis using realize_in_type [OF ok(1) mem(1)] realize_in_type [OF ok(2) mem(2)] by simp
qed

text \<open>
  An interval may be refused although it holds a rational of small parts: the mediant of these
  two constants does not fit, and 1/2 lies between them.
\<close>

theorem refused_interval_inhabited:
  "realize \<lparr>t1_pos = 2, t1_constants = [tiny, above_one]\<rparr> = None \<and> qlt_type_of (mk_rational 1 2) [tiny, above_one] = 2"
  by code_simp

end
