(* ===== verification/Synth_Game.thy ===== *)
theory Synth_Game imports Hoa_Scan Bounded_Cache begin

text \<open>
  The synthesis game of \<^verbatim>\<open>src/algorithm_d_game.h\<close>: the reader of an acceptance condition, the reader of
  the games printed by ltlsynt, and the cached call that asks for one
  (\<^verbatim>\<open>src/ltl_aba_synthesis.tmpl.h\<close>). Colours and priorities are integers; the code holds them in
  an \<^verbatim>\<open>int\<close> after refusing larger colours, and the priority of the largest colour, one above it for
  an even winning parity, would overflow there: the integers are the code's below that colour. The
  solver asked is a function of its query, so failures that come and go are not modelled.
\<close>

section \<open>The acceptance condition\<close>

text \<open>
  Each function returns the value, the rest of the text and whether reading failed. It is entered
  only while nothing has failed, as the loops of the code stop at a failure.
\<close>

definition acc_ws :: "string \<Rightarrow> string" where
  "acc_ws s = dropWhile is_space s"

lemma length_acc_ws: "length (acc_ws s) \<le> length s"
  by (simp add: acc_ws_def length_dropWhile_le)

function (domintros) acc_prim :: "string \<Rightarrow> bool \<times> string \<times> bool"
  and acc_conj :: "string \<Rightarrow> bool \<times> string \<times> bool"
  and acc_conj_loop :: "bool \<Rightarrow> string \<Rightarrow> bool \<Rightarrow> bool \<times> string \<times> bool"
  and acc_disj :: "string \<Rightarrow> bool \<times> string \<times> bool"
  and acc_disj_loop :: "bool \<Rightarrow> string \<Rightarrow> bool \<Rightarrow> bool \<times> string \<times> bool" where
  "acc_prim s =
     (case acc_ws s of
        [] \<Rightarrow> (False, [], True)
      | c # r \<Rightarrow>
          if c = CHR ''('' then
            (case acc_disj r of (v, t, failed) \<Rightarrow>
               (case acc_ws t of
                  [] \<Rightarrow> (v, [], True)
                | d # u \<Rightarrow> if d = CHR '')'' then (v, u, failed) else (v, d # u, True)))
          else if c = CHR ''!'' then (case acc_prim r of (v, t, failed) \<Rightarrow> (\<not> v, t, failed))
          else if c = CHR ''t'' then (True, r, False)
          else if c = CHR ''f'' then (False, r, False)
          else if starts_with ''Inf'' (c # r) \<or> starts_with ''Fin'' (c # r) then
            (case dropWhile (\<lambda>d. d \<noteq> CHR '')'') (drop 2 r) of
               [] \<Rightarrow> (False, drop 2 r, True)
             | d # u \<Rightarrow> (c = CHR ''F'', u, False))
          else (False, c # r, True))"
| "acc_conj s = (case acc_prim s of (v, t, failed) \<Rightarrow> acc_conj_loop v t failed)"
| "acc_conj_loop v s failed =
     (case acc_ws s of
        [] \<Rightarrow> (v, [], failed)
      | c # r \<Rightarrow>
          if \<not> failed \<and> c = CHR ''&'' then
            (case acc_prim r of (w, t, failed) \<Rightarrow> acc_conj_loop (w \<and> v) t failed)
          else (v, c # r, failed))"
| "acc_disj s = (case acc_conj s of (v, t, failed) \<Rightarrow> acc_disj_loop v t failed)"
| "acc_disj_loop v s failed =
     (case acc_ws s of
        [] \<Rightarrow> (v, [], failed)
      | c # r \<Rightarrow>
          if \<not> failed \<and> c = CHR ''|'' then
            (case acc_conj r of (w, t, failed) \<Rightarrow> acc_disj_loop (w \<or> v) t failed)
          else (v, c # r, failed))"
  by pat_completeness auto

lemma acc_ws_Cons: "acc_ws s = c # r \<Longrightarrow> length r < length s"
  using length_acc_ws [of s] by simp

lemma acc_rest:
  "acc_prim_acc_conj_acc_conj_loop_acc_disj_acc_disj_loop_dom (Inl (Inl s)) \<Longrightarrow> length (fst (snd (acc_prim s))) \<le> length s"
  "acc_prim_acc_conj_acc_conj_loop_acc_disj_acc_disj_loop_dom (Inl (Inr s)) \<Longrightarrow> length (fst (snd (acc_conj s))) \<le> length s"
  "acc_prim_acc_conj_acc_conj_loop_acc_disj_acc_disj_loop_dom (Inr (Inl (v, s, f))) \<Longrightarrow> length (fst (snd (acc_conj_loop v s f))) \<le> length s"
  "acc_prim_acc_conj_acc_conj_loop_acc_disj_acc_disj_loop_dom (Inr (Inr (Inl s))) \<Longrightarrow> length (fst (snd (acc_disj s))) \<le> length s"
  "acc_prim_acc_conj_acc_conj_loop_acc_disj_acc_disj_loop_dom (Inr (Inr (Inr (v, s, f)))) \<Longrightarrow> length (fst (snd (acc_disj_loop v s f))) \<le> length s"
proof (induction rule: acc_prim_acc_conj_acc_conj_loop_acc_disj_acc_disj_loop.pinduct)
  case (1 s)
  show ?case
  proof (cases "acc_ws s")
    case Nil
    then show ?thesis using 1 by (simp add: acc_prim.psimps)
  next
    case (Cons c r)
    have u_short: "length (dropWhile (\<lambda>d. d \<noteq> CHR '')'') (drop 2 r)) \<le> length r"
      using length_dropWhile_le [of "\<lambda>d. d \<noteq> CHR '')''" "drop 2 r"] by simp
    have r: "length r < length s" by (rule acc_ws_Cons [OF Cons])
    note unfolded = acc_prim.psimps [OF "1.hyps"(1)]
    show ?thesis
    proof (cases "c = CHR ''(''")
      case True
      obtain v t failed where d: "acc_disj r = (v, t, failed)" by (rule prod_cases3)
      have "length t \<le> length r" using "1.IH"(1) [OF Cons True] d by simp
      then have t: "length t \<le> length s" using r by simp
      show ?thesis
      proof (cases "acc_ws t")
        case Nil
        then show ?thesis using Cons True d by (simp add: unfolded)
      next
        case (Cons e u)
        then have "length u < length t" by (rule acc_ws_Cons)
        then show ?thesis using \<open>acc_ws s = c # r\<close> True d Cons t by (simp add: unfolded)
      qed
    next
      case no: False
      show ?thesis
      proof (cases "c = CHR ''!''")
        case True
        obtain v t failed where d: "acc_prim r = (v, t, failed)" by (rule prod_cases3)
        have "length t \<le> length r" using "1.IH"(2) [OF Cons no True] d by simp
        then show ?thesis using Cons True d r by (simp add: unfolded)
      next
        case False
        define u where "u = dropWhile (\<lambda>d. d \<noteq> CHR '')'') (drop 2 r)"
        have u: "length u \<le> length r" using u_short unfolding u_def .
        have "acc_prim s = (if c = CHR ''t'' then (True, r, False) else if c = CHR ''f'' then (False, r, False)
            else if starts_with ''Inf'' (c # r) \<or> starts_with ''Fin'' (c # r) then
              (case u of [] \<Rightarrow> (False, drop 2 r, True) | d # u \<Rightarrow> (c = CHR ''F'', u, False))
            else (False, c # r, True))"
          unfolding unfolded Cons u_def using no False by (simp only: list.case if_False)
        then show ?thesis using u r by (cases u) auto
      qed
    qed
  qed
next
  case (2 s)
  then show ?case
    by (auto simp: acc_conj.psimps split: prod.splits; blast intro: order_trans)
next
  case (3 v s f)
  show ?case
  proof (cases "acc_ws s")
    case Nil
    then show ?thesis using 3 by (simp add: acc_conj_loop.psimps)
  next
    case (Cons c r)
    then show ?thesis
      using 3 acc_ws_Cons [OF Cons] length_acc_ws [of s]
      by (auto simp: acc_conj_loop.psimps split: prod.splits; meson less_imp_le order_trans)
  qed
next
  case (4 s)
  then show ?case
    by (auto simp: acc_disj.psimps split: prod.splits; blast intro: order_trans)
next
  case (5 v s f)
  show ?case
  proof (cases "acc_ws s")
    case Nil
    then show ?thesis using 5 by (simp add: acc_disj_loop.psimps)
  next
    case (Cons c r)
    then show ?thesis
      using 5 acc_ws_Cons [OF Cons] length_acc_ws [of s]
      by (auto simp: acc_disj_loop.psimps split: prod.splits; meson less_imp_le order_trans)
  qed
qed

termination acc_prim
  by (relation "measures [\<lambda>x. case x of Inl (Inl s) \<Rightarrow> length s | Inl (Inr s) \<Rightarrow> length s
      | Inr (Inl (v, s, f)) \<Rightarrow> length s | Inr (Inr (Inl s)) \<Rightarrow> length s | Inr (Inr (Inr (v, s, f))) \<Rightarrow> length s,
    \<lambda>x. case x of Inl (Inl s) \<Rightarrow> 0 | Inl (Inr s) \<Rightarrow> 2
      | Inr (Inl (v, s, f)) \<Rightarrow> 1 | Inr (Inr (Inl s)) \<Rightarrow> 4 | Inr (Inr (Inr (v, s, f))) \<Rightarrow> (3::nat)]")
  (auto simp: case_prod_beta dest!: acc_ws_Cons acc_rest(1) acc_rest(2) dest: arg_cong [where f = "\<lambda>p. length (fst (snd p))"])


declare acc_prim.simps [simp del] acc_conj.simps [simp del] acc_conj_loop.simps [simp del]
  acc_disj.simps [simp del] acc_disj_loop.simps [simp del]

definition acceptance_without_colors :: "string \<Rightarrow> bool option" where
  "acceptance_without_colors cond =
     (case acc_disj cond of (v, s, failed) \<Rightarrow> if failed \<or> acc_ws s \<noteq> [] then None else Some v)"

section \<open>The game\<close>

record synth_game =
  sg_num_states :: nat
  sg_init :: nat
  sg_player :: "nat list"
  sg_state_color :: "int list"
  sg_trans :: "(string \<times> nat \<times> int) list list"
  sg_aps :: "string list"
  sg_controllable :: "bool list"
  sg_n_colors :: int
  sg_trans_acc :: bool
  sg_state_priority :: "int list"
  sg_edge_priority :: "int list list"
  sg_acc_known :: bool
  sg_accepts_uncolored :: bool
  sg_multi_colored :: bool

text \<open>The games of a text: the lines that start with \<^verbatim>\<open>HOA:\<close>.\<close>

function count_games :: "bool \<Rightarrow> string \<Rightarrow> nat" where
  "count_games line_start [] = 0"
| "count_games line_start (c # cs) =
     (if starts_with ''HOA:'' (c # cs) then (if line_start then 1 else 0) + count_games False (drop 3 cs)
      else count_games (c = CHR 0x0A) cs)"
  by pat_completeness auto
termination
  by (relation "measure (length \<circ> snd)") auto

text \<open>The header: the game so far, the acceptance named and the condition.\<close>

record game_head =
  gh_game :: synth_game
  gh_all :: bool
  gh_buchi :: bool
  gh_cobuchi :: bool
  gh_parity :: bool
  gh_min :: bool
  gh_even :: bool
  gh_cond :: string

function words_loop :: "string \<Rightarrow> string list \<Rightarrow> string list" where
  "words_loop s out =
     (let s = blanks s; w = takeWhile (\<lambda>c. \<not> label_blank c) s in
      if s = [] then out else words_loop (drop (length w) s) (out @ [w]))"
  by auto
termination
proof (relation "measure (length \<circ> fst)", goal_cases)
  case (2 s out t w)
  then have "blanks s \<noteq> []" by simp
  then have "\<not> label_blank (hd (blanks s))" by (simp add: blanks_def hd_dropWhile)
  then have "takeWhile (\<lambda>c. \<not> label_blank c) (blanks s) \<noteq> []"
    using \<open>blanks s \<noteq> []\<close> by (cases "blanks s") auto
  then show ?case using 2 length_blanks [of s] by (cases "blanks s") auto
qed simp

definition words :: "string \<Rightarrow> string list" where
  "words l = words_loop l []"

definition malformed :: "'a result" where
  "malformed = Inl (ParseError, ''the synthesis game HOA has a malformed header item'')"

fun set_controllable :: "int list \<Rightarrow> bool list \<Rightarrow> bool list result" where
  "set_controllable [] cs = Inr cs"
| "set_controllable (i # is) cs =
     (if nat i \<ge> length cs then
        Inl (ParseError, ''the synthesis game HOA has a controllable AP index outside the AP table'')
      else set_controllable is (cs[nat i := True]))"

fun fill_players :: "nat \<Rightarrow> int list \<Rightarrow> nat list \<Rightarrow> nat list" where
  "fill_players q [] player = player"
| "fill_players q (p # ps) player =
     (if q < length player then fill_players (q + 1) ps (player[q := (if p \<noteq> 0 then 1 else 0)]) else player)"

definition acc_name :: "string list \<Rightarrow> game_head \<Rightarrow> game_head" where
  "acc_name ws h =
     (if hd ws = ''all'' then h\<lparr>gh_all := True\<rparr>
      else if hd ws = ''Buchi'' then h\<lparr>gh_buchi := True\<rparr>
      else if hd ws = ''co-Buchi'' then h\<lparr>gh_cobuchi := True\<rparr>
      else if hd ws = ''parity'' then
        h\<lparr>gh_parity := True, gh_min := ''min'' \<in> set ws, gh_even := ''even'' \<in> set ws\<rparr>
      else h)"

definition game_line :: "string \<Rightarrow> game_head \<Rightarrow> game_head result" where
  "game_line lin h =
     (let g = gh_game h in
      case eat_word ''controllable-AP:'' lin of
        Some l \<Rightarrow>
          (case nums l of
             None \<Rightarrow> malformed
           | Some idxs \<Rightarrow> rbind (set_controllable idxs (sg_controllable g)) (\<lambda>cs.
               Inr (h\<lparr>gh_game := g\<lparr>sg_controllable := cs\<rparr>\<rparr>)))
      | None \<Rightarrow>
      case (case eat_word ''spot-state-player:'' lin of
              Some l \<Rightarrow> Some l | None \<Rightarrow> eat_word ''spot.state-player:'' lin) of
        Some l \<Rightarrow>
          (case nums l of
             None \<Rightarrow> malformed
           | Some players \<Rightarrow> Inr (h\<lparr>gh_game := g\<lparr>sg_player := fill_players 0 players (sg_player g)\<rparr>\<rparr>))
      | None \<Rightarrow>
      case eat_word ''acc-name:'' lin of
        Some l \<Rightarrow> if words l = [] then malformed else Inr (acc_name (words l) h)
      | None \<Rightarrow>
      case eat_word ''Acceptance:'' lin of
        Some l \<Rightarrow>
          (case read_num (blanks l) of
             None \<Rightarrow> malformed
           | Some (n, r) \<Rightarrow>
               if n < 0 \<or> n > int_max then malformed
               else Inr (h\<lparr>gh_game := g\<lparr>sg_n_colors := n\<rparr>, gh_cond := r\<rparr>))
      | None \<Rightarrow>
      case eat_word ''properties:'' lin of
        Some l \<Rightarrow> Inr (if ''trans-acc'' \<in> set (words l) then h\<lparr>gh_game := g\<lparr>sg_trans_acc := True\<rparr>\<rparr> else h)
      | None \<Rightarrow> Inr h)"

fun game_lines :: "string list \<Rightarrow> game_head \<Rightarrow> game_head result" where
  "game_lines [] h = Inr h"
| "game_lines (lin # lns) h = rbind (game_line lin h) (game_lines lns)"

text \<open>The colour of a mark, with the flags \<open>multi_colored\<close> and \<open>too_wide\<close>.\<close>

definition colour :: "int list option \<Rightarrow> bool \<times> bool \<Rightarrow> int \<times> bool \<times> bool" where
  "colour acc flags =
     (case flags of (multi, wide) \<Rightarrow>
        if \<not> marked acc then (-1, multi, wide)
        else
          let multi = (multi \<or> length (the acc) > 1) in
          if hd (the acc) > int_max then (-1, multi, True) else (hd (the acc), multi, wide))"

fun colour_edges ::
  "scan_edge list \<Rightarrow> (string \<times> nat \<times> int) list \<Rightarrow> bool \<times> bool \<Rightarrow> (string \<times> nat \<times> int) list \<times> bool \<times> bool" where
  "colour_edges [] out flags = (out, flags)"
| "colour_edges (e # es) out flags =
     (case colour (se_acc e) flags of
        (c, flags) \<Rightarrow> colour_edges es (out @ [(se_guard e, se_dst e, c)]) flags)"

fun colour_states :: "scan_state list \<Rightarrow> synth_game \<Rightarrow> bool \<times> bool \<Rightarrow> synth_game \<times> bool \<times> bool" where
  "colour_states [] g flags = (g, flags)"
| "colour_states (s # sts) g flags =
     (case colour (ss_acc s) flags of (c, flags) \<Rightarrow>
        let g = (if c \<ge> 0 then g\<lparr>sg_state_color := (sg_state_color g)[ss_n s := c]\<rparr> else g) in
        case colour_edges (ss_edges s) (sg_trans g ! ss_n s) flags of
          (ts, flags) \<Rightarrow> colour_states sts (g\<lparr>sg_trans := (sg_trans g)[ss_n s := ts]\<rparr>) flags)"

section \<open>Priorities\<close>

definition parity_prio :: "game_head \<Rightarrow> int \<Rightarrow> int" where
  "parity_prio h c =
     (if \<not> gh_parity h then c
      else
        let k = sg_n_colors (gh_game h); p = (if gh_min h then k - 1 - c else c);
            win_even_after = (if gh_min h
              then (if (k - 1) smod 2 = 0 then gh_even h else \<not> gh_even h) else gh_even h)
        in if win_even_after then p + 1 else p)"

definition coloured_prio :: "game_head \<Rightarrow> int \<Rightarrow> int" where
  "coloured_prio h c =
     (if gh_all h then 1
      else if gh_buchi h then (if c = 0 then 1 else 0)
      else if gh_cobuchi h then (if c = 0 then 2 else 1)
      else parity_prio h c)"

definition state_prio_of :: "game_head \<Rightarrow> int \<Rightarrow> int" where
  "state_prio_of h c =
     (if gh_all h then 1
      else if gh_buchi h then (if c = 0 then 1 else 0)
      else if gh_cobuchi h then (if c = 0 then 2 else 1)
      else if c \<ge> 0 then parity_prio h c else 0)"

definition edge_prio_of :: "game_head \<Rightarrow> int \<Rightarrow> int" where
  "edge_prio_of h ec = (if ec < 0 then -1 else coloured_prio h ec)"

text \<open>The header without \<^verbatim>\<open>acc-name:\<close> whose condition is \<open>0 t\<close> accepts all.\<close>

definition default_all :: "game_head \<Rightarrow> game_head" where
  "default_all h =
     (if \<not> gh_all h \<and> \<not> gh_buchi h \<and> \<not> gh_cobuchi h \<and> \<not> gh_parity h \<and> sg_n_colors (gh_game h) = 0 \<and>
         (case dropWhile (\<lambda>c. label_blank c \<or> c = CHR 0x0D) (gh_cond h) of
            [] \<Rightarrow> False | c # _ \<Rightarrow> c = CHR ''t'')
      then h\<lparr>gh_all := True\<rparr> else h)"

definition finish_game :: "game_head \<Rightarrow> synth_game" where
  "finish_game h =
     (let h = default_all h; g = gh_game h; empty = acceptance_without_colors (gh_cond h);
          named = gh_all h \<or> gh_buchi h \<or> gh_cobuchi h \<or> gh_parity h
      in g\<lparr>sg_acc_known := (if named then empty \<noteq> None else sg_acc_known g),
           sg_accepts_uncolored := (if named then (case empty of Some v \<Rightarrow> v | None \<Rightarrow> False)
             else sg_accepts_uncolored g),
           sg_state_priority := map (state_prio_of h) (sg_state_color g),
           sg_edge_priority := map (map (\<lambda>t. edge_prio_of h (snd (snd t)))) (sg_trans g)\<rparr>)"

definition new_game :: "automaton \<Rightarrow> synth_game" where
  "new_game sc =
     \<lparr>sg_num_states = au_num_states sc, sg_init = au_start sc, sg_player = replicate (au_num_states sc) 0,
       sg_state_color = replicate (au_num_states sc) (-1), sg_trans = replicate (au_num_states sc) [],
       sg_aps = au_aps sc, sg_controllable = replicate (length (au_aps sc)) False, sg_n_colors = 0,
       sg_trans_acc = False, sg_state_priority = replicate (au_num_states sc) 0,
       sg_edge_priority = replicate (au_num_states sc) [], sg_acc_known = False,
       sg_accepts_uncolored = False, sg_multi_colored = False\<rparr>"

definition parse_synth_game_hoa :: "nat \<Rightarrow> string \<Rightarrow> synth_game result" where
  "parse_synth_game_hoa hoa_cap hoa_text =
     (if count_games True hoa_text > 1 then
        Inl (UnsupportedOperation, ''the synthesis game HOA holds several games (a decomposed specification); only a single game can be parsed -- run ltlsynt with --decompose=no'')
      else
        rbind (scan hoa_cap hoa_text ''the synthesis game HOA'') (\<lambda>sc.
        rbind (game_lines (au_other sc) \<lparr>gh_game = new_game sc, gh_all = False, gh_buchi = False,
            gh_cobuchi = False, gh_parity = False, gh_min = False, gh_even = False, gh_cond = []\<rparr>) (\<lambda>h.
          case colour_states (au_states sc) (gh_game h) (False, False) of
            (g, multi, wide) \<Rightarrow>
              if wide then Inl (ParseError, ''the synthesis game HOA has a colour beyond the integer range'')
              else Inr (finish_game (h\<lparr>gh_game := g\<lparr>sg_multi_colored := multi\<rparr>\<rparr>)))))"

section \<open>Asking for a game\<close>

text \<open>
  The answer of the solver for a formula, its inputs, its outputs and an algorithm is the parameter
  \<open>ask\<close>; \<open>hoa_cap\<close> and \<open>cube_cap\<close> are the caps a cached game was read under.
\<close>

fun csv :: "string list \<Rightarrow> string" where
  "csv [] = []"
| "csv [s] = s"
| "csv (s # t # ss) = s @ '','' @ csv (t # ss)"

definition separator :: string where
  "separator = [CHR 0x1E]"

definition game_key :: "nat \<Rightarrow> nat \<Rightarrow> string \<Rightarrow> string list \<Rightarrow> string list \<Rightarrow> string \<Rightarrow> string" where
  "game_key hoa_cap cube_cap phi ins outs algo =
     phi @ separator @ csv ins @ separator @ csv outs @ separator @ algo @ separator @
       nat_to_string hoa_cap @ separator @ nat_to_string cube_cap"

type_synonym solver = "string \<Rightarrow> string list \<Rightarrow> string list \<Rightarrow> string \<Rightarrow> string result"
type_synonym game_cache = "(string, synth_game) bcache"

definition ask_game ::
  "solver \<Rightarrow> nat \<Rightarrow> nat \<Rightarrow> string \<Rightarrow> string list \<Rightarrow> string list \<Rightarrow> string \<Rightarrow> game_cache \<Rightarrow>
    synth_game result \<times> game_cache" where
  "ask_game ask hoa_cap cube_cap phi ins outs algo cache =
     (let key = game_key hoa_cap cube_cap phi ins outs algo in
      case bc_find cache key of
        Some g \<Rightarrow> (Inr g, cache)
      | None \<Rightarrow>
          (case rbind (ask phi ins outs algo) (parse_synth_game_hoa hoa_cap) of
             Inl e \<Rightarrow> (Inl e, cache)
           | Inr g \<Rightarrow> (Inr g, snd (bc_emplace key g cache))))"

definition ltlsynt_game_algorithms :: "string \<Rightarrow> string list" where
  "ltlsynt_game_algorithms chosen =
     (if chosen \<noteq> [] then [chosen] else []) @ filter (\<lambda>a. chosen \<noteq> a) [''acd'', ''sd'']"

text \<open>The algorithms in turn until one fails or gives a parity game.\<close>

fun try_algorithms ::
  "(string \<Rightarrow> game_cache \<Rightarrow> synth_game result \<times> game_cache) \<Rightarrow> string list \<Rightarrow>
    synth_game result \<Rightarrow> game_cache \<Rightarrow> synth_game result \<times> game_cache" where
  "try_algorithms step [] game cache = (game, cache)"
| "try_algorithms step (a # as) game cache =
     (case step a cache of
        (Inl e, cache) \<Rightarrow> (Inl e, cache)
      | (Inr g, cache) \<Rightarrow>
          if sg_acc_known g \<and> \<not> sg_multi_colored g then (Inr g, cache)
          else try_algorithms step as (Inr g) cache)"

definition call_ltlsynt_game ::
  "solver \<Rightarrow> string \<Rightarrow> nat \<Rightarrow> nat \<Rightarrow> string \<Rightarrow> string list \<Rightarrow> string list \<Rightarrow> string \<Rightarrow> game_cache \<Rightarrow>
    synth_game result \<times> game_cache" where
  "call_ltlsynt_game ask chosen hoa_cap cube_cap phi ins outs algo cache =
     (if algo = [] then
        try_algorithms (ask_game ask hoa_cap cube_cap phi ins outs) (ltlsynt_game_algorithms chosen)
          (Inl (InternalError, [])) cache
      else ask_game ask hoa_cap cube_cap phi ins outs algo cache)"

declare words_loop.simps [simp del]

end
