(* ===== verification/Game_Reader.thy ===== *)
theory Game_Reader imports Synth_Game begin

text \<open>
  What reading a synthesis game gives: the value of its acceptance condition, a well-formed game,
  priorities whose greatest recurring one decides acceptance, and answers that do not depend on the
  cache.
\<close>

section \<open>The acceptance condition\<close>

definition spaces :: "string \<Rightarrow> bool" where
  "spaces w \<longleftrightarrow> (\<forall>c \<in> set w. is_space c)"

text \<open>
  The grammar of conditions, with the value of a condition for a run that sees no colour infinitely
  often.
\<close>

inductive acc_atom :: "string \<Rightarrow> bool \<Rightarrow> bool"
  and acc_and :: "string \<Rightarrow> bool \<Rightarrow> bool"
  and acc_or :: "string \<Rightarrow> bool \<Rightarrow> bool" where
  acc_true: "spaces w \<Longrightarrow> acc_atom (w @ ''t'') True"
| acc_false: "spaces w \<Longrightarrow> acc_atom (w @ ''f'') False"
| acc_inf: "spaces w \<Longrightarrow> CHR '')'' \<notin> set n \<Longrightarrow> acc_atom (w @ ''Inf('' @ n @ '')'') False"
| acc_fin: "spaces w \<Longrightarrow> CHR '')'' \<notin> set n \<Longrightarrow> acc_atom (w @ ''Fin('' @ n @ '')'') True"
| acc_not: "spaces w \<Longrightarrow> acc_atom s v \<Longrightarrow> acc_atom (w @ ''!'' @ s) (\<not> v)"
| acc_paren: "spaces w \<Longrightarrow> spaces w' \<Longrightarrow> acc_or s v \<Longrightarrow> acc_atom (w @ ''('' @ s @ w' @ '')'') v"
| and_atom: "acc_atom s v \<Longrightarrow> acc_and s v"
| and_and: "acc_and s v \<Longrightarrow> spaces w \<Longrightarrow> acc_atom t u \<Longrightarrow> acc_and (s @ w @ ''&'' @ t) (v \<and> u)"
| or_and: "acc_and s v \<Longrightarrow> acc_or s v"
| or_or: "acc_or s v \<Longrightarrow> spaces w \<Longrightarrow> acc_and t u \<Longrightarrow> acc_or (s @ w @ ''|'' @ t) (v \<or> u)"

lemma acc_ws_spaces: "spaces w \<Longrightarrow> acc_ws (w @ s) = acc_ws s"
  unfolding acc_ws_def spaces_def by (induction w) auto

lemma acc_ws_idem: "acc_ws (acc_ws s) = acc_ws s"
  by (simp add: acc_ws_def)

lemma acc_ws_char: "\<not> is_space c \<Longrightarrow> acc_ws (c # s) = c # s"
  by (simp add: acc_ws_def)

lemma special_chars: "\<not> is_space CHR ''t''" "\<not> is_space CHR ''f''" "\<not> is_space CHR ''I''" "\<not> is_space CHR ''F''"
  "\<not> is_space CHR ''!''" "\<not> is_space CHR ''(''" "\<not> is_space CHR '')''" "\<not> is_space CHR ''&''" "\<not> is_space CHR ''|''"
  by (simp_all add: is_space_def)

lemma drop_to_paren: "CHR '')'' \<notin> set n \<Longrightarrow> dropWhile (\<lambda>d. d \<noteq> CHR '')'') (n @ CHR '')'' # r) = CHR '')'' # r"
  by (rule dropWhile_append_stop) auto

definition stops_and :: "string \<Rightarrow> bool" where
  "stops_and r \<longleftrightarrow> (case acc_ws r of [] \<Rightarrow> True | c # _ \<Rightarrow> c \<noteq> CHR ''&'')"

lemma conj_loop_stops: "stops_and r \<Longrightarrow> acc_conj_loop v r False = (v, acc_ws r, False)"
  by (auto simp: stops_and_def acc_conj_loop.simps split: list.splits)

lemma disj_loop_ws: "acc_disj_loop v (acc_ws r) f = acc_disj_loop v r f"
  by (simp add: acc_disj_loop.simps [of v "acc_ws r"] acc_disj_loop.simps [of v r] acc_ws_idem)

lemma acc_reads:
  "acc_atom s v \<Longrightarrow> \<forall>r. acc_prim (s @ r) = (v, r, False)"
  "acc_and s v \<Longrightarrow> \<forall>r. acc_conj (s @ r) = acc_conj_loop v r False"
  "acc_or s v \<Longrightarrow> \<forall>r. stops_and r \<longrightarrow> acc_disj (s @ r) = acc_disj_loop v r False"
proof (induction rule: acc_atom_acc_and_acc_or.inducts)
  case (acc_inf w n)
  then show ?case
    by (simp add: acc_prim.simps acc_ws_spaces acc_ws_char special_chars drop_to_paren starts_with_def)
next
  case (acc_fin w n)
  then show ?case
    by (simp add: acc_prim.simps acc_ws_spaces acc_ws_char special_chars drop_to_paren starts_with_def)
next
  case (acc_paren w w' s v)
  have "stops_and (w' @ CHR '')'' # r)" "acc_ws (w' @ CHR '')'' # r) = CHR '')'' # r" for r
    using acc_paren by (simp_all add: stops_and_def acc_ws_spaces acc_ws_char special_chars)
  then show ?case
    using acc_paren
    by (simp add: acc_prim.simps acc_ws_spaces acc_ws_char special_chars acc_disj_loop.simps)
next
  case (and_and s v w t u)
  then show ?case
    by (simp add: acc_conj_loop.simps [of v "w @ _"] acc_ws_spaces acc_ws_char special_chars conj_commute)
next
  case (or_and s v)
  then show ?case by (simp add: acc_disj.simps conj_loop_stops disj_loop_ws)
next
  case (or_or s v w t u)
  have "stops_and (w @ CHR ''|'' # t @ r)" for r
    using or_or by (simp add: stops_and_def acc_ws_spaces acc_ws_char special_chars)
  then show ?case
    using or_or
    by (simp add: acc_disj_loop.simps [of v "w @ _"] acc_ws_spaces acc_ws_char special_chars conj_loop_stops
      disj_loop_ws disj_commute)
qed (simp_all add: acc_prim.simps acc_ws_spaces acc_ws_char special_chars acc_conj.simps)

lemma acceptance_reads:
  assumes "acc_or s v" "spaces w"
  shows "acceptance_without_colors (s @ w) = Some v"
proof -
  have w: "acc_ws w = []" using assms(2) acc_ws_spaces [of w "[]"] by (simp add: acc_ws_def)
  then have "acc_disj (s @ w) = acc_disj_loop v w False" using acc_reads(3) [OF assms(1)] by (simp add: stops_and_def)
  moreover have "acc_disj_loop v w False = (v, [], False)" by (subst acc_disj_loop.simps) (simp add: w)
  ultimately show ?thesis by (simp add: acceptance_without_colors_def acc_ws_def)
qed

section \<open>Priorities\<close>

text \<open>Whether a run accepts that sees the colours \<open>C\<close> infinitely often, by the name of the condition.\<close>

definition named_accepts :: "game_head \<Rightarrow> int set \<Rightarrow> bool" where
  "named_accepts h C \<longleftrightarrow>
     (if gh_all h then True else if gh_buchi h then 0 \<in> C else if gh_cobuchi h then 0 \<notin> C
      else even (if gh_min h then Min C else Max C) \<longleftrightarrow> gh_even h)"

definition named :: "game_head \<Rightarrow> bool" where
  "named h \<longleftrightarrow> gh_all h \<or> gh_buchi h \<or> gh_cobuchi h \<or> gh_parity h"

lemma Max_image_of:
  fixes f :: "int \<Rightarrow> int"
  assumes "finite C" "m \<in> C" "\<And>c. c \<in> C \<Longrightarrow> f c \<le> f m" "u \<le> f m"
  shows "Max (insert u (f ` C)) = f m"
  by (rule Max_eqI) (use assms in auto)

lemma parity_top:
  assumes C: "finite C" "C \<noteq> {}" "C \<subseteq> {0..<sg_n_colors (gh_game h)}" and h: "gh_parity h" and u: "u \<le> 1"
  shows "odd (Max (insert u ((\<lambda>c. parity_prio h c + 2) ` C))) \<longleftrightarrow>
    (even (if gh_min h then Min C else Max C) \<longleftrightarrow> gh_even h)"
proof -
  let ?k = "sg_n_colors (gh_game h)"
  have k: "0 \<le> ?k - 1" using C(2,3) by fastforce
  have range: "0 \<le> c \<and> c \<le> ?k - 1" if "c \<in> C" for c using C(3) that by auto
  define m where "m = (if gh_min h then Min C else Max C)"
  have m: "m \<in> C" using C(1,2) by (simp add: m_def)
  have prio: "parity_prio h c = (if gh_min h then ?k - 1 - c else c) +
      (if (if gh_min h then (even (?k - 1) \<longleftrightarrow> gh_even h) else gh_even h) then 1 else 0)" for c
    using h k by (auto simp: parity_prio_def Let_def smod_eq_0_iff)
  have "Max (insert u ((\<lambda>c. parity_prio h c + 2) ` C)) = parity_prio h m + 2"
  proof (rule Max_image_of [OF C(1) m])
    show "parity_prio h c + 2 \<le> parity_prio h m + 2" if "c \<in> C" for c
      using that C(1) unfolding prio m_def by auto
    show "u \<le> parity_prio h m + 2" using range [OF m] u unfolding prio by auto
  qed
  then show ?thesis unfolding prio m_def [symmetric] by auto
qed

lemma buchi_top:
  fixes C :: "int set" and u :: int
  assumes "finite C" "u \<le> 1"
  shows "C \<noteq> {} \<Longrightarrow> odd (Max (insert u ((\<lambda>c. (if c = 0 then 1 else 0) + 2) ` C))) \<longleftrightarrow> 0 \<in> C"
    and "C \<noteq> {} \<Longrightarrow> odd (Max (insert u ((\<lambda>c. (if c = 0 then 2 else 1) + 2) ` C))) \<longleftrightarrow> 0 \<notin> C"
proof -
  assume "C \<noteq> {}"
  then obtain c where c: "c \<in> C" by blast
  define m where "m = (if 0 \<in> C then 0 else c)"
  have m: "m \<in> C" using c by (simp add: m_def)
  have "Max (insert u ((\<lambda>c. (if c = 0 then 1 else 0) + 2) ` C)) = (if m = 0 then 1 else 0) + 2"
    by (rule Max_image_of [OF assms(1) m]) (use assms(2) in \<open>auto simp: m_def\<close>)
  then show "odd (Max (insert u ((\<lambda>c. (if c = 0 then 1 else 0) + 2) ` C))) \<longleftrightarrow> 0 \<in> C"
    using c by (auto simp: m_def)
  have "Max (insert u ((\<lambda>c. (if c = 0 then 2 else 1) + 2) ` C)) = (if m = 0 then 2 else 1) + 2"
    by (rule Max_image_of [OF assms(1) m]) (use assms(2) in \<open>auto simp: m_def\<close>)
  then show "odd (Max (insert u ((\<lambda>c. (if c = 0 then 2 else 1) + 2) ` C))) \<longleftrightarrow> 0 \<notin> C"
    using c by (auto simp: m_def)
qed

lemma coloured_top:
  assumes "finite C" "C \<noteq> {}" "C \<subseteq> {0..<sg_n_colors (gh_game h)}" "named h" "u \<le> 1"
  shows "odd (Max (insert u ((\<lambda>c. coloured_prio h c + 2) ` C))) \<longleftrightarrow> named_accepts h C"
proof -
  consider "gh_all h" | "\<not> gh_all h" "gh_buchi h" | "\<not> gh_all h" "\<not> gh_buchi h" "gh_cobuchi h"
    | "\<not> gh_all h" "\<not> gh_buchi h" "\<not> gh_cobuchi h" "gh_parity h" using assms(4) unfolding named_def by blast
  then show ?thesis
  proof cases
    case 1
    obtain c where c: "c \<in> C" using assms(2) by blast
    have "Max (insert u ((\<lambda>c. coloured_prio h c + 2) ` C)) = coloured_prio h c + 2"
      by (rule Max_image_of [OF assms(1) c]) (use 1 assms(5) in \<open>auto simp: coloured_prio_def\<close>)
    then show ?thesis using 1 by (simp add: coloured_prio_def named_accepts_def)
  next
    case 2
    then show ?thesis using buchi_top(1) [OF assms(1,5,2)] by (simp add: coloured_prio_def named_accepts_def)
  next
    case 3
    then show ?thesis using buchi_top(2) [OF assms(1,5,2)] by (simp add: coloured_prio_def named_accepts_def)
  next
    case 4
    then show ?thesis using parity_top [OF assms(1-3) 4(4) assms(5)]
      by (simp add: coloured_prio_def named_accepts_def)
  qed
qed

section \<open>A parsed game is well formed\<close>

definition game_table_ok :: "synth_game \<Rightarrow> bool" where
  "game_table_ok g \<longleftrightarrow> 1 \<le> sg_num_states g \<and> sg_init g < sg_num_states g \<and>
     length (sg_player g) = sg_num_states g \<and> set (sg_player g) \<subseteq> {0, 1} \<and>
     length (sg_state_color g) = sg_num_states g \<and> length (sg_trans g) = sg_num_states g \<and>
     length (sg_controllable g) = length (sg_aps g) \<and>
     (\<forall>q < sg_num_states g. \<forall>t \<in> set (sg_trans g ! q). fst (snd t) < sg_num_states g \<and> guard_ok (sg_aps g) (fst t))"

definition synth_game_ok :: "synth_game \<Rightarrow> bool" where
  "synth_game_ok g \<longleftrightarrow> game_table_ok g \<and> length (sg_state_priority g) = sg_num_states g \<and>
     length (sg_edge_priority g) = sg_num_states g \<and>
     (\<forall>q < sg_num_states g. length (sg_edge_priority g ! q) = length (sg_trans g ! q))"

lemma set_controllable_length: "set_controllable is cs = Inr cs' \<Longrightarrow> length cs' = length cs"
  by (induction "is" cs rule: set_controllable.induct) (auto split: if_splits)

lemma fill_players_ok:
  "set player \<subseteq> {0, 1} \<Longrightarrow> length (fill_players q ps player) = length player \<and> set (fill_players q ps player) \<subseteq> {0, 1}"
proof (induction q ps player rule: fill_players.induct)
  case (2 q p ps player)
  have "set (player[q := (if p \<noteq> 0 then 1 else 0)]) \<subseteq> {0, 1}"
    using 2(2) set_update_subset_insert [of player q] by force
  then show ?case using 2 by (cases "q < length player") auto
qed simp

lemma gh_update: "game_table_ok (gh_game h) \<Longrightarrow> game_table_ok (gh_game (acc_name ws h))"
  by (simp add: acc_name_def)

text \<open>A header line changes the controllable APs, the players, the colour count, a flag or nothing.\<close>

lemma acc_name_game: "gh_game (acc_name ws h) = gh_game h"
  by (simp add: acc_name_def)

lemma game_line_changes:
  assumes "game_line lin h = Inr h'"
  shows "(\<exists>is cs. set_controllable is (sg_controllable (gh_game h)) = Inr cs \<and>
      gh_game h' = (gh_game h)\<lparr>sg_controllable := cs\<rparr>) \<or>
    (\<exists>ps. gh_game h' = (gh_game h)\<lparr>sg_player := fill_players 0 ps (sg_player (gh_game h))\<rparr>) \<or>
    (\<exists>n. gh_game h' = (gh_game h)\<lparr>sg_n_colors := n\<rparr>) \<or>
    gh_game h' = (gh_game h)\<lparr>sg_trans_acc := True\<rparr> \<or> gh_game h' = gh_game h"
proof (cases "eat_word ''controllable-AP:'' lin")
  case (Some l)
  then obtain x cs where x: "set_controllable x (sg_controllable (gh_game h)) = Inr cs"
      "h' = h\<lparr>gh_game := gh_game h\<lparr>sg_controllable := cs\<rparr>\<rparr>"
    using assms by (auto simp: game_line_def malformed_def rbind_Inr_iff Let_def split: option.splits)
  have "gh_game h' = (gh_game h)\<lparr>sg_controllable := cs\<rparr>" using x(2) by simp
  with x(1) show ?thesis by blast
next
  case c: None
  define e where "e = (case eat_word ''spot-state-player:'' lin of Some l \<Rightarrow> Some l | None \<Rightarrow> eat_word ''spot.state-player:'' lin)"
  show ?thesis
  proof (cases e)
    case (Some l)
    then obtain ps where "gh_game h' = (gh_game h)\<lparr>sg_player := fill_players 0 ps (sg_player (gh_game h))\<rparr>"
      using assms c by (auto simp: game_line_def malformed_def Let_def e_def [symmetric] split: option.splits)
    then show ?thesis by blast
  next
    case p: None
    show ?thesis
    proof (cases "eat_word ''acc-name:'' lin")
      case (Some l)
      then show ?thesis using assms c p
        by (auto simp: game_line_def malformed_def Let_def e_def [symmetric] acc_name_game split: if_splits)
    next
      case n: None
      show ?thesis
      proof (cases "eat_word ''Acceptance:'' lin")
        case (Some l)
        then obtain m where "gh_game h' = (gh_game h)\<lparr>sg_n_colors := m\<rparr>" using assms c p n
          by (auto simp: game_line_def malformed_def Let_def e_def [symmetric] split: if_splits option.splits)
        then show ?thesis by blast
      next
        case None
        then show ?thesis using assms c p n
          by (auto simp: game_line_def Let_def e_def [symmetric] split: if_splits option.splits)
      qed
    qed
  qed
qed

lemma game_line_ok:
  assumes "game_line lin h = Inr h'" "game_table_ok (gh_game h)"
  shows "game_table_ok (gh_game h') \<and> sg_num_states (gh_game h') = sg_num_states (gh_game h) \<and>
    sg_aps (gh_game h') = sg_aps (gh_game h) \<and> sg_trans (gh_game h') = sg_trans (gh_game h)"
  using game_line_changes [OF assms(1)]
proof (elim disjE exE conjE)
  fix "is" cs
  assume "set_controllable is (sg_controllable (gh_game h)) = Inr cs" and g: "gh_game h' = (gh_game h)\<lparr>sg_controllable := cs\<rparr>"
  then have "length cs = length (sg_controllable (gh_game h))" using set_controllable_length by blast
  then show ?thesis using assms(2) unfolding g by (simp add: game_table_ok_def)
next
  fix ps
  assume g: "gh_game h' = (gh_game h)\<lparr>sg_player := fill_players 0 ps (sg_player (gh_game h))\<rparr>"
  have "length (fill_players 0 ps (sg_player (gh_game h))) = length (sg_player (gh_game h)) \<and>
      set (fill_players 0 ps (sg_player (gh_game h))) \<subseteq> {0, 1}"
    by (rule fill_players_ok) (use assms(2) in \<open>simp add: game_table_ok_def\<close>)
  then show ?thesis using assms(2) unfolding g by (simp add: game_table_ok_def)
qed (use assms(2) in \<open>simp_all add: game_table_ok_def\<close>)

lemma game_lines_ok:
  "game_lines lns h = Inr h' \<Longrightarrow> game_table_ok (gh_game h) \<Longrightarrow>
    game_table_ok (gh_game h') \<and> sg_num_states (gh_game h') = sg_num_states (gh_game h) \<and>
    sg_aps (gh_game h') = sg_aps (gh_game h)"
  by (induction lns h rule: game_lines.induct) (auto simp: rbind_Inr_iff dest!: game_line_ok)

lemma colour_edges_ok:
  "colour_edges es out flags = (ts, flags') \<Longrightarrow>
    \<forall>e \<in> set es. se_dst e < n \<and> guard_ok aps (se_guard e) \<Longrightarrow>
    \<forall>t \<in> set out. fst (snd t) < n \<and> guard_ok aps (fst t) \<Longrightarrow>
    \<forall>t \<in> set ts. fst (snd t) < n \<and> guard_ok aps (fst t)"
  by (induction es out flags rule: colour_edges.induct) (auto split: prod.splits)

lemma colour_states_ok:
  "colour_states sts g flags = (g', flags') \<Longrightarrow> game_table_ok g \<Longrightarrow>
    \<forall>s \<in> set sts. ss_n s < sg_num_states g \<and>
      (\<forall>e \<in> set (ss_edges s). se_dst e < sg_num_states g \<and> guard_ok (sg_aps g) (se_guard e)) \<Longrightarrow>
    game_table_ok g' \<and> sg_num_states g' = sg_num_states g \<and> sg_aps g' = sg_aps g \<and>
      sg_n_colors g' = sg_n_colors g"
proof (induction sts g flags rule: colour_states.induct)
  case (2 s sts g flags)
  obtain c f1 where c: "colour (ss_acc s) flags = (c, f1)" by (rule prod.exhaust)
  define g1 where "g1 = (if c \<ge> 0 then g\<lparr>sg_state_color := (sg_state_color g)[ss_n s := c]\<rparr> else g)"
  obtain ts f2 where e: "colour_edges (ss_edges s) (sg_trans g1 ! ss_n s) f1 = (ts, f2)" by (rule prod.exhaust)
  define g2 where "g2 = g1\<lparr>sg_trans := (sg_trans g1)[ss_n s := ts]\<rparr>"
  have 1: "game_table_ok g1" "sg_num_states g1 = sg_num_states g" "sg_aps g1 = sg_aps g" "sg_n_colors g1 = sg_n_colors g"
    using 2(3) by (auto simp: g1_def game_table_ok_def)
  have *: "\<forall>t \<in> set ts. fst (snd t) < sg_num_states g \<and> guard_ok (sg_aps g) (fst t)"
    by (rule colour_edges_ok [OF e]) (use 2(4) 1 in \<open>auto simp: game_table_ok_def\<close>)
  have new: "game_table_ok g2" "sg_num_states g2 = sg_num_states g" "sg_aps g2 = sg_aps g" "sg_n_colors g2 = sg_n_colors g"
  proof -
    have "set ((sg_trans g1)[ss_n s := ts] ! q) \<subseteq> set ts \<union> set (sg_trans g1 ! q)" if "q < length (sg_trans g1)" for q
      using that by (cases "q = ss_n s") auto
    then show "game_table_ok g2" "sg_num_states g2 = sg_num_states g" "sg_aps g2 = sg_aps g" "sg_n_colors g2 = sg_n_colors g"
      using 1 * unfolding g2_def game_table_ok_def by (simp_all, blast)
  qed
  have "colour_states sts g2 f2 = (g', flags')"
    using 2(2) c e by (simp add: g1_def [symmetric] g2_def [symmetric] Let_def)
  then show ?case
    using "2.IH" [OF c [symmetric] g1_def e [symmetric], folded g2_def] new 2(4) by auto
qed auto

lemma parse_synth_game_ok:
  assumes "parse_synth_game_hoa hoa_cap s = Inr g"
  shows "synth_game_ok g"
proof -
  let ?h0 = "\<lambda>sc. \<lparr>gh_game = new_game sc, gh_all = False, gh_buchi = False, gh_cobuchi = False,
    gh_parity = False, gh_min = False, gh_even = False, gh_cond = []\<rparr>"
  have "\<not> count_games True s > 1" using assms by (auto simp: parse_synth_game_hoa_def)
  then obtain sc where p1: "scan hoa_cap s ''the synthesis game HOA'' = Inr sc"
      "rbind (game_lines (au_other sc) (?h0 sc)) (\<lambda>h.
          case colour_states (au_states sc) (gh_game h) (False, False) of
            (g, multi, wide) \<Rightarrow>
              if wide then Inl (ParseError, ''the synthesis game HOA has a colour beyond the integer range'')
              else Inr (finish_game (h\<lparr>gh_game := g\<lparr>sg_multi_colored := multi\<rparr>\<rparr>))) = Inr g"
    using assms by (auto simp: parse_synth_game_hoa_def rbind_Inr_iff)
  then obtain h where p2: "game_lines (au_other sc) (?h0 sc) = Inr h"
      "(case colour_states (au_states sc) (gh_game h) (False, False) of
            (g, multi, wide) \<Rightarrow>
              if wide then Inl (ParseError, ''the synthesis game HOA has a colour beyond the integer range'')
              else Inr (finish_game (h\<lparr>gh_game := g\<lparr>sg_multi_colored := multi\<rparr>\<rparr>))) = Inr g"
    unfolding rbind_Inr_iff by blast
  obtain g' multi wide where p3: "colour_states (au_states sc) (gh_game h) (False, False) = (g', multi, wide)"
    by (rule prod_cases3)
  then have p: "scan hoa_cap s ''the synthesis game HOA'' = Inr sc" "game_lines (au_other sc) (?h0 sc) = Inr h"
    "colour_states (au_states sc) (gh_game h) (False, False) = (g', multi, wide)"
    "g = finish_game (h\<lparr>gh_game := g'\<lparr>sg_multi_colored := multi\<rparr>\<rparr>)"
    using p1(1) p2 by (auto split: if_splits)
  note sc = scan_ok [OF p(1)]
  have new: "game_table_ok (new_game sc)"
    using sc by (auto simp: game_table_ok_def new_game_def)
  then have h: "game_table_ok (gh_game h)" "sg_num_states (gh_game h) = au_num_states sc"
      "sg_aps (gh_game h) = au_aps sc"
    using game_lines_ok [OF p(2)] by (simp_all add: new_game_def)
  have "\<forall>s \<in> set (au_states sc). ss_n s < sg_num_states (gh_game h) \<and>
      (\<forall>e \<in> set (ss_edges s). se_dst e < sg_num_states (gh_game h) \<and> guard_ok (sg_aps (gh_game h)) (se_guard e))"
    using sc h(2,3) by (auto simp: states_ok_def edge_ok_def)
  from colour_states_ok [OF p(3) h(1) this] have "game_table_ok g'" by blast
  moreover have "gh_game (default_all k) = gh_game k" for k by (simp add: default_all_def)
  ultimately show ?thesis
    unfolding p(4) by (simp add: synth_game_ok_def finish_game_def game_table_ok_def Let_def)
qed

section \<open>The cache of games\<close>

lemma evict_find: "map_of (fst (evict b m ord n)) k = Some v \<Longrightarrow> map_of m k = Some v"
  by (induction b m ord n rule: evict.induct) (auto simp: delete_conv' split: if_splits)

lemma bc_emplace_find:
  assumes "bc_find (snd (bc_emplace k v c)) k' = Some v'"
  shows "bc_find c k' = Some v' \<or> k' = k \<and> v' = v"
proof (cases "map_of (bc_map c) k = None")
  case True
  let ?c = "c\<lparr>bc_map := bc_map c @ [(k, v)], bc_order := bc_order c @ [k]\<rparr>"
  let ?e = "evict (bc_bound ?c) (bc_map ?c) (bc_order ?c) (bc_evictions ?c)"
  have t: "bc_tracked (c\<lparr>bc_map := m\<rparr>) = bc_tracked c" for m by (simp add: bc_tracked_def)
  have "bc_map (snd (bc_emplace k v c)) = bc_map c @ [(k, v)] \<or> bc_map (snd (bc_emplace k v c)) = fst ?e"
    using True by (simp add: bc_emplace_def on_insert_def t Let_def split: prod.split)
  then have "map_of (bc_map c @ [(k, v)]) k' = Some v'"
    using assms evict_find [of "bc_bound ?c" "bc_map ?c" "bc_order ?c" "bc_evictions ?c" k' v']
    unfolding bc_find_def by auto
  then show ?thesis by (auto simp: bc_find_def map_add_def split: option.splits if_splits)
qed (use assms in \<open>auto simp: bc_emplace_def\<close>)

text \<open>Texts and names that cannot be confused in a cache key.\<close>

definition clean_text :: "string \<Rightarrow> bool" where
  "clean_text s \<longleftrightarrow> CHR 0x1E \<notin> set s"

definition clean_names :: "string list \<Rightarrow> bool" where
  "clean_names ns \<longleftrightarrow> (\<forall>n \<in> set ns. n \<noteq> [] \<and> CHR '','' \<notin> set n \<and> clean_text n)"

definition clean_query :: "string \<Rightarrow> string list \<Rightarrow> string list \<Rightarrow> string \<Rightarrow> bool" where
  "clean_query phi ins outs algo \<longleftrightarrow> clean_text phi \<and> clean_text algo \<and> clean_names ins \<and> clean_names outs"

lemma split_at:
  assumes "c \<notin> set a" "c \<notin> set b" "a @ c # s = b @ c # t"
  shows "a = b \<and> s = t"
proof -
  have "takeWhile (\<lambda>x. x \<noteq> c) (a @ c # s) = a" "takeWhile (\<lambda>x. x \<noteq> c) (b @ c # t) = b"
    using assms(1,2) by (auto intro: takeWhile_append_stop)
  then show ?thesis using assms(3) by simp
qed

lemma csv_clean: "clean_names ns \<Longrightarrow> clean_text (csv ns)"
  by (induction ns rule: csv.induct) (auto simp: clean_names_def clean_text_def)

lemma csv_inject: "clean_names ns \<Longrightarrow> clean_names ms \<Longrightarrow> csv ns = csv ms \<Longrightarrow> ns = ms"
proof (induction ns arbitrary: ms rule: csv.induct)
  case 1
  then show ?case by (cases ms rule: csv.cases) (auto simp: clean_names_def)
next
  case (2 s)
  then show ?case by (cases ms rule: csv.cases) (auto simp: clean_names_def)
next
  case (3 s t ss)
  then show ?case
  proof (cases ms rule: csv.cases)
    case (3 s' t' ss')
    have "s = s' \<and> csv (t # ss) = csv (t' # ss')"
      by (rule split_at [of "CHR '',''"]) (use "3.prems" 3 in \<open>auto simp: clean_names_def\<close>)
    then show ?thesis using "3.IH" [of "t' # ss'"] "3.prems" 3 by (auto simp: clean_names_def)
  qed (auto simp: clean_names_def)
qed

lemma game_key_inject:
  assumes "clean_query phi ins outs algo" "clean_query phi' ins' outs' algo'"
    and "game_key h k phi ins outs algo = game_key h' k' phi' ins' outs' algo'"
  shows "phi = phi' \<and> ins = ins' \<and> outs = outs' \<and> algo = algo' \<and> h = h'"
proof -
  let ?s = "CHR 0x1E"
  have digits: "?s \<notin> set (nat_to_string i)" for i
    using nat_to_string_digits [of ?s i] by (auto simp: is_digit_iff)
  have clean: "?s \<notin> set phi" "?s \<notin> set phi'" "?s \<notin> set (csv ins)" "?s \<notin> set (csv ins')"
      "?s \<notin> set (csv outs)" "?s \<notin> set (csv outs')" "?s \<notin> set algo" "?s \<notin> set algo'"
    using assms(1,2) csv_clean unfolding clean_query_def clean_text_def by blast+
  have 1: "phi = phi'" "csv ins @ ?s # csv outs @ ?s # algo @ ?s # nat_to_string h @ ?s # nat_to_string k =
      csv ins' @ ?s # csv outs' @ ?s # algo' @ ?s # nat_to_string h' @ ?s # nat_to_string k'"
    using split_at [OF clean(1,2)] assms(3) by (simp_all add: game_key_def separator_def)
  have 2: "csv ins = csv ins'" "csv outs @ ?s # algo @ ?s # nat_to_string h @ ?s # nat_to_string k =
      csv outs' @ ?s # algo' @ ?s # nat_to_string h' @ ?s # nat_to_string k'"
    using split_at [OF clean(3,4) 1(2)] by simp_all
  have 3: "csv outs = csv outs'" "algo @ ?s # nat_to_string h @ ?s # nat_to_string k =
      algo' @ ?s # nat_to_string h' @ ?s # nat_to_string k'"
    using split_at [OF clean(5,6) 2(2)] by simp_all
  have 4: "algo = algo'" "nat_to_string h @ ?s # nat_to_string k = nat_to_string h' @ ?s # nat_to_string k'"
    using split_at [OF clean(7,8) 3(2)] by simp_all
  have "nat_to_string h = nat_to_string h'" using split_at [OF digits digits 4(2)] by simp
  then have "h = h'" by (metis nat_to_string_value)
  moreover have "ins = ins'" "outs = outs'"
    using csv_inject 2(1) 3(1) assms(1,2) unfolding clean_query_def by blast+
  ultimately show ?thesis using 1(1) 4(1) by blast
qed

definition fresh_game :: "solver \<Rightarrow> nat \<Rightarrow> string \<Rightarrow> string list \<Rightarrow> string list \<Rightarrow> string \<Rightarrow> synth_game result" where
  "fresh_game ask hoa_cap phi ins outs algo = rbind (ask phi ins outs algo) (parse_synth_game_hoa hoa_cap)"

text \<open>Every game in the cache is what its query gives.\<close>

definition cache_ok :: "solver \<Rightarrow> game_cache \<Rightarrow> bool" where
  "cache_ok ask cache \<longleftrightarrow> (\<forall>h k phi ins outs algo g. clean_query phi ins outs algo \<longrightarrow>
     bc_find cache (game_key h k phi ins outs algo) = Some g \<longrightarrow> fresh_game ask h phi ins outs algo = Inr g)"

lemma ask_game_fresh:
  assumes "cache_ok ask cache" "clean_query phi ins outs algo"
  shows "fst (ask_game ask h k phi ins outs algo cache) = fresh_game ask h phi ins outs algo \<and>
    cache_ok ask (snd (ask_game ask h k phi ins outs algo cache))"
proof (cases "bc_find cache (game_key h k phi ins outs algo)")
  case (Some g)
  then show ?thesis using assms unfolding cache_ok_def by (auto simp: ask_game_def)
next
  case None
  show ?thesis
  proof (cases "fresh_game ask h phi ins outs algo")
    case (Inl e)
    then show ?thesis using None assms(1) by (simp add: ask_game_def fresh_game_def)
  next
    case (Inr g)
    let ?key = "game_key h k phi ins outs algo"
    have r: "ask_game ask h k phi ins outs algo cache = (Inr g, snd (bc_emplace ?key g cache))"
      using None Inr by (simp add: ask_game_def fresh_game_def)
    have "fresh_game ask h' phi' ins' outs' algo' = Inr g'"
      if q: "clean_query phi' ins' outs' algo'"
        and f: "bc_find (snd (bc_emplace ?key g cache)) (game_key h' k' phi' ins' outs' algo') = Some g'"
      for h' k' phi' ins' outs' algo' g'
      using bc_emplace_find [OF f]
    proof
      assume "bc_find cache (game_key h' k' phi' ins' outs' algo') = Some g'"
      then show ?thesis using assms(1) q unfolding cache_ok_def by blast
    next
      assume eq: "game_key h' k' phi' ins' outs' algo' = ?key \<and> g' = g"
      then show ?thesis using game_key_inject [OF q assms(2)] Inr by blast
    qed
    then have "cache_ok ask (snd (bc_emplace ?key g cache))" unfolding cache_ok_def by blast
    then show ?thesis using r Inr by simp
  qed
qed

lemma try_algorithms_fresh:
  assumes "\<And>a c. a \<in> set as \<Longrightarrow> P c \<Longrightarrow> fst (step a c) = fresh a \<and> P (snd (step a c))"
  shows "P cache \<Longrightarrow> fst (try_algorithms step as game cache) = fst (try_algorithms (\<lambda>a c. (fresh a, c)) as game cache) \<and>
    P (snd (try_algorithms step as game cache))"
  using assms
proof (induction as arbitrary: game cache)
  case (Cons a as)
  obtain r c where r: "step a cache = (r, c)" by (rule prod.exhaust)
  have s: "r = fresh a" "P c" using Cons.prems(2) [of a cache] Cons.prems(1) r by auto
  have IH: "fst (try_algorithms step as game c) = fst (try_algorithms (\<lambda>a c. (fresh a, c)) as game c) \<and>
      P (snd (try_algorithms step as game c))" for game
    using Cons.IH [OF s(2)] Cons.prems(2) by simp
  have indep: "fst (try_algorithms (\<lambda>a c. (fresh a, c)) as game c) = fst (try_algorithms (\<lambda>a c. (fresh a, c)) as game c')"
    for as game c c'
    by (induction as arbitrary: game) (auto split: sum.splits)
  show ?case using r s IH indep by (auto split: sum.splits)
qed simp

section \<open>Properties\<close>

text \<open>
  C26: a game read from a text is well formed: its tables have one entry per state, its players are 0
  and 1, every transition leads to a state, and every guard is a label over its propositions.
\<close>

theorem synth_game_well_formed:
  assumes "parse_synth_game_hoa hoa_cap s = Inr g"
  shows "synth_game_ok g"
  by (rule parse_synth_game_ok [OF assms])

definition sample_game_hoa :: string where
  "sample_game_hoa = concat (map (\<lambda>l. l @ [CHR 0x0A])
     [''HOA: v1'', ''States: 2'', ''Start: 0'', ''AP: 1 d_0'', ''controllable-AP: 0'', ''spot-state-player: 1 0'',
      ''acc-name: parity max odd 2'', ''Acceptance: 2 Fin(0)&Inf(1)'', ''--BODY--'', ''State: 0'', ''[0] 1 {1}'',
      ''State: 1'', ''[t] 0 {0}'', ''--END--''])"

definition sample_synth_game :: synth_game where
  "sample_synth_game =
     \<lparr>sg_num_states = 2, sg_init = 0, sg_player = [1, 0], sg_state_color = [-1, -1],
       sg_trans = [[(''0'', 1, 1)], [(''t'', 0, 0)]], sg_aps = [''d_0''], sg_controllable = [True],
       sg_n_colors = 2, sg_trans_acc = False, sg_state_priority = [0, 0], sg_edge_priority = [[1], [0]],
       sg_acc_known = True, sg_accepts_uncolored = False, sg_multi_colored = False\<rparr>"

lemma sample_game_parsed: "parse_synth_game_hoa 0 sample_game_hoa = Inr sample_synth_game"
  by code_simp

theorem synth_game_well_formed_witness: "synth_game_ok sample_synth_game"
  by (rule synth_game_well_formed [OF sample_game_parsed])

text \<open>
  C28: asking for a game through the cache gives what asking without one gives, for every formula and
  names that hold no separator, and keeps every cached game the answer to its query.
\<close>

theorem game_cache_transparent:
  assumes "cache_ok ask cache" and "clean_text phi" "clean_names ins" "clean_names outs" and "clean_text chosen"
  shows "fst (call_ltlsynt_game ask chosen h k phi ins outs [] cache) =
      fst (try_algorithms (\<lambda>a c. (fresh_game ask h phi ins outs a, c)) (ltlsynt_game_algorithms chosen)
        (Inl (InternalError, [])) cache) \<and>
    cache_ok ask (snd (call_ltlsynt_game ask chosen h k phi ins outs [] cache))"
proof -
  have "clean_query phi ins outs a" if "a \<in> set (ltlsynt_game_algorithms chosen)" for a
    using that assms(2-5) by (auto simp: clean_query_def ltlsynt_game_algorithms_def clean_text_def split: if_splits)
  then have "\<And>a c. a \<in> set (ltlsynt_game_algorithms chosen) \<Longrightarrow> cache_ok ask c \<Longrightarrow>
      fst (ask_game ask h k phi ins outs a c) = fresh_game ask h phi ins outs a \<and>
      cache_ok ask (snd (ask_game ask h k phi ins outs a c))"
    using ask_game_fresh by blast
  from try_algorithms_fresh [where P = "cache_ok ask", OF this assms(1)] show ?thesis
    by (simp add: call_ltlsynt_game_def)
qed

theorem game_cache_transparent_witness:
  "(case call_ltlsynt_game (\<lambda>_ _ _ _. Inr sample_game_hoa) [] 0 0 ''G d_0'' [] [''d_0''] [] (bc_new 0 (Some 4)) of
      (r, cache) \<Rightarrow> r = Inr sample_synth_game \<and> cache_ok (\<lambda>_ _ _ _. Inr sample_game_hoa) cache)"
proof -
  let ?ask = "\<lambda>_ _ _ _. Inr sample_game_hoa" and ?c = "bc_new 0 (Some 4) :: game_cache"
  have "cache_ok ?ask ?c" by (simp add: cache_ok_def bc_find_def bc_new_def)
  moreover have "clean_text ''G d_0''" "clean_names []" "clean_names [''d_0'']" "clean_text []"
    by (simp_all add: clean_text_def clean_names_def)
  ultimately have *: "fst (call_ltlsynt_game ?ask [] 0 0 ''G d_0'' [] [''d_0''] [] ?c) =
      fst (try_algorithms (\<lambda>a c. (fresh_game ?ask 0 ''G d_0'' [] [''d_0''] a, c)) (ltlsynt_game_algorithms [])
        (Inl (InternalError, [])) ?c) \<and> cache_ok ?ask (snd (call_ltlsynt_game ?ask [] 0 0 ''G d_0'' [] [''d_0''] [] ?c))"
    by (rule game_cache_transparent)
  have "fresh_game ?ask 0 ''G d_0'' [] [''d_0''] a = Inr sample_synth_game" for a
    using sample_game_parsed by (simp add: fresh_game_def)
  then have "fst (try_algorithms (\<lambda>a c. (fresh_game ?ask 0 ''G d_0'' [] [''d_0''] a, c)) (ltlsynt_game_algorithms [])
        (Inl (InternalError, [])) ?c) = Inr sample_synth_game"
    by (simp add: ltlsynt_game_algorithms_def sample_synth_game_def)
  then show ?thesis using * by (simp add: case_prod_beta)
qed

end
