(* ===== verification/Product_Game.thy ===== *)
theory Product_Game imports Synth_Game Parity_Game Omcat_Types "HOL-Library.Word" begin

text \<open>
  The product of a synthesis game with the memory types and the decision procedure on it: the second
  half of \<^verbatim>\<open>src/algorithm_d_game.h\<close>. An assignment of propositions and a pattern of data atoms are
  bit masks; the code refuses more than 30 propositions, so an assignment fits its integers. The
  number \<open>K\<close> of data atoms is not checked there: the code's \<^verbatim>\<open>1 << K\<close> is defined for \<open>K\<close> at most
  30, which only its callers see to, and \<open>2 ^ K\<close> stands for it under that condition. The initial
  memory \<open>init_rho\<close> is a natural number (no caller passes a negative one), and the priorities are
  integers, so \<open>+ 2\<close> stands for the code's \<^verbatim>\<open>int\<close> addition below the largest ints. A nest of loops
  is the list of the steps it makes, in order, folded over the state it changes.
\<close>

unbundle bit_operations_syntax

section \<open>Assignments and patterns\<close>

definition ltl_max_game_aps :: nat where
  "ltl_max_game_aps = 30"

definition d_index_from_ap_name :: "string \<Rightarrow> int" where
  "d_index_from_ap_name ap =
     (if length ap \<le> 2 \<or> ap ! 0 \<noteq> CHR ''d'' \<or> ap ! 1 \<noteq> CHR ''_'' then -1
      else if length ap - 2 > 9 then -1
      else if \<not> list_all is_digit (drop 2 ap) then -1
      else int (digits_value 0 (drop 2 ap)))"

definition controllable_d :: "synth_game \<Rightarrow> nat \<Rightarrow> nat \<Rightarrow> nat option" where
  "controllable_d G K ap =
     (let ctrl = (ap < length (sg_controllable G) \<and> sg_controllable G ! ap);
          d = (if ctrl then d_index_from_ap_name (sg_aps G ! ap) else -1)
      in if 0 \<le> d \<and> d < int K then Some (nat d) else None)"

definition d_pattern_from_assignment :: "synth_game \<Rightarrow> nat \<Rightarrow> nat \<Rightarrow> nat" where
  "d_pattern_from_assignment G assignment K =
     foldl (\<lambda>pat ap.
       case controllable_d G K ap of
         Some d \<Rightarrow> if bit assignment ap then pat OR push_bit d 1 else pat
       | None \<Rightarrow> pat) 0 [0..<length (sg_aps G)]"

text \<open>The proposition of every data atom, the later one when two share an index, and the others.\<close>

definition ap_table :: "synth_game \<Rightarrow> nat \<Rightarrow> nat option list \<times> nat list" where
  "ap_table G K =
     foldl (\<lambda>(ap_of_d, other) ap.
       case controllable_d G K ap of
         Some d \<Rightarrow> (ap_of_d[d := Some ap], other)
       | None \<Rightarrow> (ap_of_d, other @ [ap])) (replicate K None, []) [0..<length (sg_aps G)]"

definition choice :: "nat option list \<Rightarrow> nat list \<Rightarrow> nat \<Rightarrow> nat \<Rightarrow> nat" where
  "choice ap_of_d other D_pat other_bits =
     (let a = foldl (\<lambda>a i.
          case ap_of_d ! i of
            Some ap \<Rightarrow> if bit D_pat i then a OR push_bit ap 1 else a
          | None \<Rightarrow> a) 0 [0..<length ap_of_d]
      in foldl (\<lambda>a t. if bit other_bits t then a OR push_bit (other ! t) 1 else a) a [0..<length other])"

definition sys_choices :: "synth_game \<Rightarrow> nat \<Rightarrow> (nat \<times> nat) list" where
  "sys_choices G K =
     (case ap_table G K of (ap_of_d, other) \<Rightarrow>
        concat (map (\<lambda>D_pat. map (\<lambda>b. (D_pat, choice ap_of_d other D_pat b)) [0..<2 ^ length other]) [0..<2 ^ K]))"

definition initial_memory :: "rational list \<Rightarrow> nat" where
  "initial_memory sorted_constants = qlt_type_of (mk_rational 0 1) sorted_constants"

section \<open>The product game\<close>

definition read_labels :: "synth_game \<Rightarrow> label_expr list list option" where
  "read_labels G = those (map (\<lambda>ts. those (map (\<lambda>t. read_label (fst t)) ts)) (sg_trans G))"

definition holds :: "nat \<Rightarrow> label_expr \<Rightarrow> nat \<Rightarrow> bool" where
  "holds n_aps lab a = eval_label (\<lambda>ap. ap < n_aps \<and> bit a ap) lab"

text \<open>The table of feasible steps: memory before, memory after, pattern.\<close>

definition feasible_table :: "nat \<Rightarrow> qlt_type3 list \<Rightarrow> int list \<Rightarrow> nat \<Rightarrow> bool list list list" where
  "feasible_table T1_size T3 type_A K =
     foldl (\<lambda>f t.
       let pm = t3_pos_m (T3 ! t); py = t3_pos_y (T3 ! t) in
       if pm \<ge> T1_size \<or> py \<ge> T1_size \<or> type_A ! t < 0 \<or> type_A ! t \<ge> 2 ^ K then f
       else f[pm := (f ! pm)[py := (f ! pm ! py)[nat (type_A ! t) := True]]])
     (replicate T1_size (replicate T1_size (replicate (2 ^ K) False))) [0..<length T3]"

text \<open>What the construction reads: the game, its labels, the table and the sizes.\<close>

record product_input =
  pi_game :: synth_game
  pi_labels :: "label_expr list list"
  pi_feasible :: "bool list list list"
  pi_T1 :: nat
  pi_K :: nat

abbreviation feasible_at :: "product_input \<Rightarrow> nat \<Rightarrow> nat \<Rightarrow> nat \<Rightarrow> bool" where
  "feasible_at p pos_m pos_y d_pat \<equiv> pi_feasible p ! pos_m ! pos_y ! d_pat"

definition env_edge_reachable :: "product_input \<Rightarrow> nat \<Rightarrow> label_expr \<Rightarrow> bool" where
  "env_edge_reachable p rho lab =
     (let n_aps = length (sg_aps (pi_game p)) in
      list_ex (\<lambda>a. holds n_aps lab a \<and>
        list_ex (\<lambda>rp. feasible_at p rho rp (d_pattern_from_assignment (pi_game p) a (pi_K p))) [0..<pi_T1 p])
      [0..<2 ^ n_aps])"

text \<open>A step: its state, its memory, its transition and the memory after it.\<close>

type_synonym product_step = "nat \<times> nat \<times> nat \<times> nat"

text \<open>The steps of the system by one transition and one choice.\<close>

definition sys_steps :: "product_input \<Rightarrow> nat \<Rightarrow> nat \<Rightarrow> nat \<Rightarrow> nat \<times> nat \<Rightarrow> product_step list" where
  "sys_steps p q rho j c =
     (if \<not> holds (length (sg_aps (pi_game p))) (pi_labels p ! q ! j) (snd c) then []
      else map (\<lambda>rp. (q, rho, j, rp)) (filter (\<lambda>rp. feasible_at p rho rp (fst c)) [0..<pi_T1 p]))"

definition env_steps :: "product_input \<Rightarrow> nat \<Rightarrow> nat \<Rightarrow> nat \<Rightarrow> product_step list" where
  "env_steps p q rho j = (if \<not> env_edge_reachable p rho (pi_labels p ! q ! j) then [] else [(q, rho, j, rho)])"

text \<open>The steps that ask for an edge state, in the order of the loops that create them.\<close>

definition stub_steps :: "product_input \<Rightarrow> product_step list" where
  "stub_steps p =
     (let G = pi_game p in
      concat (map (\<lambda>q. concat (map (\<lambda>rho. concat (map (\<lambda>j.
        if sg_edge_priority G ! q ! j < 0 then []
        else if sg_player G ! q \<noteq> 1 then env_steps p q rho j
        else concat (map (sys_steps p q rho j) (sys_choices G (pi_K p))))
        [0..<length (sg_trans G ! q)])) [0..<pi_T1 p])) [0..<sg_num_states G]))"

record edge_stub =
  es_step :: product_step
  es_next_q :: nat
  es_priority :: int

definition stub_of :: "product_input \<Rightarrow> product_step \<Rightarrow> edge_stub" where
  "stub_of p s =
     (case s of (q, rho, j, rp) \<Rightarrow>
        \<lparr>es_step = s, es_next_q = fst (snd (sg_trans (pi_game p) ! q ! j)),
          es_priority = sg_edge_priority (pi_game p) ! q ! j\<rparr>)"

text \<open>The key of a step: its product state, its transition and the memory after it.\<close>

definition step_key :: "product_input \<Rightarrow> product_step \<Rightarrow> nat \<times> nat \<times> nat" where
  "step_key p s = (case s of (q, rho, j, rp) \<Rightarrow> (q * pi_T1 p + rho, j, rp))"

type_synonym stub_map = "(nat \<times> nat \<times> nat) \<rightharpoonup> nat"

definition add_stub :: "product_input \<Rightarrow> nat \<Rightarrow> edge_stub list \<times> stub_map \<Rightarrow> product_step \<Rightarrow> edge_stub list \<times> stub_map" where
  "add_stub p stub_base = (\<lambda>(stubs, m) s.
     if m (step_key p s) = None
     then (stubs @ [stub_of p s], m(step_key p s \<mapsto> stub_base + length stubs)) else (stubs, m))"

definition need_edge_layer :: "synth_game \<Rightarrow> bool" where
  "need_edge_layer G = list_ex (\<lambda>q. list_ex (\<lambda>pr. pr \<ge> 0) (sg_edge_priority G ! q)) [0..<sg_num_states G]"

definition make_stubs :: "product_input \<Rightarrow> nat \<Rightarrow> edge_stub list \<times> stub_map" where
  "make_stubs p stub_base =
     (if need_edge_layer (pi_game p) then foldl (add_stub p stub_base) ([], Map.empty) (stub_steps p)
      else ([], Map.empty))"

text \<open>The steps that make transitions, in the order of their loops.\<close>

definition link_steps :: "product_input \<Rightarrow> product_step list" where
  "link_steps p =
     (let G = pi_game p in
      concat (map (\<lambda>q. concat (map (\<lambda>rho.
        if sg_player G ! q = 1 then
          concat (map (\<lambda>c. concat (map (\<lambda>j. sys_steps p q rho j c) [0..<length (sg_trans G ! q)]))
            (sys_choices G (pi_K p)))
        else concat (map (env_steps p q rho) [0..<length (sg_trans G ! q)]))
      [0..<pi_T1 p])) [0..<sg_num_states G]))"

definition add_succ :: "nat \<Rightarrow> nat \<Rightarrow> nat list list \<Rightarrow> nat list list" where
  "add_succ s d succs = (if d \<in> set (succs ! s) then succs else succs[s := succs ! s @ [d]])"

definition link :: "product_input \<Rightarrow> stub_map \<Rightarrow> nat list list \<Rightarrow> product_step \<Rightarrow> nat list list" where
  "link p m succs step =
     (case step of (q, rho, j, rp) \<Rightarrow>
        let G = pi_game p; s = q * pi_T1 p + rho; dest = fst (snd (sg_trans G ! q ! j)) * pi_T1 p + rp in
        case (if sg_edge_priority G ! q ! j \<ge> 0 then m (step_key p step) else None) of
          Some stub \<Rightarrow> add_succ stub dest (add_succ s stub succs)
        | None \<Rightarrow> add_succ s dest succs)"

definition base_prio :: "synth_game \<Rightarrow> nat \<Rightarrow> int" where
  "base_prio G q =
     (if \<not> sg_acc_known G then sg_state_priority G ! q
      else if sg_state_color G ! q < 0 then (if sg_accepts_uncolored G then 1 else 0)
      else sg_state_priority G ! q + 2)"

definition product_of :: "product_input \<Rightarrow> nat \<Rightarrow> product_game" where
  "product_of p init_rho =
     (let G = pi_game p; T1 = pi_T1 p; base_n = sg_num_states G * T1 in
      case make_stubs p base_n of (stubs, m) \<Rightarrow>
        let n = base_n + length stubs in
        \<lparr>pg_n_states = n, pg_init = sg_init G * T1 + init_rho,
          pg_player = map (\<lambda>s. sg_player G ! (s div T1)) [0..<base_n] @ replicate (length stubs) 0,
          pg_priority = map (\<lambda>s. base_prio G (s div T1)) [0..<base_n] @
            map (\<lambda>st. if sg_acc_known G then es_priority st + 2 else es_priority st) stubs,
          pg_succs = foldl (link p m) (replicate n []) (link_steps p)\<rparr>)"

definition build_product_game ::
  "synth_game \<Rightarrow> nat \<Rightarrow> qlt_type3 list \<Rightarrow> int list \<Rightarrow> nat \<Rightarrow> nat \<Rightarrow> product_game result" where
  "build_product_game G T1_size T3 type_A K init_rho =
     (if length (sg_aps G) > ltl_max_game_aps then
        Inl (UnsupportedOperation, ''the product game has more atomic propositions than the assignment enumeration supports; refusing'')
      else case read_labels G of
        None \<Rightarrow> Inl (ParseError, ''the synthesis game has an edge label that is not a label'')
      | Some labels \<Rightarrow>
          if sg_multi_colored G \<or> (\<not> sg_acc_known G \<and> sg_n_colors G > 0) then Inr empty_game
          else Inr (product_of \<lparr>pi_game = G, pi_labels = labels,
            pi_feasible = feasible_table T1_size T3 type_A K, pi_T1 = T1_size, pi_K = K\<rparr> init_rho))"

section \<open>Algorithm D\<close>

text \<open>
  The synthesis game of a formula, its inputs and its outputs is the parameter \<open>call\<close>
  (\<^verbatim>\<open>call_ltlsynt_game\<close>).
\<close>

definition d_outs :: "nat \<Rightarrow> string list" where
  "d_outs K = map (\<lambda>i. ''d_'' @ nat_to_string i) [0..<K]"

definition solve_algorithm_d ::
  "(string \<Rightarrow> string list \<Rightarrow> string list \<Rightarrow> synth_game result) \<Rightarrow> string \<Rightarrow> nat \<Rightarrow> qlt_type3 list \<Rightarrow> int list \<Rightarrow>
    nat \<Rightarrow> nat \<Rightarrow> bool result option" where
  "solve_algorithm_d call phi_star T1_size T3 type_A K init_rho =
     (if phi_star = [] \<or> T1_size = 0 then Some (Inr False)
      else case call phi_star [] (d_outs K) of
        Inl e \<Rightarrow> Some (Inl e)
      | Inr G \<Rightarrow>
          if sg_num_states G = 0 then Some (Inr False)
          else case build_product_game G T1_size T3 type_A K init_rho of
            Inl e \<Rightarrow> Some (Inl e)
          | Inr pg \<Rightarrow> map_option (\<lambda>W1. Inr (pg_init pg \<in> W1)) (zielonka_win_player1 pg))"

record alg_d_result =
  ad_realizable :: bool
  ad_winning_region :: "nat set"
  ad_product_game :: product_game
  ad_synth_game :: "synth_game option"
  ad_T1_size :: nat
  ad_K :: nat
  ad_init_rho :: int

definition solve_algorithm_d_full ::
  "(string \<Rightarrow> string list \<Rightarrow> string list \<Rightarrow> synth_game result) \<Rightarrow> string \<Rightarrow> nat \<Rightarrow> qlt_type3 list \<Rightarrow> int list \<Rightarrow>
    nat \<Rightarrow> nat \<Rightarrow> alg_d_result result option" where
  "solve_algorithm_d_full call phi_star T1_size T3 type_A K init_rho =
     (let res = \<lparr>ad_realizable = False, ad_winning_region = {}, ad_product_game = empty_game,
          ad_synth_game = None, ad_T1_size = T1_size, ad_K = K, ad_init_rho = -1\<rparr> in
      if phi_star = [] \<or> T1_size = 0 then Some (Inr res)
      else case call phi_star [] (d_outs K) of
        Inl e \<Rightarrow> Some (Inl e)
      | Inr G \<Rightarrow>
          let res = res\<lparr>ad_synth_game := Some G\<rparr> in
          if sg_num_states G = 0 then Some (Inr res)
          else case build_product_game G T1_size T3 type_A K init_rho of
            Inl e \<Rightarrow> Some (Inl e)
          | Inr pg \<Rightarrow> map_option (\<lambda>W1.
              let res = res\<lparr>ad_product_game := pg, ad_winning_region := W1\<rparr> in
              Inr (if pg_init pg \<in> W1 then res\<lparr>ad_realizable := True, ad_init_rho := int init_rho\<rparr> else res))
              (zielonka_win_player1 pg))"

end
