(* ===== verification/Product_Correct.thy ===== *)
theory Product_Correct imports Product_Game Game_Reader Zielonka begin

text \<open>
  The product game is the intended one: the choices of the system are the assignments that carry
  their pattern, its moves are the feasible steps of the synthesis game, each through a state of its
  own when its transition has a colour, and Algorithm D decides who wins it.
\<close>

unbundle bit_operations_syntax

section \<open>Bits\<close>

lemma nat_bits_bound: "(\<And>i. bit a i \<Longrightarrow> i < n) \<Longrightarrow> a < 2 ^ n" for a :: nat
proof -
  assume "\<And>i. bit a i \<Longrightarrow> i < n"
  then have "take_bit n a = a" by (intro bit_eqI) (auto simp: bit_take_bit_iff)
  then show ?thesis by (metis take_bit_nat_less_exp)
qed

lemma nat_bound_bit: "a < 2 ^ n \<Longrightarrow> bit a i \<Longrightarrow> i < n" for a :: nat
  by (metis bit_take_bit_iff take_bit_nat_eq_self)

lemma bit_or_one: "bit (a OR 2 ^ k) i \<longleftrightarrow> bit a i \<or> i = k" for a :: nat
  by (auto simp: bit_or_iff bit_exp_iff)

lemma bit_fold_or:
  "bit (foldl (\<lambda>a x. case f x of Some k \<Rightarrow> if P x then a OR push_bit k 1 else a | None \<Rightarrow> a) a xs) i \<longleftrightarrow>
     bit a i \<or> (\<exists>x \<in> set xs. f x = Some i \<and> P x)" for a :: nat
  by (induction xs arbitrary: a) (auto simp: bit_or_one split: option.splits)

lemma bit_d_pattern:
  "bit (d_pattern_from_assignment G a K) i \<longleftrightarrow>
     (\<exists>ap < length (sg_aps G). controllable_d G K ap = Some i \<and> bit a ap)"
  unfolding d_pattern_from_assignment_def bit_fold_or by auto

lemma controllable_d_bound: "controllable_d G K ap = Some d \<Longrightarrow> d < K"
  by (auto simp: controllable_d_def Let_def split: if_splits)

lemma d_pattern_bound: "d_pattern_from_assignment G a K < 2 ^ K"
  by (rule nat_bits_bound) (auto simp: bit_d_pattern dest: controllable_d_bound)

section \<open>The choices of the system\<close>

lemma ap_table_fold:
  assumes "\<And>ap ap' d. ap \<in> set aps \<Longrightarrow> ap' \<in> set aps \<Longrightarrow> f ap = Some d \<Longrightarrow> f ap' = Some d \<Longrightarrow> ap = ap'"
    and "\<And>ap d. ap \<in> set aps \<Longrightarrow> f ap = Some d \<Longrightarrow> d < K"
    and "distinct aps"
    and "foldl (\<lambda>(ap_of_d, other) ap. case f ap of
        Some d \<Rightarrow> (ap_of_d[d := Some ap], other) | None \<Rightarrow> (ap_of_d, other @ [ap])) (replicate K None, []) aps = (t, other)"
  shows "length t = K \<and> (\<forall>d < K. \<forall>ap. t ! d = Some ap \<longleftrightarrow> ap \<in> set aps \<and> f ap = Some d) \<and>
     set other = {ap \<in> set aps. f ap = None}"
  using assms
proof (induction aps arbitrary: t other rule: rev_induct)
  case Nil
  then show ?case by auto
next
  case (snoc ap aps)
  obtain t' other' where r: "foldl (\<lambda>(ap_of_d, other) ap. case f ap of
      Some d \<Rightarrow> (ap_of_d[d := Some ap], other) | None \<Rightarrow> (ap_of_d, other @ [ap])) (replicate K None, []) aps = (t', other')"
    by (rule prod.exhaust)
  have IH: "length t' = K \<and> (\<forall>d < K. \<forall>ap. t' ! d = Some ap \<longleftrightarrow> ap \<in> set aps \<and> f ap = Some d) \<and>
     set other' = {ap \<in> set aps. f ap = None}"
  proof (rule snoc.IH)
    show "a = a'" if "a \<in> set aps" "a' \<in> set aps" "f a = Some d" "f a' = Some d" for a a' d
      by (rule snoc.prems(1) [of a a' d]) (use that in simp_all)
    show "d < K" if "a \<in> set aps" "f a = Some d" for a d
      by (rule snoc.prems(2) [of a d]) (use that in simp_all)
    show "distinct aps" using snoc.prems(3) by simp
  qed (rule r)
  show ?case
  proof (cases "f ap")
    case None
    then have "t = t'" "other = other' @ [ap]" using snoc.prems(4) by (simp_all add: r)
    then show ?thesis using IH None by auto
  next
    case (Some d)
    then have to: "t = t'[d := Some ap]" "other = other'" using snoc.prems(4) by (simp_all add: r)
    have d: "d < K" using snoc.prems(2) [of ap d] Some by simp
    have "f ap' \<noteq> Some d" if "ap' \<in> set aps" for ap'
      using snoc.prems(1) [of ap' ap d] snoc.prems(3) Some that by auto
    then have "t ! d' = Some ap' \<longleftrightarrow> ap' \<in> set (aps @ [ap]) \<and> f ap' = Some d'" if "d' < K" for d' ap'
      using IH Some that unfolding to by (cases "d' = d") auto
    then show ?thesis using IH Some unfolding to by auto
  qed
qed

lemma bit_choice:
  "bit (choice ap_of_d other D b) ap \<longleftrightarrow>
     (\<exists>i < length ap_of_d. ap_of_d ! i = Some ap \<and> bit D i) \<or> (\<exists>t < length other. other ! t = ap \<and> bit b t)"
proof -
  have *: "(if bit b t then a OR push_bit (other ! t) 1 else a) =
      (case Some (other ! t) of Some k \<Rightarrow> if bit b t then a OR push_bit k 1 else a | None \<Rightarrow> a)" for a t by simp
  show ?thesis unfolding choice_def Let_def * bit_fold_or by auto
qed

definition separate_atoms :: "synth_game \<Rightarrow> nat \<Rightarrow> bool" where
  "separate_atoms G K \<longleftrightarrow> (\<forall>ap < length (sg_aps G). \<forall>ap' < length (sg_aps G). \<forall>d.
     controllable_d G K ap = Some d \<longrightarrow> controllable_d G K ap' = Some d \<longrightarrow> ap = ap')"

definition carries :: "synth_game \<Rightarrow> nat \<Rightarrow> nat \<Rightarrow> nat \<Rightarrow> bool" where
  "carries G K D a \<longleftrightarrow> D < 2 ^ K \<and> a < 2 ^ length (sg_aps G) \<and>
     (\<forall>ap < length (sg_aps G). \<forall>d. controllable_d G K ap = Some d \<longrightarrow> (bit a ap \<longleftrightarrow> bit D d))"

lemma bits_of_list: "\<exists>b < (2 :: nat) ^ length xs. \<forall>t < length xs. bit b t \<longleftrightarrow> P (xs ! t)"
proof -
  let ?b = "horner_sum of_bool 2 (map P xs) :: nat"
  have "?b < 2 ^ length xs"
    by (rule nat_bits_bound) (simp add: bit_horner_sum_bit_iff)
  moreover have "\<forall>t < length xs. bit ?b t \<longleftrightarrow> P (xs ! t)"
    by (simp add: bit_horner_sum_bit_iff)
  ultimately show ?thesis by blast
qed

lemma sys_choices_carry:
  assumes "separate_atoms G K"
  shows "(D, a) \<in> set (sys_choices G K) \<longleftrightarrow> carries G K D a"
proof -
  let ?n = "length (sg_aps G)" and ?f = "controllable_d G K"
  obtain t other where r: "ap_table G K = (t, other)" by (rule prod.exhaust)
  have same: "ap = ap'" if "ap < ?n" "ap' < ?n" "?f ap = Some d" "?f ap' = Some d" for ap ap' d
    using assms that unfolding separate_atoms_def by blast
  have "length t = K \<and> (\<forall>d < K. \<forall>ap. t ! d = Some ap \<longleftrightarrow> ap \<in> set [0..<?n] \<and> ?f ap = Some d) \<and>
     set other = {ap \<in> set [0..<?n]. ?f ap = None}"
  proof (rule ap_table_fold)
    show "ap = ap'" if "ap \<in> set [0..<?n]" "ap' \<in> set [0..<?n]" "?f ap = Some d" "?f ap' = Some d" for ap ap' d
      by (rule same [of ap ap' d]) (use that in simp_all)
    show "foldl (\<lambda>(ap_of_d, other) ap. case ?f ap of
        Some d \<Rightarrow> (ap_of_d[d := Some ap], other) | None \<Rightarrow> (ap_of_d, other @ [ap])) (replicate K None, []) [0..<?n] = (t, other)"
      using r unfolding ap_table_def .
  qed (simp_all add: controllable_d_bound)
  then have T: "length t = K" "\<forall>d < K. \<forall>ap. t ! d = Some ap \<longleftrightarrow> ap < ?n \<and> ?f ap = Some d"
      "set other = {ap. ap < ?n \<and> ?f ap = None}"
    by auto
  have bit: "bit (choice t other D b) ap \<longleftrightarrow> ap < ?n \<and>
      (case ?f ap of Some d \<Rightarrow> bit D d | None \<Rightarrow> \<exists>k < length other. other ! k = ap \<and> bit b k)" for b ap
  proof -
    have o: "ap < ?n \<and> ?f ap = None" if "\<exists>k < length other. other ! k = ap \<and> bit b k"
    proof -
      have "ap \<in> set other" using that nth_mem by blast
      then show ?thesis by (simp add: T(3))
    qed
    have d: "(\<exists>i < K. t ! i = Some ap \<and> bit D i) \<longleftrightarrow> ap < ?n \<and> (case ?f ap of Some d \<Rightarrow> bit D d | None \<Rightarrow> False)"
      using T(2) controllable_d_bound [of G K ap] by (auto split: option.splits)
    show ?thesis
    proof (cases "\<exists>k < length other. other ! k = ap \<and> bit b k")
      case True
      then show ?thesis using o [OF True] unfolding bit_choice T(1) d by simp
    next
      case False
      then show ?thesis unfolding bit_choice T(1) d by (auto split: option.splits)
    qed
  qed
  have sys: "(D, a) \<in> set (sys_choices G K) \<longleftrightarrow> D < 2 ^ K \<and> (\<exists>b < 2 ^ length other. a = choice t other D b)"
    unfolding sys_choices_def r by (auto simp: image_iff)
  show ?thesis
  proof
    assume "(D, a) \<in> set (sys_choices G K)"
    then obtain b where D: "D < 2 ^ K" and a: "a = choice t other D b" unfolding sys by blast
    have "a < 2 ^ ?n" by (rule nat_bits_bound) (simp add: a bit)
    then show "carries G K D a" using D by (simp add: carries_def a bit)
  next
    assume c: "carries G K D a"
    obtain b :: nat where b: "b < 2 ^ length other" "\<forall>k < length other. bit b k \<longleftrightarrow> bit a (other ! k)"
      using bits_of_list [of other "bit a"] by blast
    have "a = choice t other D b"
    proof (rule bit_eqI)
      fix ap
      show "bit a ap \<longleftrightarrow> bit (choice t other D b) ap"
      proof (cases "ap < ?n")
        case True
        then have "?f ap = None \<Longrightarrow> \<exists>k < length other. other ! k = ap"
          using T(3) by (metis (mono_tags, lifting) in_set_conv_nth mem_Collect_eq)
        then show ?thesis using c True b(2) unfolding bit carries_def by (auto split: option.splits)
      next
        case False
        then show ?thesis using c nat_bound_bit unfolding bit carries_def by blast
      qed
    qed
    then show "(D, a) \<in> set (sys_choices G K)" unfolding sys using c b(1) unfolding carries_def by blast
  qed
qed

section \<open>Feasible steps\<close>

lemma feasible_fold:
  assumes "pm < T1" "py < T1" "d < 2 ^ K" and "\<forall>r \<in> set f. length r = T1 \<and> (\<forall>c \<in> set r. length c = 2 ^ K)" "length f = T1"
  shows "foldl (\<lambda>f t.
       let pm = t3_pos_m (T3 ! t); py = t3_pos_y (T3 ! t) in
       if pm \<ge> T1 \<or> py \<ge> T1 \<or> type_A ! t < 0 \<or> type_A ! t \<ge> 2 ^ K then f
       else f[pm := (f ! pm)[py := (f ! pm ! py)[nat (type_A ! t) := True]]]) f ts ! pm ! py ! d \<longleftrightarrow>
     f ! pm ! py ! d \<or> (\<exists>t \<in> set ts. t3_pos_m (T3 ! t) = pm \<and> t3_pos_y (T3 ! t) = py \<and> type_A ! t = int d)"
  using assms(4,5)
proof (induction ts arbitrary: f)
  case (Cons t ts)
  let ?pm = "t3_pos_m (T3 ! t)" and ?py = "t3_pos_y (T3 ! t)" and ?a = "type_A ! t"
  define f' where "f' = (if ?pm \<ge> T1 \<or> ?py \<ge> T1 \<or> ?a < 0 \<or> ?a \<ge> 2 ^ K then f
      else f[?pm := (f ! ?pm)[?py := (f ! ?pm ! ?py)[nat ?a := True]]])"
  have sizes: "length f = T1" "\<And>i. i < T1 \<Longrightarrow> length (f ! i) = T1"
      "\<And>i j. i < T1 \<Longrightarrow> j < T1 \<Longrightarrow> length (f ! i ! j) = 2 ^ K"
    using Cons.prems nth_mem by metis+
  have f': "\<forall>r \<in> set f'. length r = T1 \<and> (\<forall>c \<in> set r. length c = 2 ^ K)" "length f' = T1"
    using Cons.prems sizes
    by (auto simp: f'_def dest!: subsetD [OF set_update_subset_insert])
  have "f' ! pm ! py ! d \<longleftrightarrow> f ! pm ! py ! d \<or> (?pm = pm \<and> ?py = py \<and> ?a = int d)"
  proof (cases "?pm \<ge> T1 \<or> ?py \<ge> T1 \<or> ?a < 0 \<or> ?a \<ge> 2 ^ K")
    case True
    then have "\<not> (?pm = pm \<and> ?py = py \<and> ?a = int d)"
      using assms(1-3) by (auto simp flip: of_nat_less_iff)
    then show ?thesis using True by (auto simp: f'_def)
  next
    case False
    have "nat ?a < 2 ^ K" using False by (simp add: nat_less_iff)
    then show ?thesis using False assms(1-3) sizes by (auto simp: f'_def nth_list_update)
  qed
  then show ?case using Cons.IH [OF f'] by (auto simp: f'_def Let_def)
qed simp

lemma feasible_table_iff:
  assumes "pm < T1" "py < T1" "d < 2 ^ K"
  shows "feasible_table T1 T3 type_A K ! pm ! py ! d \<longleftrightarrow>
    (\<exists>t < length T3. t3_pos_m (T3 ! t) = pm \<and> t3_pos_y (T3 ! t) = py \<and> type_A ! t = int d)"
  unfolding feasible_table_def by (subst feasible_fold [OF assms]) (use assms in auto)

text \<open>The steps of the product: a step of the synthesis game by an assignment its data can follow.\<close>

definition fits_type :: "nat \<Rightarrow> qlt_type3 list \<Rightarrow> int list \<Rightarrow> nat \<Rightarrow> nat \<Rightarrow> nat \<Rightarrow> bool" where
  "fits_type T1 T3 type_A rho rp D \<longleftrightarrow> rho < T1 \<and> rp < T1 \<and>
     (\<exists>t < length T3. t3_pos_m (T3 ! t) = rho \<and> t3_pos_y (T3 ! t) = rp \<and> type_A ! t = int D)"

definition data_step ::
  "synth_game \<Rightarrow> nat \<Rightarrow> qlt_type3 list \<Rightarrow> int list \<Rightarrow> nat \<Rightarrow> nat \<Rightarrow> nat \<Rightarrow> nat \<Rightarrow> nat \<Rightarrow> bool" where
  "data_step G T1 T3 type_A K q rho j rp \<longleftrightarrow>
     q < sg_num_states G \<and> rho < T1 \<and> j < length (sg_trans G ! q) \<and>
     (\<exists>lab. read_label (fst (sg_trans G ! q ! j)) = Some lab \<and>
       (if sg_player G ! q = 1 then
          \<exists>(D, a) \<in> set (sys_choices G K). holds (length (sg_aps G)) lab a \<and> fits_type T1 T3 type_A rho rp D
        else rp = rho \<and> (\<exists>a < 2 ^ length (sg_aps G). \<exists>rp'. holds (length (sg_aps G)) lab a \<and>
          fits_type T1 T3 type_A rho rp' (d_pattern_from_assignment G a K))))"

definition input_of :: "synth_game \<Rightarrow> label_expr list list \<Rightarrow> nat \<Rightarrow> qlt_type3 list \<Rightarrow> int list \<Rightarrow> nat \<Rightarrow> product_input" where
  "input_of G labels T1 T3 type_A K =
     \<lparr>pi_game = G, pi_labels = labels, pi_feasible = feasible_table T1 T3 type_A K, pi_T1 = T1, pi_K = K\<rparr>"

lemma input_of_simps [simp]:
  "pi_game (input_of G labels T1 T3 type_A K) = G" "pi_labels (input_of G labels T1 T3 type_A K) = labels"
  "pi_T1 (input_of G labels T1 T3 type_A K) = T1" "pi_K (input_of G labels T1 T3 type_A K) = K"
  by (simp_all add: input_of_def)

lemma feasible_input:
  "rho < T1 \<Longrightarrow> rp < T1 \<Longrightarrow> D < 2 ^ K \<Longrightarrow>
     feasible_at (input_of G labels T1 T3 type_A K) rho rp D \<longleftrightarrow> fits_type T1 T3 type_A rho rp D"
  by (simp add: input_of_def fits_type_def feasible_table_iff)

lemma sys_choices_bound: "(D, a) \<in> set (sys_choices G K) \<Longrightarrow> D < 2 ^ K"
  by (auto simp: sys_choices_def split: prod.splits)

lemma read_labels_nth:
  assumes "read_labels G = Some labels" "q < length (sg_trans G)"
  shows "length labels = length (sg_trans G) \<and> length (labels ! q) = length (sg_trans G ! q) \<and>
    (\<forall>j < length (sg_trans G ! q). read_label (fst (sg_trans G ! q ! j)) = Some (labels ! q ! j))"
proof -
  have "list_all2 (\<lambda>ts ls. those (map (\<lambda>t. read_label (fst t)) ts) = Some ls) (sg_trans G) labels"
    using assms(1) unfolding read_labels_def those_list_all2 list_all2_map1 .
  then have "length labels = length (sg_trans G)"
      "those (map (\<lambda>t. read_label (fst t)) (sg_trans G ! q)) = Some (labels ! q)"
    using assms(2) by (auto dest: list_all2_lengthD list_all2_nthD)
  moreover from this(2) have "list_all2 (\<lambda>t l. read_label (fst t) = Some l) (sg_trans G ! q) (labels ! q)"
    unfolding those_list_all2 list_all2_map1 .
  ultimately show ?thesis by (auto dest: list_all2_lengthD list_all2_nthD)
qed

lemma env_edge_iff:
  assumes "rho < T1"
  shows "env_edge_reachable (input_of G labels T1 T3 type_A K) rho lab \<longleftrightarrow>
    (\<exists>a < 2 ^ length (sg_aps G). \<exists>rp. holds (length (sg_aps G)) lab a \<and>
       fits_type T1 T3 type_A rho rp (d_pattern_from_assignment G a K))"
proof -
  have "fits_type T1 T3 type_A rho rp D \<longleftrightarrow> rp < T1 \<and> feasible_at (input_of G labels T1 T3 type_A K) rho rp D"
    if "D < 2 ^ K" for rp D
    using feasible_input [OF assms _ that] by (auto simp: fits_type_def)
  then show ?thesis
    using d_pattern_bound by (fastforce simp: env_edge_reachable_def list_ex_iff Let_def)
qed

text \<open>What one step of the loops adds.\<close>

definition step_at :: "product_input \<Rightarrow> nat \<Rightarrow> nat \<Rightarrow> nat \<Rightarrow> nat \<Rightarrow> bool" where
  "step_at p q rho j rp \<longleftrightarrow> j < length (sg_trans (pi_game p) ! q) \<and>
     (if sg_player (pi_game p) ! q = 1 then
        \<exists>c \<in> set (sys_choices (pi_game p) (pi_K p)). holds (length (sg_aps (pi_game p))) (pi_labels p ! q ! j) (snd c) \<and>
          rp < pi_T1 p \<and> feasible_at p rho rp (fst c)
      else rp = rho \<and> env_edge_reachable p rho (pi_labels p ! q ! j))"

lemma sys_steps_mem:
  "(q, rho, j, rp) \<in> set (sys_steps p q' rho' j' c) \<longleftrightarrow> q' = q \<and> rho' = rho \<and> j' = j \<and>
     holds (length (sg_aps (pi_game p))) (pi_labels p ! q ! j) (snd c) \<and> rp < pi_T1 p \<and> feasible_at p rho rp (fst c)"
  by (auto simp: sys_steps_def)

lemma env_steps_mem:
  "(q, rho, j, rp) \<in> set (env_steps p q' rho' j') \<longleftrightarrow> q' = q \<and> rho' = rho \<and> j' = j \<and> rp = rho \<and>
     env_edge_reachable p rho (pi_labels p ! q ! j)"
  by (auto simp: env_steps_def)

lemma link_steps_mem:
  "(q, rho, j, rp) \<in> set (link_steps p) \<longleftrightarrow>
     q < sg_num_states (pi_game p) \<and> rho < pi_T1 p \<and> step_at p q rho j rp"
proof -
  let ?G = "pi_game p"
  define here where "here = (\<lambda>q rho. if sg_player ?G ! q = 1 then
      concat (map (\<lambda>c. concat (map (\<lambda>j. sys_steps p q rho j c) [0..<length (sg_trans ?G ! q)])) (sys_choices ?G (pi_K p)))
    else concat (map (env_steps p q rho) [0..<length (sg_trans ?G ! q)]))"
  have here: "(q, rho, j, rp) \<in> set (here q' rho') \<longleftrightarrow> q' = q \<and> rho' = rho \<and> step_at p q rho j rp" for q' rho'
    by (cases "sg_player ?G ! q' = 1") (auto simp: here_def sys_steps_mem env_steps_mem step_at_def)
  have "link_steps p = concat (map (\<lambda>q. concat (map (here q) [0..<pi_T1 p])) [0..<sg_num_states ?G])"
    by (simp add: link_steps_def here_def Let_def)
  then have "(q, rho, j, rp) \<in> set (link_steps p) \<longleftrightarrow>
      (\<exists>q' < sg_num_states ?G. \<exists>rho' < pi_T1 p. (q, rho, j, rp) \<in> set (here q' rho'))" by (simp only: concat_upt)
  then show ?thesis unfolding here by blast
qed

lemma stub_steps_mem:
  "(q, rho, j, rp) \<in> set (stub_steps p) \<longleftrightarrow>
     (q, rho, j, rp) \<in> set (link_steps p) \<and> sg_edge_priority (pi_game p) ! q ! j \<ge> 0"
proof -
  let ?G = "pi_game p"
  define here where "here q rho j = (if sg_edge_priority ?G ! q ! j < 0 then []
      else if sg_player ?G ! q \<noteq> 1 then env_steps p q rho j
      else concat (map (sys_steps p q rho j) (sys_choices ?G (pi_K p))))" for q rho j
  have here: "j' < length (sg_trans ?G ! q') \<and> (q, rho, j, rp) \<in> set (here q' rho' j') \<longleftrightarrow>
      q' = q \<and> rho' = rho \<and> j' = j \<and> step_at p q rho j rp \<and> sg_edge_priority ?G ! q ! j \<ge> 0" for q' rho' j'
    by (cases "sg_player ?G ! q' = 1") (auto simp: here_def sys_steps_mem env_steps_mem step_at_def)
  have "stub_steps p = concat (map (\<lambda>q. concat (map (\<lambda>rho. concat (map (here q rho) [0..<length (sg_trans ?G ! q)]))
      [0..<pi_T1 p])) [0..<sg_num_states ?G])"
    unfolding stub_steps_def here_def Let_def ..
  then have "(q, rho, j, rp) \<in> set (stub_steps p) \<longleftrightarrow> (\<exists>q' < sg_num_states ?G. \<exists>rho' < pi_T1 p. \<exists>j'.
      j' < length (sg_trans ?G ! q') \<and> (q, rho, j, rp) \<in> set (here q' rho' j'))" by (simp only: concat_upt)
  then show ?thesis unfolding here link_steps_mem by blast
qed

lemma link_steps_iff:
  assumes "read_labels G = Some labels" and "length (sg_trans G) = sg_num_states G"
  shows "(q, rho, j, rp) \<in> set (link_steps (input_of G labels T1 T3 type_A K)) \<longleftrightarrow> data_step G T1 T3 type_A K q rho j rp"
proof (cases "q < sg_num_states G \<and> rho < T1 \<and> j < length (sg_trans G ! q)")
  case True
  let ?p = "input_of G labels T1 T3 type_A K" and ?n = "length (sg_aps G)"
  have lab: "read_label (fst (sg_trans G ! q ! j)) = Some (labels ! q ! j)"
    using read_labels_nth [OF assms(1), of q] True assms(2) by simp
  have feas: "rp < T1 \<and> feasible_at ?p rho rp D \<longleftrightarrow> fits_type T1 T3 type_A rho rp D" if "(D, a) \<in> set (sys_choices G K)" for D a
    using feasible_input [of rho T1 rp D K] sys_choices_bound [OF that] True by (auto simp: fits_type_def)
  have "(\<exists>c \<in> set (sys_choices G K). holds ?n (labels ! q ! j) (snd c) \<and> rp < T1 \<and> feasible_at ?p rho rp (fst c)) \<longleftrightarrow>
      (\<exists>(D, a) \<in> set (sys_choices G K). holds ?n (labels ! q ! j) a \<and> fits_type T1 T3 type_A rho rp D)"
    by (intro bex_cong [OF refl]) (use feas in \<open>auto split: prod.splits\<close>)
  moreover have "env_edge_reachable ?p rho (labels ! q ! j) \<longleftrightarrow> (\<exists>a < 2 ^ ?n. \<exists>rp'. holds ?n (labels ! q ! j) a \<and>
      fits_type T1 T3 type_A rho rp' (d_pattern_from_assignment G a K))"
    using True by (simp add: env_edge_iff)
  ultimately show ?thesis
    using True lab unfolding link_steps_mem step_at_def data_step_def input_of_simps by simp
next
  case False
  then show ?thesis unfolding link_steps_mem step_at_def data_step_def by auto
qed

section \<open>Edge states\<close>

lemma step_key_inj:
  assumes "(q, rho, j, rp) \<in> set (link_steps p)" "(q', rho', j', rp') \<in> set (link_steps p)"
    and "step_key p (q, rho, j, rp) = step_key p (q', rho', j', rp')"
  shows "(q, rho, j, rp) = (q', rho', j', rp')"
proof -
  have "rho < pi_T1 p" "rho' < pi_T1 p" using assms(1,2) by (simp_all add: link_steps_mem)
  then have "(q * pi_T1 p + rho) div pi_T1 p = q" "(q' * pi_T1 p + rho') div pi_T1 p = q'"
      "(q * pi_T1 p + rho) mod pi_T1 p = rho" "(q' * pi_T1 p + rho') mod pi_T1 p = rho'" by simp_all
  then show ?thesis using assms(3) by (simp add: step_key_def)
qed

lemma add_stub_steps:
  assumes "inj_on (step_key p) (set xs)"
  shows "\<exists>ss m. foldl (add_stub p base) ([], Map.empty) xs = (map (stub_of p) ss, m) \<and> set ss = set xs \<and>
    distinct ss \<and> (\<forall>i < length ss. m (step_key p (ss ! i)) = Some (base + i)) \<and> dom m = step_key p ` set xs"
  using assms
proof (induction xs rule: rev_induct)
  case Nil
  show ?case by (intro exI [of _ "[]"] exI [of _ Map.empty]) simp
next
  case (snoc x xs)
  have inj: "inj_on (step_key p) (set xs)" using snoc.prems by (auto intro: inj_on_subset)
  from snoc.IH [OF inj] obtain ss m where
    r: "foldl (add_stub p base) ([], Map.empty) xs = (map (stub_of p) ss, m)" and ss: "set ss = set xs" "distinct ss"
    and m: "\<forall>i < length ss. m (step_key p (ss ! i)) = Some (base + i)" and dm: "dom m = step_key p ` set xs"
    by blast
  show ?case
  proof (cases "x \<in> set xs")
    case True
    then have "m (step_key p x) \<noteq> None" using dm by blast
    then have "add_stub p base (map (stub_of p) ss, m) x = (map (stub_of p) ss, m)" by (auto simp: add_stub_def)
    then have "foldl (add_stub p base) ([], Map.empty) (xs @ [x]) = (map (stub_of p) ss, m)" by (simp add: r)
    then show ?thesis using True ss m dm by (intro exI [of _ ss] exI [of _ m]) auto
  next
    case False
    have new: "step_key p x \<notin> step_key p ` set xs"
      using snoc.prems False by (auto simp: inj_on_def)
    then have "m (step_key p x) = None" using dm by blast
    then have "add_stub p base (map (stub_of p) ss, m) x = (map (stub_of p) (ss @ [x]), m(step_key p x \<mapsto> base + length ss))"
      by (simp add: add_stub_def)
    then have run: "foldl (add_stub p base) ([], Map.empty) (xs @ [x]) =
        (map (stub_of p) (ss @ [x]), m(step_key p x \<mapsto> base + length ss))" by (simp add: r)
    have "step_key p (ss ! i) \<noteq> step_key p x" if "i < length ss" for i
    proof -
      have "step_key p (ss ! i) \<in> step_key p ` set xs" using ss(1) nth_mem [OF that] by simp
      then show ?thesis using new by metis
    qed
    then have "\<forall>i < length (ss @ [x]). (m(step_key p x \<mapsto> base + length ss)) (step_key p ((ss @ [x]) ! i)) = Some (base + i)"
      using m by (auto simp: nth_append less_Suc_eq)
    moreover have "dom (m(step_key p x \<mapsto> base + length ss)) = step_key p ` set (xs @ [x])" by (simp add: dm)
    moreover have "set (ss @ [x]) = set (xs @ [x])" "distinct (ss @ [x])" using ss False by simp_all
    ultimately show ?thesis using run by blast
  qed
qed

lemma make_stubs_steps:
  assumes "\<forall>q < sg_num_states (pi_game p). length (sg_edge_priority (pi_game p) ! q) = length (sg_trans (pi_game p) ! q)"
  shows "\<exists>ss m. make_stubs p base = (map (stub_of p) ss, m) \<and> set ss = set (stub_steps p) \<and>
    distinct ss \<and> (\<forall>i < length ss. m (step_key p (ss ! i)) = Some (base + i)) \<and> dom m = step_key p ` set (stub_steps p)"
proof (cases "need_edge_layer (pi_game p)")
  case True
  have "inj_on (step_key p) (set (stub_steps p))"
  proof (rule inj_onI)
    fix x y assume "x \<in> set (stub_steps p)" "y \<in> set (stub_steps p)" and k: "step_key p x = step_key p y"
    moreover obtain q rho j rp q' rho' j' rp' where "x = (q, rho, j, rp)" "y = (q', rho', j', rp')"
      using prod_cases4 [of x thesis] prod_cases4 [of y thesis] by blast
    ultimately show "x = y" using step_key_inj [of q rho j rp p q' rho' j' rp'] by (simp add: stub_steps_mem)
  qed
  from add_stub_steps [OF this, of base] True show ?thesis by (simp add: make_stubs_def)
next
  case False
  have "sg_edge_priority (pi_game p) ! q ! j < 0" if "q < sg_num_states (pi_game p)" "j < length (sg_trans (pi_game p) ! q)" for q j
    using False that assms by (auto simp: need_edge_layer_def list_ex_iff not_le)
  then have "s \<notin> set (stub_steps p)" for s
    by (cases s) (force simp: stub_steps_mem link_steps_mem step_at_def simp flip: not_less)
  then have "stub_steps p = []" by (metis list.set_intros(1) neq_Nil_conv)
  then show ?thesis using False by (intro exI [of _ "[]"] exI [of _ Map.empty]) (simp add: make_stubs_def)
qed

section \<open>Transitions\<close>

text \<open>The arcs one step adds.\<close>

definition arcs :: "product_input \<Rightarrow> stub_map \<Rightarrow> product_step \<Rightarrow> (nat \<times> nat) list" where
  "arcs p m step =
     (case step of (q, rho, j, rp) \<Rightarrow>
        let s = q * pi_T1 p + rho; d = fst (snd (sg_trans (pi_game p) ! q ! j)) * pi_T1 p + rp in
        case (if sg_edge_priority (pi_game p) ! q ! j \<ge> 0 then m (step_key p step) else None) of
          Some t \<Rightarrow> [(s, t), (t, d)]
        | None \<Rightarrow> [(s, d)])"

lemma link_arcs: "link p m succs step = foldl (\<lambda>su (s, d). add_succ s d su) succs (arcs p m step)"
  by (simp add: link_def arcs_def Let_def split: prod.splits option.splits)

lemma fold_link_arcs:
  "foldl (link p m) succs steps = foldl (\<lambda>su (s, d). add_succ s d su) succs (concat (map (arcs p m) steps))"
  by (induction steps arbitrary: succs) (simp_all add: link_arcs)

lemma fold_add_succ:
  "length (foldl (\<lambda>su (s, d). add_succ s d su) su as) = length su"
  "s < length su \<Longrightarrow> set (foldl (\<lambda>su (s, d). add_succ s d su) su as ! s) = set (su ! s) \<union> {d. (s, d) \<in> set as}"
proof (induction as arbitrary: su)
  case (Cons a as)
  obtain s' d' where a: "a = (s', d')" by (rule prod.exhaust)
  {
    case 1
    then show ?case using Cons.IH(1) by (simp add: a add_succ_def)
  next
    case 2
    then have "s < length (add_succ s' d' su)" by (simp add: add_succ_def)
    from Cons.IH(2) [OF this] 2 show ?case by (cases "s = s'") (auto simp: a add_succ_def)
  }
qed simp_all

text \<open>
  The moves of a product state, read through the edge states: a move of colour \<open>c\<close> goes through an
  edge state of that priority whose only successor is the destination, a move of none goes there.
\<close>

definition moves_through :: "product_game \<Rightarrow> nat \<Rightarrow> nat \<Rightarrow> int option \<Rightarrow> nat \<Rightarrow> bool" where
  "moves_through pg base s c d \<longleftrightarrow>
     (case c of
        None \<Rightarrow> d < base \<and> d \<in> moves_of pg s
      | Some k \<Rightarrow> \<exists>t \<in> moves_of pg s. base \<le> t \<and> moves_of pg t = {d} \<and> pg_priority pg ! t = k)"

definition edge_colour :: "synth_game \<Rightarrow> nat \<Rightarrow> nat \<Rightarrow> int option" where
  "edge_colour G q j =
     (let k = sg_edge_priority G ! q ! j in
      if k < 0 then None else Some (if sg_acc_known G then k + 2 else k))"

definition dest_of :: "synth_game \<Rightarrow> nat \<Rightarrow> nat \<Rightarrow> nat \<Rightarrow> nat \<Rightarrow> nat" where
  "dest_of G T1 q j rp = fst (snd (sg_trans G ! q ! j)) * T1 + rp"

lemma product_state_bound: "q < n \<Longrightarrow> rho < T1 \<Longrightarrow> q * T1 + rho < n * (T1 :: nat)"
proof -
  assume "q < n" "rho < T1"
  then have "q * T1 + rho < q * T1 + T1" by simp
  also have "\<dots> \<le> n * T1" using mult_le_mono1 [of "Suc q" n T1] \<open>q < n\<close> by simp
  finally show ?thesis .
qed

lemma product_state_inj:
  assumes "rho < T1" "rho' < T1" "q * T1 + rho = q' * T1 + (rho' :: nat)"
  shows "q = q' \<and> rho = rho'"
proof -
  have "(a * T1 + r) div T1 = a" if "r < T1" for a r using that by simp
  then have "q = q'" using assms by metis
  then show ?thesis using assms(3) by simp
qed

lemma product_moves:
  assumes ok: "synth_game_ok G" and G: "pi_game p = G" and T1: "pi_T1 p = T1"
  defines "base \<equiv> sg_num_states G * T1"
  obtains ss where "distinct ss"
    and "pg_n_states (product_of p init_rho) = base + length ss"
    and "pg_player (product_of p init_rho) = map (\<lambda>s. sg_player G ! (s div T1)) [0..<base] @ replicate (length ss) 0"
    and "pg_priority (product_of p init_rho) = map (\<lambda>s. base_prio G (s div T1)) [0..<base] @
      map (\<lambda>(q, rho, j, rp). the (edge_colour G q j)) ss"
    and "length (pg_succs (product_of p init_rho)) = base + length ss"
    and "\<And>q rho j rp. (q, rho, j, rp) \<in> set ss \<longleftrightarrow> (q, rho, j, rp) \<in> set (link_steps p) \<and> edge_colour G q j \<noteq> None"
    and "\<And>i q rho j rp. i < length ss \<Longrightarrow> ss ! i = (q, rho, j, rp) \<Longrightarrow>
      moves_of (product_of p init_rho) (base + i) = {dest_of G T1 q j rp}"
    and "\<And>q rho d. q < sg_num_states G \<Longrightarrow> rho < T1 \<Longrightarrow> d \<in> moves_of (product_of p init_rho) (q * T1 + rho) \<longleftrightarrow>
      (\<exists>j rp. (q, rho, j, rp) \<in> set (link_steps p) \<and>
        (if edge_colour G q j = None then d = dest_of G T1 q j rp
         else \<exists>i < length ss. ss ! i = (q, rho, j, rp) \<and> d = base + i))"
proof -
  let ?pg = "product_of p init_rho"
  have E: "\<forall>q < sg_num_states (pi_game p). length (sg_edge_priority (pi_game p) ! q) = length (sg_trans (pi_game p) ! q)"
    using ok G by (simp add: synth_game_ok_def)
  obtain ss m where st: "make_stubs p base = (map (stub_of p) ss, m)" and ss: "set ss = set (stub_steps p)" "distinct ss"
    and m: "\<forall>i < length ss. m (step_key p (ss ! i)) = Some (base + i)"
    using make_stubs_steps [OF E, of base] by blast
  have none: "edge_colour G q j = None \<longleftrightarrow> sg_edge_priority G ! q ! j < 0" for q j
    by (simp add: edge_colour_def Let_def)
  have mem: "(q, rho, j, rp) \<in> set ss \<longleftrightarrow> (q, rho, j, rp) \<in> set (link_steps p) \<and> edge_colour G q j \<noteq> None" for q rho j rp
    by (simp add: ss(1) stub_steps_mem G none not_less)
  have pg: "pg_n_states ?pg = base + length ss"
    "pg_player ?pg = map (\<lambda>s. sg_player G ! (s div T1)) [0..<base] @ replicate (length ss) 0"
    "pg_priority ?pg = map (\<lambda>s. base_prio G (s div T1)) [0..<base] @
       map (\<lambda>st. if sg_acc_known G then es_priority st + 2 else es_priority st) (map (stub_of p) ss)"
    "pg_succs ?pg = foldl (link p m) (replicate (base + length ss) []) (link_steps p)"
    using st by (simp_all add: product_of_def Let_def G T1 base_def)
  have prio: "map (\<lambda>st. if sg_acc_known G then es_priority st + 2 else es_priority st) (map (stub_of p) ss) =
      map (\<lambda>(q, rho, j, rp). the (edge_colour G q j)) ss"
    using mem by (auto simp: stub_of_def edge_colour_def Let_def G none not_less)
  have len: "length (pg_succs ?pg) = base + length ss" by (simp add: pg(4) fold_link_arcs fold_add_succ)
  have moves: "d \<in> moves_of ?pg t \<longleftrightarrow> (\<exists>x \<in> set (link_steps p). (t, d) \<in> set (arcs p m x))" if "t < base + length ss" for t d
    using that by (simp add: pg(4) fold_link_arcs fold_add_succ)
  have plain: "arcs p m (q, rho, j, rp) = [(q * T1 + rho, dest_of G T1 q j rp)]" if "edge_colour G q j = None" for q rho j rp
    using that by (simp add: arcs_def none dest_of_def G T1 Let_def)
  have coloured: "arcs p m (ss ! i) = [(q * T1 + rho, base + i), (base + i, dest_of G T1 q j rp)]"
    if "i < length ss" "ss ! i = (q, rho, j, rp)" for i q rho j rp
  proof -
    have "edge_colour G q j \<noteq> None" using mem [of q rho j rp] nth_mem [OF that(1)] that(2) by simp
    moreover have "m (step_key p (q, rho, j, rp)) = Some (base + i)" using m that by metis
    ultimately show ?thesis using that by (simp add: arcs_def none dest_of_def G T1 Let_def not_less)
  qed
  have index: "\<exists>i < length ss. ss ! i = (q, rho, j, rp)" if "(q, rho, j, rp) \<in> set (link_steps p)" "edge_colour G q j \<noteq> None" for q rho j rp
    using mem [of q rho j rp] that by (simp add: in_set_conv_nth)
  have below: "q * T1 + rho < base \<and> rho < T1" if "(q, rho, j, rp) \<in> set (link_steps p)" for q rho j rp
    using that product_state_bound by (simp add: link_steps_mem G T1 base_def)
  show thesis
  proof (rule that)
    show "moves_of ?pg (base + i) = {dest_of G T1 q j rp}" if i: "i < length ss" "ss ! i = (q, rho, j, rp)" for i q rho j rp
    proof (rule set_eqI)
      fix d
      have "(base + i, d) \<in> set (arcs p m x) \<longleftrightarrow> x = ss ! i \<and> d = dest_of G T1 q j rp" if x: "x \<in> set (link_steps p)" for x
      proof -
        obtain q' rho' j' rp' where x': "x = (q', rho', j', rp')" by (rule prod_cases4)
        show ?thesis
        proof (cases "edge_colour G q' j' = None")
          case True
          have "x \<noteq> ss ! i" using True mem [of q' rho' j' rp'] nth_mem [OF i(1)] x' by metis
          then show ?thesis using plain [OF True, of rho' rp'] below [of q' rho' j' rp'] x x' by auto
        next
          case False
          obtain i' where i': "i' < length ss" "ss ! i' = x" using index [of q' rho' j' rp'] False x x' by blast
          have "i' = i \<longleftrightarrow> x = ss ! i" using i' i(1) ss(2) nth_eq_iff_index_eq by metis
          then show ?thesis using coloured [OF i'(1), of q' rho' j' rp'] i' i below [of q' rho' j' rp'] x x' by auto
        qed
      qed
      moreover have "ss ! i \<in> set (link_steps p)" using mem [of q rho j rp] nth_mem [OF i(1)] i(2) by simp
      ultimately show "d \<in> moves_of ?pg (base + i) \<longleftrightarrow> d \<in> {dest_of G T1 q j rp}"
        using moves [of "base + i" d] i(1) by auto
    qed
    show "d \<in> moves_of ?pg (q * T1 + rho) \<longleftrightarrow> (\<exists>j rp. (q, rho, j, rp) \<in> set (link_steps p) \<and>
        (if edge_colour G q j = None then d = dest_of G T1 q j rp
         else \<exists>i < length ss. ss ! i = (q, rho, j, rp) \<and> d = base + i))" (is "_ \<longleftrightarrow> ?R")
      if q: "q < sg_num_states G" "rho < T1" for q rho d
    proof -
      have lt: "q * T1 + rho < base" using product_state_bound [OF q] by (simp add: base_def)
      have at: "(q * T1 + rho, d) \<in> set (arcs p m (q', rho', j, rp)) \<longleftrightarrow> q' = q \<and> rho' = rho \<and>
          (if edge_colour G q j = None then d = dest_of G T1 q j rp
           else \<exists>i < length ss. ss ! i = (q, rho, j, rp) \<and> d = base + i)"
        if x: "(q', rho', j, rp) \<in> set (link_steps p)" for q' rho' j rp
      proof (cases "edge_colour G q' j = None")
        case True
        then show ?thesis using plain [OF True, of rho' rp] product_state_inj [OF q(2), of rho' q q'] below [OF x] by auto
      next
        case False
        obtain i' where i': "i' < length ss" "ss ! i' = (q', rho', j, rp)" using index [OF x False] by blast
        have "i = i'" if "i < length ss" "ss ! i = (q', rho', j, rp)" for i
          using that i' ss(2) nth_eq_iff_index_eq by metis
        then have ex: "(\<exists>i < length ss. ss ! i = (q', rho', j, rp) \<and> d = base + i) \<longleftrightarrow> d = base + i'" using i' by blast
        have "q * T1 + rho \<noteq> base + i'" using lt by simp
        then have on: "(q * T1 + rho, d) \<in> set (arcs p m (q', rho', j, rp)) \<longleftrightarrow> q * T1 + rho = q' * T1 + rho' \<and> d = base + i'"
          using coloured [OF i'] i'(2) by simp
        show ?thesis
        proof (cases "q' = q \<and> rho' = rho")
          case True
          then show ?thesis using on ex False by auto
        next
          case False
          then have "q * T1 + rho \<noteq> q' * T1 + rho'" using product_state_inj [OF q(2), of rho' q q'] below [OF x] by blast
          then show ?thesis using on False by blast
        qed
      qed
      have "(\<exists>x \<in> set (link_steps p). (q * T1 + rho, d) \<in> set (arcs p m x)) \<longleftrightarrow> ?R"
      proof
        assume "\<exists>x \<in> set (link_steps p). (q * T1 + rho, d) \<in> set (arcs p m x)"
        then obtain q' rho' j rp where "(q', rho', j, rp) \<in> set (link_steps p)"
          "(q * T1 + rho, d) \<in> set (arcs p m (q', rho', j, rp))" by (metis prod_cases4)
        then show ?R using at by blast
      next
        assume ?R
        then show "\<exists>x \<in> set (link_steps p). (q * T1 + rho, d) \<in> set (arcs p m x)" using at by blast
      qed
      then show ?thesis using moves [of "q * T1 + rho" d] lt by simp
    qed
  qed (use ss(2) pg prio len mem in simp_all)
qed

section \<open>The product game\<close>

text \<open>
  The move of the data arena behind a step: the system picks a pattern and an assignment that
  carries it, and the memory after it; the environment keeps the memory. Either way the assignment
  satisfies the guard and some type of memory, input and output shows the pattern.
\<close>

definition data_move ::
  "synth_game \<Rightarrow> nat \<Rightarrow> qlt_type3 list \<Rightarrow> int list \<Rightarrow> nat \<Rightarrow> nat \<Rightarrow> nat \<Rightarrow> nat \<Rightarrow> nat \<Rightarrow> bool" where
  "data_move G T1 T3 type_A K q rho j rp \<longleftrightarrow>
     q < sg_num_states G \<and> rho < T1 \<and> j < length (sg_trans G ! q) \<and>
     (\<exists>lab. read_label (fst (sg_trans G ! q ! j)) = Some lab \<and>
       (if sg_player G ! q = 1 then
          \<exists>D a. carries G K D a \<and> holds (length (sg_aps G)) lab a \<and> fits_type T1 T3 type_A rho rp D
        else rp = rho \<and> (\<exists>a < 2 ^ length (sg_aps G). \<exists>rp'. holds (length (sg_aps G)) lab a \<and>
          fits_type T1 T3 type_A rho rp' (d_pattern_from_assignment G a K))))"

lemma data_step_move:
  "separate_atoms G K \<Longrightarrow> data_step G T1 T3 type_A K q rho j rp \<longleftrightarrow> data_move G T1 T3 type_A K q rho j rp"
  unfolding data_step_def data_move_def by (simp add: sys_choices_carry split_beta Bex_def)

lemma dest_bound:
  assumes "synth_game_ok G" "data_step G T1 T3 type_A K q rho j rp"
  shows "dest_of G T1 q j rp < sg_num_states G * T1"
proof -
  have "q < sg_num_states G" "j < length (sg_trans G ! q)" "rp < T1"
    using assms(2) by (auto simp: data_step_def fits_type_def split: if_splits)
  moreover from this have "fst (snd (sg_trans G ! q ! j)) < sg_num_states G"
    using assms(1) nth_mem by (auto simp: synth_game_ok_def game_table_ok_def)
  ultimately show ?thesis unfolding dest_of_def by (intro product_state_bound)
qed

lemma build_product_parts:
  assumes "build_product_game G T1 T3 type_A K init_rho = Inr pg"
    and "\<not> sg_multi_colored G" "sg_acc_known G \<or> sg_n_colors G \<le> 0"
  obtains labels where "read_labels G = Some labels" "pg = product_of (input_of G labels T1 T3 type_A K) init_rho"
  using assms by (auto simp: build_product_game_def input_of_def split: if_splits option.splits)

lemma product_arena:
  assumes ok: "synth_game_ok G" and b: "build_product_game G T1 T3 type_A K init_rho = Inr pg"
    and acc: "\<not> sg_multi_colored G" "sg_acc_known G \<or> sg_n_colors G \<le> 0" and rho: "init_rho < T1"
  shows "game_ok pg \<and> pg_init pg = sg_init G * T1 + init_rho \<and> pg_init pg < pg_n_states pg \<and>
    (\<forall>q < sg_num_states G. \<forall>rho < T1. owner pg (q * T1 + rho) = sg_player G ! q \<and>
      pg_priority pg ! (q * T1 + rho) = base_prio G q \<and>
      (\<forall>c d. moves_through pg (sg_num_states G * T1) (q * T1 + rho) c d \<longleftrightarrow>
        (\<exists>j rp. data_step G T1 T3 type_A K q rho j rp \<and> c = edge_colour G q j \<and> d = dest_of G T1 q j rp))) \<and>
    (\<forall>t < pg_n_states pg. sg_num_states G * T1 \<le> t \<longrightarrow> owner pg t = 0 \<and>
      (\<exists>d < sg_num_states G * T1. moves_of pg t = {d}) \<and> (\<exists>q < sg_num_states G. \<exists>j < length (sg_trans G ! q). edge_colour G q j = Some (pg_priority pg ! t)))"
proof -
  let ?base = "sg_num_states G * T1"
  obtain labels where lab: "read_labels G = Some labels" and pg: "pg = product_of (input_of G labels T1 T3 type_A K) init_rho"
    using build_product_parts [OF b acc] .
  let ?p = "input_of G labels T1 T3 type_A K"
  have "length (sg_trans G) = sg_num_states G" using ok by (simp add: synth_game_ok_def game_table_ok_def)
  note steps = link_steps_iff [OF lab this]
  show ?thesis
  proof (rule product_moves [OF ok, of ?p T1 init_rho], goal_cases)
    case (3 ss)
    note facts = 3 [folded pg, unfolded steps]
    note n = facts(2) and pl = facts(3) and pr = facts(4) and len = facts(5) and mem = facts(6) and stub = facts(7) and move = facts(8)
    have base: "owner pg s = sg_player G ! (s div T1)" "pg_priority pg ! s = base_prio G (s div T1)" if "s < ?base" for s
      using that by (simp_all add: pl pr nth_append)
    have step: "data_step G T1 T3 type_A K q rho j rp \<and> edge_colour G q j \<noteq> None"
      if "i < length ss" "ss ! i = (q, rho, j, rp)" for i q rho j rp
      using mem [of q rho j rp] nth_mem [OF that(1)] that(2) by simp
    have at_stub: "owner pg (?base + i) = 0" "edge_colour G q j = Some (pg_priority pg ! (?base + i))"
      "moves_of pg (?base + i) = {dest_of G T1 q j rp}" "dest_of G T1 q j rp < ?base" "q < sg_num_states G" "j < length (sg_trans G ! q)"
      if i: "i < length ss" "ss ! i = (q, rho, j, rp)" for i q rho j rp
      using step [OF i] stub [OF i] dest_bound [OF ok, of T1 T3 type_A K q rho j rp] i
      by (auto simp: pl pr nth_append data_step_def)
    have stubs: "owner pg t = 0 \<and> (\<exists>d < ?base. moves_of pg t = {d}) \<and>
        (\<exists>q < sg_num_states G. \<exists>j < length (sg_trans G ! q). edge_colour G q j = Some (pg_priority pg ! t))"
      if t: "t < pg_n_states pg" "?base \<le> t" for t
    proof -
      obtain q rho j rp where i: "t - ?base < length ss" "ss ! (t - ?base) = (q, rho, j, rp)"
        using t n by (metis prod_cases4 add_diff_inverse_nat nat_add_left_cancel_less not_less)
      show ?thesis using at_stub [OF i] t(2) by auto
    qed
    have at: "owner pg (q * T1 + rho) = sg_player G ! q" "pg_priority pg ! (q * T1 + rho) = base_prio G q"
      if "q < sg_num_states G" "rho < T1" for q rho
      using base [OF product_state_bound [OF that]] that(2) by simp_all
    have through: "moves_through pg ?base (q * T1 + rho) c d \<longleftrightarrow>
        (\<exists>j rp. data_step G T1 T3 type_A K q rho j rp \<and> c = edge_colour G q j \<and> d = dest_of G T1 q j rp)"
      if q: "q < sg_num_states G" "rho < T1" for q rho c d
    proof (cases c)
      case None
      have "d < ?base \<and> d \<in> moves_of pg (q * T1 + rho) \<longleftrightarrow>
          (\<exists>j rp. data_step G T1 T3 type_A K q rho j rp \<and> None = edge_colour G q j \<and> d = dest_of G T1 q j rp)"
      proof -
        have "d < ?base \<and> (if edge_colour G q j = None then d = dest_of G T1 q j rp
            else \<exists>i < length ss. ss ! i = (q, rho, j, rp) \<and> d = ?base + i) \<longleftrightarrow> None = edge_colour G q j \<and> d = dest_of G T1 q j rp"
          if "data_step G T1 T3 type_A K q rho j rp" for j rp
          using dest_bound [OF ok that] by auto
        then show ?thesis unfolding move [OF q] by blast
      qed
      then show ?thesis by (simp only: None moves_through_def option.case)
    next
      case (Some k)
      have "(\<exists>t \<in> moves_of pg (q * T1 + rho). ?base \<le> t \<and> moves_of pg t = {d} \<and> pg_priority pg ! t = k) \<longleftrightarrow>
          (\<exists>j rp. data_step G T1 T3 type_A K q rho j rp \<and> Some k = edge_colour G q j \<and> d = dest_of G T1 q j rp)" (is "?L \<longleftrightarrow> ?R")
      proof
        assume ?L
        then obtain t where t: "?base \<le> t" "moves_of pg t = {d}" "pg_priority pg ! t = k" and m: "t \<in> moves_of pg (q * T1 + rho)"
          by (elim bexE conjE)
        from m [unfolded move [OF q]] obtain j rp where s: "data_step G T1 T3 type_A K q rho j rp"
          and w: "if edge_colour G q j = None then t = dest_of G T1 q j rp else \<exists>i < length ss. ss ! i = (q, rho, j, rp) \<and> t = ?base + i"
          by (elim exE conjE)
        have "edge_colour G q j \<noteq> None"
        proof
          assume "edge_colour G q j = None"
          then have "t = dest_of G T1 q j rp" using w by simp
          then show False using dest_bound [OF ok s] t(1) by simp
        qed
        then obtain i where i: "i < length ss" "ss ! i = (q, rho, j, rp)" "t = ?base + i" using w by auto
        then have "Some k = edge_colour G q j" "d = dest_of G T1 q j rp" using at_stub [OF i(1,2)] t by simp_all
        then show ?R using s by blast
      next
        assume ?R
        then obtain j rp where s: "data_step G T1 T3 type_A K q rho j rp" "edge_colour G q j = Some k" "d = dest_of G T1 q j rp" by metis
        then obtain i where i: "i < length ss" "ss ! i = (q, rho, j, rp)"
          using mem [of q rho j rp] by (auto simp: in_set_conv_nth)
        then have "?base + i \<in> moves_of pg (q * T1 + rho)"
          unfolding move [OF q] using s by (intro exI [of _ j] exI [of _ rp]) auto
        moreover have "moves_of pg (?base + i) = {d}" "pg_priority pg ! (?base + i) = k" using at_stub [OF i] s by simp_all
        ultimately show ?L using le_add1 by blast
      qed
      then show ?thesis by (simp only: Some moves_through_def option.case)
    qed
    have T1: "0 < T1" using rho by simp
    have "sg_player G ! (s div T1) \<in> {0, 1}" if "s < ?base" for s
    proof -
      have "s div T1 < sg_num_states G" using that by (simp add: less_mult_imp_div_less)
      then show ?thesis using ok nth_mem unfolding synth_game_ok_def game_table_ok_def by (metis subsetD)
    qed
    then have players: "set (pg_player pg) \<subseteq> {0, 1}"
      unfolding pl set_append set_map by (intro Un_least image_subsetI) (simp_all add: set_replicate_conv_if)
    have inside: "moves_of pg t \<subseteq> {..<pg_n_states pg}" if t: "t < pg_n_states pg" for t
    proof (cases "t < ?base")
      case True
      have q: "t div T1 < sg_num_states G" "t mod T1 < T1" "t = t div T1 * T1 + t mod T1"
        using True T1 by (simp_all add: less_mult_imp_div_less)
      have "d < pg_n_states pg" if "d \<in> moves_of pg (t div T1 * T1 + t mod T1)" for d
        using that dest_bound [OF ok] unfolding move [OF q(1,2)] n by (force split: if_splits)
      then show ?thesis using q(3) by auto
    next
      case False
      then show ?thesis using stubs [OF t] n by force
    qed
    have "set vs \<subseteq> {..<pg_n_states pg}" if "vs \<in> set (pg_succs pg)" for vs
      using that inside len n by (metis in_set_conv_nth)
    moreover have "length (pg_player pg) = pg_n_states pg" "length (pg_priority pg) = pg_n_states pg"
      by (simp_all add: pl pr n)
    ultimately have "game_ok pg" using players len n unfolding game_ok_def by simp
    moreover have init: "pg_init pg = sg_init G * T1 + init_rho"
      by (simp add: pg product_of_def Let_def split: prod.splits)
    moreover have "pg_init pg < pg_n_states pg"
      using product_state_bound [of "sg_init G" "sg_num_states G" init_rho T1] ok rho n
      by (simp add: init synth_game_ok_def game_table_ok_def)
    ultimately show ?thesis using at through stubs by blast
  qed simp_all
qed

section \<open>Priorities and acceptance\<close>

text \<open>
  A run that takes the transitions \<open>I\<close> (a state and the index of a transition of it) infinitely
  often: the colours it sees again and again, on states and on transitions, and the priorities the
  product game gives its states and the edge states of its transitions.
\<close>

definition seen_colours :: "synth_game \<Rightarrow> (nat \<times> nat) set \<Rightarrow> int set" where
  "seen_colours G I = {c. 0 \<le> c \<and>
     (\<exists>(q, j) \<in> I. c = sg_state_color G ! q \<or> c = snd (snd (sg_trans G ! q ! j)))}"

definition seen_priorities :: "synth_game \<Rightarrow> (nat \<times> nat) set \<Rightarrow> int set" where
  "seen_priorities G I = (\<lambda>(q, j). base_prio G q) ` I \<union> {k. \<exists>(q, j) \<in> I. edge_colour G q j = Some k}"

definition transitions :: "synth_game \<Rightarrow> (nat \<times> nat) set" where
  "transitions G = {(q, j). q < sg_num_states G \<and> j < length (sg_trans G ! q)}"

lemma coloured_prio_nonneg:
  assumes "0 \<le> c" "c < sg_n_colors (gh_game h)"
  shows "0 \<le> coloured_prio h c"
  using assms by (auto simp: coloured_prio_def parity_prio_def Let_def)

lemma finished_tables:
  assumes "named (default_all h)" and ok: "synth_game_ok (finish_game h)"
    and v: "acceptance_without_colors (gh_cond h) = Some v" and qj: "(q, j) \<in> transitions (finish_game h)"
    and small: "\<And>c. c \<in> seen_colours (finish_game h) {(q, j)} \<Longrightarrow> c < sg_n_colors (gh_game h)"
  defines "G \<equiv> finish_game h"
  shows "base_prio G q = (if sg_state_color G ! q < 0 then (if v then 1 else 0)
      else coloured_prio (default_all h) (sg_state_color G ! q) + 2)"
    "edge_colour G q j = (if snd (snd (sg_trans G ! q ! j)) < 0 then None
      else Some (coloured_prio (default_all h) (snd (snd (sg_trans G ! q ! j))) + 2))"
proof -
  let ?h = "default_all h"
  have g: "gh_game ?h = gh_game h" "gh_cond ?h = gh_cond h" by (simp_all add: default_all_def)
  have G: "sg_state_priority G = map (state_prio_of ?h) (sg_state_color G)"
    "sg_edge_priority G = map (map (\<lambda>t. edge_prio_of ?h (snd (snd t)))) (sg_trans G)"
    "sg_acc_known G" "sg_accepts_uncolored G = v" "sg_n_colors G = sg_n_colors (gh_game h)"
    using assms(1) v g by (simp_all add: G_def finish_game_def named_def Let_def)
  have len: "q < length (sg_state_color G)" "q < length (sg_trans G)" "j < length (sg_trans G ! q)"
    using ok qj by (auto simp: G_def synth_game_ok_def game_table_ok_def transitions_def)
  have "state_prio_of ?h c = coloured_prio ?h c" if "0 \<le> c" for c
    using that by (simp add: state_prio_of_def coloured_prio_def)
  then show "base_prio G q = (if sg_state_color G ! q < 0 then (if v then 1 else 0)
      else coloured_prio ?h (sg_state_color G ! q) + 2)"
    using G(3,4) len(1) by (simp add: base_prio_def G(1))
  have "0 \<le> coloured_prio ?h (snd (snd (sg_trans G ! q ! j)))" if "0 \<le> snd (snd (sg_trans G ! q ! j))"
    using that small by (intro coloured_prio_nonneg) (auto simp: seen_colours_def G_def g)
  then show "edge_colour G q j = (if snd (snd (sg_trans G ! q ! j)) < 0 then None
      else Some (coloured_prio ?h (snd (snd (sg_trans G ! q ! j))) + 2))"
    using G(3) len(2,3)
    by (cases "snd (snd (sg_trans G ! q ! j)) < 0") (simp_all add: edge_colour_def G(2) edge_prio_of_def Let_def not_less)
qed

lemma odd_Max_recurring:
  fixes f :: "int \<Rightarrow> int" and u :: int
  assumes "finite C" "C \<noteq> {}" "\<And>c. c \<in> C \<Longrightarrow> u \<le> f c" "f ` C \<subseteq> P" "P \<subseteq> insert u (f ` C)"
  shows "Max P = Max (insert u (f ` C))"
proof -
  have fin: "finite (insert u (f ` C))" using assms(1) by simp
  obtain c where c: "c \<in> C" using assms(2) by blast
  have "finite P" using fin assms(5) by (rule rev_finite_subset)
  then have "f c \<le> Max P" using c assms(4) by (intro Max_ge) blast+
  then have "u \<le> Max P" using assms(3) [OF c] by linarith
  then have "\<And>k. k \<in> insert u (f ` C) \<Longrightarrow> k \<le> Max P" using \<open>finite P\<close> assms(4) by (auto intro: Max_ge)
  moreover have "Max P \<in> insert u (f ` C)" using \<open>finite P\<close> c assms(4,5) Max_in [of P] by blast
  ultimately show ?thesis using fin by (intro Max_eqI [symmetric])
qed

text \<open>
  C27: the priorities a read game stores decide its acceptance. When a run takes the transitions
  \<open>I\<close> infinitely often and every colour they carry is below the declared count, the greatest priority
  the product game gives the states and edge states of \<open>I\<close> is odd exactly when the named condition
  accepts the colours seen, or accepts no colour at all when none is seen.
\<close>

theorem priorities_decide_acceptance:
  assumes "named (default_all h)" and "synth_game_ok (finish_game h)"
    and "acc_or cond v" and "spaces w" and "gh_cond h = cond @ w"
    and "finite I" "I \<noteq> {}" "I \<subseteq> transitions (finish_game h)"
    and "\<And>c. c \<in> seen_colours (finish_game h) I \<Longrightarrow> c < sg_n_colors (gh_game h)"
  shows "odd (Max (seen_priorities (finish_game h) I)) \<longleftrightarrow>
    (if seen_colours (finish_game h) I = {} then v
     else named_accepts (default_all h) (seen_colours (finish_game h) I))"
proof -
  let ?G = "finish_game h" and ?h = "default_all h" and ?u = "if v then 1 else (0 :: int)"
  let ?C = "seen_colours ?G I" and ?f = "\<lambda>c. coloured_prio (default_all h) c + 2"
  have g: "gh_game ?h = gh_game h" by (simp add: default_all_def)
  have v: "acceptance_without_colors (gh_cond h) = Some v" using acceptance_reads [OF assms(3,4)] assms(5) by simp
  have "c < sg_n_colors (gh_game h)" if "c \<in> seen_colours ?G {(q, j)}" "(q, j) \<in> I" for q j c
    using assms(9) that unfolding seen_colours_def by blast
  then have tab: "base_prio ?G q = (if sg_state_color ?G ! q < 0 then ?u else ?f (sg_state_color ?G ! q))"
    "edge_colour ?G q j = (if snd (snd (sg_trans ?G ! q ! j)) < 0 then None
      else Some (?f (snd (snd (sg_trans ?G ! q ! j)))))" if "(q, j) \<in> I" for q j
    using finished_tables [OF assms(1,2) v] that assms(8) by blast+
  have range: "0 \<le> c" "c < sg_n_colors (gh_game ?h)" if "c \<in> ?C" for c
    using that assms(9) g by (auto simp: seen_colours_def)
  have "?C \<subseteq> (\<lambda>(q, j). sg_state_color ?G ! q) ` I \<union> (\<lambda>(q, j). snd (snd (sg_trans ?G ! q ! j))) ` I"
    by (auto simp: seen_colours_def)
  then have fin: "finite ?C" using assms(6) by (meson finite_UnI finite_imageI finite_subset)
  have sub: "seen_priorities ?G I \<subseteq> insert ?u (?f ` ?C)"
    by (fastforce simp: seen_priorities_def seen_colours_def tab split: if_splits)
  have img: "?f ` ?C \<subseteq> seen_priorities ?G I"
  proof
    fix k assume "k \<in> ?f ` ?C"
    then obtain c q j where c: "k = ?f c" "0 \<le> c" "(q, j) \<in> I"
      "c = sg_state_color ?G ! q \<or> c = snd (snd (sg_trans ?G ! q ! j))" by (auto simp: seen_colours_def)
    then have "k = base_prio ?G q \<or> edge_colour ?G q j = Some k" using tab [OF c(3)] by auto
    then show "k \<in> seen_priorities ?G I" using c(3) unfolding seen_priorities_def by force
  qed
  show ?thesis
  proof (cases "?C = {}")
    case True
    obtain q j where qj: "(q, j) \<in> I" using assms(7) by auto
    have "sg_state_color ?G ! q \<notin> ?C" using True by blast
    then have "sg_state_color ?G ! q < 0" using qj unfolding seen_colours_def by force
    then have "?u \<in> seen_priorities ?G I" using tab(1) [OF qj] qj unfolding seen_priorities_def by force
    then have "seen_priorities ?G I = {?u}" using sub True by auto
    then show ?thesis using True by simp
  next
    case False
    have "0 \<le> coloured_prio ?h c" if "c \<in> ?C" for c using range [OF that] by (rule coloured_prio_nonneg)
    then have "Max (seen_priorities ?G I) = Max (insert ?u (?f ` ?C))"
      using sub img by (intro odd_Max_recurring [OF fin False]) fastforce+
    moreover have "odd (Max (insert ?u (?f ` ?C))) \<longleftrightarrow> named_accepts ?h ?C"
      using range fin False assms(1) by (intro coloured_top) (auto simp: subset_iff)
    ultimately show ?thesis using False by simp
  qed
qed

theorem priorities_decide_acceptance_witness:
  "seen_colours sample_synth_game {(0, 0), (1, 0)} = {0, 1} \<and>
   odd (Max (seen_priorities sample_synth_game {(0, 0), (1, 0)}))"
proof -
  let ?G = "sample_synth_game" and ?I = "{(0, 0), (1, 0)} :: (nat \<times> nat) set"
    and ?cond = "''Fin(0)'' @ '''' @ ''&'' @ ''Inf(1)''"
  let ?h = "\<lparr>gh_game = ?G, gh_all = False, gh_buchi = False, gh_cobuchi = False, gh_parity = True,
    gh_min = False, gh_even = False, gh_cond = ?cond\<rparr>"
  have d: "default_all ?h = ?h" by (simp add: default_all_def)
  have s: "spaces []" by (simp add: spaces_def)
  have "acc_and ''Fin(0)'' True" by (rule and_atom) (use acc_fin [OF s, of "''0''"] in simp)
  moreover have "acc_atom ''Inf(1)'' False" using acc_inf [OF s, of "''1''"] by simp
  ultimately have "acc_and ?cond (True \<and> False)" by (rule and_and [OF _ s])
  then have c: "acc_or ?cond False" by (intro or_and) simp
  have fin: "finish_game ?h = ?G" by code_simp
  have n: "named (default_all ?h)" unfolding d by (simp add: named_def)
  have ok: "synth_game_ok (finish_game ?h)" unfolding fin by (rule parse_synth_game_ok [OF sample_game_parsed])
  have col: "seen_colours ?G ?I = {0, 1}" by (auto simp: seen_colours_def sample_synth_game_def)
  have I: "?I \<subseteq> transitions (finish_game ?h)" unfolding fin by (auto simp: transitions_def sample_synth_game_def)
  have small: "c < sg_n_colors (gh_game ?h)" if "c \<in> seen_colours (finish_game ?h) ?I" for c
    using that unfolding fin col by (auto simp: sample_synth_game_def)
  have "named_accepts ?h {0, 1}" by (simp add: named_accepts_def)
  then show ?thesis
    using priorities_decide_acceptance [OF n ok c s _ _ _ I small] unfolding fin d col by simp
qed

text \<open>
  The bound on the colours is needed, and the reader does not check it: the priority of a colour
  beyond the declared count is negative for a min condition, and a game whose priorities are all
  below the least one the solver searches from is given to neither player.
\<close>

definition beyond_hoa :: string where
  "beyond_hoa = concat (map (\<lambda>l. l @ [CHR 0x0A])
     [''HOA: v1'', ''States: 1'', ''Start: 0'', ''AP: 1 d_0'', ''controllable-AP: 0'', ''spot-state-player: 1'',
      ''acc-name: parity min even 1'', ''Acceptance: 1 Inf(0)'', ''--BODY--'', ''State: 0 {8}'', ''[t] 0'', ''--END--''])"

theorem undeclared_colour_accepted:
  "(case parse_synth_game_hoa 0 beyond_hoa of
     Inl e \<Rightarrow> False
   | Inr g \<Rightarrow> sg_state_color g = [8] \<and> sg_n_colors g = 1 \<and> base_prio g 0 = - 5) \<and>
   zielonka_win_player1 \<lparr>pg_n_states = 1, pg_init = 0, pg_player = [1], pg_priority = [- 5], pg_succs = [[0]]\<rparr> = Some {}"
proof
  show "case parse_synth_game_hoa 0 beyond_hoa of
     Inl e \<Rightarrow> False
   | Inr g \<Rightarrow> sg_state_color g = [8] \<and> sg_n_colors g = 1 \<and> base_prio g 0 = - 5" by code_simp
  show "zielonka_win_player1 \<lparr>pg_n_states = 1, pg_init = 0, pg_player = [1], pg_priority = [- 5], pg_succs = [[0]]\<rparr> = Some {}"
    by code_simp
qed

text \<open>
  C29: the product game is the data arena of the synthesis game: its moves, read through the edge
  states, are exactly the moves the data allows, with the colour of their transition; an edge state
  has one successor and belongs to the environment, and the game is well formed.
\<close>

theorem product_game_moves:
  assumes "synth_game_ok G" and "separate_atoms G K" and "build_product_game G T1 T3 type_A K init_rho = Inr pg"
    and "\<not> sg_multi_colored G" and "sg_acc_known G \<or> sg_n_colors G \<le> 0" and "init_rho < T1"
  shows "game_ok pg \<and> pg_init pg = sg_init G * T1 + init_rho \<and> pg_init pg < pg_n_states pg \<and>
    (\<forall>q < sg_num_states G. \<forall>rho < T1. owner pg (q * T1 + rho) = sg_player G ! q \<and>
      pg_priority pg ! (q * T1 + rho) = base_prio G q \<and>
      (\<forall>c d. moves_through pg (sg_num_states G * T1) (q * T1 + rho) c d \<longleftrightarrow>
        (\<exists>j rp. data_move G T1 T3 type_A K q rho j rp \<and> c = edge_colour G q j \<and> d = dest_of G T1 q j rp))) \<and>
    (\<forall>t < pg_n_states pg. sg_num_states G * T1 \<le> t \<longrightarrow> owner pg t = 0 \<and>
      (\<exists>d < sg_num_states G * T1. moves_of pg t = {d}))"
  using product_arena [OF assms(1,3-6)] unfolding data_step_move [OF assms(2)] by blast

definition sample_types :: "qlt_type3 list" where
  "sample_types = enumerate_qlt_T3 []"

definition sample_pattern :: "int list" where
  "sample_pattern = map (\<lambda>t. if t3_rel_my t = LT then 1 else 0) sample_types"

definition sample_product :: product_game where
  "sample_product = \<lparr>pg_n_states = 4, pg_init = 0, pg_player = [1, 0, 0, 0], pg_priority = [0, 0, 3, 2],
     pg_succs = [[2], [3], [1], [0]]\<rparr>"

lemma sample_built: "build_product_game sample_synth_game 1 sample_types sample_pattern 1 0 = Inr sample_product"
  by code_simp

lemma sample_separate: "separate_atoms sample_synth_game 1"
  by (simp add: separate_atoms_def sample_synth_game_def)

theorem product_game_moves_witness:
  "moves_through sample_product 2 0 (Some 3) 1 \<and>
   data_move sample_synth_game 1 sample_types sample_pattern 1 0 0 0 0 \<and> edge_colour sample_synth_game 0 0 = Some 3"
proof -
  have ok: "synth_game_ok sample_synth_game" by (rule parse_synth_game_ok [OF sample_game_parsed])
  have acc: "\<not> sg_multi_colored sample_synth_game" "sg_acc_known sample_synth_game \<or> sg_n_colors sample_synth_game \<le> 0"
    by (simp_all add: sample_synth_game_def)
  note all = product_game_moves [OF ok sample_separate sample_built acc, simplified]
  have n: "sg_num_states sample_synth_game = 2" by (simp add: sample_synth_game_def)
  have m: "moves_through sample_product 2 0 (Some 3) 1" by (auto simp: moves_through_def sample_product_def)
  have "\<forall>c d. moves_through sample_product 2 0 c d \<longleftrightarrow> (\<exists>j rp. data_move sample_synth_game 1 sample_types sample_pattern 1 0 0 j rp \<and>
      c = edge_colour sample_synth_game 0 j \<and> d = dest_of sample_synth_game 1 0 j rp)"
    using all n by fastforce
  then obtain j rp where j: "data_move sample_synth_game 1 sample_types sample_pattern 1 0 0 j rp" "edge_colour sample_synth_game 0 j = Some 3"
    using m by metis
  have "j = 0" "rp = 0" using j(1) by (auto simp: data_move_def sample_synth_game_def fits_type_def)
  then show ?thesis using m j by simp
qed

section \<open>Algorithm D\<close>

lemma base_prio_nonneg: "0 \<le> sg_state_priority G ! q \<Longrightarrow> 0 \<le> base_prio G q"
  by (simp add: base_prio_def)

lemma edge_colour_nonneg: "edge_colour G q j = Some k \<Longrightarrow> 0 \<le> k"
  by (auto simp: edge_colour_def Let_def split: if_splits)

lemma product_priorities:
  assumes "synth_game_ok G" "build_product_game G T1 T3 type_A K init_rho = Inr pg"
    and "\<not> sg_multi_colored G" "sg_acc_known G \<or> sg_n_colors G \<le> 0" "init_rho < T1"
    and "\<forall>q < sg_num_states G. 0 \<le> sg_state_priority G ! q"
  shows "\<forall>k \<in> set (pg_priority pg). 0 \<le> k"
proof
  note arena = product_arena [OF assms(1-5)]
  fix k assume "k \<in> set (pg_priority pg)"
  then obtain s where s: "s < pg_n_states pg" "k = pg_priority pg ! s"
    using arena by (auto simp: in_set_conv_nth game_ok_def)
  show "0 \<le> k"
  proof (cases "s < sg_num_states G * T1")
    case True
    have q: "s div T1 < sg_num_states G" "s mod T1 < T1" "s = s div T1 * T1 + s mod T1"
      using True assms(5) by (simp_all add: less_mult_imp_div_less)
    then have "pg_priority pg ! s = base_prio G (s div T1)" using arena by metis
    then show ?thesis using base_prio_nonneg assms(6) q(1) s(2) by simp
  next
    case False
    then obtain q j where "edge_colour G q j = Some k" using arena s by auto
    then show ?thesis by (rule edge_colour_nonneg)
  qed
qed

text \<open>
  C30: for a game whose state priorities are not negative, both procedures end, agree, and answer
  whether the system has a winning strategy from the initial state of the product; the region of
  the full one is exactly the states it wins from, and it reports the initial memory exactly then.
\<close>

theorem algorithm_d_decides:
  assumes "call phi [] (d_outs K) = Inr G" and "synth_game_ok G" and "phi \<noteq> []" and "init_rho < T1"
    and "build_product_game G T1 T3 type_A K init_rho = Inr pg"
    and "\<not> sg_multi_colored G" and "sg_acc_known G \<or> sg_n_colors G \<le> 0"
    and "\<forall>q < sg_num_states G. 0 \<le> sg_state_priority G ! q"
  shows "\<exists>r. solve_algorithm_d_full call phi T1 T3 type_A K init_rho = Some (Inr r) \<and>
    solve_algorithm_d call phi T1 T3 type_A K init_rho = Some (Inr (ad_realizable r)) \<and>
    (ad_realizable r \<longleftrightarrow> (\<exists>\<sigma>. wins pg 1 \<sigma> (pg_init pg))) \<and>
    ad_product_game r = pg \<and> ad_init_rho r = (if ad_realizable r then int init_rho else -1) \<and>
    (\<forall>s < pg_n_states pg. s \<in> ad_winning_region r \<longleftrightarrow> (\<exists>\<sigma>. wins pg 1 \<sigma> s))"
proof -
  note arena = product_arena [OF assms(2,5-7,4)]
  then have pg: "game_ok pg" and init: "pg_init pg < pg_n_states pg" by blast+
  obtain W1 \<sigma>0 \<sigma>1 where W: "zielonka_win_player1 pg = Some W1" "region pg (states_of pg) 1 \<sigma>1 W1"
      "region pg (states_of pg) 0 \<sigma>0 (states_of pg - W1)"
    using zielonka_regions [OF pg product_priorities [OF assms(2,5-7,4,8)]] by blast
  have won: "s \<in> W1 \<longleftrightarrow> (\<exists>\<sigma>. wins pg 1 \<sigma> s)" if s: "s < pg_n_states pg" for s
    using region_wins [OF pg W(2)] region_wins [OF pg W(3)] not_both_win [OF pg s] s by blast
  have some: "T1 \<noteq> 0" "sg_num_states G \<noteq> 0" using assms(2,4) by (auto simp: synth_game_ok_def game_table_ok_def)
  let ?r = "\<lparr>ad_realizable = pg_init pg \<in> W1, ad_winning_region = W1, ad_product_game = pg, ad_synth_game = Some G,
    ad_T1_size = T1, ad_K = K, ad_init_rho = (if pg_init pg \<in> W1 then int init_rho else -1)\<rparr>"
  have "solve_algorithm_d_full call phi T1 T3 type_A K init_rho = Some (Inr ?r)"
    using assms(1,3,5) some W(1) by (simp add: solve_algorithm_d_full_def Let_def)
  moreover have "solve_algorithm_d call phi T1 T3 type_A K init_rho = Some (Inr (ad_realizable ?r))"
    using assms(1,3,5) some W(1) by (simp add: solve_algorithm_d_def)
  ultimately show ?thesis using won init by (intro exI [of _ ?r]) simp
qed

theorem algorithm_d_decides_witness:
  "solve_algorithm_d (\<lambda>_ _ _. Inr sample_synth_game) ''G d_0'' 1 sample_types sample_pattern 1 0 = Some (Inr True) \<and>
   (\<exists>\<sigma>. wins sample_product 1 \<sigma> 0)"
proof -
  let ?call = "\<lambda>_ _ _. Inr sample_synth_game"
  have ok: "synth_game_ok sample_synth_game" by (rule parse_synth_game_ok [OF sample_game_parsed])
  have acc: "\<not> sg_multi_colored sample_synth_game" "sg_acc_known sample_synth_game \<or> sg_n_colors sample_synth_game \<le> 0"
    and pos: "\<forall>q < sg_num_states sample_synth_game. 0 \<le> sg_state_priority sample_synth_game ! q"
    by (auto simp: sample_synth_game_def less_Suc_eq numeral_2_eq_2)
  have run: "solve_algorithm_d ?call ''G d_0'' 1 sample_types sample_pattern 1 0 = Some (Inr True)" by code_simp
  obtain r :: alg_d_result where "solve_algorithm_d ?call ''G d_0'' 1 sample_types sample_pattern 1 0 = Some (Inr (ad_realizable r))"
      "ad_realizable r \<longleftrightarrow> (\<exists>\<sigma>. wins sample_product 1 \<sigma> (pg_init sample_product))"
    using algorithm_d_decides [where call = ?call and phi = "''G d_0''", OF refl ok list.simps(3) zero_less_one sample_built acc pos]
    by (elim exE conjE) (rule that, assumption+)
  then have "\<exists>\<sigma>. wins sample_product 1 \<sigma> (pg_init sample_product)" using run by auto
  then show ?thesis using run by (simp add: sample_product_def)
qed

end
