(* ===== verification/Bdd_Engine.thy ===== *)
theory Bdd_Engine imports String_Dict begin

text \<open>
  The decision diagram engine of \<^verbatim>\<open>src/backends/bdds/babdd.h\<close> over the two-element algebra, the
  instance the program uses, with its default options: 18-bit ids and 12-bit shifts. The static
  tables of the code are the state every operation takes and returns. A recursion that does not end
  is the value \<open>None\<close>. The hash of a node only places it in its table and is left out.
  Where C++ leaves the order of two recursive calls that are arguments of one call open, the high
  branch is computed first here: another order may number the nodes otherwise or raise the flag of a
  full table at another call.
\<close>

section \<open>References\<close>

record bdd_ref =
  br_in :: bool
  br_out :: bool
  br_shift :: nat
  br_id :: nat

definition id_width :: nat where
  "id_width = 18"

definition shift_width :: nat where
  "shift_width = 12"

text \<open>The constructor; the masks of the bit fields are the remainders.\<close>

definition mk_ref :: "bool \<Rightarrow> bool \<Rightarrow> int \<Rightarrow> int \<Rightarrow> bdd_ref" where
  "mk_ref i o1 s n =
     \<lparr>br_in = i, br_out = o1, br_shift = nat (s mod 2 ^ shift_width), br_id = nat (n mod 2 ^ id_width)\<rparr>"

definition bdd_T :: bdd_ref where
  "bdd_T = mk_ref False False 0 0"

definition bdd_F :: bdd_ref where
  "bdd_F = mk_ref False True 0 0"

definition flip_in :: "bdd_ref \<Rightarrow> bdd_ref" where
  "flip_in x = x\<lparr>br_in := \<not> br_in x\<rparr>"

definition flip_out :: "bdd_ref \<Rightarrow> bdd_ref" where
  "flip_out x = x\<lparr>br_out := \<not> br_out x\<rparr>"

definition to_shift_node :: "bdd_ref \<Rightarrow> nat \<Rightarrow> bdd_ref" where
  "to_shift_node x v =
     (if br_shift x = 0 then x
      else mk_ref (br_in x) (br_out x) (int (br_shift x) - (int v - 1)) (int (br_id x)))"

definition to_bdd_node :: "bdd_ref \<Rightarrow> nat \<Rightarrow> bdd_ref" where
  "to_bdd_node x v =
     (if br_shift x = 0 then x
      else mk_ref (br_in x) (br_out x) (int (br_shift x) + (int v - 1)) (int (br_id x)))"

definition lit_var :: "int \<Rightarrow> nat" where
  "lit_var l = nat \<bar>l\<bar>"

definition signed_lit :: "nat \<Rightarrow> bool \<Rightarrow> int" where
  "signed_lit v neg = (if neg then - int v else int v)"

section \<open>The node table\<close>

type_synonym bdd_node = "nat \<times> bdd_ref \<times> bdd_ref"
type_synonym skeleton = "bdd_ref \<times> bdd_ref"

record bdd_engine =
  be_V :: "skeleton list"
  be_Mn :: "skeleton \<rightharpoonup> nat"
  be_and :: "bdd_ref \<times> bdd_ref \<rightharpoonup> bdd_ref"
  be_all :: "bdd_ref \<times> nat \<rightharpoonup> bdd_ref"
  be_exhausted :: bool
  be_names :: string_table

definition bdd_init :: "string_table \<Rightarrow> bdd_engine" where
  "bdd_init d =
     \<lparr>be_V = [(bdd_T, bdd_T)], be_Mn = [(bdd_T, bdd_T) \<mapsto> 0], be_and = Map.empty, be_all = Map.empty,
       be_exhausted = False, be_names = d\<rparr>"

definition leaf :: "bdd_ref \<Rightarrow> bool" where
  "leaf n \<longleftrightarrow> br_id n = 0"

definition get_node :: "bdd_engine \<Rightarrow> bdd_ref \<Rightarrow> bdd_node" where
  "get_node e n =
     (case be_V e ! br_id n of (sh, sl) \<Rightarrow>
        let h = to_bdd_node sh (br_shift n); l = to_bdd_node sl (br_shift n);
            (h, l) = (if br_in n then (l, h) else (h, l));
            (h, l) = (if br_out n then (flip_out h, flip_out l) else (h, l))
        in (br_shift n, h, l))"

definition emplace :: "('k \<rightharpoonup> 'v) \<Rightarrow> 'k \<Rightarrow> 'v \<Rightarrow> ('k \<rightharpoonup> 'v)" where
  "emplace m k v = (if m k = None then m(k \<mapsto> v) else m)"

definition bdd_add :: "nat \<Rightarrow> bdd_ref \<Rightarrow> bdd_ref \<Rightarrow> bdd_engine \<Rightarrow> bdd_ref \<times> bdd_engine" where
  "bdd_add v h l e =
     (if h = l then (h, e)
      else if \<not> int v < 2 ^ shift_width then (bdd_F, e\<lparr>be_exhausted := True\<rparr>)
      else
        let swap = br_id h < br_id l;
            (h, l) = (if swap then (l, h) else (h, l));
            neg = br_out l;
            (h, l) = (if neg then (flip_out h, flip_out l) else (h, l));
            n = (to_shift_node h v, to_shift_node l v)
        in case be_Mn e n of
             Some i \<Rightarrow> (mk_ref swap neg (int v) (int i), e)
           | None \<Rightarrow>
               if \<not> int (length (be_V e)) < 2 ^ id_width then (bdd_F, e\<lparr>be_exhausted := True\<rparr>)
               else (mk_ref swap neg (int v) (int (length (be_V e))),
                 e\<lparr>be_Mn := emplace (be_Mn e) n (length (be_V e)), be_V := be_V e @ [n]\<rparr>))"

section \<open>Memoized operations\<close>

definition and_key :: "bdd_ref \<Rightarrow> bdd_ref \<Rightarrow> bdd_ref \<times> bdd_ref" where
  "and_key x y =
     (let d = min (br_shift x) (br_shift y) in (to_shift_node x d, to_shift_node y d))"

definition check_and :: "bdd_ref \<Rightarrow> bdd_ref \<Rightarrow> bdd_engine \<Rightarrow> bdd_ref option" where
  "check_and x y e =
     (if be_exhausted e then Some bdd_F
      else map_option (\<lambda>r. to_bdd_node r (min (br_shift x) (br_shift y))) (be_and e (and_key x y)))"

definition update_and :: "bdd_ref \<Rightarrow> bdd_ref \<Rightarrow> bdd_ref \<Rightarrow> bdd_engine \<Rightarrow> bdd_engine" where
  "update_and x y r e =
     (if be_exhausted e then e
      else e\<lparr>be_and := emplace (be_and e) (and_key x y) (to_shift_node r (min (br_shift x) (br_shift y)))\<rparr>)"

text \<open>The quantified variable is a 32-bit unsigned integer.\<close>

definition all_key :: "bdd_ref \<Rightarrow> nat \<Rightarrow> bdd_ref \<times> nat" where
  "all_key x v = (to_shift_node x (br_shift x), nat ((int v - (int (br_shift x) - 1)) mod 2 ^ 32))"

definition check_all :: "bdd_ref \<Rightarrow> nat \<Rightarrow> bdd_engine \<Rightarrow> bdd_ref option" where
  "check_all x v e =
     (if be_exhausted e then Some bdd_F
      else map_option (\<lambda>r. to_bdd_node r (br_shift x)) (be_all e (all_key x v)))"

definition update_all :: "bdd_ref \<Rightarrow> nat \<Rightarrow> bdd_ref \<Rightarrow> bdd_engine \<Rightarrow> bdd_engine" where
  "update_all x v r e =
     (if be_exhausted e then e
      else e\<lparr>be_all := emplace (be_all e) (all_key x v) (to_shift_node r (br_shift x))\<rparr>)"

definition mk_order_canonical :: "bdd_ref \<Rightarrow> bdd_ref \<Rightarrow> bdd_ref \<times> bdd_ref" where
  "mk_order_canonical x y =
     (let (x, y) = (if br_id x = br_id y \<and> br_shift x > br_shift y then (y, x) else (x, y))
      in if br_id x > br_id y then (y, x) else (x, y))"

definition negation_of :: "bdd_ref \<Rightarrow> bdd_ref \<Rightarrow> bool" where
  "negation_of x y \<longleftrightarrow> flip_out x = y"

text \<open>The variable of a conjunction and its two recursive conjunctions.\<close>

definition and_split ::
  "bdd_engine \<Rightarrow> bdd_ref \<Rightarrow> bdd_ref \<Rightarrow> nat \<times> (bdd_ref \<times> bdd_ref) \<times> (bdd_ref \<times> bdd_ref)" where
  "and_split e x y =
     (case get_node e x of (vx, hx, lx) \<Rightarrow> case get_node e y of (vy, hy, ly) \<Rightarrow>
        if vx = vy then (vx, (hx, hy), (lx, ly))
        else if vx < vy then (vx, (hx, y), (lx, y))
        else (vy, (hy, x), (ly, x)))"

partial_function (option) bdd_and ::
  "bdd_ref \<Rightarrow> bdd_ref \<Rightarrow> bdd_engine \<Rightarrow> (bdd_ref \<times> bdd_engine) option" where
  "bdd_and x y e =
     (if x = bdd_F \<or> y = bdd_F then Some (bdd_F, e)
      else if x = bdd_T then Some (y, e)
      else if y = bdd_T then Some (x, e)
      else if negation_of x y then Some (bdd_F, e)
      else case mk_order_canonical x y of (x, y) \<Rightarrow>
        (case check_and x y e of
           Some r \<Rightarrow> Some (r, e)
         | None \<Rightarrow>
             (case and_split e x y of (v, (h1, h2), (l1, l2)) \<Rightarrow>
                bdd_and h1 h2 e \<bind> (\<lambda>(h, e).
                bdd_and l1 l2 e \<bind> (\<lambda>(l, e).
                case bdd_add v h l e of (r, e) \<Rightarrow> Some (r, update_and x y r e))))))"

declare bdd_and.simps [code]

definition bdd_not :: "bdd_ref \<Rightarrow> bdd_ref" where
  "bdd_not x = flip_out x"

definition bdd_or :: "bdd_ref \<Rightarrow> bdd_ref \<Rightarrow> bdd_engine \<Rightarrow> (bdd_ref \<times> bdd_engine) option" where
  "bdd_or x y e = map_option (\<lambda>(r, e). (flip_out r, e)) (bdd_and (flip_out x) (flip_out y) e)"

partial_function (option) bdd_all :: "bdd_ref \<Rightarrow> nat \<Rightarrow> bdd_engine \<Rightarrow> (bdd_ref \<times> bdd_engine) option" where
  "bdd_all x v e =
     (case check_all x v e of
        Some r \<Rightarrow> Some (r, e)
      | None \<Rightarrow>
          if leaf x then Some (x, e)
          else case get_node e x of (vx, h, l) \<Rightarrow>
            (if vx < v then
               bdd_all h v e \<bind> (\<lambda>(h, e). bdd_all l v e \<bind> (\<lambda>(l, e). Some (bdd_add vx h l e)))
             else if v < vx then Some (x, e)
             else bdd_and h l e) \<bind> (\<lambda>(r, e). Some (r, update_all x v r e)))"

declare bdd_all.simps [code]

definition bdd_ex :: "bdd_ref \<Rightarrow> nat \<Rightarrow> bdd_engine \<Rightarrow> (bdd_ref \<times> bdd_engine) option" where
  "bdd_ex x v e = map_option (\<lambda>(r, e). (flip_out r, e)) (bdd_all (flip_out x) v e)"

definition get_uelim :: "bdd_ref \<Rightarrow> bool" where
  "get_uelim x \<longleftrightarrow> x = bdd_T"

definition get_eelim :: "bdd_ref \<Rightarrow> bool" where
  "get_eelim x \<longleftrightarrow> x \<noteq> bdd_F"

section \<open>Derived operations\<close>

definition bdd_ite :: "bdd_ref \<Rightarrow> bdd_ref \<Rightarrow> bdd_ref \<Rightarrow> bdd_engine \<Rightarrow> (bdd_ref \<times> bdd_engine) option" where
  "bdd_ite x y z e =
     bdd_and x y e \<bind> (\<lambda>(a, e). bdd_and (bdd_not x) z e \<bind> (\<lambda>(b, e). bdd_or a b e))"

definition bdd_bit :: "int \<Rightarrow> bdd_engine \<Rightarrow> bdd_ref \<times> bdd_engine" where
  "bdd_bit v e =
     (let e = e\<lparr>be_names := snd (var_name \<bar>v\<bar> (be_names e))\<rparr> in
      if v > 0 then bdd_add (lit_var v) bdd_T bdd_F e else bdd_add (lit_var v) bdd_F bdd_T e)"

partial_function (option) cofactor ::
  "bdd_ref \<Rightarrow> nat \<Rightarrow> bool \<Rightarrow> bdd_engine \<Rightarrow> (bdd_ref \<times> bdd_engine) option" where
  "cofactor x v high e =
     (if leaf x then Some (x, e)
      else case get_node e x of (vx, h, l) \<Rightarrow>
        if vx < v then
          cofactor h v high e \<bind> (\<lambda>(h, e). cofactor l v high e \<bind> (\<lambda>(l, e). Some (bdd_add vx h l e)))
        else if v < vx then Some (x, e)
        else Some (if high then h else l, e))"

declare cofactor.simps [code]

definition bdd_subst :: "bdd_ref \<Rightarrow> nat \<Rightarrow> bdd_ref \<Rightarrow> bdd_engine \<Rightarrow> (bdd_ref \<times> bdd_engine) option" where
  "bdd_subst x v w e =
     cofactor x v True e \<bind> (\<lambda>(h, e). cofactor x v False e \<bind> (\<lambda>(l, e). bdd_ite w h l e))"

partial_function (option) bdd_compose ::
  "bdd_ref \<Rightarrow> (int \<rightharpoonup> bdd_ref) \<Rightarrow> bdd_engine \<Rightarrow> (bdd_ref \<times> bdd_engine) option" where
  "bdd_compose x m e =
     (if leaf x then Some (x, e)
      else case get_node e x of (v, h, l) \<Rightarrow>
        bdd_compose h m e \<bind> (\<lambda>(a, e). bdd_compose l m e \<bind> (\<lambda>(b, e).
        case (case m (int v) of None \<Rightarrow> bdd_add v bdd_T bdd_F e | Some w \<Rightarrow> (w, e)) of
          (c, e) \<Rightarrow> bdd_ite c a b e)))"

declare bdd_compose.simps [code]

section \<open>Reading a function\<close>

text \<open>
  The paths to the leaf one, in order, until the caller's function answers false; the function is a
  step on a state of its own.
\<close>

partial_function (option) bdd_dnf ::
  "bdd_engine \<Rightarrow> bdd_ref \<Rightarrow> int list \<Rightarrow> (bool \<times> int list \<Rightarrow> 's \<Rightarrow> bool \<times> 's) \<Rightarrow> 's \<Rightarrow> (bool \<times> 's) option" where
  "bdd_dnf e x v f s =
     (if leaf x then Some (if x = bdd_T then f (True, v) s else (True, s))
      else case get_node e x of (vx, h, l) \<Rightarrow>
        bdd_dnf e h (v @ [signed_lit vx False]) f s \<bind> (\<lambda>(more_paths, s).
          if \<not> more_paths then Some (False, s) else bdd_dnf e l (v @ [signed_lit vx True]) f s))"

declare bdd_dnf.simps [code]

partial_function (option) vars_loop ::
  "bdd_engine \<Rightarrow> bdd_ref list \<Rightarrow> bdd_ref set \<Rightarrow> int set \<Rightarrow> int set option" where
  "vars_loop e todo seen s =
     (case todo of
        [] \<Rightarrow> Some s
      | y # todo \<Rightarrow>
          if leaf y \<or> y \<in> seen then vars_loop e todo seen s
          else case get_node e y of (v, h, l) \<Rightarrow>
            vars_loop e (l # h # todo) (insert y seen) (insert (signed_lit v False) s))"

declare vars_loop.simps [code]

definition get_vars :: "bdd_engine \<Rightarrow> bdd_ref \<Rightarrow> int set option" where
  "get_vars e x = vars_loop e [x] {} {}"

text \<open>A variable the assignment does not give is a failed assertion, the value \<open>None\<close>.\<close>

partial_function (option) bdd_eval :: "bdd_engine \<Rightarrow> bdd_ref \<Rightarrow> (int \<rightharpoonup> bool) \<Rightarrow> bool option" where
  "bdd_eval e x m =
     (if leaf x then Some (x = bdd_T)
      else case get_node e x of (v, h, l) \<Rightarrow>
        (case m (int v) of None \<Rightarrow> None | Some b \<Rightarrow> bdd_eval e (if b then h else l) m))"

declare bdd_eval.simps [code]

text \<open>An ordered map is its pairs in the order of the keys; \<open>put\<close> keeps the entry a key has.\<close>

fun put :: "int \<Rightarrow> 'v \<Rightarrow> (int \<times> 'v) list \<Rightarrow> (int \<times> 'v) list" where
  "put k v [] = [(k, v)]"
| "put k v ((k', v') # m) =
     (if k < k' then (k, v) # (k', v') # m else if k = k' then (k', v') # m else (k', v') # put k v m)"

partial_function (option) zero_loop ::
  "bdd_engine \<Rightarrow> bdd_ref \<Rightarrow> (int \<times> bool) list \<Rightarrow> (int \<times> bool) list option" where
  "zero_loop e x m =
     (if leaf x then Some m
      else case get_node e x of (v, h, l) \<Rightarrow>
        (let high = (l = bdd_T) in zero_loop e (if high then h else l) (put (int v) high m)))"

declare zero_loop.simps [code]

definition get_one_zero :: "bdd_engine \<Rightarrow> bdd_ref \<Rightarrow> (int \<times> bool) list result option" where
  "get_one_zero e x =
     (if x = bdd_T then Some (Inl (InvalidArgument, ''a constantly-one function has no zero witness''))
      else map_option Inr (zero_loop e x []))"

section \<open>Splitting\<close>

partial_function (option) rm_clause :: "bdd_ref \<Rightarrow> bdd_engine \<Rightarrow> (bdd_ref \<times> bdd_engine) option" where
  "rm_clause x e =
     (if leaf x then Some (bdd_F, e)
      else case get_node e x of (v, h, l) \<Rightarrow>
        if l = bdd_F then rm_clause h e \<bind> (\<lambda>(r, e). Some (bdd_add v r bdd_F e))
        else if leaf h then rm_clause l e \<bind> (\<lambda>(r, e). Some (bdd_add v h r e))
        else rm_clause h e \<bind> (\<lambda>(r, e). Some (bdd_add v r l e)))"

declare rm_clause.simps [code]

partial_function (option) rm_all_except_one_clause ::
  "bdd_ref \<Rightarrow> bdd_engine \<Rightarrow> (bdd_ref \<times> bdd_engine) option" where
  "rm_all_except_one_clause x e =
     (if leaf x then Some (bdd_F, e)
      else case get_node e x of (v, h, l) \<Rightarrow>
        if h = bdd_T then Some (bdd_add v bdd_T bdd_F e)
        else if l = bdd_T then Some (bdd_add v bdd_F bdd_T e)
        else if h = bdd_F then rm_all_except_one_clause l e \<bind> (\<lambda>(r, e). Some (bdd_add v bdd_F r e))
        else rm_all_except_one_clause h e \<bind> (\<lambda>(r, e). Some (bdd_add v r bdd_F e)))"

declare rm_all_except_one_clause.simps [code]

partial_function (option) rm_half_clauses :: "bdd_ref \<Rightarrow> bdd_engine \<Rightarrow> (bdd_ref \<times> bdd_engine) option" where
  "rm_half_clauses x e =
     (if leaf x then Some (bdd_F, e)
      else case get_node e x of (v, h, l) \<Rightarrow>
        if l = bdd_F then rm_half_clauses h e \<bind> (\<lambda>(r, e). Some (bdd_add v r l e))
        else Some (bdd_add v h bdd_F e))"

declare rm_half_clauses.simps [code]

partial_function (option) highest_var :: "bdd_engine \<Rightarrow> bdd_ref \<Rightarrow> nat option" where
  "highest_var e x =
     (if leaf x then Some 0
      else case get_node e x of (v, h, l) \<Rightarrow>
        highest_var e h \<bind> (\<lambda>a. highest_var e l \<bind> (\<lambda>b. Some (max v (max a b)))))"

declare highest_var.simps [code]

definition split_clause :: "bdd_ref \<Rightarrow> bdd_engine \<Rightarrow> (bdd_ref \<times> bdd_engine) option" where
  "split_clause x e =
     (if leaf x then (case bdd_bit 1 e of (b, e) \<Rightarrow> bdd_and x b e)
      else highest_var e x \<bind> (\<lambda>n. case bdd_bit (signed_lit (n + 1) False) e of (b, e) \<Rightarrow> bdd_and x b e))"

end
