(* ===== verification/Bdd_Trees.thy ===== *)
theory Bdd_Trees imports Bdd_Engine begin

text \<open>
  What a reference of \<^theory_text>\<open>Bdd_Engine\<close> stands for: the decision tree it unfolds to. In a well-formed
  table the tree is ordered and reduced, and two references with the same tree are equal, so a
  function has one reference.
\<close>

section \<open>Decision trees\<close>

datatype bdt = Leaf bool | Node nat bdt bdt

fun ev :: "bdt \<Rightarrow> (nat \<Rightarrow> bool) \<Rightarrow> bool" where
  "ev (Leaf b) a = b"
| "ev (Node v h l) a = (if a v then ev h a else ev l a)"

fun vars :: "bdt \<Rightarrow> nat set" where
  "vars (Leaf b) = {}"
| "vars (Node v h l) = insert v (vars h \<union> vars l)"

fun shift_t :: "nat \<Rightarrow> bdt \<Rightarrow> bdt" where
  "shift_t k (Leaf b) = Leaf b"
| "shift_t k (Node v h l) = Node (v + k) (shift_t k h) (shift_t k l)"

fun neg_t :: "bdt \<Rightarrow> bdt" where
  "neg_t (Leaf b) = Leaf (\<not> b)"
| "neg_t (Node v h l) = Node v (neg_t h) (neg_t l)"

fun reduced :: "bdt \<Rightarrow> bool" where
  "reduced (Leaf b) \<longleftrightarrow> True"
| "reduced (Node v h l) \<longleftrightarrow> h \<noteq> l \<and> reduced h \<and> reduced l \<and> (\<forall>w \<in> vars h \<union> vars l. v < w)"

lemma ev_shift: "ev (shift_t k t) a = ev t (\<lambda>n. a (n + k))"
  by (induction t) auto

lemma vars_shift: "vars (shift_t k t) = (\<lambda>n. n + k) ` vars t"
  by (induction t) auto

lemma shift_shift: "shift_t j (shift_t k t) = shift_t (k + j) t"
  by (induction t) auto

lemma shift_inj: "shift_t k s = shift_t k t \<longleftrightarrow> s = t"
proof (induction s arbitrary: t)
  case (Leaf b)
  then show ?case by (cases t) auto
next
  case (Node v h l)
  then show ?case by (cases t) auto
qed

lemma shift_0 [simp]: "shift_t 0 t = t"
  by (induction t) auto

lemma reduced_shift: "reduced (shift_t k t) \<longleftrightarrow> reduced t"
  by (induction t) (simp_all add: vars_shift shift_inj ball_Un)

lemma neg_neg [simp]: "neg_t (neg_t t) = t"
  by (induction t) auto

lemma ev_neg [simp]: "ev (neg_t t) a \<longleftrightarrow> \<not> ev t a"
  by (induction t) auto

lemma vars_neg [simp]: "vars (neg_t t) = vars t"
  by (induction t) auto

lemma neg_inj [simp]: "neg_t s = neg_t t \<longleftrightarrow> s = t"
  by (metis neg_neg)

lemma neg_shift: "neg_t (shift_t k t) = shift_t k (neg_t t)"
  by (induction t) auto

lemma reduced_neg [simp]: "reduced (neg_t t) \<longleftrightarrow> reduced t"
  by (induction t) auto

lemma finite_vars: "finite (vars t)"
  by (induction t) auto

lemma ev_cong: "(\<And>v. v \<in> vars t \<Longrightarrow> a v = b v) \<Longrightarrow> ev t a = ev t b"
  by (induction t) auto

lemma ev_upd: "v \<notin> vars t \<Longrightarrow> ev t (a(v := b)) = ev t a"
  by (rule ev_cong) auto

lemma reduced_branches:
  assumes "reduced (Node v h l)"
  shows "ev (Node v h l) (a(v := True)) = ev h a" "ev (Node v h l) (a(v := False)) = ev l a"
proof -
  have "v \<notin> vars h" "v \<notin> vars l" using assms by auto
  then show "ev (Node v h l) (a(v := True)) = ev h a" "ev (Node v h l) (a(v := False)) = ev l a"
    by (simp_all add: ev_upd)
qed

text \<open>A reduced tree depends on its root, so it is determined by its function.\<close>

lemma reduced_unique:
  assumes "reduced s" "reduced t" "\<And>a. ev s a = ev t a"
  shows "s = t"
  using assms
proof (induction "size s + size t" arbitrary: s t rule: less_induct)
  case less
  have depends: False
    if n: "reduced (Node v h l)" "reduced u" "v \<notin> vars u" "\<And>a. ev (Node v h l) a = ev u a" "size h + size l < size s + size t"
    for v h l u
  proof -
    have "ev h a = ev l a" for a
      using reduced_branches [OF n(1), of a] n(3,4) by (simp add: ev_upd del: ev.simps)
    then have "h = l" using less.hyps [OF n(5)] n(1) by simp
    then show False using n(1) by simp
  qed
  show ?case
  proof (cases s)
    case s: (Leaf b)
    show ?thesis
    proof (cases t)
      case (Node w h' l')
      then show ?thesis using depends [of w h' l' s] less.prems s by force
    qed (use s less.prems in simp)
  next
    case s: (Node v h l)
    show ?thesis
    proof (cases t)
      case (Leaf b)
      then show ?thesis using depends [of v h l t] less.prems s by force
    next
      case t: (Node w h' l')
      have "v = w"
      proof (rule ccontr)
        assume "v \<noteq> w"
        then consider "v < w" | "w < v" by linarith
        then show False
        proof cases
          case 1
          then have "\<forall>x \<in> vars t. v < x" using less.prems(2) unfolding t by (auto intro: less_trans)
          then have "v \<notin> vars t" by blast
          then show False using depends [of v h l t] less.prems s t by auto
        next
          case 2
          then have "\<forall>x \<in> vars s. w < x" using less.prems(1) unfolding s by (auto intro: less_trans)
          then have "w \<notin> vars s" by blast
          then show False using depends [of w h' l' s] less.prems s t by auto
        qed
      qed
      moreover have "ev h a = ev h' a" "ev l a = ev l' a" for a
        using reduced_branches [of v h l a] reduced_branches [of w h' l' a] less.prems s t \<open>v = w\<close>
        by (metis)+
      then have "h = h'" "l = l'" using less.hyps [of h h'] less.hyps [of l l'] less.prems s t by auto
      ultimately show ?thesis using s t by simp
    qed
  qed
qed

lemma reduced_const: "reduced t \<Longrightarrow> (\<And>a. ev t a = b) \<Longrightarrow> t = Leaf b"
  by (rule reduced_unique) auto

section \<open>The tree of a reference\<close>

function tree :: "skeleton list \<Rightarrow> bdd_ref \<Rightarrow> bdt" where
  "tree V x =
     (if br_id x = 0 then Leaf (\<not> br_out x)
      else case V ! br_id x of (h, l) \<Rightarrow>
        if br_id h < br_id x \<and> br_id l < br_id x then
          let k = br_shift x - 1; h = shift_t k (tree V h); l = shift_t k (tree V l);
              t = (if br_in x then Node (br_shift x) l h else Node (br_shift x) h l)
          in if br_out x then neg_t t else t
        else Leaf False)"
  by auto
termination by (relation "measure (br_id \<circ> snd)") auto

declare tree.simps [simp del]

definition rebase :: "nat \<Rightarrow> bdd_ref \<Rightarrow> bdd_ref" where
  "rebase k x = (if br_shift x = 0 then x else x\<lparr>br_shift := br_shift x + k\<rparr>)"

definition ref_ok :: "skeleton list \<Rightarrow> bdd_ref \<Rightarrow> bool" where
  "ref_ok V x \<longleftrightarrow> br_id x < length V \<and>
     (if br_id x = 0 then \<not> br_in x \<and> br_shift x = 0
      else 1 \<le> br_shift x \<and> (br_in x \<longrightarrow> br_id (fst (V ! br_id x)) \<noteq> br_id (snd (V ! br_id x)))) \<and>
     vars (tree V x) \<subseteq> {1..<2 ^ shift_width}"

definition skeleton_ok :: "skeleton list \<Rightarrow> nat \<Rightarrow> bool" where
  "skeleton_ok V i \<longleftrightarrow>
     (case V ! i of (h, l) \<Rightarrow> br_id h < i \<and> br_id l < i \<and> ref_ok V h \<and> ref_ok V l \<and> h \<noteq> l \<and> \<not> br_out l \<and>
        br_id l \<le> br_id h \<and> br_shift h \<noteq> 1 \<and> br_shift l \<noteq> 1)"

definition table_ok :: "skeleton list \<Rightarrow> bool" where
  "table_ok V \<longleftrightarrow> 0 < length V \<and> length V \<le> 2 ^ id_width \<and> V ! 0 = (bdd_T, bdd_T) \<and> distinct V \<and>
     (\<forall>i < length V. 0 < i \<longrightarrow> skeleton_ok V i)"

lemma ref_simps [simp]:
  "br_in (mk_ref i o1 s n) = i" "br_out (mk_ref i o1 s n) = o1"
  "br_id bdd_T = 0" "br_id bdd_F = 0" "br_shift bdd_T = 0" "br_shift bdd_F = 0" "\<not> br_in bdd_T" "\<not> br_in bdd_F"
  "\<not> br_out bdd_T" "br_out bdd_F" "br_id (flip_out x) = br_id x" "br_shift (flip_out x) = br_shift x"
  "br_in (flip_out x) = br_in x" "br_out (flip_out x) = (\<not> br_out x)"
  "br_id (rebase k x) = br_id x" "br_in (rebase k x) = br_in x" "br_out (rebase k x) = br_out x"
  by (simp_all add: mk_ref_def bdd_T_def bdd_F_def flip_out_def rebase_def)

lemma tree_leaf [simp]: "tree V bdd_T = Leaf True" "tree V bdd_F = Leaf False"
  by (simp_all add: tree.simps [of V bdd_T] tree.simps [of V bdd_F])

lemma tree_flip: "ref_ok V x \<Longrightarrow> table_ok V \<Longrightarrow> tree V (flip_out x) = neg_t (tree V x)"
proof (cases "br_id x = 0")
  case True
  then show ?thesis by (simp add: tree.simps [of V x] tree.simps [of V "flip_out x"])
next
  case False
  assume "ref_ok V x" "table_ok V"
  then have "skeleton_ok V (br_id x)" using False by (simp add: ref_ok_def table_ok_def)
  then show ?thesis
    using False by (auto simp: skeleton_ok_def tree.simps [of V x] tree.simps [of V "flip_out x"] Let_def split: prod.splits)
qed

lemma ref_okD:
  assumes "ref_ok V x"
  shows "br_id x < length V" "br_shift x = 0 \<longleftrightarrow> br_id x = 0" "br_id x = 0 \<Longrightarrow> \<not> br_in x"
    "br_id x \<noteq> 0 \<Longrightarrow> br_in x \<Longrightarrow> br_id (fst (V ! br_id x)) \<noteq> br_id (snd (V ! br_id x))"
    "vars (tree V x) \<subseteq> {1..<2 ^ shift_width}"
  using assms by (cases "br_id x = 0"; simp add: ref_ok_def)+

lemma ref_okI:
  assumes "br_id x < length V" "br_shift x = 0 \<longleftrightarrow> br_id x = 0" "br_id x = 0 \<Longrightarrow> \<not> br_in x"
    "br_id x \<noteq> 0 \<Longrightarrow> br_in x \<Longrightarrow> br_id (fst (V ! br_id x)) \<noteq> br_id (snd (V ! br_id x))"
    "vars (tree V x) \<subseteq> {1..<2 ^ shift_width}"
  shows "ref_ok V x"
  using assms by (cases "br_id x = 0"; simp add: ref_ok_def)+

lemma leaf_cases: "ref_ok V x \<Longrightarrow> br_id x = 0 \<Longrightarrow> x = bdd_T \<or> x = bdd_F"
  using ref_okD(2,3) [of V x] by (cases x) (simp add: bdd_T_def bdd_F_def mk_ref_def)

lemma ref_ok_flip: "ref_ok V x \<Longrightarrow> table_ok V \<Longrightarrow> ref_ok V (flip_out x)"
  unfolding ref_ok_def [of V "flip_out x"] by (simp add: tree_flip) (simp add: ref_ok_def split: if_splits)

lemma tree_rebase: "br_shift x = 0 \<longleftrightarrow> br_id x = 0 \<Longrightarrow> tree V (rebase k x) = shift_t k (tree V x)"
proof (cases "br_id x = 0")
  case True
  assume "br_shift x = 0 \<longleftrightarrow> br_id x = 0"
  then have "br_shift x = 0" using True by simp
  then show ?thesis using True by (simp add: rebase_def tree.simps [of V x])
next
  case False
  assume "br_shift x = 0 \<longleftrightarrow> br_id x = 0"
  then have s: "1 \<le> br_shift x" using False by simp
  then have r: "rebase k x = x\<lparr>br_shift := br_shift x + k\<rparr>" by (simp add: rebase_def)
  obtain h l where hl: "V ! br_id x = (h, l)" by (rule prod.exhaust)
  show ?thesis
    using False s hl unfolding r tree.simps [of V x] tree.simps [of V "x\<lparr>br_shift := br_shift x + k\<rparr>"]
    by (simp add: Let_def shift_shift neg_shift)
qed

lemma vars_root: "table_ok V \<Longrightarrow> ref_ok V x \<Longrightarrow> br_id x \<noteq> 0 \<Longrightarrow> br_shift x \<in> vars (tree V x)"
proof -
  assume "table_ok V" "ref_ok V x" "br_id x \<noteq> 0"
  then have "skeleton_ok V (br_id x)" by (simp add: ref_ok_def table_ok_def)
  then show ?thesis
    using \<open>br_id x \<noteq> 0\<close> unfolding tree.simps [of V x] by (auto simp: skeleton_ok_def Let_def split: prod.splits)
qed

lemma ref_ok_rebase:
  assumes "table_ok V" "ref_ok V x" "\<And>v. v \<in> vars (tree V x) \<Longrightarrow> v + k < 2 ^ shift_width"
  shows "ref_ok V (rebase k x)"
proof -
  have "vars (tree V (rebase k x)) \<subseteq> {1..<2 ^ shift_width}"
    using assms(2,3) unfolding tree_rebase [OF ref_okD(2) [OF assms(2)]] vars_shift by (auto simp: ref_ok_def)
  then show ?thesis
    using ref_okD(1-4) [OF assms(2)] by (cases "br_id x = 0"; intro ref_okI) (simp_all add: rebase_def)
qed

lemma id_bound: "table_ok V \<Longrightarrow> ref_ok V x \<Longrightarrow> int (br_id x) mod 2 ^ id_width = int (br_id x)"
proof -
  assume "table_ok V" "ref_ok V x"
  then have "br_id x < 2 ^ id_width" by (simp add: table_ok_def ref_ok_def)
  then have "int (br_id x) < 2 ^ id_width" by (metis of_nat_less_iff of_nat_numeral of_nat_power)
  then show ?thesis by (intro mod_pos_pos_trivial) simp_all
qed

lemma shift_bound: "n < 2 ^ shift_width \<Longrightarrow> nat (int n mod 2 ^ shift_width) = n"
proof -
  assume "n < 2 ^ shift_width"
  then have "int n < 2 ^ shift_width" by (metis of_nat_less_iff of_nat_numeral of_nat_power)
  then have "int n mod 2 ^ shift_width = int n" by (intro mod_pos_pos_trivial) simp_all
  then show ?thesis by simp
qed

lemma to_bdd_node_rebase:
  assumes "table_ok V" "ref_ok V x" "1 \<le> v" "br_shift x + (v - 1) < 2 ^ shift_width"
  shows "to_bdd_node x v = rebase (v - 1) x"
proof -
  have "int (br_shift x) + (int v - 1) = int (br_shift x + (v - 1))" using assms(3) by simp
  then have "nat ((int (br_shift x) + (int v - 1)) mod 2 ^ shift_width) = br_shift x + (v - 1)"
    using shift_bound [OF assms(4)] by (simp only:)
  then show ?thesis
    using id_bound [OF assms(1,2)] unfolding to_bdd_node_def rebase_def mk_ref_def by (cases x) (simp del: One_nat_def)
qed

lemma to_shift_node_rebase:
  assumes "table_ok V" "ref_ok V x" "1 \<le> v" "br_id x \<noteq> 0 \<Longrightarrow> v \<le> br_shift x"
  shows "rebase (v - 1) (to_shift_node x v) = x"
    and "to_shift_node x v = (if br_id x = 0 then x else x\<lparr>br_shift := br_shift x - (v - 1)\<rparr>)"
proof -
  note 0 = ref_okD(2) [OF assms(2)]
  have "br_id x \<noteq> 0 \<Longrightarrow> int (br_shift x) - (int v - 1) = int (br_shift x - (v - 1))" using assms(3,4) by simp
  moreover have "br_id x \<noteq> 0 \<Longrightarrow> br_shift x < 2 ^ shift_width"
    using vars_root [OF assms(1,2)] assms(2) by (auto simp: ref_ok_def)
  then have "br_id x \<noteq> 0 \<Longrightarrow> nat (int (br_shift x - (v - 1)) mod 2 ^ shift_width) = br_shift x - (v - 1)"
    by (intro shift_bound) simp
  ultimately show eq: "to_shift_node x v = (if br_id x = 0 then x else x\<lparr>br_shift := br_shift x - (v - 1)\<rparr>)"
    using id_bound [OF assms(1,2)] 0 unfolding to_shift_node_def mk_ref_def
    by (cases "br_id x = 0") (simp_all only: if_True if_False nat_int simp_thms bdd_ref.update_convs, simp)
  show "rebase (v - 1) (to_shift_node x v) = x"
    unfolding eq using 0 assms(3,4) by (cases "br_id x = 0") (simp_all add: rebase_def)
qed

section \<open>Decoding\<close>

lemma rebase_inj: "rebase k x = rebase k y \<longleftrightarrow> x = y"
  by (cases x; cases y) (auto simp: rebase_def)

lemma flip_flip [simp]: "flip_out (flip_out x) = x"
  by (simp add: flip_out_def)

lemma flip_inj [simp]: "flip_out x = flip_out y \<longleftrightarrow> x = y"
  by (metis flip_flip)

text \<open>A stored child seen from a reference of top variable \<open>k + 1\<close>, complemented with it.\<close>

definition seen_from :: "bool \<Rightarrow> nat \<Rightarrow> bdd_ref \<Rightarrow> bdd_ref" where
  "seen_from neg k x = (if neg then flip_out (rebase k x) else rebase k x)"

lemma seen_from_simps [simp]:
  "br_id (seen_from neg k x) = br_id x" "br_out (seen_from neg k x) = (br_out x \<noteq> neg)"
  by (auto simp: seen_from_def)

lemma seen_from_inj: "seen_from neg k x = seen_from neg k y \<longleftrightarrow> x = y"
  by (simp add: seen_from_def rebase_inj)

lemma get_node_seen:
  assumes "table_ok (be_V e)" "ref_ok (be_V e) x" "br_id x \<noteq> 0" "be_V e ! br_id x = (sh, sl)"
  defines "h \<equiv> seen_from (br_out x) (br_shift x - 1) (if br_in x then sl else sh)"
    and "l \<equiv> seen_from (br_out x) (br_shift x - 1) (if br_in x then sh else sl)"
  shows "get_node e x = (br_shift x, h, l)" and "ref_ok (be_V e) h" "ref_ok (be_V e) l"
    and "tree (be_V e) x = Node (br_shift x) (tree (be_V e) h) (tree (be_V e) l)"
proof -
  let ?V = "be_V e"
  define k where "k = br_shift x - 1"
  have hl: "h = seen_from (br_out x) k (if br_in x then sl else sh)" "l = seen_from (br_out x) k (if br_in x then sh else sl)"
    by (simp_all add: h_def l_def k_def)
  have sk: "br_id sh < br_id x" "br_id sl < br_id x" "ref_ok ?V sh" "ref_ok ?V sl"
    using assms(1,3,4) ref_okD(1) [OF assms(2)] by (auto simp: table_ok_def skeleton_ok_def)
  have pos: "1 \<le> br_shift x" using ref_okD(2) [OF assms(2)] assms(3) by simp
  have t: "tree ?V x = (let t = (if br_in x then Node (br_shift x) (shift_t k (tree ?V sl)) (shift_t k (tree ?V sh))
      else Node (br_shift x) (shift_t k (tree ?V sh)) (shift_t k (tree ?V sl))) in if br_out x then neg_t t else t)"
    unfolding tree.simps [of ?V x] using assms(3,4) sk(1,2) unfolding k_def by (simp add: Let_def)
  have low: "v + k < 2 ^ shift_width" if "v \<in> vars (tree ?V c)" "c = sh \<or> c = sl" for v c
  proof -
    have "v + k \<in> vars (tree ?V x)" using that unfolding t by (auto simp: Let_def vars_shift)
    then show ?thesis using ref_okD(5) [OF assms(2)] by auto
  qed
  have c: "to_bdd_node c (br_shift x) = rebase k c \<and> ref_ok ?V (rebase k c) \<and> tree ?V (rebase k c) = shift_t k (tree ?V c)"
    if "c = sh \<or> c = sl" for c
  proof -
    have ok: "ref_ok ?V c" using that sk(3,4) by blast
    have "br_shift c + k < 2 ^ shift_width"
    proof (cases "br_id c = 0")
      case True
      have "br_shift x \<in> vars (tree ?V x)" by (rule vars_root [OF assms(1-3)])
      then have "br_shift x < 2 ^ shift_width" using ref_okD(5) [OF assms(2)] by auto
      then show ?thesis using ref_okD(2) [OF ok] True by (simp add: k_def)
    next
      case False
      show ?thesis by (rule low [OF vars_root [OF assms(1) ok False] that])
    qed
    then show ?thesis
      using to_bdd_node_rebase [OF assms(1) ok pos, folded k_def] ref_ok_rebase [OF assms(1) ok low [OF _ that]] tree_rebase [OF ref_okD(2) [OF ok]] by blast
  qed
  note cs = c [of sh, simplified] c [of sl, simplified]
  show "get_node e x = (br_shift x, h, l)"
    using assms(4) cs by (simp add: get_node_def Let_def hl seen_from_def)
  show "ref_ok ?V h" "ref_ok ?V l"
    using cs ref_ok_flip [OF _ assms(1)] by (auto simp: hl seen_from_def)
  show "tree ?V x = Node (br_shift x) (tree ?V h) (tree ?V l)"
    using cs tree_flip [OF _ assms(1)] unfolding t hl seen_from_def Let_def
    by (cases "br_in x"; cases "br_out x") (simp_all)
qed

lemma get_node_ok:
  assumes "table_ok (be_V e)" "ref_ok (be_V e) x" "br_id x \<noteq> 0"
  obtains h l where "get_node e x = (br_shift x, h, l)" "ref_ok (be_V e) h" "ref_ok (be_V e) l"
    "br_id h < br_id x" "br_id l < br_id x" "h \<noteq> l"
    "tree (be_V e) x = Node (br_shift x) (tree (be_V e) h) (tree (be_V e) l)"
    "br_id h \<noteq> 0 \<Longrightarrow> br_shift x < br_shift h" "br_id l \<noteq> 0 \<Longrightarrow> br_shift x < br_shift l"
proof -
  obtain sh sl where s: "be_V e ! br_id x = (sh, sl)" by (rule prod.exhaust)
  have sk: "br_id sh < br_id x" "br_id sl < br_id x" "sh \<noteq> sl" "ref_ok (be_V e) sh" "ref_ok (be_V e) sl"
      "br_shift sh \<noteq> 1" "br_shift sl \<noteq> 1"
    using assms(1,3) s ref_okD(1) [OF assms(2)] by (auto simp: table_ok_def skeleton_ok_def)
  have pos: "1 \<le> br_shift x" using ref_okD(2) [OF assms(2)] assms(3) by simp
  have below: "br_shift x < br_shift (seen_from n (br_shift x - 1) c)" if "br_id c \<noteq> 0" "c = sh \<or> c = sl" for n c
  proof -
    have "br_shift c \<noteq> 0" "br_shift c \<noteq> 1" using that ref_okD(2) [OF sk(4)] ref_okD(2) [OF sk(5)] sk(6,7) by auto
    then show ?thesis using pos by (simp add: seen_from_def rebase_def)
  qed
  show thesis
    by (rule that [OF get_node_seen(1-3) [OF assms s] _ _ _ get_node_seen(4) [OF assms s]])
      (use sk(1-3) below in \<open>auto simp: seen_from_inj simp del: One_nat_def\<close>)
qed

lemma tree_leaf_iff:
  assumes "table_ok V" "ref_ok V x"
  shows "(\<exists>b. tree V x = Leaf b) \<longleftrightarrow> br_id x = 0"
proof -
  define e :: bdd_engine where "e = (bdd_init var_init)\<lparr>be_V := V\<rparr>"
  have V: "be_V e = V" by (simp add: e_def)
  show ?thesis
  proof (cases "br_id x = 0")
    case True
    then show ?thesis by (simp add: tree.simps [of V x])
  next
    case False
    with get_node_ok [of e x] assms V show ?thesis by (metis bdt.distinct(1))
  qed
qed

text \<open>The reference is recovered from what it decodes to.\<close>

lemma decode_inj:
  assumes "table_ok (be_V e)" "ref_ok (be_V e) x" "ref_ok (be_V e) y" "br_id x \<noteq> 0" "br_id y \<noteq> 0"
    and "get_node e x = get_node e y"
  shows "x = y"
proof -
  let ?V = "be_V e"
  obtain xh xl yh yl where s: "?V ! br_id x = (xh, xl)" "?V ! br_id y = (yh, yl)" by (metis prod.exhaust)
  have skx: "\<not> br_out xl" "br_id xl \<le> br_id xh" and sky: "\<not> br_out yl" "br_id yl \<le> br_id yh"
    using assms(1,4,5) s ref_okD(1) [OF assms(2)] ref_okD(1) [OF assms(3)] by (auto simp: table_ok_def skeleton_ok_def)
  have inx: "br_in x \<Longrightarrow> br_id xl < br_id xh" and iny: "br_in y \<Longrightarrow> br_id yl < br_id yh"
    using ref_okD(4) [OF assms(2,4)] ref_okD(4) [OF assms(3,5)] s skx(2) sky(2) by auto
  let ?f = "\<lambda>x. seen_from (br_out x) (br_shift x - 1)"
  have shift: "br_shift x = br_shift y"
    and h: "?f x (if br_in x then xl else xh) = ?f y (if br_in y then yl else yh)"
    and l: "?f x (if br_in x then xh else xl) = ?f y (if br_in y then yh else yl)"
    using assms(6) unfolding get_node_seen(1) [OF assms(1,2,4) s(1)] get_node_seen(1) [OF assms(1,3,5) s(2)] prod.inject
    by blast+
  have ids: "br_id (if br_in x then xl else xh) = br_id (if br_in y then yl else yh)"
    "br_id (if br_in x then xh else xl) = br_id (if br_in y then yh else yl)"
    using arg_cong [OF h, of br_id] arg_cong [OF l, of br_id] by simp_all
  have in_eq: "br_in x = br_in y" using ids inx iny skx(2) sky(2) by (auto split: if_splits)
  have "?f x xl = ?f y yl" using h l in_eq by (cases "br_in y") simp_all
  from arg_cong [OF this, of br_out] have out_eq: "br_out x = br_out y" using skx(1) sky(1) by simp
  have "xh = yh" "xl = yl" using h l in_eq out_eq shift by (auto simp: seen_from_inj split: if_splits)
  then have "?V ! br_id x = ?V ! br_id y" using s by simp
  then have "br_id x = br_id y"
    using assms(1) ref_okD(1) [OF assms(2)] ref_okD(1) [OF assms(3)] nth_eq_iff_index_eq by (auto simp: table_ok_def)
  then show ?thesis using in_eq out_eq shift by simp
qed

lemma tree_inj_engine:
  "table_ok (be_V (e :: bdd_engine)) \<Longrightarrow> ref_ok (be_V e) x \<Longrightarrow> ref_ok (be_V e) y \<Longrightarrow> tree (be_V e) x = tree (be_V e) y \<Longrightarrow> x = y"
proof (induction "br_id x" arbitrary: x y rule: less_induct)
  case less
  let ?V = "be_V e"
  note leaf = tree_leaf_iff [OF less.prems(1)]
  show ?case
  proof (cases "br_id x = 0")
    case True
    then have "br_id y = 0" using leaf less.prems by metis
    then show ?thesis using leaf_cases [OF less.prems(2) True] leaf_cases [OF less.prems(3)] less.prems(4) by auto
  next
    case False
    then have y: "br_id y \<noteq> 0" using leaf less.prems by metis
    obtain hx lx where x': "get_node e x = (br_shift x, hx, lx)" "ref_ok ?V hx" "ref_ok ?V lx" "br_id hx < br_id x" "br_id lx < br_id x"
      "tree ?V x = Node (br_shift x) (tree ?V hx) (tree ?V lx)" using get_node_ok [OF less.prems(1,2) False] by metis
    obtain hy ly where y': "get_node e y = (br_shift y, hy, ly)" "ref_ok ?V hy" "ref_ok ?V ly"
      "tree ?V y = Node (br_shift y) (tree ?V hy) (tree ?V ly)" using get_node_ok [OF less.prems(1,3) y] by metis
    have "hx = hy" using less.hyps [OF x'(4) less.prems(1) x'(2) y'(2)] x'(6) y'(4) less.prems(4) by simp
    moreover have "lx = ly" using less.hyps [OF x'(5) less.prems(1) x'(3) y'(3)] x'(6) y'(4) less.prems(4) by simp
    ultimately have "get_node e x = get_node e y" using x'(1,6) y'(1,4) less.prems(4) by simp
    then show ?thesis by (rule decode_inj [OF less.prems(1-3) False y])
  qed
qed

lemma tree_inj:
  assumes "table_ok V" "ref_ok V x" "ref_ok V y"
  shows "tree V x = tree V y \<longleftrightarrow> x = y"
  using tree_inj_engine [of "(bdd_init var_init)\<lparr>be_V := V\<rparr>" x y] assms by auto

section \<open>Canonicity\<close>

lemma tree_reduced:
  "table_ok (be_V (e :: bdd_engine)) \<Longrightarrow> ref_ok (be_V e) x \<Longrightarrow> reduced (tree (be_V e) x)"
proof (induction "br_id x" arbitrary: x rule: less_induct)
  case less
  show ?case
  proof (cases "br_id x = 0")
    case True
    then show ?thesis by (simp add: tree.simps [of "be_V e" x])
  next
    case False
    then obtain h l where n: "ref_ok (be_V e) h" "ref_ok (be_V e) l" "br_id h < br_id x" "br_id l < br_id x" "h \<noteq> l"
      "tree (be_V e) x = Node (br_shift x) (tree (be_V e) h) (tree (be_V e) l)"
      "br_id h \<noteq> 0 \<Longrightarrow> br_shift x < br_shift h" "br_id l \<noteq> 0 \<Longrightarrow> br_shift x < br_shift l"
      using get_node_ok [OF less.prems] by metis
    have above: "br_shift x < w" if w: "w \<in> vars (tree (be_V e) c)" and ok: "ref_ok (be_V e) c" and less_id: "br_id c < br_id x"
      and root: "br_id c \<noteq> 0 \<Longrightarrow> br_shift x < br_shift c" for w c
    proof (cases "br_id c = 0")
      case True
      then show ?thesis using w by (simp add: tree.simps [of "be_V e" c])
    next
      case False
      obtain a b where t: "tree (be_V e) c = Node (br_shift c) a b" using get_node_ok [OF less.prems(1) ok False] by metis
      have "reduced (tree (be_V e) c)" using less.hyps [OF less_id less.prems(1) ok] .
      then have "br_shift c \<le> w" using w unfolding t by (auto intro: less_imp_le)
      then show ?thesis using root [OF False] by simp
    qed
    have "tree (be_V e) h \<noteq> tree (be_V e) l" using tree_inj [OF less.prems(1) n(1,2)] n(5) by simp
    then show ?thesis
      using less.hyps [OF n(3) less.prems(1) n(1)] less.hyps [OF n(4) less.prems(1) n(2)]
        above [OF _ n(1,3,7)] above [OF _ n(2,4,8)] unfolding n(6) by auto
  qed
qed

lemma canonical:
  fixes e :: bdd_engine
  assumes "table_ok (be_V e)" "ref_ok (be_V e) x" "ref_ok (be_V e) y"
  shows "x = y \<longleftrightarrow> (\<forall>a. ev (tree (be_V e) x) a = ev (tree (be_V e) y) a)"
  using tree_inj [OF assms] reduced_unique [OF tree_reduced [OF assms(1,2)] tree_reduced [OF assms(1,3)]] by blast

lemma constant_refs:
  fixes e :: bdd_engine
  assumes "table_ok (be_V e)" "ref_ok (be_V e) x"
  shows "x = bdd_T \<longleftrightarrow> (\<forall>a. ev (tree (be_V e) x) a)" "x = bdd_F \<longleftrightarrow> (\<forall>a. \<not> ev (tree (be_V e) x) a)"
proof -
  have "0 < length (be_V e)" using assms(1) by (simp add: table_ok_def)
  then have "ref_ok (be_V e) bdd_T" "ref_ok (be_V e) bdd_F" by (simp_all add: ref_ok_def)
  then show "x = bdd_T \<longleftrightarrow> (\<forall>a. ev (tree (be_V e) x) a)" "x = bdd_F \<longleftrightarrow> (\<forall>a. \<not> ev (tree (be_V e) x) a)"
    using canonical [OF assms] by simp_all
qed

section \<open>Growing tables\<close>

lemma tree_append: "table_ok V \<Longrightarrow> br_id x < length V \<Longrightarrow> tree (V @ W) x = tree V x"
proof (induction "br_id x" arbitrary: x rule: less_induct)
  case less
  show ?case
  proof (cases "br_id x = 0")
    case True
    then show ?thesis by (simp add: tree.simps [of V x] tree.simps [of "V @ W" x])
  next
    case False
    obtain h l where s: "V ! br_id x = (h, l)" by (rule prod.exhaust)
    have sk: "br_id h < br_id x" "br_id l < br_id x"
      using less.prems False s by (auto simp: table_ok_def skeleton_ok_def)
    moreover from this have "tree (V @ W) h = tree V h" "tree (V @ W) l = tree V l" using less by simp_all
    ultimately show ?thesis
      using False s less.prems(2) unfolding tree.simps [of V x] tree.simps [of "V @ W" x] by (simp add: nth_append)
  qed
qed

lemma ref_ok_append: "table_ok V \<Longrightarrow> ref_ok V x \<Longrightarrow> ref_ok (V @ W) x"
  using ref_okD [of V x] tree_append [of V x W] by (intro ref_okI) (simp_all add: nth_append)

lemma skeleton_ok_append:
  "table_ok V \<Longrightarrow> i < length V \<Longrightarrow> skeleton_ok V i \<Longrightarrow> skeleton_ok (V @ W) i"
  using ref_ok_append by (auto simp: skeleton_ok_def nth_append split: prod.splits)

section \<open>Moving a function to other variables\<close>

lemma vars_least: "table_ok (be_V (e :: bdd_engine)) \<Longrightarrow> ref_ok (be_V e) x \<Longrightarrow> w \<in> vars (tree (be_V e) x) \<Longrightarrow> br_shift x \<le> w"
proof -
  assume a: "table_ok (be_V e)" "ref_ok (be_V e) x" "w \<in> vars (tree (be_V e) x)"
  show "br_shift x \<le> w"
  proof (cases "br_id x = 0")
    case True
    then show ?thesis using ref_okD(2) [OF a(2)] by simp
  next
    case False
    obtain h l where t: "tree (be_V e) x = Node (br_shift x) h l" using get_node_ok [OF a(1,2) False] by metis
    show ?thesis using tree_reduced [OF a(1,2)] a(3) unfolding t by (auto intro: less_imp_le)
  qed
qed

lemma lower:
  assumes "table_ok V" "ref_ok V x" "1 \<le> d" "\<And>w. w \<in> vars (tree V x) \<Longrightarrow> d \<le> w"
  shows "ref_ok V (to_shift_node x d)" "tree V x = shift_t (d - 1) (tree V (to_shift_node x d))"
proof -
  let ?y = "to_shift_node x d"
  have le: "br_id x \<noteq> 0 \<Longrightarrow> d \<le> br_shift x" using vars_root [OF assms(1,2)] assms(4) by blast
  note r = to_shift_node_rebase [OF assms(1-3) le]
  have ids: "br_id ?y = br_id x" "br_in ?y = br_in x" by (simp_all add: r(2))
  have y0: "br_shift ?y = 0 \<longleftrightarrow> br_id ?y = 0"
    using le ref_okD(2) [OF assms(2)] assms(3) by (cases "br_id x = 0") (auto simp: r(2) simp del: One_nat_def)
  then show t: "tree V x = shift_t (d - 1) (tree V ?y)" using tree_rebase [OF y0, of V "d - 1"] r(1) by simp
  have "w \<in> {1..<2 ^ shift_width}" if "w \<in> vars (tree V ?y)" for w
  proof -
    have "w + (d - 1) \<in> vars (tree V x)" using that unfolding t vars_shift by simp
    then show ?thesis using assms(3,4) ref_okD(5) [OF assms(2)] by force
  qed
  then show "ref_ok V ?y" using ref_okD(1,3,4) [OF assms(2)] ids y0 by (intro ref_okI) auto
qed

lemma raise:
  assumes "table_ok V" "ref_ok V x" "1 \<le> d" "d < 2 ^ shift_width"
    and "\<And>w. w \<in> vars (tree V x) \<Longrightarrow> w + (d - 1) < 2 ^ shift_width"
  shows "ref_ok V (to_bdd_node x d)" "tree V (to_bdd_node x d) = shift_t (d - 1) (tree V x)"
proof -
  have "br_shift x + (d - 1) < 2 ^ shift_width"
  proof (cases "br_id x = 0")
    case True
    then show ?thesis using ref_okD(2) [OF assms(2)] assms(4) by simp
  next
    case False
    then show ?thesis using assms(5) vars_root [OF assms(1,2)] by blast
  qed
  then have r: "to_bdd_node x d = rebase (d - 1) x" by (rule to_bdd_node_rebase [OF assms(1-3)])
  show "ref_ok V (to_bdd_node x d)" unfolding r by (rule ref_ok_rebase [OF assms(1,2,5)])
  show "tree V (to_bdd_node x d) = shift_t (d - 1) (tree V x)" unfolding r by (rule tree_rebase [OF ref_okD(2) [OF assms(2)]])
qed

end
