(* ===== verification/Bdd_Correct.thy ===== *)
theory Bdd_Correct imports Bdd_Trees begin

text \<open>
  The operations of \<^theory_text>\<open>Bdd_Engine\<close> end, keep the tables well formed, and give the reference of
  the function they promise; when a table is full they raise the flag and leave the tables true.
\<close>

section \<open>The invariant\<close>

text \<open>What an entry of a memo says of its key.\<close>

definition meets :: "skeleton list \<Rightarrow> bdd_ref \<Rightarrow> bdd_ref \<Rightarrow> bdd_ref \<Rightarrow> bool" where
  "meets V x y r \<longleftrightarrow> ref_ok V x \<and> ref_ok V y \<and> ref_ok V r \<and> vars (tree V r) \<subseteq> vars (tree V x) \<union> vars (tree V y) \<and>
     (\<forall>a. ev (tree V r) a \<longleftrightarrow> ev (tree V x) a \<and> ev (tree V y) a)"

definition quantifies :: "skeleton list \<Rightarrow> bdd_ref \<Rightarrow> nat \<Rightarrow> bdd_ref \<Rightarrow> bool" where
  "quantifies V x k r \<longleftrightarrow> ref_ok V x \<and> ref_ok V r \<and> vars (tree V r) \<subseteq> vars (tree V x) \<and>
     (\<forall>a. ev (tree V r) a \<longleftrightarrow> ev (tree V x) (a(k := True)) \<and> ev (tree V x) (a(k := False)))"

definition engine_ok :: "bdd_engine \<Rightarrow> bool" where
  "engine_ok e \<longleftrightarrow> table_ok (be_V e) \<and> (\<forall>n i. be_Mn e n = Some i \<longleftrightarrow> i < length (be_V e) \<and> be_V e ! i = n) \<and>
     (\<forall>x y r. be_and e (x, y) = Some r \<longrightarrow> meets (be_V e) x y r) \<and>
     (\<forall>x k r. be_all e (x, k) = Some r \<longrightarrow> quantifies (be_V e) x k r)"

definition grows :: "bdd_engine \<Rightarrow> bdd_engine \<Rightarrow> bool" where
  "grows e e' \<longleftrightarrow> (\<exists>W. be_V e' = be_V e @ W) \<and> (be_exhausted e \<longrightarrow> be_exhausted e')"

text \<open>
  An operation yields the function \<open>f\<close> over the variables \<open>S\<close>, unless the flag is up after it.
\<close>

definition yields :: "bdd_engine \<Rightarrow> bdd_engine \<Rightarrow> bdd_ref \<Rightarrow> ((nat \<Rightarrow> bool) \<Rightarrow> bool) \<Rightarrow> nat set \<Rightarrow> bool" where
  "yields e e' r f S \<longleftrightarrow> engine_ok e' \<and> grows e e' \<and> ref_ok (be_V e') r \<and> vars (tree (be_V e') r) \<subseteq> S \<and>
     (\<not> be_exhausted e' \<longrightarrow> (\<forall>a. ev (tree (be_V e') r) a = f a))"

abbreviation fn :: "bdd_engine \<Rightarrow> bdd_ref \<Rightarrow> (nat \<Rightarrow> bool) \<Rightarrow> bool" where
  "fn e x \<equiv> ev (tree (be_V e) x)"

abbreviation supp :: "bdd_engine \<Rightarrow> bdd_ref \<Rightarrow> nat set" where
  "supp e x \<equiv> vars (tree (be_V e) x)"

lemma engine_okD: "engine_ok e \<Longrightarrow> table_ok (be_V e)"
  "engine_ok e \<Longrightarrow> be_Mn e n = Some i \<longleftrightarrow> i < length (be_V e) \<and> be_V e ! i = n"
  "engine_ok e \<Longrightarrow> be_and e (x, y) = Some r \<Longrightarrow> meets (be_V e) x y r"
  "engine_ok e \<Longrightarrow> be_all e (x, k) = Some r \<Longrightarrow> quantifies (be_V e) x k r"
  unfolding engine_ok_def by blast+

lemma yieldsD:
  assumes "yields e e' r f S"
  shows "engine_ok e'" "grows e e'" "ref_ok (be_V e') r" "supp e' r \<subseteq> S" "\<not> be_exhausted e' \<Longrightarrow> fn e' r a = f a"
  using assms unfolding yields_def by blast+

lemma grows_refl: "grows e e"
  by (auto simp: grows_def)

lemma grows_trans: "grows e e' \<Longrightarrow> grows e' e'' \<Longrightarrow> grows e e''"
  by (auto simp: grows_def)

lemma grows_ref:
  assumes "engine_ok e" "grows e e'" "ref_ok (be_V e) x"
  shows "tree (be_V e') x = tree (be_V e) x" "ref_ok (be_V e') x"
proof -
  obtain W where W: "be_V e' = be_V e @ W" using assms(2) by (auto simp: grows_def)
  show "tree (be_V e') x = tree (be_V e) x" "ref_ok (be_V e') x"
    using tree_append [OF engine_okD(1) [OF assms(1)] ref_okD(1) [OF assms(3)]]
      ref_ok_append [OF engine_okD(1) [OF assms(1)] assms(3)] by (simp_all add: W)
qed

lemma constants_ok: "engine_ok e \<Longrightarrow> ref_ok (be_V e) bdd_T" "engine_ok e \<Longrightarrow> ref_ok (be_V e) bdd_F"
proof -
  assume "engine_ok e"
  then have "0 < length (be_V e)" using engine_okD(1) by (simp add: table_ok_def)
  then show "ref_ok (be_V e) bdd_T" "ref_ok (be_V e) bdd_F" by (simp_all add: ref_ok_def)
qed

lemma bdd_init_ok: "engine_ok (bdd_init d)"
  by (auto simp: engine_ok_def bdd_init_def table_ok_def id_width_def)

lemma yields_self: "engine_ok e \<Longrightarrow> ref_ok (be_V e) x \<Longrightarrow> (\<And>a. fn e x a = f a) \<Longrightarrow> supp e x \<subseteq> S \<Longrightarrow> yields e e x f S"
  by (simp add: yields_def grows_refl)

text \<open>The flag.\<close>

lemma yields_exhausted: "engine_ok e \<Longrightarrow> yields e (e\<lparr>be_exhausted := True\<rparr>) bdd_F f S"
  using constants_ok(2) by (simp add: yields_def grows_def engine_ok_def)

section \<open>Interning a node\<close>

lemma add_new:
  assumes e: "engine_ok e" and room: "int (length (be_V e)) < 2 ^ id_width" and new: "be_Mn e (h, l) = None"
    and hl: "ref_ok (be_V e) h" "ref_ok (be_V e) l" "h \<noteq> l" "\<not> br_out l" "br_id l \<le> br_id h" "br_shift h \<noteq> 1" "br_shift l \<noteq> 1"
  defines "e' \<equiv> e\<lparr>be_Mn := emplace (be_Mn e) (h, l) (length (be_V e)), be_V := be_V e @ [(h, l)]\<rparr>"
  shows "engine_ok e'" "grows e e'"
proof -
  let ?V = "be_V e" and ?n = "(h, l)"
  note t = engine_okD(1) [OF e]
  have fresh: "?n \<notin> set ?V" using new engine_okD(2) [OF e, of ?n] by (auto simp: in_set_conv_nth)
  have room': "length ?V < 2 ^ id_width" using room by (metis of_nat_less_iff of_nat_numeral of_nat_power)
  have "skeleton_ok (?V @ [?n]) (length ?V)"
    using hl ref_okD(1) [OF hl(1)] ref_okD(1) [OF hl(2)] ref_ok_append [OF t hl(1)] ref_ok_append [OF t hl(2)]
    by (simp add: skeleton_ok_def)
  then have t': "table_ok (?V @ [?n])"
    using t fresh room' skeleton_ok_append [OF t] by (auto simp: table_ok_def nth_append less_Suc_eq)
  have mn: "be_Mn e' m = Some i \<longleftrightarrow> i < length (?V @ [?n]) \<and> (?V @ [?n]) ! i = m" for m i
    using engine_okD(2) [OF e, of m i] new fresh nth_mem [of i ?V]
    by (auto simp: e'_def emplace_def nth_append less_Suc_eq)
  have "meets (?V @ [?n]) x y r" if "be_and e (x, y) = Some r" for x y r
    using engine_okD(3) [OF e that] ref_ok_append [OF t] tree_append [OF t] ref_okD(1) unfolding meets_def by metis
  moreover have "quantifies (?V @ [?n]) x k r" if "be_all e (x, k) = Some r" for x k r
    using engine_okD(4) [OF e that] ref_ok_append [OF t] tree_append [OF t] ref_okD(1) unfolding quantifies_def by metis
  ultimately show "engine_ok e'" using t' mn by (simp add: engine_ok_def e'_def)
  show "grows e e'" by (simp add: grows_def e'_def)
qed

text \<open>The reference of a stored node of variable \<open>v\<close>, swapped and complemented.\<close>

lemma mk_node:
  fixes swap neg :: bool and h l :: bdd_ref
  assumes t: "table_ok V" and i: "i < length V" "i \<noteq> 0" "V ! i = (to_shift_node h v, to_shift_node l v)"
    and hl: "ref_ok V h" "ref_ok V l" and v: "1 \<le> v" "v < 2 ^ shift_width" "\<And>w. w \<in> vars (tree V h) \<union> vars (tree V l) \<Longrightarrow> v < w"
    and swap: "swap \<Longrightarrow> br_id h \<noteq> br_id l"
  defines "r \<equiv> mk_ref swap neg (int v) (int i)"
    and "t0 \<equiv> (if swap then Node v (tree V l) (tree V h) else Node v (tree V h) (tree V l))"
  shows "ref_ok V r" "tree V r = (if neg then neg_t t0 else t0)"
proof -
  let ?h = "to_shift_node h v" and ?l = "to_shift_node l v"
  have up: "ref_ok V ?h" "tree V h = shift_t (v - 1) (tree V ?h)" "ref_ok V ?l" "tree V l = shift_t (v - 1) (tree V ?l)"
    using lower [OF t hl(1) v(1)] lower [OF t hl(2) v(1)] v(3) by (auto intro: less_imp_le)
  have "br_id h \<noteq> 0 \<Longrightarrow> v \<le> br_shift h" "br_id l \<noteq> 0 \<Longrightarrow> v \<le> br_shift l"
    using vars_root [OF t hl(1)] vars_root [OF t hl(2)] v(3) by (meson UnI1 UnI2 less_imp_le)+
  then have ids: "br_id ?h = br_id h" "br_id ?l = br_id l"
    using to_shift_node_rebase(2) [OF t hl(1) v(1)] to_shift_node_rebase(2) [OF t hl(2) v(1)] by simp_all
  have sk: "br_id h < i" "br_id l < i"

  proof -
    have "skeleton_ok V i" using t i(1,2) by (simp add: table_ok_def)
    then show "br_id h < i" "br_id l < i" using i(3) ids by (simp_all add: skeleton_ok_def)
  qed
  have "int i < 2 ^ id_width" 
  proof -
    have "i < 2 ^ id_width" using t i(1) by (simp add: table_ok_def)
    then show ?thesis by (metis of_nat_less_iff of_nat_numeral of_nat_power)
  qed
  then have id: "br_id r = i" by (simp add: r_def mk_ref_def)
  have shift: "br_shift r = v" using shift_bound [OF v(2)] by (simp add: r_def mk_ref_def)
  show tr: "tree V r = (if neg then neg_t t0 else t0)"
    unfolding tree.simps [of V r] id shift i(3) using i(2) ids sk up(2,4) by (simp add: Let_def t0_def r_def)
  have "vars (tree V r) \<subseteq> {1..<2 ^ shift_width}"
    unfolding tr t0_def using v(1,2) ref_okD(5) [OF hl(1)] ref_okD(5) [OF hl(2)] by auto
  then show "ref_ok V r"
  proof (intro ref_okI)
    show "br_in r \<Longrightarrow> br_id (fst (V ! br_id r)) \<noteq> br_id (snd (V ! br_id r))"
      using swap ids by (simp add: id i(3)) (simp add: r_def)
  qed (use i(1,2) v(1) in \<open>simp_all add: id shift del: One_nat_def\<close>)
qed

lemma bdd_add_yields:
  assumes e: "engine_ok e" and hl: "ref_ok (be_V e) h" "ref_ok (be_V e) l"
    and v: "1 \<le> v" "\<And>w. w \<in> supp e h \<union> supp e l \<Longrightarrow> v < w" and r: "bdd_add v h l e = (r, e')"
  shows "yields e e' r (\<lambda>a. if a v then fn e h a else fn e l a) (insert v (supp e h \<union> supp e l))"
proof (cases "h = l")
  case True
  then show ?thesis using e hl r by (auto intro!: yields_self simp: bdd_add_def)
next
  case ne: False
  show ?thesis
  proof (cases "int v < 2 ^ shift_width")
    case False
    then show ?thesis using ne r yields_exhausted [OF e] by (auto simp: bdd_add_def)
  next
    case True
    then have vb: "v < 2 ^ shift_width" by (metis of_nat_less_iff of_nat_numeral of_nat_power)
    let ?V = "be_V e"
    note t = engine_okD(1) [OF e]
    define swap where "swap = (br_id h < br_id l)"
    define h1 where "h1 = (if swap then l else h)"
    define l1 where "l1 = (if swap then h else l)"
    define neg where "neg = br_out l1"
    define h2 where "h2 = (if neg then flip_out h1 else h1)"
    define l2 where "l2 = (if neg then flip_out l1 else l1)"
    let ?n = "(to_shift_node h2 v, to_shift_node l2 v)"
    have run: "bdd_add v h l e = (case be_Mn e ?n of
             Some i \<Rightarrow> (mk_ref swap neg (int v) (int i), e)
           | None \<Rightarrow>
               if \<not> int (length ?V) < 2 ^ id_width then (bdd_F, e\<lparr>be_exhausted := True\<rparr>)
               else (mk_ref swap neg (int v) (int (length ?V)),
                 e\<lparr>be_Mn := emplace (be_Mn e) ?n (length ?V), be_V := ?V @ [?n]\<rparr>))"
      using ne True unfolding bdd_add_def swap_def h1_def l1_def neg_def h2_def l2_def
      by (cases "br_id h < br_id l"; cases "br_out h"; cases "br_out l") (simp_all add: Let_def split: option.splits)
    have ok1: "ref_ok ?V h1" "ref_ok ?V l1" using hl by (simp_all add: h1_def l1_def)
    have ok: "ref_ok ?V h2" "ref_ok ?V l2" using ok1 ref_ok_flip [OF _ t] by (simp_all add: h2_def l2_def)
    have trees: "tree ?V h2 = (if neg then neg_t (tree ?V h1) else tree ?V h1)" "tree ?V l2 = (if neg then neg_t (tree ?V l1) else tree ?V l1)"
      using ok1 tree_flip [OF _ t] by (simp_all add: h2_def l2_def)
    have above: "v < w" if "w \<in> vars (tree ?V h2) \<union> vars (tree ?V l2)" for w
      using that v(2) unfolding trees h1_def l1_def by (auto split: if_splits)
    have ids: "br_id l2 \<le> br_id h2" "swap \<Longrightarrow> br_id h2 \<noteq> br_id l2" "h2 \<noteq> l2" "\<not> br_out l2"
      using ne by (auto simp: h2_def l2_def neg_def h1_def l1_def swap_def)
    define t0 where "t0 = (if swap then Node v (tree ?V l2) (tree ?V h2) else Node v (tree ?V h2) (tree ?V l2))"
    have t0: "(if neg then neg_t t0 else t0) = Node v (tree ?V h) (tree ?V l)"
      unfolding t0_def trees by (auto simp: h1_def l1_def)
    have found: "yields e e' (mk_ref swap neg (int v) (int i)) (\<lambda>a. if a v then fn e h a else fn e l a) (insert v (supp e h \<union> supp e l))"
      if e': "engine_ok e'" "grows e e'" and i: "i < length (be_V e')" "be_V e' ! i = ?n" for i e'
    proof -
      note t' = engine_okD(1) [OF e'(1)]
      note g = grows_ref [OF e e'(2)]
      have ne': "to_shift_node h2 v \<noteq> to_shift_node l2 v"
        using lower(2) [OF t ok(1) v(1)] lower(2) [OF t ok(2) v(1)] above tree_inj [OF t ok] ids(3) by (metis UnI1 UnI2 less_imp_le)
      have "be_V e' ! 0 = (bdd_T, bdd_T)" using t' by (simp add: table_ok_def)
      then have "i \<noteq> 0" using i(2) ne' by (cases "i = 0") auto
      note n = mk_node [OF t' i(1) this i(2) g(2) [OF ok(1)] g(2) [OF ok(2)] v(1) vb, of swap neg, unfolded g(1) [OF ok(1)] g(1) [OF ok(2)]]
      have "ref_ok (be_V e') (mk_ref swap neg (int v) (int i))"
        "tree (be_V e') (mk_ref swap neg (int v) (int i)) = Node v (tree ?V h) (tree ?V l)"
        using n above ids(2) unfolding t0 [symmetric] t0_def by blast+
      then show ?thesis using e' by (simp add: yields_def)
    qed
    show ?thesis
    proof (cases "be_Mn e ?n")
      case (Some i)
      then have "r = mk_ref swap neg (int v) (int i)" "e' = e" using r run by simp_all
      then show ?thesis using found [OF e grows_refl] engine_okD(2) [OF e, of ?n i] Some by simp
    next
      case None
      show ?thesis
      proof (cases "int (length ?V) < 2 ^ id_width")
        case False
        then show ?thesis using r run None yields_exhausted [OF e] by simp
      next
        case room: True
        have shifts: "br_shift (to_shift_node c v) \<noteq> 1 \<and> ref_ok ?V (to_shift_node c v) \<and> br_id (to_shift_node c v) = br_id c \<and>
            br_out (to_shift_node c v) = br_out c" if "c = h2 \<or> c = l2" for c
        proof -
          have c: "ref_ok ?V c" and up: "\<And>w. w \<in> vars (tree ?V c) \<Longrightarrow> v < w" using that ok above by auto
          have root: "br_id c \<noteq> 0 \<Longrightarrow> v < br_shift c" using up vars_root [OF t c] by blast
          have le: "br_id c \<noteq> 0 \<Longrightarrow> v \<le> br_shift c" using root by simp
          have low: "ref_ok ?V (to_shift_node c v)" using lower(1) [OF t c v(1)] up by (auto intro: less_imp_le)
          have eq: "to_shift_node c v = (if br_id c = 0 then c else c\<lparr>br_shift := br_shift c - (v - 1)\<rparr>)"
            by (rule to_shift_node_rebase(2) [OF t c v(1)]) (rule le)
          show ?thesis
          proof (cases "br_id c = 0")
            case True
            then show ?thesis using low ref_okD(2) [OF c] eq by simp
          next
            case False
            then have "br_shift c - (v - 1) \<noteq> 1" using root v(1) by linarith
            then show ?thesis using low eq False by simp
          qed
        qed
        have "to_shift_node h2 v \<noteq> to_shift_node l2 v"
          using lower(2) [OF t ok(1) v(1)] lower(2) [OF t ok(2) v(1)] above tree_inj [OF t ok] ids(3) by (metis UnI1 UnI2 less_imp_le)
        note new = add_new [OF e room None _ _ this]
        have e': "e' = e\<lparr>be_Mn := emplace (be_Mn e) ?n (length ?V), be_V := ?V @ [?n]\<rparr>" "r = mk_ref swap neg (int v) (int (length ?V))"
          using r run None room by simp_all
        have "engine_ok e'" "grows e e'" unfolding e' using new shifts [of h2] shifts [of l2] ids by simp_all
        then show ?thesis using found [of e' "length ?V"] unfolding e'(2) by (simp add: e'(1))
      qed
    qed
  qed
qed

section \<open>Running operations\<close>

definition gives ::
  "bdd_engine \<Rightarrow> (bdd_ref \<times> bdd_engine) option \<Rightarrow> ((nat \<Rightarrow> bool) \<Rightarrow> bool) \<Rightarrow> nat set \<Rightarrow> bool" where
  "gives e res f S \<longleftrightarrow> (\<exists>r e'. res = Some (r, e') \<and> yields e e' r f S)"

lemma gives_Some [simp]: "gives e (Some (r, e')) f S \<longleftrightarrow> yields e e' r f S"
  by (simp add: gives_def)

lemma gives_bind:
  assumes "gives e res f S" "\<And>r e'. res = Some (r, e') \<Longrightarrow> yields e e' r f S \<Longrightarrow> gives e (k (r, e')) g T"
  shows "gives e (res \<bind> k) g T"
  using assms unfolding gives_def [of e res] by (elim exE conjE) simp

lemma yields_mono: "yields e e' r f S \<Longrightarrow> (\<And>a. f a = g a) \<Longrightarrow> S \<subseteq> T \<Longrightarrow> yields e e' r g T"
  by (auto simp: yields_def)

lemma gives_mono: "gives e res f S \<Longrightarrow> (\<And>a. f a = g a) \<Longrightarrow> S \<subseteq> T \<Longrightarrow> gives e res g T"
  using yields_mono [of e _ _ f S g T] unfolding gives_def by blast

lemma yields_from: "grows e0 e \<Longrightarrow> yields e e' r f S \<Longrightarrow> yields e0 e' r f S"
  using grows_trans by (auto simp: yields_def)

lemma gives_from: "grows e0 e \<Longrightarrow> gives e res f S \<Longrightarrow> gives e0 res f S"
  using yields_from unfolding gives_def by blast

lemma yields_flag: "yields e e' r f S \<Longrightarrow> be_exhausted e \<Longrightarrow> be_exhausted e'"
  by (simp add: yields_def grows_def)

lemma yields_failed: "engine_ok e \<Longrightarrow> be_exhausted e \<Longrightarrow> yields e e bdd_F f S"
  using constants_ok(2) by (simp add: yields_def grows_refl)

text \<open>A function computed from results is the one computed from what they promise.\<close>

lemma yields_known: "yields e e' r f S \<Longrightarrow> engine_ok e' \<and> ref_ok (be_V e') r \<and> grows e e' \<and> supp e' r \<subseteq> S"
  by (simp add: yields_def)

lemma yields_step:
  assumes r: "yields e e1 r f S" and s: "yields e1 e2 s g T"
    and g: "\<And>a. (\<And>b. fn e1 r b = f b) \<Longrightarrow> \<not> be_exhausted e1 \<Longrightarrow> g a = g' a" and "T \<subseteq> T'"
  shows "yields e e2 s g' T'"
  using yieldsD [OF r] yieldsD [OF s] assms(4) g grows_trans unfolding yields_def grows_def by blast

lemma gives_step:
  assumes r: "yields e e1 r f S" and s: "gives e1 res g T"
    and g: "\<And>a. (\<And>b. fn e1 r b = f b) \<Longrightarrow> \<not> be_exhausted e1 \<Longrightarrow> g a = g' a" and "T \<subseteq> T'"
  shows "gives e res g' T'"
proof -
  obtain r' e2 where e2: "res = Some (r', e2)" "yields e1 e2 r' g T" using s unfolding gives_def by blast
  have "yields e e2 r' g' T'" by (rule yields_step [OF r e2(2) _ assms(4)]) (rule g)
  then show ?thesis by (simp add: e2(1))
qed

text \<open>A node built over two results.\<close>

lemma add_results:
  assumes h: "yields e e1 h f S" and l: "yields e1 e2 l g T"
    and v: "1 \<le> v" "\<And>w. w \<in> S \<union> T \<Longrightarrow> v < w"
  shows "gives e (Some (bdd_add v h l e2)) (\<lambda>a. if a v then f a else g a) (insert v (S \<union> T))"
proof -
  obtain r e3 where r: "bdd_add v h l e2 = (r, e3)" by (rule prod.exhaust)
  note H = yieldsD [OF h] and L = yieldsD [OF l]
  note up = grows_ref [OF H(1) L(2) H(3)]
  have "v < w" if "w \<in> supp e2 h \<union> supp e2 l" for w using that v(2) H(4) L(4) up(1) by auto
  note a = bdd_add_yields [OF L(1) up(2) L(3) v(1) this r]
  note A = yieldsD [OF a]
  have "supp e3 r \<subseteq> insert v (S \<union> T)" using A(4) H(4) L(4) up(1) by auto
  moreover have "\<not> be_exhausted e3 \<Longrightarrow> fn e3 r a = (if a v then f a else g a)" for a
    using A(5) L(5) H(5) yields_flag [OF a] yields_flag [OF l] up(1) by auto
  ultimately show ?thesis
    using A(1,3) grows_trans [OF grows_trans [OF H(2) L(2)] A(2)] unfolding r by (simp add: yields_def)
qed

lemma node_parts:
  assumes "engine_ok e" "ref_ok (be_V e) x" "br_id x \<noteq> 0"
  obtains v h l where "get_node e x = (v, h, l)" "v = br_shift x" "ref_ok (be_V e) h" "ref_ok (be_V e) l"
    "br_id h < br_id x" "br_id l < br_id x" "h \<noteq> l" "tree (be_V e) x = Node v (tree (be_V e) h) (tree (be_V e) l)"
    "1 \<le> v" "v < 2 ^ shift_width" "\<And>w. w \<in> supp e h \<union> supp e l \<Longrightarrow> v < w"
proof -
  note t = engine_okD(1) [OF assms(1)]
  obtain h l where n: "get_node e x = (br_shift x, h, l)" "ref_ok (be_V e) h" "ref_ok (be_V e) l"
    "br_id h < br_id x" "br_id l < br_id x" "h \<noteq> l" "tree (be_V e) x = Node (br_shift x) (tree (be_V e) h) (tree (be_V e) l)"
    using get_node_ok [OF t assms(2,3)] by metis
  have "br_shift x \<in> {1..<2 ^ shift_width}" using ref_okD(5) [OF assms(2)] unfolding n(7) by auto
  moreover have "w \<in> supp e h \<union> supp e l \<Longrightarrow> br_shift x < w" for w using tree_reduced [OF t assms(2)] unfolding n(7) by auto
  ultimately show thesis using that [OF n(1) refl n(2-7)] by auto
qed

section \<open>Conjunction\<close>

lemma constants_differ [simp]: "bdd_T \<noteq> bdd_F" "bdd_F \<noteq> bdd_T"
  by (simp_all add: bdd_T_def bdd_F_def mk_ref_def)

lemma ev_shift_all:
  "(\<forall>a. P (ev (shift_t k r) a) (ev (shift_t k x) a) (ev (shift_t k y) a)) \<longleftrightarrow> (\<forall>a. P (ev r a) (ev x a) (ev y a))"
proof -
  have "\<exists>b. (\<lambda>n. b (n + k)) = (a :: nat \<Rightarrow> bool)" for a
    by (intro exI [of _ "\<lambda>n. a (n - k)"]) simp
  then show ?thesis unfolding ev_shift by metis
qed

lemma min_shift:
  assumes "engine_ok e" "ref_ok (be_V e) x" "ref_ok (be_V e) y" "br_id x \<noteq> 0" "br_id y \<noteq> 0"
  shows "1 \<le> min (br_shift x) (br_shift y)" "min (br_shift x) (br_shift y) < 2 ^ shift_width"
    "\<And>w. w \<in> supp e x \<union> supp e y \<Longrightarrow> min (br_shift x) (br_shift y) \<le> w"
proof -
  have s: "br_shift x \<in> {1..<2 ^ shift_width}" "br_shift y \<in> {1..<2 ^ shift_width}"
    using vars_root [OF engine_okD(1) [OF assms(1)]] assms ref_okD(5) by blast+
  then show "1 \<le> min (br_shift x) (br_shift y)" "min (br_shift x) (br_shift y) < 2 ^ shift_width" by auto
  show "w \<in> supp e x \<union> supp e y \<Longrightarrow> min (br_shift x) (br_shift y) \<le> w" for w
    using vars_least [OF engine_okD(1) [OF assms(1)] assms(2), of w] vars_least [OF engine_okD(1) [OF assms(1)] assms(3), of w]
    by (auto simp: min_le_iff_disj)
qed

lemma check_and_hit:
  assumes e: "engine_ok e" and x: "ref_ok (be_V e) x" "br_id x \<noteq> 0" and y: "ref_ok (be_V e) y" "br_id y \<noteq> 0"
    and hit: "check_and x y e = Some r"
  shows "yields e e r (\<lambda>a. fn e x a \<and> fn e y a) (supp e x \<union> supp e y)"
proof (cases "be_exhausted e")
  case True
  then show ?thesis using hit yields_failed [OF e] by (simp add: check_and_def)
next
  case False
  note t = engine_okD(1) [OF e]
  note d = min_shift [OF e x(1) y(1) x(2) y(2)]
  define d where "d = min (br_shift x) (br_shift y)"
  obtain r0 where r0: "be_and e (to_shift_node x d, to_shift_node y d) = Some r0" "r = to_bdd_node r0 d"
    using hit False by (auto simp: check_and_def and_key_def Let_def d_def)
  note m = engine_okD(3) [OF e r0(1), unfolded meets_def]
  have below: "d \<le> w" if "w \<in> supp e x \<union> supp e y" for w using d(3) that unfolding d_def .
  have lx: "tree (be_V e) x = shift_t (d - 1) (tree (be_V e) (to_shift_node x d))"
    and ly: "tree (be_V e) y = shift_t (d - 1) (tree (be_V e) (to_shift_node y d))"
    using lower(2) [OF t x(1)] lower(2) [OF t y(1)] d(1) below unfolding d_def by blast+
  have "w + (d - 1) < 2 ^ shift_width" if "w \<in> supp e r0" for w
  proof -
    have "w + (d - 1) \<in> supp e x \<union> supp e y" using that m unfolding lx ly vars_shift by blast
    then show ?thesis using ref_okD(5) [OF x(1)] ref_okD(5) [OF y(1)] by auto
  qed
  then have up: "ref_ok (be_V e) r" "tree (be_V e) r = shift_t (d - 1) (tree (be_V e) r0)"
    using raise [OF t _ d(1,2) [folded d_def]] m unfolding r0(2) by blast+
  have "fn e r a \<longleftrightarrow> fn e x a \<and> fn e y a" for a
    using ev_shift_all [of "\<lambda>p q r. p \<longleftrightarrow> q \<and> r" "d - 1" "tree (be_V e) r0" "tree (be_V e) (to_shift_node x d)" "tree (be_V e) (to_shift_node y d)"]
      m unfolding lx ly up(2) by blast
  moreover have "supp e r \<subseteq> supp e x \<union> supp e y" using m unfolding lx ly up(2) vars_shift by blast
  ultimately show ?thesis using e up(1) by (intro yields_self)
qed

lemma engine_ok_and:
  "engine_ok e \<Longrightarrow> (be_and e (x, y) = None \<Longrightarrow> meets (be_V e) x y r) \<Longrightarrow> engine_ok (e\<lparr>be_and := emplace (be_and e) (x, y) r\<rparr>)"
  unfolding engine_ok_def by (auto simp: emplace_def split: if_splits)

lemma update_and_yields:
  assumes y0: "yields e0 e r f S" and x: "ref_ok (be_V e) x" "br_id x \<noteq> 0" and y: "ref_ok (be_V e) y" "br_id y \<noteq> 0"
    and f: "\<And>a. f a \<longleftrightarrow> fn e x a \<and> fn e y a" and S: "S \<subseteq> supp e x \<union> supp e y"
  shows "yields e0 (update_and x y r e) r f S"
proof (cases "be_exhausted e")
  case True
  then show ?thesis using y0 by (simp add: update_and_def)
next
  case False
  note R = yieldsD [OF y0]
  note e = R(1)
  note t = engine_okD(1) [OF e]
  note d = min_shift [OF e x(1) y(1) x(2) y(2)]
  define d where "d = min (br_shift x) (br_shift y)"
  have below: "d \<le> w" if "w \<in> supp e x \<union> supp e y" for w using d(3) that unfolding d_def .
  have sub: "supp e r \<subseteq> supp e x \<union> supp e y" using R(4) S by blast
  have l: "ref_ok (be_V e) (to_shift_node z d)" "tree (be_V e) z = shift_t (d - 1) (tree (be_V e) (to_shift_node z d))"
    if "z = x \<or> z = y \<or> z = r" for z
  proof -
    have "ref_ok (be_V e) z" "w \<in> supp e z \<Longrightarrow> d \<le> w" for w using that x(1) y(1) R(3) sub below by blast+
    then show "ref_ok (be_V e) (to_shift_node z d)" "tree (be_V e) z = shift_t (d - 1) (tree (be_V e) (to_shift_node z d))"
      using lower [OF t _ d(1) [folded d_def]] by blast+
  qed
  have "\<forall>a. fn e r a \<longleftrightarrow> fn e x a \<and> fn e y a" using R(5) [OF False] f by simp
  then have "\<forall>a. fn e (to_shift_node r d) a \<longleftrightarrow> fn e (to_shift_node x d) a \<and> fn e (to_shift_node y d) a"
    using ev_shift_all [of "\<lambda>p q r. p \<longleftrightarrow> q \<and> r" "d - 1" "tree (be_V e) (to_shift_node r d)"
      "tree (be_V e) (to_shift_node x d)" "tree (be_V e) (to_shift_node y d)"] l(2) [of x] l(2) [of y] l(2) [of r]
    by simp
  moreover have "supp e (to_shift_node r d) \<subseteq> supp e (to_shift_node x d) \<union> supp e (to_shift_node y d)"
    using sub l(2) [of x] l(2) [of y] l(2) [of r] by (simp add: vars_shift image_Un [symmetric] inj_image_subset_iff)
  ultimately have "engine_ok (update_and x y r e)"
    using False e l(1) by (auto simp: update_and_def and_key_def Let_def d_def [symmetric] meets_def intro!: engine_ok_and)
  moreover have "be_V (update_and x y r e) = be_V e" "be_exhausted (update_and x y r e) = be_exhausted e"
    by (simp_all add: update_and_def)
  ultimately show ?thesis using y0 by (simp add: yields_def grows_def)
qed

text \<open>The two recursive conjunctions of a conjunction.\<close>

lemma and_split_ok:
  assumes e: "engine_ok e" and x: "ref_ok (be_V e) x" "br_id x \<noteq> 0" and y: "ref_ok (be_V e) y" "br_id y \<noteq> 0"
  obtains v h1 h2 l1 l2 where "and_split e x y = (v, (h1, h2), (l1, l2))" "1 \<le> v" "v \<in> supp e x \<union> supp e y"
    "\<And>z. z \<in> {h1, h2, l1, l2} \<Longrightarrow> ref_ok (be_V e) z \<and> supp e z \<subseteq> supp e x \<union> supp e y \<and> (\<forall>w \<in> supp e z. v < w)"
    "br_id h1 + br_id h2 < br_id x + br_id y" "br_id l1 + br_id l2 < br_id x + br_id y"
    "\<And>a. (if a v then fn e h1 a \<and> fn e h2 a else fn e l1 a \<and> fn e l2 a) = (fn e x a \<and> fn e y a)"
proof -
  obtain vx hx lx where nx: "get_node e x = (vx, hx, lx)" "vx = br_shift x" "ref_ok (be_V e) hx" "ref_ok (be_V e) lx"
    "br_id hx < br_id x" "br_id lx < br_id x" "hx \<noteq> lx" "tree (be_V e) x = Node vx (tree (be_V e) hx) (tree (be_V e) lx)"
    "1 \<le> vx" "vx < 2 ^ shift_width" "\<And>w. w \<in> supp e hx \<union> supp e lx \<Longrightarrow> vx < w"
    using node_parts [OF e x] by metis
  obtain vy hy ly where ny: "get_node e y = (vy, hy, ly)" "vy = br_shift y" "ref_ok (be_V e) hy" "ref_ok (be_V e) ly"
    "br_id hy < br_id y" "br_id ly < br_id y" "hy \<noteq> ly" "tree (be_V e) y = Node vy (tree (be_V e) hy) (tree (be_V e) ly)"
    "1 \<le> vy" "vy < 2 ^ shift_width" "\<And>w. w \<in> supp e hy \<union> supp e ly \<Longrightarrow> vy < w"
    using node_parts [OF e y] by metis
  consider "vx = vy" | "vx < vy" | "vy < vx" by linarith
  then show thesis
  proof cases
    case 1
    show thesis
    proof (rule that [of vx hx hy lx ly])
      show "and_split e x y = (vx, (hx, hy), (lx, ly))" using nx(1) ny(1) 1 by (simp add: and_split_def)
    qed (use nx(3-6,9) ny(3-6) nx(11) ny(11) 1 in \<open>auto simp: nx(8) ny(8)\<close>)
  next
    case 2
    then have "vx < w" if "w \<in> supp e y" for w using that ny(11) by (auto simp: ny(8) dest: less_trans)
    then show thesis
    proof (intro that [of vx hx y lx y])
      show "and_split e x y = (vx, (hx, y), (lx, y))" using nx(1) ny(1) 2 by (simp add: and_split_def)
    qed (use nx(3-6,9) nx(11) y(1) in \<open>auto simp: nx(8)\<close>)
  next
    case 3
    then have "vy < w" if "w \<in> supp e x" for w using that nx(11) by (auto simp: nx(8) dest: less_trans)
    then show thesis
    proof (intro that [of vy hy x ly x])
      show "and_split e x y = (vy, (hy, x), (ly, x))" using nx(1) ny(1) 3 by (simp add: and_split_def)
    qed (use ny(3-6,9) ny(11) x(1) in \<open>auto simp: ny(8)\<close>)
  qed
qed

lemma order_canonical: "mk_order_canonical x y = (x, y) \<or> mk_order_canonical x y = (y, x)"
  by (auto simp: mk_order_canonical_def Let_def)

text \<open>The step of a conjunction whose operands are not constant and not stored, on its two halves.\<close>

lemma and_step:
  assumes e: "engine_ok e" and x: "ref_ok (be_V e) x" "br_id x \<noteq> 0" and y: "ref_ok (be_V e) y" "br_id y \<noteq> 0"
    and rec: "\<And>u w e. engine_ok e \<Longrightarrow> ref_ok (be_V e) u \<Longrightarrow> ref_ok (be_V e) w \<Longrightarrow> br_id u + br_id w < br_id x + br_id y \<Longrightarrow>
      gives e (bdd_and u w e) (\<lambda>a. fn e u a \<and> fn e w a) (supp e u \<union> supp e w)"
  shows "gives e (case and_split e x y of (v, (h1, h2), (l1, l2)) \<Rightarrow>
    bdd_and h1 h2 e \<bind> (\<lambda>(h, e). bdd_and l1 l2 e \<bind> (\<lambda>(l, e).
      case bdd_add v h l e of (r, e) \<Rightarrow> Some (r, update_and x y r e))))
    (\<lambda>a. fn e x a \<and> fn e y a) (supp e x \<union> supp e y)"
proof -
  obtain v h1 h2 l1 l2 where s: "and_split e x y = (v, (h1, h2), (l1, l2))" "1 \<le> v" "v \<in> supp e x \<union> supp e y"
    and z: "\<And>z. z \<in> {h1, h2, l1, l2} \<Longrightarrow> ref_ok (be_V e) z \<and> supp e z \<subseteq> supp e x \<union> supp e y \<and> (\<forall>w \<in> supp e z. v < w)"
    and ids: "br_id h1 + br_id h2 < br_id x + br_id y" "br_id l1 + br_id l2 < br_id x + br_id y"
    and sem: "\<And>a. (if a v then fn e h1 a \<and> fn e h2 a else fn e l1 a \<and> fn e l2 a) = (fn e x a \<and> fn e y a)"
    using and_split_ok [OF e x y] by metis
  let ?S = "supp e x \<union> supp e y"
  have zs: "ref_ok (be_V e) h1" "ref_ok (be_V e) h2" "ref_ok (be_V e) l1" "ref_ok (be_V e) l2" using z by blast+
  obtain h e1 where h: "bdd_and h1 h2 e = Some (h, e1)" "yields e e1 h (\<lambda>a. fn e h1 a \<and> fn e h2 a) (supp e h1 \<union> supp e h2)"
    using rec [OF e zs(1,2) ids(1)] by (auto simp: gives_def)
  note H = yieldsD [OF h(2)]
  note up = grows_ref [OF e H(2)]
  obtain l e2 where l: "bdd_and l1 l2 e1 = Some (l, e2)" "yields e1 e2 l (\<lambda>a. fn e1 l1 a \<and> fn e1 l2 a) (supp e1 l1 \<union> supp e1 l2)"
    using rec [OF H(1) up(2) [OF zs(3)] up(2) [OF zs(4)] ids(2)] by (auto simp: gives_def)
  obtain r e3 where r: "bdd_add v h l e2 = (r, e3)" by (rule prod.exhaust)
  have "gives e (Some (bdd_add v h l e2)) (\<lambda>a. if a v then fn e h1 a \<and> fn e h2 a else fn e1 l1 a \<and> fn e1 l2 a)
      (insert v (supp e h1 \<union> supp e h2 \<union> (supp e1 l1 \<union> supp e1 l2)))"
    by (rule add_results [OF h(2) l(2) s(2)]) (use z up(1) zs in auto)
  then have y3: "yields e e3 r (\<lambda>a. fn e x a \<and> fn e y a) ?S"
    unfolding r gives_Some
  proof (rule yields_mono)
    show "(if a v then fn e h1 a \<and> fn e h2 a else fn e1 l1 a \<and> fn e1 l2 a) = (fn e x a \<and> fn e y a)" for a
      using sem [of a] up(1) [OF zs(3)] up(1) [OF zs(4)] by (simp only:)
    show "insert v (supp e h1 \<union> supp e h2 \<union> (supp e1 l1 \<union> supp e1 l2)) \<subseteq> ?S"
      using s(3) z [of h1] z [of h2] z [of l1] z [of l2] up(1) [OF zs(3)] up(1) [OF zs(4)] by simp
  qed
  note Y = yieldsD [OF y3]
  note up3 = grows_ref [OF e Y(2)]
  have "yields e (update_and x y r e3) r (\<lambda>a. fn e x a \<and> fn e y a) ?S"
    by (rule update_and_yields [OF y3 up3(2) [OF x(1)] x(2) up3(2) [OF y(1)] y(2)]) (simp_all add: up3(1) x y)
  then show ?thesis using h(1) l(1) r by (simp add: s(1))
qed

lemma bdd_and_gives:
  "engine_ok e \<Longrightarrow> ref_ok (be_V e) x \<Longrightarrow> ref_ok (be_V e) y \<Longrightarrow>
    gives e (bdd_and x y e) (\<lambda>a. fn e x a \<and> fn e y a) (supp e x \<union> supp e y)"
proof (induction "br_id x + br_id y" arbitrary: x y e rule: less_induct)
  case less
  note e = less.prems(1)
  note t = engine_okD(1) [OF e]
  let ?g = "\<lambda>r. gives e r (\<lambda>a. fn e x a \<and> fn e y a) (supp e x \<union> supp e y)"
  consider "x = bdd_F \<or> y = bdd_F" | "x = bdd_T" "y \<noteq> bdd_F" | "y = bdd_T" "x \<noteq> bdd_F" "x \<noteq> bdd_T"
    | "negation_of x y" "x \<noteq> bdd_F" "x \<noteq> bdd_T" "y \<noteq> bdd_F" "y \<noteq> bdd_T"
    | "\<not> negation_of x y" "x \<noteq> bdd_F" "x \<noteq> bdd_T" "y \<noteq> bdd_F" "y \<noteq> bdd_T" by blast
  then show ?case
  proof cases
    case 1
    then show ?thesis
      using yields_self [OF e constants_ok(2) [OF e], of "\<lambda>a. fn e x a \<and> fn e y a"] by (subst bdd_and.simps) auto
  next
    case 2
    then show ?thesis using yields_self [OF e less.prems(3)] by (subst bdd_and.simps) auto
  next
    case 3
    then show ?thesis using yields_self [OF e less.prems(2)] by (subst bdd_and.simps) auto
  next
    case 4
    then have "tree (be_V e) y = neg_t (tree (be_V e) x)" using tree_flip [OF less.prems(2) t] by (auto simp: negation_of_def)
    then show ?thesis
      using 4 yields_self [OF e constants_ok(2) [OF e], of "\<lambda>a. fn e x a \<and> fn e y a"] by (subst bdd_and.simps) simp
  next
    case 5
    have ids: "br_id x \<noteq> 0" "br_id y \<noteq> 0" using 5 leaf_cases less.prems(2,3) by blast+
    have ordered: "?g (case check_and u w e of Some r \<Rightarrow> Some (r, e) | None \<Rightarrow>
        (case and_split e u w of (v, (h1, h2), (l1, l2)) \<Rightarrow>
           bdd_and h1 h2 e \<bind> (\<lambda>(h, e). bdd_and l1 l2 e \<bind> (\<lambda>(l, e).
             case bdd_add v h l e of (r, e) \<Rightarrow> Some (r, update_and u w r e)))))"
      if uw: "(u = x \<and> w = y) \<or> (u = y \<and> w = x)" for u w
    proof -
      have u: "ref_ok (be_V e) u" "br_id u \<noteq> 0" "ref_ok (be_V e) w" "br_id w \<noteq> 0" using uw less.prems ids by blast+
      have sum: "br_id u + br_id w = br_id x + br_id y" using uw by auto
      have swap: "(fn e u a \<and> fn e w a) = (fn e x a \<and> fn e y a)" "supp e u \<union> supp e w \<subseteq> supp e x \<union> supp e y" for a using uw by auto
      show ?thesis
      proof (cases "check_and u w e")
        case (Some r)
        then show ?thesis using yields_mono [OF check_and_hit [OF e u Some] swap] by simp
      next
        case None
        show ?thesis unfolding None option.case
          by (rule gives_mono [OF and_step [OF e u] swap]) (use less.hyps sum in simp)
      qed
    qed
    have "bdd_and x y e = (case mk_order_canonical x y of (u, w) \<Rightarrow>
        (case check_and u w e of Some r \<Rightarrow> Some (r, e) | None \<Rightarrow>
          (case and_split e u w of (v, (h1, h2), (l1, l2)) \<Rightarrow>
             bdd_and h1 h2 e \<bind> (\<lambda>(h, e). bdd_and l1 l2 e \<bind> (\<lambda>(l, e).
               case bdd_add v h l e of (r, e) \<Rightarrow> Some (r, update_and u w r e))))))"
      using 5 by (subst bdd_and.simps) simp
    then show ?thesis using ordered [of x y] ordered [of y x] order_canonical [of x y] by auto
  qed
qed

end
