(* ===== verification/Bdd_Ops.thy ===== *)
theory Bdd_Ops imports Bdd_Correct begin

text \<open>
  The operations built on conjunction: disjunction, the quantifiers with their memo, cofactors,
  substitution and composition.
\<close>

section \<open>Negation, disjunction and choice\<close>

lemma yields_flip: "yields e e' r f S \<Longrightarrow> yields e e' (flip_out r) (\<lambda>a. \<not> f a) S"
proof -
  assume y: "yields e e' r f S"
  note Y = yieldsD(1-4) [OF y] and t = engine_okD(1) [OF yieldsD(1) [OF y]]
  have "tree (be_V e') (flip_out r) = neg_t (tree (be_V e') r)" "ref_ok (be_V e') (flip_out r)"
    using tree_flip [OF Y(3) t] ref_ok_flip [OF Y(3) t] by blast+
  then show ?thesis using y unfolding yields_def by simp
qed

lemma gives_flip: "gives e res f S \<Longrightarrow> gives e (map_option (\<lambda>(r, e). (flip_out r, e)) res) (\<lambda>a. \<not> f a) S"
  using yields_flip by (auto simp: gives_def)

lemma flipped:
  assumes "engine_ok e" "ref_ok (be_V e) x"
  shows "ref_ok (be_V e) (flip_out x)" "fn e (flip_out x) a \<longleftrightarrow> \<not> fn e x a" "supp e (flip_out x) = supp e x"
  using tree_flip [OF assms(2) engine_okD(1) [OF assms(1)]] ref_ok_flip [OF assms(2) engine_okD(1) [OF assms(1)]] by simp_all

lemma bdd_or_gives:
  assumes "engine_ok e" "ref_ok (be_V e) x" "ref_ok (be_V e) y"
  shows "gives e (bdd_or x y e) (\<lambda>a. fn e x a \<or> fn e y a) (supp e x \<union> supp e y)"
  unfolding bdd_or_def
  by (rule gives_mono [OF gives_flip [OF bdd_and_gives [OF assms(1) flipped(1) flipped(1)]]])
    (use assms in \<open>simp_all add: flipped\<close>)

lemma bdd_ite_gives:
  assumes e: "engine_ok e" and x: "ref_ok (be_V e) x" and y: "ref_ok (be_V e) y" and z: "ref_ok (be_V e) z"
  shows "gives e (bdd_ite x y z e) (\<lambda>a. if fn e x a then fn e y a else fn e z a) (supp e x \<union> supp e y \<union> supp e z)"
  unfolding bdd_ite_def bdd_not_def
proof (rule gives_mono [OF gives_bind [OF bdd_and_gives [OF e x y]]])
  fix p e1 assume p: "yields e e1 p (\<lambda>a. fn e x a \<and> fn e y a) (supp e x \<union> supp e y)"
  note P = yieldsD [OF p]
  note up1 = grows_ref [OF e P(2)]
  show "gives e (case (p, e1) of (a, e) \<Rightarrow> bdd_and (flip_out x) z e \<bind> (\<lambda>(b, e). bdd_or a b e))
      (\<lambda>a. fn e x a \<and> fn e y a \<or> \<not> fn e x a \<and> fn e z a) (supp e x \<union> supp e y \<union> supp e z)"
    unfolding prod.case
  proof (rule gives_step [OF p gives_bind [OF bdd_and_gives [OF P(1) flipped(1) [OF P(1) up1(2) [OF x]] up1(2) [OF z]]]])
    fix q e2 assume q: "yields e1 e2 q (\<lambda>a. fn e1 (flip_out x) a \<and> fn e1 z a) (supp e1 (flip_out x) \<union> supp e1 z)"
    note Q = yieldsD [OF q]
    note up2 = grows_ref [OF P(1) Q(2)]
    have or: "gives e2 (bdd_or p q e2) (\<lambda>a. fn e1 p a \<or> fn e2 q a) (supp e1 p \<union> supp e2 q)"
      using bdd_or_gives [OF Q(1) up2(2) [OF P(3)] Q(3)] by (simp add: up2(1) [OF P(3)])
    show "gives e1 (case (q, e2) of (b, e) \<Rightarrow> bdd_or p b e)
        (\<lambda>a. fn e1 p a \<or> fn e1 (flip_out x) a \<and> fn e1 z a) (supp e x \<union> supp e y \<union> supp e z)"
      unfolding prod.case
    proof (rule gives_step [OF q or])
      show "(fn e1 p a \<or> fn e2 q a) = (fn e1 p a \<or> fn e1 (flip_out x) a \<and> fn e1 z a)"
        if "\<And>b. fn e2 q b = (fn e1 (flip_out x) b \<and> fn e1 z b)" for a by (simp add: that)
      show "supp e1 p \<union> supp e2 q \<subseteq> supp e x \<union> supp e y \<union> supp e z"
        using P(4) Q(4) by (auto simp: flipped(3) [OF P(1) up1(2) [OF x]] up1(1) [OF x] up1(1) [OF z])
    qed
  next
    show "(fn e1 p a \<or> fn e1 (flip_out x) a \<and> fn e1 z a) = (fn e x a \<and> fn e y a \<or> \<not> fn e x a \<and> fn e z a)"
      if "\<And>b. fn e1 p b = (fn e x b \<and> fn e y b)" for a
      using that by (simp add: flipped(2) [OF P(1) up1(2) [OF x]] up1(1) [OF x] up1(1) [OF z])
  qed simp
qed auto

section \<open>Quantifiers\<close>

text \<open>The key of a quantified variable, rebased to the reference.\<close>

lemma all_key_var:
  assumes "1 \<le> s" "s < 2 ^ shift_width" "v < 2 ^ 32"
  shows "s \<le> v \<Longrightarrow> nat ((int v - (int s - 1)) mod 2 ^ 32) = v - (s - 1)"
    and "v < s \<Longrightarrow> nat ((int v - (int s - 1)) mod 2 ^ 32) \<notin> {1..<2 ^ shift_width}"
proof -
  show "nat ((int v - (int s - 1)) mod 2 ^ 32) = v - (s - 1)" if "s \<le> v"
  proof -
    have "int v - (int s - 1) = int (v - (s - 1))" using that assms(1) by simp
    moreover have "int (v - (s - 1)) mod 2 ^ 32 = int (v - (s - 1))" using assms(3) by (intro mod_pos_pos_trivial) simp_all
    ultimately show ?thesis by (metis nat_int)
  qed
  show "nat ((int v - (int s - 1)) mod 2 ^ 32) \<notin> {1..<2 ^ shift_width}" if "v < s"
  proof (cases "v + 1 = s")
    case True
    then have "int v - (int s - 1) = 0" by simp
    then show ?thesis by simp
  next
    case False
    then have "int v - (int s - 1) < 0" "- (2 ^ 12) < int v - (int s - 1)" using that assms(2) by (simp_all add: shift_width_def)
    then have "(int v - (int s - 1)) mod 2 ^ 32 = (int v - (int s - 1)) + 2 ^ 32"
      using mod_pos_pos_trivial [of "int v - (int s - 1) + 2 ^ 32" "2 ^ 32"]
        mod_add_self2 [of "int v - (int s - 1)" "2 ^ 32"] by simp
    then have "4096 \<le> (int v - (int s - 1)) mod 2 ^ 32" using \<open>- (2 ^ 12) < int v - (int s - 1)\<close> by simp
    then have "4096 \<le> nat ((int v - (int s - 1)) mod 2 ^ 32)" by linarith
    then show ?thesis by (simp add: shift_width_def)
  qed
qed

text \<open>Quantifying a shifted function is shifting the quantified one, and a variable outside is no change.\<close>

definition both :: "((nat \<Rightarrow> bool) \<Rightarrow> bool) \<Rightarrow> nat \<Rightarrow> (nat \<Rightarrow> bool) \<Rightarrow> bool" where
  "both f v a \<longleftrightarrow> f (a(v := True)) \<and> f (a(v := False))"

lemma both_outside: "v \<notin> vars t \<Longrightarrow> both (ev t) v a = ev t a"
  by (simp add: both_def ev_upd)

lemma both_shift: "both (ev (shift_t k t)) (v + k) a = both (ev t) v (\<lambda>n. a (n + k))"
proof -
  have "(\<lambda>n. (a(v + k := b)) (n + k)) = (\<lambda>n. a (n + k))(v := b)" for b by auto
  then show ?thesis by (simp add: both_def ev_shift)
qed

lemma quantified_shift:
  assumes x: "x = shift_t k x'" and r: "r = shift_t k r'" and v: "v = v' + k \<or> (v \<notin> vars x \<and> v' \<notin> vars x')"
  shows "(\<forall>a. ev r a = both (ev x) v a) \<longleftrightarrow> (\<forall>a. ev r' a = both (ev x') v' a)"
proof -
  have "both (ev x) v a = both (ev x') v' (\<lambda>n. a (n + k))" for a
    using v by (elim disjE conjE) (simp_all add: x both_shift both_outside ev_shift)
  moreover have "ev r a = ev r' (\<lambda>n. a (n + k))" for a by (simp add: r ev_shift)
  moreover have "\<exists>b. (\<lambda>n. b (n + k)) = (a :: nat \<Rightarrow> bool)" for a by (intro exI [of _ "\<lambda>n. a (n - k)"]) simp
  ultimately show ?thesis by metis
qed

text \<open>What the key of a non-constant reference says of its variable.\<close>

lemma all_key_parts:
  assumes e: "engine_ok e" and x: "ref_ok (be_V e) x" "br_id x \<noteq> 0" and v: "v < 2 ^ 32"
  obtains x' v' where "all_key x v = (x', v')" "x' = to_shift_node x (br_shift x)" "ref_ok (be_V e) x'"
    "tree (be_V e) x = shift_t (br_shift x - 1) (tree (be_V e) x')"
    "v = v' + (br_shift x - 1) \<or> (v \<notin> supp e x \<and> v' \<notin> supp e x')" "1 \<le> br_shift x" "br_shift x < 2 ^ shift_width"
proof -
  note t = engine_okD(1) [OF e]
  let ?s = "br_shift x" and ?x = "to_shift_node x (br_shift x)"
  have "?s \<in> {1..<2 ^ shift_width}" using vars_root [OF t x] ref_okD(5) [OF x(1)] by blast
  then have s: "1 \<le> ?s" "?s < 2 ^ shift_width" by simp_all
  note low = lower [OF t x(1) s(1) vars_least [OF t x(1)]]
  let ?v = "nat ((int v - (int ?s - 1)) mod 2 ^ 32)"
  have "v = ?v + (?s - 1) \<or> (v \<notin> supp e x \<and> ?v \<notin> supp e ?x)"
  proof (cases "?s \<le> v")
    case True
    then have "?v = v - (?s - 1)" by (rule all_key_var(1) [OF s v])
    then have "v = ?v + (?s - 1)" using True by linarith
    then show ?thesis by blast
  next
    case False
    then have "v \<notin> supp e x" "?v \<notin> supp e ?x"
      using vars_least [OF t x(1), of v] all_key_var(2) [OF s v] ref_okD(5) [OF low(1)] by auto
    then show ?thesis by blast
  qed
  then show thesis using that [OF _ refl low(1,2) _ s] by (simp add: all_key_def)
qed

lemma check_all_hit:
  assumes e: "engine_ok e" and x: "ref_ok (be_V e) x" and v: "v < 2 ^ 32" and hit: "check_all x v e = Some r"
  shows "yields e e r (both (fn e x) v) (supp e x)"
proof (cases "be_exhausted e")
  case True
  then show ?thesis using hit yields_failed [OF e] by (simp add: check_all_def)
next
  case False
  note t = engine_okD(1) [OF e]
  show ?thesis
  proof (cases "br_id x = 0")
    case const: True
    then have "br_shift x = 0" using ref_okD(2) [OF x] by simp
    then obtain r0 k where r0: "be_all e (x, k) = Some r0" "r = to_bdd_node r0 0"
      using hit False by (auto simp: check_all_def all_key_def to_shift_node_def)
    note q = engine_okD(4) [OF e r0(1), unfolded quantifies_def]
    have tx: "tree (be_V e) x = Leaf (\<not> br_out x)" using const by (simp add: tree.simps [of _ x])
    then have "\<forall>a. fn e r0 a = fn e x a" using q by simp
    then have "r0 = x" using canonical [OF t _ x] q by blast
    then have "r = x" using r0(2) \<open>br_shift x = 0\<close> by (simp add: to_bdd_node_def)
    then show ?thesis using yields_self [OF e x] by (simp add: tx both_def)
  next
    case node: False
    obtain x' v' where k: "all_key x v = (x', v')" "ref_ok (be_V e) x'"
      "tree (be_V e) x = shift_t (br_shift x - 1) (tree (be_V e) x')"
      "v = v' + (br_shift x - 1) \<or> (v \<notin> supp e x \<and> v' \<notin> supp e x')" "1 \<le> br_shift x" "br_shift x < 2 ^ shift_width"
      using all_key_parts [OF e x node v] by metis
    obtain r0 where r0: "be_all e (x', v') = Some r0" "r = to_bdd_node r0 (br_shift x)"
      using hit False by (auto simp: check_all_def k(1))
    note q = engine_okD(4) [OF e r0(1), unfolded quantifies_def both_def [symmetric]]
    have "w + (br_shift x - 1) < 2 ^ shift_width" if "w \<in> supp e r0" for w
    proof -
      have "w + (br_shift x - 1) \<in> supp e x" using that q unfolding k(3) vars_shift by blast
      then show ?thesis using ref_okD(5) [OF x] by auto
    qed
    then have up: "ref_ok (be_V e) r" "tree (be_V e) r = shift_t (br_shift x - 1) (tree (be_V e) r0)"
      using raise [OF t _ k(5,6)] q unfolding r0(2) by blast+
    have "\<forall>a. fn e r a = both (fn e x) v a" using quantified_shift [OF k(3) up(2) k(4)] q by blast
    moreover have "supp e r \<subseteq> supp e x" using q unfolding k(3) up(2) vars_shift by blast
    ultimately show ?thesis using e up(1) by (intro yields_self) blast+
  qed
qed

lemma engine_ok_all:
  "engine_ok e \<Longrightarrow> quantifies (be_V e) x k r \<Longrightarrow> engine_ok (e\<lparr>be_all := emplace (be_all e) (x, k) r\<rparr>)"
  unfolding engine_ok_def by (auto simp: emplace_def split: if_splits)

lemma update_all_yields:
  assumes y0: "yields e0 e r f S" and x: "ref_ok (be_V e) x" "br_id x \<noteq> 0" and v: "v < 2 ^ 32"
    and f: "\<And>a. f a = both (fn e x) v a" and S: "S \<subseteq> supp e x"
  shows "yields e0 (update_all x v r e) r f S"
proof (cases "be_exhausted e")
  case True
  then show ?thesis using y0 by (simp add: update_all_def)
next
  case False
  note R = yieldsD [OF y0]
  note e = R(1)
  note t = engine_okD(1) [OF e]
  obtain x' v' where k: "all_key x v = (x', v')" "ref_ok (be_V e) x'"
    "tree (be_V e) x = shift_t (br_shift x - 1) (tree (be_V e) x')"
    "v = v' + (br_shift x - 1) \<or> (v \<notin> supp e x \<and> v' \<notin> supp e x')" "1 \<le> br_shift x" "br_shift x < 2 ^ shift_width"
    using all_key_parts [OF e x v] by metis
  let ?r = "to_shift_node r (br_shift x)"
  have sub: "supp e r \<subseteq> supp e x" using R(4) S by blast
  then have "w \<in> supp e r \<Longrightarrow> br_shift x \<le> w" for w using vars_least [OF t x(1)] by blast
  note low = lower [OF t R(3) k(5) this]
  have "\<forall>a. fn e r a = both (fn e x) v a" using R(5) [OF False] f by simp
  then have "\<forall>a. fn e ?r a = both (fn e x') v' a" using quantified_shift [OF k(3) low(2) k(4)] by blast
  moreover have "supp e ?r \<subseteq> supp e x'"
    using sub low(2) by (simp add: k(3) vars_shift inj_image_subset_iff)
  ultimately have "quantifies (be_V e) x' v' ?r" using k(2) low(1) by (simp add: quantifies_def both_def)
  then have "engine_ok (update_all x v r e)"
    using False engine_ok_all [OF e] by (simp add: update_all_def k(1))
  moreover have "be_V (update_all x v r e) = be_V e" "be_exhausted (update_all x v r e) = be_exhausted e"
    by (simp_all add: update_all_def)
  ultimately show ?thesis using y0 by (simp add: yields_def grows_def)
qed

lemma leaf_iff: "leaf x \<longleftrightarrow> br_id x = 0"
  by (simp add: leaf_def)

lemma leaf_self:
  assumes e: "engine_ok e" and x: "ref_ok (be_V e) x" "leaf x"
  shows "tree (be_V e) x = Leaf (\<not> br_out x)"
  using x(2) by (simp add: leaf_iff tree.simps [of _ x])

lemma bdd_all_gives:
  "engine_ok e \<Longrightarrow> ref_ok (be_V e) x \<Longrightarrow> v < 2 ^ 32 \<Longrightarrow> gives e (bdd_all x v e) (both (fn e x) v) (supp e x)"
proof (induction "br_id x" arbitrary: x e rule: less_induct)
  case less
  note e = less.prems(1) and x = less.prems(2) and v = less.prems(3)
  show ?case
  proof (cases "check_all x v e")
    case (Some r)
    then show ?thesis using check_all_hit [OF e x v Some] by (subst bdd_all.simps) simp
  next
    case miss: None
    show ?thesis
    proof (cases "leaf x")
      case True
      then show ?thesis
        using miss yields_self [OF e x] leaf_self [OF e x True] by (subst bdd_all.simps) (simp add: both_def)
    next
      case inner: False
      then have id: "br_id x \<noteq> 0" by (simp add: leaf_iff)
      obtain vx h l where n: "get_node e x = (vx, h, l)" "vx = br_shift x" "ref_ok (be_V e) h" "ref_ok (be_V e) l"
        "br_id h < br_id x" "br_id l < br_id x" "h \<noteq> l" "tree (be_V e) x = Node vx (tree (be_V e) h) (tree (be_V e) l)"
        "1 \<le> vx" "vx < 2 ^ shift_width" "\<And>w. w \<in> supp e h \<union> supp e l \<Longrightarrow> vx < w"
        using node_parts [OF e x id] by metis
      let ?S = "supp e x"
      define res where "res =
        (if vx < v then bdd_all h v e \<bind> (\<lambda>(h, e). bdd_all l v e \<bind> (\<lambda>(l, e). Some (bdd_add vx h l e)))
         else if v < vx then Some (x, e) else bdd_and h l e)"
      have run: "bdd_all x v e = res \<bind> (\<lambda>(r, e). Some (r, update_all x v r e))"
        using miss inner by (subst bdd_all.simps) (simp add: n(1) res_def)
      have "gives e res (both (fn e x) v) ?S"
      proof -
        consider "vx < v" | "v < vx" | "v = vx" by linarith
        then show ?thesis
        proof cases
          case 1
          obtain h' e1 where h': "bdd_all h v e = Some (h', e1)" "yields e e1 h' (both (fn e h) v) (supp e h)"
            using less.hyps [OF n(5) e n(3) v] by (auto simp: gives_def)
          note up = grows_ref [OF e yieldsD(2) [OF h'(2)]]
          obtain l' e2 where l': "bdd_all l v e1 = Some (l', e2)" "yields e1 e2 l' (both (fn e l) v) (supp e l)"
            using less.hyps [OF n(6) yieldsD(1) [OF h'(2)] up(2) [OF n(4)] v] up(1) [OF n(4)] by (auto simp: gives_def)
          have "gives e (Some (bdd_add vx h' l' e2)) (\<lambda>a. if a vx then both (fn e h) v a else both (fn e l) v a) (insert vx (supp e h \<union> supp e l))"
            by (rule add_results [OF h'(2) l'(2) n(9,11)])
          then have "gives e (Some (bdd_add vx h' l' e2)) (both (fn e x) v) ?S"
            by (rule gives_mono) (use 1 in \<open>auto simp: n(8) both_def\<close>)
          then show ?thesis unfolding res_def using 1 h'(1) l'(1) by simp
        next
          case 2
          then have "v \<notin> supp e x" using n(11) by (auto simp: n(8) dest: less_trans)
          then show ?thesis unfolding res_def using 2 yields_self [OF e x] by (simp add: both_outside)
        next
          case 3
          have "v \<notin> supp e h" "v \<notin> supp e l" using n(11) 3 by auto
          then have "(fn e h a \<and> fn e l a) = both (fn e x) v a" for a
            by (simp add: n(8) both_def 3 ev_upd)
          then show ?thesis
            unfolding res_def using 3 gives_mono [OF bdd_and_gives [OF e n(3,4)], of _ ?S] by (auto simp: n(8))
        qed
      qed
      then obtain r e' where r: "res = Some (r, e')" "yields e e' r (both (fn e x) v) ?S" by (auto simp: gives_def)
      note up = grows_ref [OF e yieldsD(2) [OF r(2)]]
      have "yields e (update_all x v r e') r (both (fn e x) v) ?S"
        by (rule update_all_yields [OF r(2) up(2) [OF x] id v]) (simp_all add: up(1) [OF x])
      then show ?thesis by (simp add: run r(1))
    qed
  qed
qed

lemma bdd_ex_gives:
  assumes "engine_ok e" "ref_ok (be_V e) x" "v < 2 ^ 32"
  shows "gives e (bdd_ex x v e) (\<lambda>a. fn e x (a(v := True)) \<or> fn e x (a(v := False))) (supp e x)"
  unfolding bdd_ex_def
  by (rule gives_mono [OF gives_flip [OF bdd_all_gives [OF assms(1) flipped(1) assms(3)]]])
    (use assms in \<open>simp_all add: flipped both_def\<close>)

section \<open>Cofactors and substitution\<close>

lemma cofactor_gives:
  "engine_ok e \<Longrightarrow> ref_ok (be_V e) x \<Longrightarrow> gives e (cofactor x v b e) (\<lambda>a. fn e x (a(v := b))) (supp e x - {v})"
proof (induction "br_id x" arbitrary: x e rule: less_induct)
  case less
  note e = less.prems(1) and x = less.prems(2)
  show ?case
  proof (cases "leaf x")
    case True
    then show ?thesis
      using yields_self [OF e x] leaf_self [OF e x True] by (subst cofactor.simps) simp
  next
    case inner: False
    then have id: "br_id x \<noteq> 0" by (simp add: leaf_iff)
    obtain vx h l where n: "get_node e x = (vx, h, l)" "vx = br_shift x" "ref_ok (be_V e) h" "ref_ok (be_V e) l"
      "br_id h < br_id x" "br_id l < br_id x" "h \<noteq> l" "tree (be_V e) x = Node vx (tree (be_V e) h) (tree (be_V e) l)"
      "1 \<le> vx" "vx < 2 ^ shift_width" "\<And>w. w \<in> supp e h \<union> supp e l \<Longrightarrow> vx < w"
      using node_parts [OF e x id] by metis
    consider "vx < v" | "v < vx" | "v = vx" by linarith
    then show ?thesis
    proof cases
      case 1
      obtain h' e1 where h': "cofactor h v b e = Some (h', e1)" "yields e e1 h' (\<lambda>a. fn e h (a(v := b))) (supp e h - {v})"
        using less.hyps [OF n(5) e n(3)] by (auto simp: gives_def)
      note up = grows_ref [OF e yieldsD(2) [OF h'(2)]]
      obtain l' e2 where l': "cofactor l v b e1 = Some (l', e2)" "yields e1 e2 l' (\<lambda>a. fn e l (a(v := b))) (supp e l - {v})"
        using less.hyps [OF n(6) yieldsD(1) [OF h'(2)] up(2) [OF n(4)]] up(1) [OF n(4)] by (auto simp: gives_def)
      have "gives e (Some (bdd_add vx h' l' e2)) (\<lambda>a. if a vx then fn e h (a(v := b)) else fn e l (a(v := b)))
          (insert vx (supp e h - {v} \<union> (supp e l - {v})))"
        by (rule add_results [OF h'(2) l'(2) n(9)]) (use n(11) in auto)
      moreover have "cofactor x v b e = Some (bdd_add vx h' l' e2)"
        using inner 1 h'(1) l'(1) by (subst cofactor.simps) (simp add: n(1))
      ultimately show ?thesis using 1 by (simp only:) (rule gives_mono, auto simp: n(8))
    next
      case 2
      then have "v \<notin> supp e x" using n(11) by (auto simp: n(8) dest: less_trans)
      then show ?thesis using inner 2 yields_self [OF e x] by (subst cofactor.simps) (simp add: n(1) ev_upd)
    next
      case 3
      have out: "v \<notin> supp e h" "v \<notin> supp e l" using n(11) 3 by auto
      then show ?thesis
        using inner 3 yields_self [OF e n(3)] yields_self [OF e n(4)] by (subst cofactor.simps) (auto simp: n(1) n(8) ev_upd)
    qed
  qed
qed

lemma bdd_subst_gives:
  assumes e: "engine_ok e" and x: "ref_ok (be_V e) x" and w: "ref_ok (be_V e) w"
  shows "gives e (bdd_subst x v w e) (\<lambda>a. fn e x (a(v := fn e w a))) (supp e x - {v} \<union> supp e w)"
proof -
  obtain h e1 where h: "cofactor x v True e = Some (h, e1)" "yields e e1 h (\<lambda>a. fn e x (a(v := True))) (supp e x - {v})"
    using cofactor_gives [OF e x, of v True] by (auto simp: gives_def)
  note H = yieldsD [OF h(2)]
  note up = grows_ref [OF e H(2)]
  obtain l e2 where l: "cofactor x v False e1 = Some (l, e2)" "yields e1 e2 l (\<lambda>a. fn e x (a(v := False))) (supp e x - {v})"
    using cofactor_gives [OF H(1) up(2) [OF x], of v False] by (auto simp: gives_def up(1) [OF x])
  note L = yieldsD [OF l(2)]
  note up' = grows_ref [OF H(1) L(2)]
  have wt: "tree (be_V e2) w = tree (be_V e) w" using up'(1) [OF up(2) [OF w]] up(1) [OF w] by simp
  have "gives e1 (bdd_ite w h l e2) (\<lambda>a. if fn e w a then fn e1 h a else fn e x (a(v := False))) (supp e w \<union> supp e1 h \<union> (supp e x - {v}))"
    by (rule gives_step [OF l(2) bdd_ite_gives [OF L(1) up'(2) [OF up(2) [OF w]] up'(2) [OF H(3)] L(3)]])
      (use L(4) in \<open>auto simp: wt up'(1) [OF H(3)]\<close>)
  then have "gives e (bdd_ite w h l e2) (\<lambda>a. fn e x (a(v := fn e w a))) (supp e x - {v} \<union> supp e w)"
    by (rule gives_step [OF h(2)]) (use H(4) in \<open>auto split: if_splits\<close>)
  then show ?thesis by (simp add: bdd_subst_def h(1) l(1))
qed

end
