(* ===== verification/Bdd_Read.thy ===== *)
theory Bdd_Read imports Bdd_Ops begin

text \<open>
  The operations that read a function: its value at an assignment, its variables, its clauses, an
  assignment where it is zero.
\<close>

section \<open>Walking down a reference\<close>

text \<open>The induction all walks share: a property of the constants that a node has from its children.\<close>

lemma ref_induct [consumes 2, case_names const node]:
  assumes e: "engine_ok e" and x: "ref_ok (be_V e) x"
    and const: "\<And>x. x = bdd_T \<or> x = bdd_F \<Longrightarrow> P x"
    and node: "\<And>x v h l. ref_ok (be_V e) x \<Longrightarrow> \<not> leaf x \<Longrightarrow> get_node e x = (v, h, l) \<Longrightarrow>
      tree (be_V e) x = Node v (tree (be_V e) h) (tree (be_V e) l) \<Longrightarrow> 1 \<le> v \<Longrightarrow> v < 2 ^ shift_width \<Longrightarrow> h \<noteq> l \<Longrightarrow>
      (\<And>w. w \<in> supp e h \<union> supp e l \<Longrightarrow> v < w) \<Longrightarrow> ref_ok (be_V e) h \<Longrightarrow> ref_ok (be_V e) l \<Longrightarrow> P h \<Longrightarrow> P l \<Longrightarrow> P x"
  shows "P x"
  using x
proof (induction "br_id x" arbitrary: x rule: less_induct)
  case less
  show ?case
  proof (cases "leaf x")
    case True
    then show ?thesis using const leaf_cases [OF less.prems] by (simp add: leaf_iff)
  next
    case False
    then have id: "br_id x \<noteq> 0" by (simp add: leaf_iff)
    obtain v h l where n: "get_node e x = (v, h, l)" "v = br_shift x" "ref_ok (be_V e) h" "ref_ok (be_V e) l"
      "br_id h < br_id x" "br_id l < br_id x" "h \<noteq> l" "tree (be_V e) x = Node v (tree (be_V e) h) (tree (be_V e) l)"
      "1 \<le> v" "v < 2 ^ shift_width" "\<And>w. w \<in> supp e h \<union> supp e l \<Longrightarrow> v < w"
      using node_parts [OF e less.prems id] by metis
    show ?thesis
      by (rule node [OF less.prems False n(1,8,9,10,7,11) n(3,4) less.hyps [OF n(5,3)] less.hyps [OF n(6,4)]])
  qed
qed

lemma leaf_constants [simp]: "leaf bdd_T" "leaf bdd_F"
  by (simp_all add: leaf_iff)

section \<open>Evaluation\<close>

lemma bdd_eval_value:
  assumes "engine_ok e" "ref_ok (be_V e) x" "\<And>v. v \<in> supp e x \<Longrightarrow> m (int v) = Some (a v)"
  shows "bdd_eval e x m = Some (fn e x a)"
  using assms
proof (induction rule: ref_induct)
  case (const x)
  then show ?case by (subst bdd_eval.simps) auto
next
  case (node x v h l)
  have "m (int v) = Some (a v)" "bdd_eval e h m = Some (fn e h a)" "bdd_eval e l m = Some (fn e l a)"
    using node.prems node.IH by (simp_all add: node.hyps(4))
  then show ?case using node.hyps(2,3,4) by (subst bdd_eval.simps) simp
qed

section \<open>Variables\<close>

lemma depends:
  "reduced t \<Longrightarrow> v \<in> vars t \<longleftrightarrow> (\<exists>a. ev t (a(v := True)) \<noteq> ev t (a(v := False)))"
proof (induction t)
  case (Leaf b)
  then show ?case by simp
next
  case (Node w h l)
  have out: "w \<notin> vars h" "w \<notin> vars l" using Node.prems by auto
  show ?case
  proof
    assume "v \<in> vars (Node w h l)"
    then consider "v = w" | "v \<in> vars h" | "v \<in> vars l" by auto
    then show "\<exists>a. ev (Node w h l) (a(v := True)) \<noteq> ev (Node w h l) (a(v := False))"
    proof cases
      case 1
      obtain a where "ev h a \<noteq> ev l a" using reduced_unique [of h l] Node.prems by auto
      then show ?thesis using reduced_branches [OF Node.prems] 1 by metis
    next
      case 2
      have "reduced h" using Node.prems by simp
      then obtain a where "ev h (a(v := True)) \<noteq> ev h (a(v := False))" using 2 Node.IH(1) by blast
      moreover have "v \<noteq> w" using 2 out by blast
      ultimately show ?thesis by (intro exI [of _ "a(w := True)"]) (simp add: fun_upd_twist ev_upd out)
    next
      case 3
      have "reduced l" using Node.prems by simp
      then obtain a where "ev l (a(v := True)) \<noteq> ev l (a(v := False))" using 3 Node.IH(2) by blast
      moreover have "v \<noteq> w" using 3 out by blast
      ultimately show ?thesis by (intro exI [of _ "a(w := False)"]) (simp add: fun_upd_twist ev_upd out)
    qed
  qed (metis ev_upd)
qed

fun cells :: "bdt \<Rightarrow> nat" where
  "cells (Leaf b) = 1"
| "cells (Node v h l) = 1 + cells h + cells l"

text \<open>Nodes already read have their variable taken and their children read or waiting.\<close>

definition read_up :: "bdd_engine \<Rightarrow> bdd_ref list \<Rightarrow> bdd_ref set \<Rightarrow> int set \<Rightarrow> bool" where
  "read_up e todo seen s \<longleftrightarrow> (\<forall>y \<in> seen. case get_node e y of (v, h, l) \<Rightarrow> int v \<in> s \<and>
     (\<forall>c \<in> {h, l}. leaf c \<or> c \<in> seen \<or> c \<in> set todo))"

lemma read_up_closed:
  assumes "engine_ok e" "ref_ok (be_V e) x" "read_up e [] seen s" "x \<in> seen \<or> leaf x"
  shows "int ` supp e x \<subseteq> s"
  using assms
proof (induction rule: ref_induct)
  case (const x)
  then show ?case by auto
next
  case (node x v h l)
  then have "int v \<in> s" "h \<in> seen \<or> leaf h" "l \<in> seen \<or> leaf l" by (auto simp: read_up_def)
  then show ?case using node by auto
qed

lemma vars_loop_run:
  assumes e: "engine_ok e"
  shows "\<forall>y \<in> set todo. ref_ok (be_V e) y \<Longrightarrow> read_up e todo seen s \<Longrightarrow>
    \<exists>s' seen'. vars_loop e todo seen s = Some s' \<and> read_up e [] seen' s' \<and> s \<subseteq> s' \<and>
      (\<forall>y \<in> set todo. y \<in> seen' \<or> leaf y) \<and> seen \<subseteq> seen' \<and> s' \<subseteq> s \<union> (\<Union>y \<in> set todo. int ` supp e y)"
proof (induction "sum_list (map (cells \<circ> tree (be_V e)) todo)" arbitrary: todo seen s rule: less_induct)
  case less
  show ?case
  proof (cases todo)
    case Nil
    then show ?thesis using less.prems by (subst vars_loop.simps) auto
  next
    case (Cons y rest)
    have y: "ref_ok (be_V e) y" using less.prems(1) Cons by simp
    show ?thesis
    proof (cases "leaf y \<or> y \<in> seen")
      case True
      have "0 < cells (tree (be_V e) y)" by (cases "tree (be_V e) y") auto
      then have small: "sum_list (map (cells \<circ> tree (be_V e)) rest) < sum_list (map (cells \<circ> tree (be_V e)) todo)"
        by (simp add: Cons)
      have "read_up e rest seen s" using less.prems(2) True by (fastforce simp: read_up_def Cons)
      from less.hyps [OF small _ this] obtain s' seen' where r: "vars_loop e rest seen s = Some s'" "read_up e [] seen' s'" "s \<subseteq> s'"
        "\<forall>y \<in> set rest. y \<in> seen' \<or> leaf y" "seen \<subseteq> seen'" "s' \<subseteq> s \<union> (\<Union>y \<in> set rest. int ` supp e y)"
        using less.prems(1) Cons by auto
      have "vars_loop e todo seen s = Some s'" using True r(1) unfolding Cons by (subst vars_loop.simps) simp
      then show ?thesis using r True unfolding Cons by (intro exI [of _ s'] exI [of _ seen']) auto
    next
      case False
      then have id: "br_id y \<noteq> 0" by (simp add: leaf_iff)
      obtain v h l where n: "get_node e y = (v, h, l)" "ref_ok (be_V e) h" "ref_ok (be_V e) l"
        "tree (be_V e) y = Node v (tree (be_V e) h) (tree (be_V e) l)"
        using node_parts [OF e y id] by metis
      have small: "sum_list (map (cells \<circ> tree (be_V e)) (l # h # rest)) < sum_list (map (cells \<circ> tree (be_V e)) todo)"
        by (simp add: Cons n(4))
      have "read_up e (l # h # rest) (insert y seen) (insert (int v) s)"
        using less.prems(2) n(1) by (fastforce simp: read_up_def Cons)
      from less.hyps [OF small _ this] obtain s' seen' where r: "vars_loop e (l # h # rest) (insert y seen) (insert (int v) s) = Some s'"
        "read_up e [] seen' s'" "insert (int v) s \<subseteq> s'" "\<forall>y \<in> set (l # h # rest). y \<in> seen' \<or> leaf y" "insert y seen \<subseteq> seen'"
        "s' \<subseteq> insert (int v) s \<union> (\<Union>y \<in> set (l # h # rest). int ` supp e y)"
        using less.prems(1) Cons n(2,3) by auto
      have "vars_loop e todo seen s = Some s'"
        using False r(1) unfolding Cons by (subst vars_loop.simps) (simp add: n(1) signed_lit_def)
      moreover have "s' \<subseteq> s \<union> (\<Union>y \<in> set todo. int ` supp e y)" using r(6) by (auto simp: Cons n(4))
      ultimately show ?thesis using r(2-5) unfolding Cons by (intro exI [of _ s'] exI [of _ seen']) auto
    qed
  qed
qed

lemma get_vars_value:
  assumes e: "engine_ok e" and x: "ref_ok (be_V e) x"
  shows "get_vars e x = Some (int ` supp e x)"
proof -
  obtain s seen where s: "vars_loop e [x] {} {} = Some s" "read_up e [] seen s" "x \<in> seen \<or> leaf x" "s \<subseteq> int ` supp e x"
    using vars_loop_run [OF e, of "[x]" "{}" "{}"] x by (auto simp: read_up_def)
  then have "int ` supp e x \<subseteq> s" using read_up_closed [OF e x] by blast
  then have "s = int ` supp e x" using s(4) by blast
  then show ?thesis using s(1) by (simp add: get_vars_def)
qed

section \<open>Clauses\<close>

fun paths :: "bdt \<Rightarrow> int list list" where
  "paths (Leaf b) = (if b then [[]] else [])"
| "paths (Node v h l) = map ((#) (int v)) (paths h) @ map ((#) (- int v)) (paths l)"

text \<open>The caller's function on the clauses in turn, until it answers false.\<close>

fun feed :: "(bool \<times> int list \<Rightarrow> 's \<Rightarrow> bool \<times> 's) \<Rightarrow> int list list \<Rightarrow> 's \<Rightarrow> bool \<times> 's" where
  "feed f [] s = (True, s)"
| "feed f (p # ps) s = (case f (True, p) s of (more_paths, s) \<Rightarrow> if more_paths then feed f ps s else (False, s))"

lemma feed_append: "feed f (ps @ qs) s = (case feed f ps s of (b, s) \<Rightarrow> if b then feed f qs s else (False, s))"
  by (induction ps arbitrary: s) (auto split: prod.splits)

lemma bdd_dnf_feed:
  assumes "engine_ok e" "ref_ok (be_V e) x"
  shows "bdd_dnf e x v f s = Some (feed f (map ((@) v) (paths (tree (be_V e) x))) s)"
  using assms
proof (induction arbitrary: v s rule: ref_induct)
  case (const x)
  then show ?case by (subst bdd_dnf.simps) (auto split: prod.splits)
next
  case (node x w h l)
  have step: "(@) (v @ [i]) = (\<lambda>p. v @ i # p)" for i by auto
  show ?case
    using node.hyps(2,3) node.IH
    by (subst bdd_dnf.simps) (auto simp: node.hyps(4) feed_append signed_lit_def step comp_def split: prod.splits)
qed

lemma paths_ev:
  "(\<And>w. w \<in> vars t \<Longrightarrow> 1 \<le> w) \<Longrightarrow> ev t a \<longleftrightarrow> (\<exists>p \<in> set (paths t). \<forall>i \<in> set p. a (lit_var i) \<longleftrightarrow> 0 < i)"
proof (induction t)
  case (Node v h l)
  then have "1 \<le> v" "ev h a \<longleftrightarrow> (\<exists>p \<in> set (paths h). \<forall>i \<in> set p. a (lit_var i) \<longleftrightarrow> 0 < i)"
    "ev l a \<longleftrightarrow> (\<exists>p \<in> set (paths l). \<forall>i \<in> set p. a (lit_var i) \<longleftrightarrow> 0 < i)" by auto
  then show ?case by (auto simp: lit_var_def bex_Un)
qed simp

section \<open>A zero\<close>

lemma put_greatest: "(\<And>k'. k' \<in> fst ` set m \<Longrightarrow> k' < k) \<Longrightarrow> put k v m = m @ [(k, v)]"
  by (induction m) force+

lemma zero_loop_path:
  assumes "engine_ok e" "ref_ok (be_V e) x" "x \<noteq> bdd_T" "\<And>k w. k \<in> fst ` set m \<Longrightarrow> w \<in> supp e x \<Longrightarrow> k < int w"
  shows "\<exists>p. zero_loop e x m = Some (m @ p) \<and> sorted_wrt (<) (map fst p) \<and> fst ` set p \<subseteq> int ` supp e x \<and>
    (\<forall>a. (\<forall>(k, b) \<in> set p. a (nat k) = b) \<longrightarrow> \<not> fn e x a)"
  using assms
proof (induction arbitrary: m rule: ref_induct)
  case (const x)
  then show ?case by (subst zero_loop.simps) auto
next
  case (node x v h l)
  define c where "c = (if l = bdd_T then h else l)"
  have c: "c \<noteq> bdd_T" "supp e c \<subseteq> supp e h \<union> supp e l" using node.hyps(7) by (auto simp: c_def)
  have put: "put (int v) (l = bdd_T) m = m @ [(int v, l = bdd_T)]"
    by (rule put_greatest) (use node.prems(2) in \<open>auto simp: node.hyps(4)\<close>)
  have keys: "k < int w" if "k \<in> fst ` set (m @ [(int v, l = bdd_T)])" "w \<in> supp e c" for k w
    using that node.prems(2) [of k w] node.hyps(8) [of w] c(2) by (auto simp: node.hyps(4))
  have "\<exists>p. zero_loop e c (m @ [(int v, l = bdd_T)]) = Some ((m @ [(int v, l = bdd_T)]) @ p) \<and> sorted_wrt (<) (map fst p) \<and>
      fst ` set p \<subseteq> int ` supp e c \<and> (\<forall>a. (\<forall>(k, b) \<in> set p. a (nat k) = b) \<longrightarrow> \<not> fn e c a)"
  proof (cases "l = bdd_T")
    case True
    then have ch: "c = h" by (simp add: c_def)
    show ?thesis unfolding ch
    proof (rule node.IH(1))
      show "h \<noteq> bdd_T" using c(1) ch by simp
      show "k < int w" if "k \<in> fst ` set (m @ [(int v, l = bdd_T)])" "w \<in> supp e h" for k w using keys [OF that(1)] that(2) ch by simp
    qed
  next
    case False
    then have cl: "c = l" by (simp add: c_def)
    show ?thesis unfolding cl
    proof (rule node.IH(2))
      show "l \<noteq> bdd_T" by (rule False)
      show "k < int w" if "k \<in> fst ` set (m @ [(int v, l = bdd_T)])" "w \<in> supp e l" for k w using keys [OF that(1)] that(2) cl by simp
    qed
  qed
  then obtain p where p: "zero_loop e c (m @ [(int v, l = bdd_T)]) = Some ((m @ [(int v, l = bdd_T)]) @ p)" "sorted_wrt (<) (map fst p)"
    "fst ` set p \<subseteq> int ` supp e c" "\<forall>a. (\<forall>(k, b) \<in> set p. a (nat k) = b) \<longrightarrow> \<not> fn e c a" by blast
  have "zero_loop e x m = Some (m @ (int v, l = bdd_T) # p)"
    using node.hyps(2) p(1) by (subst zero_loop.simps) (simp add: node.hyps(3) put c_def Let_def)
  moreover have "sorted_wrt (<) (map fst ((int v, l = bdd_T) # p))"
    using p(2,3) node.hyps(8) c(2) by fastforce
  moreover have "fst ` set ((int v, l = bdd_T) # p) \<subseteq> int ` supp e x"
    using p(3) c(2) by (auto simp: node.hyps(4))
  moreover have "\<not> fn e x a" if "\<forall>(k, b) \<in> set ((int v, l = bdd_T) # p). a (nat k) = b" for a
    using that p(4) unfolding node.hyps(4) c_def by (cases "l = bdd_T") auto
  ultimately show ?case by blast
qed

section \<open>The promises\<close>

text \<open>What the reading operations answer on references of a well-formed engine, together.\<close>

lemma get_one_zero_value:
  assumes e: "engine_ok e" and x: "ref_ok (be_V e) x" "x \<noteq> bdd_T"
  shows "\<exists>p. get_one_zero e x = Some (Inr p) \<and> sorted_wrt (<) (map fst p) \<and> fst ` set p \<subseteq> int ` supp e x \<and>
    (\<forall>a. (\<forall>(k, b) \<in> set p. a (nat k) = b) \<longrightarrow> \<not> fn e x a)"
  using zero_loop_path [OF e x, of "[]"] x(2) by (auto simp: get_one_zero_def)

end
