(* ===== verification/Bdd_Build.thy ===== *)
theory Bdd_Build imports Bdd_Read begin

text \<open>
  Literals, simultaneous substitution, and the operations that take clauses out of a function or
  cut it with a new variable.
\<close>

section \<open>Literals\<close>

lemma add_self:
  assumes e: "engine_ok e" and v: "1 \<le> v"
  shows "gives e (Some (bdd_add v bdd_T bdd_F e)) (\<lambda>a. a v) {v}"
    and "gives e (Some (bdd_add v bdd_F bdd_T e)) (\<lambda>a. \<not> a v) {v}"
proof -
  have c: "yields e e bdd_T (\<lambda>a. True) {}" "yields e e bdd_F (\<lambda>a. False) {}"
    using yields_self [OF e constants_ok(1) [OF e]] yields_self [OF e constants_ok(2) [OF e]] by simp_all
  show "gives e (Some (bdd_add v bdd_T bdd_F e)) (\<lambda>a. a v) {v}"
    by (rule gives_mono [OF add_results [OF c v]]) auto
  show "gives e (Some (bdd_add v bdd_F bdd_T e)) (\<lambda>a. \<not> a v) {v}"
    by (rule gives_mono [OF add_results [OF c(2,1) v]]) auto
qed

lemma bdd_bit_gives:
  assumes e: "engine_ok e" and v: "v \<noteq> 0"
  shows "gives e (Some (bdd_bit v e)) (\<lambda>a. a (lit_var v) \<longleftrightarrow> 0 < v) {lit_var v}"
proof -
  define e' where "e' = e\<lparr>be_names := snd (var_name \<bar>v\<bar> (be_names e))\<rparr>"
  have e': "engine_ok e'" "grows e e'" using e by (simp_all add: e'_def engine_ok_def grows_def)
  have "1 \<le> lit_var v" using v by (simp add: lit_var_def)
  note add = add_self [OF e'(1) this]
  show ?thesis
    by (cases "0 < v") (use gives_from [OF e'(2) add(1)] gives_from [OF e'(2) add(2)] in \<open>simp_all add: bdd_bit_def e'_def\<close>)
qed

section \<open>Composition\<close>

text \<open>The assignment under which the substituted function is read, and the variables it reads.\<close>

definition composed :: "bdd_engine \<Rightarrow> (int \<rightharpoonup> bdd_ref) \<Rightarrow> (nat \<Rightarrow> bool) \<Rightarrow> nat \<Rightarrow> bool" where
  "composed e m a v = (case m (int v) of None \<Rightarrow> a v | Some w \<Rightarrow> fn e w a)"

definition composed_vars :: "bdd_engine \<Rightarrow> (int \<rightharpoonup> bdd_ref) \<Rightarrow> nat \<Rightarrow> nat set" where
  "composed_vars e m v = (case m (int v) of None \<Rightarrow> {v} | Some w \<Rightarrow> supp e w)"

lemma composed_grows:
  assumes "engine_ok e" "grows e e'" "\<forall>w \<in> ran m. ref_ok (be_V e) w"
  shows "composed e' m = composed e m" "composed_vars e' m = composed_vars e m"
  using grows_ref(1) [OF assms(1,2)] assms(3) ranI [of m]
  by (auto simp: composed_def composed_vars_def fun_eq_iff split: option.splits)

text \<open>The function put for a variable.\<close>

lemma composed_var:
  assumes e: "engine_ok e" and v: "1 \<le> v" and m: "\<forall>w \<in> ran m. ref_ok (be_V e) w"
  shows "gives e (Some (case m (int v) of None \<Rightarrow> bdd_add v bdd_T bdd_F e | Some w \<Rightarrow> (w, e)))
    (\<lambda>a. composed e m a v) (composed_vars e m v)"
  using add_self(1) [OF e v] yields_self [OF e] m ranI [of m] by (auto simp: composed_def composed_vars_def split: option.splits)

lemma bdd_compose_gives:
  "engine_ok e \<Longrightarrow> ref_ok (be_V e) x \<Longrightarrow> \<forall>w \<in> ran m. ref_ok (be_V e) w \<Longrightarrow>
    gives e (bdd_compose x m e) (\<lambda>a. fn e x (composed e m a)) (\<Union> (composed_vars e m ` supp e x))"
proof (induction "br_id x" arbitrary: x e rule: less_induct)
  case less
  note e = less.prems(1) and x = less.prems(2) and m = less.prems(3)
  show ?case
  proof (cases "leaf x")
    case True
    then show ?thesis
      using yields_self [OF e x] leaf_self [OF e x True] by (subst bdd_compose.simps) simp
  next
    case inner: False
    then have id: "br_id x \<noteq> 0" by (simp add: leaf_iff)
    obtain v h l where n: "get_node e x = (v, h, l)" "v = br_shift x" "ref_ok (be_V e) h" "ref_ok (be_V e) l"
      "br_id h < br_id x" "br_id l < br_id x" "h \<noteq> l" "tree (be_V e) x = Node v (tree (be_V e) h) (tree (be_V e) l)"
      "1 \<le> v" "v < 2 ^ shift_width" "\<And>w. w \<in> supp e h \<union> supp e l \<Longrightarrow> v < w"
      using node_parts [OF e x id] by metis
    let ?U = "\<lambda>x. \<Union> (composed_vars e m ` supp e x)"
    obtain p e1 where p: "bdd_compose h m e = Some (p, e1)" "yields e e1 p (\<lambda>a. fn e h (composed e m a)) (?U h)"
      using less.hyps [OF n(5) e n(3) m] by (auto simp: gives_def)
    note P = yieldsD [OF p(2)]
    note up1 = grows_ref [OF e P(2)] and same1 = composed_grows [OF e P(2) m]
    have m1: "\<forall>w \<in> ran m. ref_ok (be_V e1) w" using m up1(2) by blast
    obtain q e2 where q: "bdd_compose l m e1 = Some (q, e2)" "yields e1 e2 q (\<lambda>a. fn e l (composed e m a)) (?U l)"
      using less.hyps [OF n(6) P(1) up1(2) [OF n(4)] m1] by (auto simp: gives_def same1 up1(1) [OF n(4)])
    note Q = yieldsD [OF q(2)]
    note up2 = grows_ref [OF P(1) Q(2)] and same2 = composed_grows [OF P(1) Q(2) m1]
    have m2: "\<forall>w \<in> ran m. ref_ok (be_V e2) w" using m1 up2(2) by blast
    obtain c e3 where c: "(case m (int v) of None \<Rightarrow> bdd_add v bdd_T bdd_F e2 | Some w \<Rightarrow> (w, e2)) = (c, e3)" by (rule prod.exhaust)
    have cy: "yields e2 e3 c (\<lambda>a. composed e m a v) (composed_vars e m v)"
      using composed_var [OF Q(1) n(9) m2] unfolding c by (simp add: same1 same2)
    note C = yieldsD [OF cy]
    note up3 = grows_ref [OF Q(1) C(2)]
    have ite: "gives e3 (bdd_ite c p q e3) (\<lambda>a. if fn e3 c a then fn e1 p a else fn e2 q a) (supp e3 c \<union> supp e1 p \<union> supp e2 q)"
      using bdd_ite_gives [OF C(1) C(3) up3(2) [OF up2(2) [OF P(3)]] up3(2) [OF Q(3)]]
      unfolding up3(1) [OF up2(2) [OF P(3)]] up2(1) [OF P(3)] up3(1) [OF Q(3)] .
    have "gives e2 (bdd_ite c p q e3) (\<lambda>a. if composed e m a v then fn e1 p a else fn e2 q a) (composed_vars e m v \<union> ?U h \<union> ?U l)"
      by (rule gives_step [OF cy ite]) (use C(4) P(4) Q(4) in auto)
    then have "gives e1 (bdd_ite c p q e3) (\<lambda>a. if composed e m a v then fn e1 p a else fn e l (composed e m a)) (composed_vars e m v \<union> ?U h \<union> ?U l)"
      by (rule gives_step [OF q(2)]) auto
    then have "gives e (bdd_ite c p q e3) (\<lambda>a. if composed e m a v then fn e h (composed e m a) else fn e l (composed e m a)) (composed_vars e m v \<union> ?U h \<union> ?U l)"
      by (rule gives_step [OF p(2)]) auto
    then have "gives e (bdd_ite c p q e3) (\<lambda>a. fn e x (composed e m a)) (?U x)"
      by (rule gives_mono) (auto simp: n(8))
    moreover have "bdd_compose x m e = bdd_ite c p q e3"
      using inner p(1) q(1) c by (subst bdd_compose.simps) (simp add: n(1))
    ultimately show ?thesis by simp
  qed
qed

section \<open>Taking clauses out\<close>

text \<open>What the three operations do to the decision tree.\<close>

fun without_first :: "bdt \<Rightarrow> bdt" where
  "without_first (Leaf b) = Leaf False"
| "without_first (Node v h l) =
     (if l = Leaf False then Node v (without_first h) (Leaf False)
      else if (case h of Leaf b \<Rightarrow> True | _ \<Rightarrow> False) then Node v h (without_first l)
      else Node v (without_first h) l)"

fun single_clause :: "bdt \<Rightarrow> bdt" where
  "single_clause (Leaf b) = Leaf False"
| "single_clause (Node v h l) =
     (if h = Leaf True then Node v (Leaf True) (Leaf False)
      else if l = Leaf True then Node v (Leaf False) (Leaf True)
      else if h = Leaf False then Node v (Leaf False) (single_clause l)
      else Node v (single_clause h) (Leaf False))"

fun high_half :: "bdt \<Rightarrow> bdt" where
  "high_half (Leaf b) = Leaf False"
| "high_half (Node v h l) = (if l = Leaf False then Node v (high_half h) (Leaf False) else Node v h (Leaf False))"

lemma clause_vars: "vars (without_first t) \<subseteq> vars t" "vars (single_clause t) \<subseteq> vars t" "vars (high_half t) \<subseteq> vars t"
  by (induction t) auto

lemma clause_below: "ev (without_first t) a \<Longrightarrow> ev t a" "ev (single_clause t) a \<Longrightarrow> ev t a" "ev (high_half t) a \<Longrightarrow> ev t a"
  by (induction t) (auto split: if_splits)

lemma satisfiable: "reduced t \<Longrightarrow> t \<noteq> Leaf False \<Longrightarrow> \<exists>a. ev t a"
  using reduced_const [of t False] by blast

text \<open>Below a node, an assignment can be moved into either branch.\<close>

lemma into_branch:
  assumes "reduced (Node v h l)" "vars s \<subseteq> vars h \<union> vars l"
  obtains c where "c v = b" "ev h c = ev h a" "ev l c = ev l a" "ev s c = ev s a"
proof -
  have "v \<notin> vars h" "v \<notin> vars l" "v \<notin> vars s" using assms by auto
  then have "ev h (a(v := b)) = ev h a" "ev l (a(v := b)) = ev l a" "ev s (a(v := b)) = ev s a" by (simp_all only: ev_upd not_False_eq_True)
  then show thesis using that [of "a(v := b)"] by simp
qed

lemma without_first_strict: "reduced t \<Longrightarrow> t \<noteq> Leaf False \<Longrightarrow> \<exists>a. ev t a \<and> \<not> ev (without_first t) a"
proof (induction t)
  case (Node v h l)
  have sub: "vars (without_first h) \<subseteq> vars h \<union> vars l" "vars (without_first l) \<subseteq> vars h \<union> vars l" using clause_vars(1) by blast+
  show ?case
  proof (cases "l \<noteq> Leaf False \<and> (case h of Leaf b \<Rightarrow> True | _ \<Rightarrow> False)")
    case True
    then obtain a where a: "ev l a" "\<not> ev (without_first l) a" using Node by auto
    obtain c where "c v = False" "ev l c = ev l a" "ev (without_first l) c = ev (without_first l) a"
      using into_branch [OF Node.prems(1) sub(2)] by metis
    then show ?thesis using a True by (intro exI [of _ c]) simp
  next
    case False
    then have "h \<noteq> Leaf False" using Node.prems by (auto split: bdt.splits)
    then obtain a where a: "ev h a" "\<not> ev (without_first h) a" using Node by auto
    obtain c where "c v = True" "ev h c = ev h a" "ev (without_first h) c = ev (without_first h) a"
      using into_branch [OF Node.prems(1) sub(1)] by metis
    then show ?thesis using a False by (intro exI [of _ c]) auto
  qed
qed simp

lemma high_half_strict: "reduced t \<Longrightarrow> t \<noteq> Leaf False \<Longrightarrow> \<exists>a. ev t a \<and> \<not> ev (high_half t) a"
proof (induction t)
  case (Node v h l)
  have sub: "vars (high_half h) \<subseteq> vars h \<union> vars l" using clause_vars(3) by blast
  show ?case
  proof (cases "l = Leaf False")
    case True
    then obtain a where a: "ev h a" "\<not> ev (high_half h) a" using Node by auto
    obtain c where "c v = True" "ev h c = ev h a" "ev (high_half h) c = ev (high_half h) a"
      using into_branch [OF Node.prems(1) sub] by metis
    then show ?thesis using a True by (intro exI [of _ c]) simp
  next
    case False
    then obtain a where a: "ev l a" using satisfiable Node.prems by auto
    obtain c where "c v = False" "ev l c = ev l a" using into_branch [OF Node.prems(1) sub] by metis
    then show ?thesis using a False by (intro exI [of _ c]) simp
  qed
qed simp

text \<open>The single clause is one path of the function, read alone.\<close>

lemma single_clause_path:
  "reduced t \<Longrightarrow> (\<forall>b. t \<noteq> Leaf b) \<Longrightarrow> \<exists>p \<in> set (paths t). paths (single_clause t) = [p]"
proof (induction t)
  case (Node v h l)
  consider "h = Leaf True" | "h \<noteq> Leaf True" "l = Leaf True" | "h = Leaf False" "l \<noteq> Leaf True" | "\<forall>b. h \<noteq> Leaf b" "l \<noteq> Leaf True"
    by (metis (full_types))
  then show ?case
  proof cases
    case 3
    then have "\<forall>b. l \<noteq> Leaf b" using Node.prems by auto
    then obtain p where "p \<in> set (paths l)" "paths (single_clause l) = [p]" using Node by auto
    then show ?thesis using 3 by auto
  next
    case 4
    then obtain p where "p \<in> set (paths h)" "paths (single_clause h) = [p]" using Node by auto
    then show ?thesis using 4 by auto
  qed auto
qed blast

lemma add_high:
  assumes "engine_ok e" "yields e e1 r f S" "ref_ok (be_V e) l" "1 \<le> v" "\<And>w. w \<in> S \<union> supp e l \<Longrightarrow> v < w"
  shows "gives e (Some (bdd_add v r l e1)) (\<lambda>a. if a v then f a else fn e l a) (insert v (S \<union> supp e l))"
proof -
  note up = grows_ref [OF assms(1) yieldsD(2) [OF assms(2)] assms(3)]
  have "yields e1 e1 l (fn e l) (supp e l)" using yields_self [OF yieldsD(1) [OF assms(2)] up(2)] up(1) by simp
  then show ?thesis by (rule add_results [OF assms(2) _ assms(4,5)])
qed

lemma add_low:
  assumes "engine_ok e" "yields e e1 r f S" "ref_ok (be_V e) h" "1 \<le> v" "\<And>w. w \<in> supp e h \<union> S \<Longrightarrow> v < w"
  shows "gives e (Some (bdd_add v h r e1)) (\<lambda>a. if a v then fn e h a else f a) (insert v (supp e h \<union> S))"
  using add_results [OF _ assms(2,4,5)] yields_self [OF assms(1,3)] by simp

text \<open>A result that is a decision tree.\<close>

definition builds :: "bdd_engine \<Rightarrow> (bdd_ref \<times> bdd_engine) option \<Rightarrow> bdt \<Rightarrow> bool" where
  "builds e res t \<longleftrightarrow> gives e res (ev t) (vars t)"

lemma builds_const:
  assumes "engine_ok e" shows "builds e (Some (bdd_F, e)) (Leaf False)"
  using yields_self [OF assms constants_ok(2) [OF assms]] by (simp add: builds_def)

lemma builds_high:
  assumes e: "engine_ok e" and r: "builds e res t" and l: "ref_ok (be_V e) l" and v: "1 \<le> v" "\<And>w. w \<in> vars t \<union> supp e l \<Longrightarrow> v < w"
  shows "builds e (res \<bind> (\<lambda>(r, e). Some (bdd_add v r l e))) (Node v t (tree (be_V e) l))"
proof -
  obtain r e1 where r': "res = Some (r, e1)" "yields e e1 r (ev t) (vars t)" using r by (auto simp: builds_def gives_def)
  show ?thesis
    unfolding builds_def r'(1) Option.bind.bind_lunit prod.case by (rule gives_mono [OF add_high [OF e r'(2) l v]]) auto
qed

lemma builds_low:
  assumes e: "engine_ok e" and r: "builds e res t" and h: "ref_ok (be_V e) h" and v: "1 \<le> v" "\<And>w. w \<in> supp e h \<union> vars t \<Longrightarrow> v < w"
  shows "builds e (res \<bind> (\<lambda>(r, e). Some (bdd_add v h r e))) (Node v (tree (be_V e) h) t)"
proof -
  obtain r e1 where r': "res = Some (r, e1)" "yields e e1 r (ev t) (vars t)" using r by (auto simp: builds_def gives_def)
  show ?thesis
    unfolding builds_def r'(1) Option.bind.bind_lunit prod.case by (rule gives_mono [OF add_low [OF e r'(2) h v]]) auto
qed

lemma builds_self: "engine_ok e \<Longrightarrow> ref_ok (be_V e) h \<Longrightarrow> builds e (Some (h, e)) (tree (be_V e) h)"
  by (simp add: builds_def yields_self)

lemma tree_const:
  assumes "engine_ok e" "ref_ok (be_V e) x"
  shows "tree (be_V e) x = Leaf True \<longleftrightarrow> x = bdd_T" "tree (be_V e) x = Leaf False \<longleftrightarrow> x = bdd_F"
  using tree_inj [OF engine_okD(1) [OF assms(1)] assms(2)] constants_ok [OF assms(1)] by (metis tree_leaf)+

lemma tree_leaf_case:
  assumes "engine_ok e" "ref_ok (be_V e) x"
  shows "(case tree (be_V e) x of Leaf b \<Rightarrow> True | _ \<Rightarrow> False) \<longleftrightarrow> leaf x"
  using tree_leaf_iff [OF engine_okD(1) [OF assms(1)] assms(2)] by (auto simp: leaf_iff split: bdt.splits)

lemma rm_clause_builds:
  assumes "engine_ok e" "ref_ok (be_V e) x"
  shows "builds e (rm_clause x e) (without_first (tree (be_V e) x))"
  using assms
proof (induction rule: ref_induct)
  case (const x)
  then show ?case using builds_const [OF assms(1)] by (subst rm_clause.simps) auto
next
  case (node x v h l)
  note e = assms(1) and c = clause_vars(1) [of "tree (be_V e) h"] clause_vars(1) [of "tree (be_V e) l"]
  note high = builds_high [OF e node.IH(1) _ node.hyps(5)] and low = builds_low [OF e node.IH(2) node.hyps(9,5)]
  have "rm_clause x e =
      (if l = bdd_F then rm_clause h e \<bind> (\<lambda>(r, e). Some (bdd_add v r bdd_F e))
       else if leaf h then rm_clause l e \<bind> (\<lambda>(r, e). Some (bdd_add v h r e))
       else rm_clause h e \<bind> (\<lambda>(r, e). Some (bdd_add v r l e)))"
    using node.hyps(2,3) by (subst rm_clause.simps) simp
  moreover have "builds e (rm_clause h e \<bind> (\<lambda>(r, e). Some (bdd_add v r bdd_F e))) (Node v (without_first (tree (be_V e) h)) (Leaf False))"
    using high [OF constants_ok(2) [OF e]] node.hyps(8) c by auto
  moreover have "builds e (rm_clause h e \<bind> (\<lambda>(r, e). Some (bdd_add v r l e))) (Node v (without_first (tree (be_V e) h)) (tree (be_V e) l))"
    using high [OF node.hyps(10)] node.hyps(8) c by auto
  moreover have "builds e (rm_clause l e \<bind> (\<lambda>(r, e). Some (bdd_add v h r e))) (Node v (tree (be_V e) h) (without_first (tree (be_V e) l)))"
    using low node.hyps(8) c by auto
  ultimately show ?case
    by (simp add: node.hyps(4) tree_const [OF e node.hyps(10)] tree_leaf_case [OF e node.hyps(9)])
qed

lemma rm_half_clauses_builds:
  assumes "engine_ok e" "ref_ok (be_V e) x"
  shows "builds e (rm_half_clauses x e) (high_half (tree (be_V e) x))"
  using assms
proof (induction rule: ref_induct)
  case (const x)
  then show ?case using builds_const [OF assms(1)] by (subst rm_half_clauses.simps) auto
next
  case (node x v h l)
  note e = assms(1) and c = clause_vars(3) [of "tree (be_V e) h"]
  have "rm_half_clauses x e =
      (if l = bdd_F then rm_half_clauses h e \<bind> (\<lambda>(r, e). Some (bdd_add v r bdd_F e)) else Some (bdd_add v h bdd_F e))"
    using node.hyps(2,3) by (subst rm_half_clauses.simps) simp
  moreover have "builds e (rm_half_clauses h e \<bind> (\<lambda>(r, e). Some (bdd_add v r bdd_F e))) (Node v (high_half (tree (be_V e) h)) (Leaf False))"
    using builds_high [OF e node.IH(1) constants_ok(2) [OF e] node.hyps(5)] node.hyps(8) c by auto
  moreover have "builds e (Some (bdd_add v h bdd_F e)) (Node v (tree (be_V e) h) (Leaf False))"
    using builds_high [OF e builds_self [OF e node.hyps(9)] constants_ok(2) [OF e] node.hyps(5)] node.hyps(8) by auto
  ultimately show ?case by (simp add: node.hyps(4) tree_const [OF e node.hyps(10)])
qed

lemma rm_all_except_one_clause_builds:
  assumes "engine_ok e" "ref_ok (be_V e) x"
  shows "builds e (rm_all_except_one_clause x e) (single_clause (tree (be_V e) x))"
  using assms
proof (induction rule: ref_induct)
  case (const x)
  then show ?case using builds_const [OF assms(1)] by (subst rm_all_except_one_clause.simps) auto
next
  case (node x v h l)
  note e = assms(1) and c = clause_vars(2) [of "tree (be_V e) h"] clause_vars(2) [of "tree (be_V e) l"]
  note F = constants_ok(2) [OF e] and T = constants_ok(1) [OF e]
  have "rm_all_except_one_clause x e =
      (if h = bdd_T then Some (bdd_add v bdd_T bdd_F e) else if l = bdd_T then Some (bdd_add v bdd_F bdd_T e)
       else if h = bdd_F then rm_all_except_one_clause l e \<bind> (\<lambda>(r, e). Some (bdd_add v bdd_F r e))
       else rm_all_except_one_clause h e \<bind> (\<lambda>(r, e). Some (bdd_add v r bdd_F e)))"
    using node.hyps(2,3) by (subst rm_all_except_one_clause.simps) simp
  moreover have "builds e (Some (bdd_add v bdd_T bdd_F e)) (Node v (Leaf True) (Leaf False))"
    "builds e (Some (bdd_add v bdd_F bdd_T e)) (Node v (Leaf False) (Leaf True))"
    using builds_high [OF e builds_self [OF e T] F node.hyps(5)] builds_high [OF e builds_self [OF e F] T node.hyps(5)] by simp_all
  moreover have "builds e (rm_all_except_one_clause l e \<bind> (\<lambda>(r, e). Some (bdd_add v bdd_F r e)))
      (Node v (Leaf False) (single_clause (tree (be_V e) l)))"
    using builds_low [OF e node.IH(2) F node.hyps(5)] node.hyps(8) c by auto
  moreover have "builds e (rm_all_except_one_clause h e \<bind> (\<lambda>(r, e). Some (bdd_add v r bdd_F e)))
      (Node v (single_clause (tree (be_V e) h)) (Leaf False))"
    using builds_high [OF e node.IH(1) F node.hyps(5)] node.hyps(8) c by auto
  ultimately show ?case
    by (simp add: node.hyps(4) tree_const [OF e node.hyps(10)] tree_const [OF e node.hyps(9)])
qed

section \<open>A new variable\<close>

fun top_var :: "bdt \<Rightarrow> nat" where
  "top_var (Leaf b) = 0"
| "top_var (Node v h l) = max v (max (top_var h) (top_var l))"

lemma top_var_bound: "w \<in> vars t \<Longrightarrow> w \<le> top_var t"
  by (induction t) (auto simp: le_max_iff_disj)

lemma highest_var_value:
  assumes "engine_ok e" "ref_ok (be_V e) x"
  shows "highest_var e x = Some (top_var (tree (be_V e) x))"
  using assms
proof (induction rule: ref_induct)
  case (const x)
  then show ?case by (subst highest_var.simps) auto
next
  case (node x v h l)
  then show ?case by (subst highest_var.simps) simp
qed

lemma split_clause_gives:
  assumes e: "engine_ok e" and x: "ref_ok (be_V e) x"
  shows "gives e (split_clause x e) (\<lambda>a. fn e x a \<and> a (top_var (tree (be_V e) x) + 1)) (insert (top_var (tree (be_V e) x) + 1) (supp e x))"
proof -
  define n where "n = top_var (tree (be_V e) x) + 1"
  have n: "lit_var (int n) = n" "int n \<noteq> 0" "0 < int n" by (simp_all add: lit_var_def n_def)
  obtain b e1 where b: "bdd_bit (int n) e = (b, e1)" by (rule prod.exhaust)
  have lit: "yields e e1 b (\<lambda>a. a n) {n}"
    using bdd_bit_gives [OF e n(2)] unfolding b n(1) gives_Some using n(3) by simp
  note B = yieldsD [OF lit]
  note up = grows_ref [OF e B(2)]
  have "gives e (bdd_and x b e1) (\<lambda>a. fn e x a \<and> a n) (insert n (supp e x))"
    by (rule gives_step [OF lit bdd_and_gives [OF B(1) up(2) [OF x] B(3)]]) (use B(4) in \<open>auto simp: up(1) [OF x]\<close>)
  moreover have "split_clause x e = bdd_and x b e1"
  proof (cases "leaf x")
    case True
    then have "n = 1" by (simp add: n_def leaf_self [OF e x])
    then show ?thesis using b True by (simp add: split_clause_def)
  next
    case False
    have "signed_lit n False = int n" by (simp add: signed_lit_def)
    then show ?thesis using False b highest_var_value [OF e x] by (simp add: split_clause_def n_def)
  qed
  ultimately show ?thesis by (simp add: n_def)
qed

end
