(* ===== verification/Bdd_Handle.thy ===== *)
theory Bdd_Handle imports Bdd_Build begin

text \<open>
  The handles of \<^verbatim>\<open>src/backends/bdds/bdd_handle.h\<close> over the two-element algebra. A shared pointer is
  an index in the list of the handles made so far, whose entries are the references they wrap; the
  table \<^verbatim>\<open>Mn\<close> interns a handle per decoded node.
\<close>

section \<open>The store\<close>

type_synonym handle = nat

record bdd_store =
  bs_engine :: bdd_engine
  bs_heap :: "bdd_ref list"
  bs_Mn :: "bdd_node \<rightharpoonup> handle"
  bs_hfalse :: "handle option"
  bs_htrue :: "handle option"

definition ref_of :: "bdd_store \<Rightarrow> handle \<Rightarrow> bdd_ref" where
  "ref_of s p = bs_heap s ! p"

definition handle_of_node :: "bdd_node \<Rightarrow> bdd_store \<Rightarrow> handle \<times> bdd_store" where
  "handle_of_node x s =
     (case bs_Mn s x of
        Some p \<Rightarrow> (p, s)
      | None \<Rightarrow> case x of (v, h, l) \<Rightarrow> case bdd_add v h l (bs_engine s) of (r, e) \<Rightarrow>
          let s = s\<lparr>bs_engine := e\<rparr> in
          if r = bdd_F \<and> bs_hfalse s \<noteq> None then (the (bs_hfalse s), s)
          else (length (bs_heap s),
            s\<lparr>bs_heap := bs_heap s @ [r], bs_Mn := emplace (bs_Mn s) x (length (bs_heap s))\<rparr>))"

definition handle_of_ref :: "bdd_ref \<Rightarrow> bdd_store \<Rightarrow> handle \<times> bdd_store" where
  "handle_of_ref t s = handle_of_node (get_node (bs_engine s) t) s"

definition handle_of_const :: "bool \<Rightarrow> bdd_store \<Rightarrow> handle" where
  "handle_of_const b s = (if b then the (bs_htrue s) else the (bs_hfalse s))"

definition bdd_store_init :: "string_table \<Rightarrow> bdd_store" where
  "bdd_store_init d =
     (let s = \<lparr>bs_engine = bdd_init d, bs_heap = [], bs_Mn = Map.empty, bs_hfalse = None, bs_htrue = None\<rparr>;
          (f, s) = handle_of_ref bdd_F s; s = s\<lparr>bs_hfalse := Some f\<rparr>;
          (t, s) = handle_of_ref bdd_T s
      in s\<lparr>bs_htrue := Some t\<rparr>)"

text \<open>An engine operation, and the handle of its result.\<close>

type_synonym 'a run = "('a \<times> bdd_store) option"

definition to_handle :: "bdd_store \<Rightarrow> (bdd_ref \<times> bdd_engine) option \<Rightarrow> handle run" where
  "to_handle s res = map_option (\<lambda>(r, e). handle_of_ref r (s\<lparr>bs_engine := e\<rparr>)) res"

section \<open>Operations\<close>

definition is_zero :: "bdd_store \<Rightarrow> handle \<Rightarrow> bool" where
  "is_zero s p \<longleftrightarrow> ref_of s p = bdd_F"

definition is_one :: "bdd_store \<Rightarrow> handle \<Rightarrow> bool" where
  "is_one s p \<longleftrightarrow> ref_of s p = bdd_T"

definition handle_eq :: "bdd_store \<Rightarrow> handle \<Rightarrow> handle \<Rightarrow> bool" where
  "handle_eq s p q \<longleftrightarrow> ref_of s p = ref_of s q"

definition handle_is :: "bdd_store \<Rightarrow> handle \<Rightarrow> bool \<Rightarrow> bool" where
  "handle_is s p b \<longleftrightarrow> (if b then is_one s p else is_zero s p)"

definition hb_one :: "bdd_store \<Rightarrow> handle \<times> bdd_store" where
  "hb_one s = handle_of_ref bdd_T s"

definition hb_zero :: "bdd_store \<Rightarrow> handle \<times> bdd_store" where
  "hb_zero s = handle_of_ref bdd_F s"

definition hb_bit :: "bool \<Rightarrow> nat \<Rightarrow> bdd_store \<Rightarrow> handle run" where
  "hb_bit b v s = to_handle s (Some (bdd_bit (signed_lit v (\<not> b)) (bs_engine s)))"

definition hb_and :: "handle \<Rightarrow> handle \<Rightarrow> bdd_store \<Rightarrow> handle run" where
  "hb_and p q s = to_handle s (bdd_and (ref_of s q) (ref_of s p) (bs_engine s))"

definition hb_not :: "handle \<Rightarrow> bdd_store \<Rightarrow> handle run" where
  "hb_not p s = to_handle s (Some (bdd_not (ref_of s p), bs_engine s))"

definition hb_or :: "handle \<Rightarrow> handle \<Rightarrow> bdd_store \<Rightarrow> handle run" where
  "hb_or p q s = hb_not q s \<bind> (\<lambda>(nq, s). hb_not p s \<bind> (\<lambda>(np, s). hb_and nq np s \<bind> (\<lambda>(r, s). hb_not r s)))"

definition hb_xor :: "handle \<Rightarrow> handle \<Rightarrow> bdd_store \<Rightarrow> handle run" where
  "hb_xor p q s =
     hb_not p s \<bind> (\<lambda>(np, s). hb_and q np s \<bind> (\<lambda>(a, s).
     hb_not q s \<bind> (\<lambda>(nq, s). hb_and p nq s \<bind> (\<lambda>(b, s). hb_or a b s))))"

definition hb_uelim :: "bdd_store \<Rightarrow> handle \<Rightarrow> bool" where
  "hb_uelim s p \<longleftrightarrow> get_uelim (ref_of s p)"

definition hb_eelim :: "bdd_store \<Rightarrow> handle \<Rightarrow> bool" where
  "hb_eelim s p \<longleftrightarrow> get_eelim (ref_of s p)"

definition hb_ex :: "int \<Rightarrow> handle \<Rightarrow> bdd_store \<Rightarrow> handle run" where
  "hb_ex v p s = to_handle s (bdd_ex (ref_of s p) (lit_var v) (bs_engine s))"

definition hb_all :: "int \<Rightarrow> handle \<Rightarrow> bdd_store \<Rightarrow> handle run" where
  "hb_all v p s = to_handle s (bdd_all (ref_of s p) (lit_var v) (bs_engine s))"

text \<open>A variable given as a \<^verbatim>\<open>size_t\<close> is cut to 32 bits.\<close>

definition hb_subst :: "nat \<Rightarrow> handle \<Rightarrow> handle \<Rightarrow> bdd_store \<Rightarrow> handle run" where
  "hb_subst v p q s = to_handle s (bdd_subst (ref_of s p) (v mod 2 ^ 32) (ref_of s q) (bs_engine s))"

definition hb_sub0 :: "nat \<Rightarrow> handle \<Rightarrow> bdd_store \<Rightarrow> handle run" where
  "hb_sub0 v p s = to_handle s (cofactor (ref_of s p) (v mod 2 ^ 32) False (bs_engine s))"

definition hb_sub1 :: "nat \<Rightarrow> handle \<Rightarrow> bdd_store \<Rightarrow> handle run" where
  "hb_sub1 v p s = to_handle s (cofactor (ref_of s p) (v mod 2 ^ 32) True (bs_engine s))"

definition hb_condition :: "nat \<Rightarrow> handle \<Rightarrow> handle \<Rightarrow> bdd_store \<Rightarrow> handle run" where
  "hb_condition v p f s =
     hb_sub0 v f s \<bind> (\<lambda>(f0, s). hb_subst v p f0 s \<bind> (\<lambda>(a, s).
     hb_sub1 v f s \<bind> (\<lambda>(f1, s). hb_not f1 s \<bind> (\<lambda>(g, s). hb_subst v p g s \<bind> (\<lambda>(b, s). hb_or a b s)))))"

definition hb_dnf :: "bdd_store \<Rightarrow> handle \<Rightarrow> (bool \<times> int list) set option" where
  "hb_dnf s p = map_option snd (bdd_dnf (bs_engine s) (ref_of s p) [] (\<lambda>c r. (True, insert c r)) {})"

definition hb_vars :: "bdd_store \<Rightarrow> handle \<Rightarrow> int set option" where
  "hb_vars s p = get_vars (bs_engine s) (ref_of s p)"

definition hb_one_zero :: "bdd_store \<Rightarrow> handle \<Rightarrow> (int \<times> bool) list result option" where
  "hb_one_zero s p = get_one_zero (bs_engine s) (ref_of s p)"

definition hb_compose :: "(int \<rightharpoonup> handle) \<Rightarrow> handle \<Rightarrow> bdd_store \<Rightarrow> handle run" where
  "hb_compose m p s = to_handle s (bdd_compose (ref_of s p) (map_option (ref_of s) \<circ> m) (bs_engine s))"

definition hb_eval :: "bdd_store \<Rightarrow> handle \<Rightarrow> (int \<rightharpoonup> bool) \<Rightarrow> bool option" where
  "hb_eval s p m = bdd_eval (bs_engine s) (ref_of s p) m"

section \<open>The general solution and the splitter\<close>

definition lgrs_entry :: "handle \<Rightarrow> int \<Rightarrow> bool \<Rightarrow> bdd_store \<Rightarrow> handle run" where
  "lgrs_entry p v z s =
     hb_and p (handle_of_const z s) s \<bind> (\<lambda>(a, s). hb_bit True (nat v) s \<bind> (\<lambda>(x, s).
     hb_not p s \<bind> (\<lambda>(np, s). hb_and x np s \<bind> (\<lambda>(b, s). hb_or a b s))))"

fun lgrs_loop :: "handle \<Rightarrow> (int \<times> bool) list \<Rightarrow> (int \<times> handle) list \<Rightarrow> bdd_store \<Rightarrow> ((int \<times> handle) list \<times> bdd_store) option" where
  "lgrs_loop p [] m s = Some (m, s)"
| "lgrs_loop p ((v, z) # zs) m s = lgrs_entry p v z s \<bind> (\<lambda>(q, s). lgrs_loop p zs (put v q m) s)"

definition hb_lgrs :: "handle \<Rightarrow> bdd_store \<Rightarrow> ((int \<times> handle) list result \<times> bdd_store) option" where
  "hb_lgrs p s =
     (if ref_of s p = bdd_F then Some (Inr [], s)
      else hb_one_zero s p \<bind> (\<lambda>z. case z of
        Inl err \<Rightarrow> Some (Inl err, s)
      | Inr zs \<Rightarrow> map_option (\<lambda>(m, s). (Inr m, s)) (lgrs_loop p zs [] s)))"

datatype splitter_type = Lower | Middle | Upper | Bad

text \<open>A candidate that is the zero or the whole is given up for the split by a new variable.\<close>

definition or_split :: "bdd_ref \<Rightarrow> bdd_store \<Rightarrow> (bdd_ref \<times> bdd_engine) option \<Rightarrow> handle run" where
  "or_split b s res =
     res \<bind> (\<lambda>(r, e). if r \<noteq> bdd_F \<and> r \<noteq> b then Some (handle_of_ref r (s\<lparr>bs_engine := e\<rparr>))
                    else to_handle s (split_clause b e))"

definition hb_splitter :: "splitter_type \<Rightarrow> handle \<Rightarrow> bdd_store \<Rightarrow> handle run" where
  "hb_splitter k p s =
     (let b = ref_of s p; e = bs_engine s in
      case k of
        Lower \<Rightarrow> or_split b s (rm_all_except_one_clause b e)
      | Middle \<Rightarrow> or_split b s (rm_half_clauses b e)
      | Upper \<Rightarrow> or_split b s (rm_clause b e)
      | Bad \<Rightarrow> to_handle s (split_clause b e))"

section \<open>The invariant\<close>

definition store_ok :: "bdd_store \<Rightarrow> bool" where
  "store_ok s \<longleftrightarrow> engine_ok (bs_engine s) \<and> distinct (bs_heap s) \<and> (\<forall>t \<in> set (bs_heap s). ref_ok (be_V (bs_engine s)) t) \<and>
     (\<forall>x p. bs_Mn s x = Some p \<longleftrightarrow> p < length (bs_heap s) \<and> get_node (bs_engine s) (bs_heap s ! p) = x) \<and>
     bs_hfalse s = Some 0 \<and> bs_htrue s = Some 1 \<and> (\<exists>W. bs_heap s = bdd_F # bdd_T # W)"

definition live :: "bdd_store \<Rightarrow> handle \<Rightarrow> bool" where
  "live s p \<longleftrightarrow> p < length (bs_heap s)"

definition hfn :: "bdd_store \<Rightarrow> handle \<Rightarrow> (nat \<Rightarrow> bool) \<Rightarrow> bool" where
  "hfn s p = fn (bs_engine s) (ref_of s p)"

definition hsupp :: "bdd_store \<Rightarrow> handle \<Rightarrow> nat set" where
  "hsupp s p = supp (bs_engine s) (ref_of s p)"

definition extends :: "bdd_store \<Rightarrow> bdd_store \<Rightarrow> bool" where
  "extends s s' \<longleftrightarrow> grows (bs_engine s) (bs_engine s') \<and> (\<exists>W. bs_heap s' = bs_heap s @ W)"

definition exhausted :: "bdd_store \<Rightarrow> bool" where
  "exhausted s \<longleftrightarrow> be_exhausted (bs_engine s)"

text \<open>
  A handle means a function over the variables \<open>S\<close>, unless a table has been full; an operation ends,
  and its handle means the function.
\<close>

definition means :: "bdd_store \<Rightarrow> handle \<Rightarrow> ((nat \<Rightarrow> bool) \<Rightarrow> bool) \<Rightarrow> nat set \<Rightarrow> bool" where
  "means s p f S \<longleftrightarrow> live s p \<and> hsupp s p \<subseteq> S \<and> (\<not> exhausted s \<longrightarrow> (\<forall>a. hfn s p a = f a))"

definition makes :: "bdd_store \<Rightarrow> handle run \<Rightarrow> ((nat \<Rightarrow> bool) \<Rightarrow> bool) \<Rightarrow> nat set \<Rightarrow> bool" where
  "makes s res f S \<longleftrightarrow> (\<exists>p s'. res = Some (p, s') \<and> store_ok s' \<and> extends s s' \<and> means s' p f S)"

end
