(* ===== verification/Bdd_Solve.thy ===== *)
theory Bdd_Solve imports Bdd_Handle begin

text \<open>
  The handles are hash-consed, their operations compute what the engine's promise, and the general
  solution and the splitter meet their contracts.
\<close>

section \<open>Interning handles\<close>

lemma to_shift_rebase:
  assumes t: "table_ok V" and c: "ref_ok V c" and k: "ref_ok V (rebase k c)" "1 \<le> v" "k = v - 1"
  shows "to_shift_node (rebase k c) v = c"
proof (cases "br_id c = 0")
  case True
  then have "br_shift c = 0" using ref_okD(2) [OF c] by simp
  then show ?thesis by (simp add: rebase_def to_shift_node_def)
next
  case False
  then have s: "1 \<le> br_shift c" using ref_okD(2) [OF c] by simp
  then have r: "rebase (v - 1) c = c\<lparr>br_shift := br_shift c + (v - 1)\<rparr>" by (simp add: rebase_def del: One_nat_def)
  have "to_shift_node (rebase k c) v = (if br_id (rebase k c) = 0 then rebase k c
      else (rebase k c)\<lparr>br_shift := br_shift (rebase k c) - (v - 1)\<rparr>)"
    by (rule to_shift_node_rebase(2) [OF t k(1,2)]) (use s k(2,3) in \<open>simp add: rebase_def\<close>)
  then show ?thesis using False unfolding k(3) r by simp
qed

text \<open>Decoding a reference and interning the node again gives it back.\<close>

lemma add_again:
  assumes e: "engine_ok e" and x: "ref_ok (be_V e) x" "br_id x \<noteq> 0" and n: "get_node e x = (v, h, l)"
  shows "bdd_add v h l e = (x, e)"
proof -
  note t = engine_okD(1) [OF e]
  obtain sh sl where s: "be_V e ! br_id x = (sh, sl)" by (rule prod.exhaust)
  note g = get_node_seen [OF t x s]
  define k where "k = br_shift x - 1"
  have v: "v = br_shift x" and h: "h = seen_from (br_out x) k (if br_in x then sl else sh)"
    and l: "l = seen_from (br_out x) k (if br_in x then sh else sl)"
    using n unfolding g(1) k_def by blast+
  have sk: "ref_ok (be_V e) sh" "ref_ok (be_V e) sl" "sh \<noteq> sl" "\<not> br_out sl" "br_id sl \<le> br_id sh"
    using t x(2) s ref_okD(1) [OF x(1)] by (auto simp: table_ok_def skeleton_ok_def)
  have swap: "br_id h < br_id l \<longleftrightarrow> br_in x"
    using ref_okD(4) [OF x(1,2)] s sk(5) by (auto simp: h l)
  have pos: "1 \<le> v" using ref_okD(2) [OF x(1)] x(2) by (simp add: v)
  have bound: "v < 2 ^ shift_width" using vars_root [OF t x] ref_okD(5) [OF x(1)] by (auto simp: v)
  then have "int v < 2 ^ shift_width" by (metis of_nat_less_iff of_nat_numeral of_nat_power)
  have ne: "h \<noteq> l" using sk(3) by (auto simp: h l seen_from_inj)
  have ok: "ref_ok (be_V e) (rebase k c)" if "c = sh \<or> c = sl" for c
  proof -
    have "ref_ok (be_V e) (seen_from (br_out x) k c)" using that g(2,3) unfolding k_def by (auto split: if_splits)
    then show ?thesis using ref_ok_flip [OF _ t] by (cases "br_out x") (auto simp: seen_from_def dest: ref_ok_flip [OF _ t])
  qed
  have ret: "to_shift_node (rebase k sh) v = sh" "to_shift_node (rebase k sl) v = sl"
    using to_shift_rebase [OF t sk(1) ok pos] to_shift_rebase [OF t sk(2) ok pos] by (simp_all add: k_def v)
  have mn: "be_Mn e (sh, sl) = Some (br_id x)" using engine_okD(2) [OF e] s ref_okD(1) [OF x(1)] by blast
  have mk: "mk_ref (br_in x) (br_out x) (int v) (int (br_id x)) = x"
    using shift_bound [OF bound] id_bound [OF t x(1)] by (cases x) (simp add: mk_ref_def v)
  show ?thesis
    using ne \<open>int v < 2 ^ shift_width\<close> swap sk(4) ret mn mk
    by (cases "br_in x"; cases "br_out x") (simp_all add: bdd_add_def Let_def h l seen_from_def)
qed

lemma get_node_grows:
  assumes "engine_ok e" "grows e e'" "ref_ok (be_V e) x"
  shows "get_node e' x = get_node e x"
  using assms ref_okD(1) [OF assms(3)] by (auto simp: grows_def get_node_def nth_append)

lemma get_node_inj:
  assumes e: "engine_ok e" and x: "ref_ok (be_V e) x" and y: "ref_ok (be_V e) y" and eq: "get_node e x = get_node e y"
  shows "x = y"
proof -
  note t = engine_okD(1) [OF e]
  have const: "get_node e c = (0, c, c)" if "c = bdd_T \<or> c = bdd_F" for c
    using that t by (auto simp: get_node_def table_ok_def to_bdd_node_def flip_out_def bdd_T_def bdd_F_def mk_ref_def)
  have shift: "fst (get_node e c) = br_shift c" if "ref_ok (be_V e) c" "br_id c \<noteq> 0" for c
    using get_node_ok [OF t that] by (metis fst_conv)
  show ?thesis
  proof (cases "br_id x = 0")
    case True
    then have cx: "get_node e x = (0, x, x)" using const leaf_cases [OF x] by blast
    then have "br_shift y = 0 \<or> br_id y = 0" using shift [OF y] eq by fastforce
    then have "br_id y = 0" using ref_okD(2) [OF y] by blast
    then show ?thesis using cx const leaf_cases [OF y] eq by auto
  next
    case False
    have "br_id y \<noteq> 0"
    proof
      assume "br_id y = 0"
      then have "get_node e y = (0, y, y)" using const leaf_cases [OF y] by blast
      then have "br_shift x = 0" using shift [OF x False] eq by simp
      then show False using ref_okD(2) [OF x] False by blast
    qed
    then show ?thesis using decode_inj [OF t x y False _ eq] by blast
  qed
qed

lemma store_okD:
  assumes "store_ok s"
  shows "engine_ok (bs_engine s)" "distinct (bs_heap s)" "live s p \<Longrightarrow> ref_ok (be_V (bs_engine s)) (ref_of s p)"
    "bs_Mn s x = Some p \<longleftrightarrow> live s p \<and> get_node (bs_engine s) (ref_of s p) = x"
    "bs_hfalse s = Some 0" "bs_htrue s = Some 1" "ref_of s 0 = bdd_F" "ref_of s 1 = bdd_T" "live s 0" "live s 1"
proof -
  note d = assms [unfolded store_ok_def]
  obtain W where W: "bs_heap s = bdd_F # bdd_T # W" using d by blast
  show "engine_ok (bs_engine s)" "distinct (bs_heap s)" "bs_hfalse s = Some 0" "bs_htrue s = Some 1" using d by blast+
  show "live s p \<Longrightarrow> ref_ok (be_V (bs_engine s)) (ref_of s p)" using d unfolding live_def ref_of_def by (meson nth_mem)
  show "bs_Mn s x = Some p \<longleftrightarrow> live s p \<and> get_node (bs_engine s) (ref_of s p) = x" using d unfolding live_def ref_of_def by blast
  show "ref_of s 0 = bdd_F" "ref_of s 1 = bdd_T" "live s 0" "live s 1" by (simp_all add: ref_of_def live_def W)
qed

lemma store_refl: "extends s s"
  by (simp add: extends_def grows_refl)

lemma store_trans: "extends s s' \<Longrightarrow> extends s' s'' \<Longrightarrow> extends s s''"
  using grows_trans by (auto simp: extends_def)

text \<open>What a handle says survives the operations on others.\<close>

lemma extends_handle:
  assumes s: "store_ok s" and x: "extends s s'" and p: "live s p"
  shows "live s' p" "ref_of s' p = ref_of s p" "hfn s' p = hfn s p" "hsupp s' p = hsupp s p"
    "ref_ok (be_V (bs_engine s')) (ref_of s p)"
proof -
  have g: "grows (bs_engine s) (bs_engine s')" using x by (simp add: extends_def)
  show r: "live s' p" "ref_of s' p = ref_of s p" using x p by (auto simp: extends_def live_def ref_of_def nth_append)
  note up = grows_ref [OF store_okD(1) [OF s] g store_okD(3) [OF s p]]
  show "hfn s' p = hfn s p" "hsupp s' p = hsupp s p" "ref_ok (be_V (bs_engine s')) (ref_of s p)"
    using up by (simp_all add: hfn_def hsupp_def r(2))
qed

lemma store_ok_engine:
  assumes s: "store_ok s" and e: "engine_ok e" "grows (bs_engine s) e"
  shows "store_ok (s\<lparr>bs_engine := e\<rparr>)"
proof -
  have "ref_ok (be_V (bs_engine s)) t" if "t \<in> set (bs_heap s)" for t using s that by (simp add: store_ok_def)
  then have up: "ref_ok (be_V e) t" "get_node e t = get_node (bs_engine s) t" if "t \<in> set (bs_heap s)" for t
    using that grows_ref(2) [OF store_okD(1) [OF s] e(2)] get_node_grows [OF store_okD(1) [OF s] e(2)] by blast+
  have "get_node e (bs_heap s ! p) = get_node (bs_engine s) (bs_heap s ! p)" if "p < length (bs_heap s)" for p
    using up(2) nth_mem [OF that] by blast
  then have "bs_Mn s x = Some p \<longleftrightarrow> p < length (bs_heap s) \<and> get_node e (bs_heap s ! p) = x" for x p
    using store_okD(4) [OF s, of x p] unfolding live_def ref_of_def by auto
  moreover have "\<forall>t \<in> set (bs_heap s). ref_ok (be_V e) t" using up(1) by blast
  ultimately show ?thesis using s e(1) unfolding store_ok_def by simp
qed

lemma handle_of_ref_ok:
  assumes s: "store_ok s" and t: "ref_ok (be_V (bs_engine s)) t" and r: "handle_of_ref t s = (p, s')"
  shows "store_ok s'" "extends s s'" "live s' p" "ref_of s' p = t" "bs_engine s' = bs_engine s"
proof -
  let ?e = "bs_engine s"
  note e = store_okD(1) [OF s]
  have "store_ok s' \<and> extends s s' \<and> live s' p \<and> ref_of s' p = t \<and> bs_engine s' = ?e"
  proof (cases "bs_Mn s (get_node ?e t)")
    case (Some q)
    then have "p = q" "s' = s" using r by (simp_all add: handle_of_ref_def handle_of_node_def)
    moreover have q: "live s q" "get_node ?e (ref_of s q) = get_node ?e t" using store_okD(4) [OF s] Some by blast+
    moreover have "ref_of s q = t" using get_node_inj [OF e store_okD(3) [OF s q(1)] t q(2)] .
    ultimately show ?thesis using s store_refl by simp
  next
    case None
    have "t \<notin> set (bs_heap s)"
    proof
      assume "t \<in> set (bs_heap s)"
      then obtain q where "live s q" "ref_of s q = t" by (auto simp: in_set_conv_nth live_def ref_of_def)
      then show False using store_okD(4) [OF s, of "get_node ?e t" q] None by simp
    qed
    moreover have "bdd_F \<in> set (bs_heap s)" "bdd_T \<in> set (bs_heap s)" using s by (auto simp: store_ok_def)
    ultimately have id: "br_id t \<noteq> 0" using leaf_cases [OF t] by blast
    obtain v h l where n: "get_node ?e t = (v, h, l)" by (metis prod.exhaust)
    have "t \<noteq> bdd_F" using id by auto
    have s': "p = length (bs_heap s)" "s' = s\<lparr>bs_heap := bs_heap s @ [t], bs_Mn := emplace (bs_Mn s) (get_node ?e t) (length (bs_heap s))\<rparr>"
      using r None add_again [OF e t id n] \<open>t \<noteq> bdd_F\<close> by (auto simp: handle_of_ref_def handle_of_node_def n Let_def)
    have heap: "get_node ?e ((bs_heap s @ [t]) ! q) = x \<and> q < length (bs_heap s @ [t]) \<longleftrightarrow>
        (q < length (bs_heap s) \<and> get_node ?e (bs_heap s ! q) = x) \<or> (q = length (bs_heap s) \<and> x = get_node ?e t)" for q x
      by (auto simp: nth_append less_Suc_eq)
    have old: "bs_Mn s x = Some q \<longleftrightarrow> q < length (bs_heap s) \<and> get_node ?e (bs_heap s ! q) = x" for q x
      using s unfolding store_ok_def by blast
    have "emplace (bs_Mn s) (get_node ?e t) (length (bs_heap s)) x = Some q \<longleftrightarrow>
        q < length (bs_heap s @ [t]) \<and> get_node ?e ((bs_heap s @ [t]) ! q) = x" for q x
      using heap [of q x] old [of x q] None by (cases "x = get_node ?e t") (auto simp: emplace_def)
    then have "store_ok s'" using s t \<open>t \<notin> set (bs_heap s)\<close> by (auto simp: store_ok_def s'(2))
    then show ?thesis by (simp add: s' extends_def grows_refl live_def ref_of_def)
  qed
  then show "store_ok s'" "extends s s'" "live s' p" "ref_of s' p = t" "bs_engine s' = bs_engine s" by blast+
qed

lemma store_init_ok: "store_ok (bdd_store_init d)"
proof -
  have s: "bdd_store_init d = \<lparr>bs_engine = bdd_init d, bs_heap = [bdd_F, bdd_T],
      bs_Mn = [(0, bdd_F, bdd_F) \<mapsto> 0, (0, bdd_T, bdd_T) \<mapsto> 1], bs_hfalse = Some 0, bs_htrue = Some 1\<rparr>"
    by (simp add: bdd_store_init_def handle_of_ref_def handle_of_node_def get_node_def bdd_init_def bdd_add_def to_bdd_node_def
        bdd_T_def bdd_F_def mk_ref_def flip_out_def emplace_def Let_def)
  have n: "get_node (bdd_init d) bdd_F = (0, bdd_F, bdd_F)" "get_node (bdd_init d) bdd_T = (0, bdd_T, bdd_T)"
    by (simp_all add: get_node_def bdd_init_def to_bdd_node_def bdd_T_def bdd_F_def mk_ref_def flip_out_def)
  have "(\<lambda>q. q < length [bdd_F, bdd_T] \<and> get_node (bdd_init d) ([bdd_F, bdd_T] ! q) = x) =
      (\<lambda>q. (q = 0 \<and> x = (0, bdd_F, bdd_F)) \<or> (q = 1 \<and> x = (0, bdd_T, bdd_T)))" for x
    by (auto simp: fun_eq_iff less_Suc_eq n nth_Cons')
  then have "[(0, bdd_F, bdd_F) \<mapsto> 0, (0, bdd_T, bdd_T) \<mapsto> 1] x = Some q \<longleftrightarrow>
      q < length [bdd_F, bdd_T] \<and> get_node (bdd_init d) ([bdd_F, bdd_T] ! q) = x" for x q
    by (auto simp: fun_eq_iff)
  then show ?thesis
    using bdd_init_ok [of d] constants_ok [OF bdd_init_ok [of d]] by (simp add: store_ok_def s)
qed

section \<open>Operations on handles\<close>

lemma means_self: "live s p \<Longrightarrow> means s p (hfn s p) (hsupp s p)"
  by (simp add: means_def)

lemma means_up:
  assumes "store_ok s" "extends s s'" "means s p f S"
  shows "means s' p f S"
proof -
  have "exhausted s \<Longrightarrow> exhausted s'" using assms(2) by (simp add: extends_def grows_def exhausted_def)
  then show ?thesis using extends_handle [OF assms(1,2), of p] assms(3) by (auto simp: means_def)
qed

lemma means_mono: "means s p f S \<Longrightarrow> (\<And>a. f a = g a) \<Longrightarrow> S \<subseteq> T \<Longrightarrow> means s p g T"
  by (auto simp: means_def)

lemma meansD:
  assumes "store_ok s" "means s p f S"
  shows "ref_ok (be_V (bs_engine s)) (ref_of s p)" "supp (bs_engine s) (ref_of s p) \<subseteq> S"
    "\<not> be_exhausted (bs_engine s) \<Longrightarrow> fn (bs_engine s) (ref_of s p) a = f a"
  using assms store_okD(3) [OF assms(1)] by (auto simp: means_def hsupp_def hfn_def exhausted_def)

lemma makes_mono: "makes s res f S \<Longrightarrow> (\<And>a. f a = g a) \<Longrightarrow> S \<subseteq> T \<Longrightarrow> makes s res g T"
  using means_mono [of _ _ f S g T] unfolding makes_def by blast

lemma makes_bind:
  assumes "makes s res f S" "\<And>p s'. store_ok s' \<Longrightarrow> extends s s' \<Longrightarrow> means s' p f S \<Longrightarrow> makes s' (k (p, s')) g T"
  shows "makes s (res \<bind> k) g T"
proof -
  obtain p s' where p: "res = Some (p, s')" "store_ok s'" "extends s s'" "means s' p f S" using assms(1) by (auto simp: makes_def)
  then obtain q s'' where "k (p, s') = Some (q, s'')" "store_ok s''" "extends s' s''" "means s'' q g T"
    using assms(2) unfolding makes_def by blast
  then show ?thesis using store_trans [OF p(3)] by (auto simp: makes_def p(1))
qed

text \<open>The engine's promise, for a handle: the function may be known under the flag only.\<close>

lemma to_handle_makes:
  assumes s: "store_ok s" and r: "gives (bs_engine s) res f S" and "S \<subseteq> T"
    and g: "\<And>a. \<not> be_exhausted (bs_engine s) \<Longrightarrow> f a = g a"
  shows "makes s (to_handle s res) g T"
proof -
  obtain r e where r: "res = Some (r, e)" "yields (bs_engine s) e r f S" using r by (auto simp: gives_def)
  note R = yieldsD [OF r(2)]
  let ?s = "s\<lparr>bs_engine := e\<rparr>"
  have ok: "store_ok ?s" by (rule store_ok_engine [OF s R(1,2)])
  obtain p s' where p: "handle_of_ref r ?s = (p, s')" by (rule prod.exhaust)
  have h: "store_ok s'" "extends ?s s'" "live s' p" "ref_of s' p = r" "bs_engine s' = e"
    using handle_of_ref_ok [OF ok _ p] R(3) by simp_all
  have "extends s s'" using h(2,5) R(2) by (simp add: extends_def)
  moreover have "means s' p g T"
    using h R(4,5) assms(3) g yields_flag [OF r(2)] by (auto simp: means_def hsupp_def hfn_def exhausted_def)
  ultimately show ?thesis using r(1) p h(1) by (simp add: makes_def to_handle_def)
qed

lemma hb_not_makes:
  assumes s: "store_ok s" and p: "means s p f S"
  shows "makes s (hb_not p s) (\<lambda>a. \<not> f a) S"
proof -
  note P = meansD [OF s p]
  have "gives (bs_engine s) (Some (bdd_not (ref_of s p), bs_engine s)) (\<lambda>a. \<not> fn (bs_engine s) (ref_of s p) a) (supp (bs_engine s) (ref_of s p))"
    using yields_flip [OF yields_self [OF store_okD(1) [OF s] P(1)]] by (simp add: bdd_not_def)
  then show ?thesis unfolding hb_not_def by (rule to_handle_makes [OF s]) (use P in auto)
qed

lemma hb_and_makes:
  assumes s: "store_ok s" and p: "means s p f S" and q: "means s q g T"
  shows "makes s (hb_and p q s) (\<lambda>a. f a \<and> g a) (S \<union> T)"
  unfolding hb_and_def
  by (rule to_handle_makes [OF s bdd_and_gives [OF store_okD(1) [OF s] meansD(1) [OF s q] meansD(1) [OF s p]]])
    (use meansD [OF s p] meansD [OF s q] in auto)

lemma hb_or_makes:
  assumes s: "store_ok s" and p: "means s p f S" and q: "means s q g T"
  shows "makes s (hb_or p q s) (\<lambda>a. f a \<or> g a) (S \<union> T)"
proof -
  have "makes s (hb_or p q s) (\<lambda>a. \<not> (\<not> g a \<and> \<not> f a)) (T \<union> S)"
    unfolding hb_or_def
  proof (rule makes_bind [OF hb_not_makes [OF s q]], unfold prod.case)
    fix nq s1 assume 1: "store_ok s1" "extends s s1" "means s1 nq (\<lambda>a. \<not> g a) T"
    note p1 = means_up [OF s 1(2) p]
    show "makes s1 (hb_not p s1 \<bind> (\<lambda>(np, s). hb_and nq np s \<bind> (\<lambda>(r, s). hb_not r s))) (\<lambda>a. \<not> (\<not> g a \<and> \<not> f a)) (T \<union> S)"
    proof (rule makes_bind [OF hb_not_makes [OF 1(1) p1]], unfold prod.case)
      fix np s2 assume 2: "store_ok s2" "extends s1 s2" "means s2 np (\<lambda>a. \<not> f a) S"
      note nq2 = means_up [OF 1(1) 2(2) 1(3)]
      show "makes s2 (hb_and nq np s2 \<bind> (\<lambda>(r, s). hb_not r s)) (\<lambda>a. \<not> (\<not> g a \<and> \<not> f a)) (T \<union> S)"
        by (rule makes_bind [OF hb_and_makes [OF 2(1) nq2 2(3)]], unfold prod.case) (rule hb_not_makes)
    qed
  qed
  then show ?thesis by (rule makes_mono) auto
qed

lemma hb_xor_makes:
  assumes s: "store_ok s" and p: "means s p f S" and q: "means s q g T"
  shows "makes s (hb_xor p q s) (\<lambda>a. f a \<noteq> g a) (S \<union> T)"
proof -
  have "makes s (hb_xor p q s) (\<lambda>a. (g a \<and> \<not> f a) \<or> (f a \<and> \<not> g a)) ((T \<union> S) \<union> (S \<union> T))"
    unfolding hb_xor_def
  proof (rule makes_bind [OF hb_not_makes [OF s p]], unfold prod.case)
    fix np s1 assume 1: "store_ok s1" "extends s s1" "means s1 np (\<lambda>a. \<not> f a) S"
    note p1 = means_up [OF s 1(2) p] and q1 = means_up [OF s 1(2) q]
    show "makes s1 (hb_and q np s1 \<bind> (\<lambda>(a, s). hb_not q s \<bind> (\<lambda>(nq, s). hb_and p nq s \<bind> (\<lambda>(b, s). hb_or a b s))))
        (\<lambda>a. (g a \<and> \<not> f a) \<or> (f a \<and> \<not> g a)) ((T \<union> S) \<union> (S \<union> T))"
    proof (rule makes_bind [OF hb_and_makes [OF 1(1) q1 1(3)]], unfold prod.case)
      fix a s2 assume 2: "store_ok s2" "extends s1 s2" "means s2 a (\<lambda>a. g a \<and> \<not> f a) (T \<union> S)"
      note p2 = means_up [OF 1(1) 2(2) p1] and q2 = means_up [OF 1(1) 2(2) q1]
      show "makes s2 (hb_not q s2 \<bind> (\<lambda>(nq, s). hb_and p nq s \<bind> (\<lambda>(b, s). hb_or a b s)))
          (\<lambda>a. (g a \<and> \<not> f a) \<or> (f a \<and> \<not> g a)) ((T \<union> S) \<union> (S \<union> T))"
      proof (rule makes_bind [OF hb_not_makes [OF 2(1) q2]], unfold prod.case)
        fix nq s3 assume 3: "store_ok s3" "extends s2 s3" "means s3 nq (\<lambda>a. \<not> g a) T"
        note p3 = means_up [OF 2(1) 3(2) p2] and a3 = means_up [OF 2(1) 3(2) 2(3)]
        show "makes s3 (hb_and p nq s3 \<bind> (\<lambda>(b, s). hb_or a b s)) (\<lambda>a. (g a \<and> \<not> f a) \<or> (f a \<and> \<not> g a)) ((T \<union> S) \<union> (S \<union> T))"
        proof (rule makes_bind [OF hb_and_makes [OF 3(1) p3 3(3)]], unfold prod.case)
          fix b s4 assume 4: "store_ok s4" "extends s3 s4" "means s4 b (\<lambda>a. f a \<and> \<not> g a) (S \<union> T)"
          show "makes s4 (hb_or a b s4) (\<lambda>a. (g a \<and> \<not> f a) \<or> (f a \<and> \<not> g a)) ((T \<union> S) \<union> (S \<union> T))"
            by (rule hb_or_makes [OF 4(1) means_up [OF 3(1) 4(2) a3] 4(3)])
        qed
      qed
    qed
  qed
  then show ?thesis by (rule makes_mono) auto
qed

end
