(* ===== verification/Bdd_Loewenheim.thy ===== *)
theory Bdd_Loewenheim imports Bdd_Solve begin

text \<open>
  The quantifiers, substitutions, general solution and splitter of the handles, and the properties
  of the engine the rest of the program relies on.
\<close>

section \<open>Quantifiers and substitutions\<close>

lemma hb_bit_makes:
  assumes s: "store_ok s" and v: "0 < v"
  shows "makes s (hb_bit b v s) (\<lambda>a. a v = b) {v}"
proof -
  have l: "lit_var (signed_lit v (\<not> b)) = v" "signed_lit v (\<not> b) \<noteq> 0" "(0 < signed_lit v (\<not> b)) = b"
    using v by (auto simp: lit_var_def signed_lit_def)
  show ?thesis unfolding hb_bit_def
    by (rule to_handle_makes [OF s bdd_bit_gives [OF store_okD(1) [OF s] l(2)]]) (simp_all add: l)
qed

lemma hb_all_makes:
  assumes s: "store_ok s" and p: "means s p f S" and v: "lit_var v < 2 ^ 32"
  shows "makes s (hb_all v p s) (\<lambda>a. f (a(lit_var v := True)) \<and> f (a(lit_var v := False))) S"
  unfolding hb_all_def
  by (rule to_handle_makes [OF s bdd_all_gives [OF store_okD(1) [OF s] meansD(1) [OF s p] v]])
    (use meansD [OF s p] in \<open>auto simp: both_def\<close>)

lemma hb_ex_makes:
  assumes s: "store_ok s" and p: "means s p f S" and v: "lit_var v < 2 ^ 32"
  shows "makes s (hb_ex v p s) (\<lambda>a. f (a(lit_var v := True)) \<or> f (a(lit_var v := False))) S"
  unfolding hb_ex_def
  by (rule to_handle_makes [OF s bdd_ex_gives [OF store_okD(1) [OF s] meansD(1) [OF s p] v]])
    (use meansD [OF s p] in auto)

lemma hb_sub0_makes:
  assumes s: "store_ok s" and p: "means s p f S" and v: "v < 2 ^ 32"
  shows "makes s (hb_sub0 v p s) (\<lambda>a. f (a(v := False))) (S - {v})"
  unfolding hb_sub0_def
  by (rule to_handle_makes [OF s cofactor_gives [OF store_okD(1) [OF s] meansD(1) [OF s p]]])
    (use meansD [OF s p] v in auto)

lemma hb_sub1_makes:
  assumes s: "store_ok s" and p: "means s p f S" and v: "v < 2 ^ 32"
  shows "makes s (hb_sub1 v p s) (\<lambda>a. f (a(v := True))) (S - {v})"
  unfolding hb_sub1_def
  by (rule to_handle_makes [OF s cofactor_gives [OF store_okD(1) [OF s] meansD(1) [OF s p]]])
    (use meansD [OF s p] v in auto)

lemma hb_subst_makes:
  assumes s: "store_ok s" and p: "means s p f S" and q: "means s q g T" and v: "v < 2 ^ 32"
  shows "makes s (hb_subst v p q s) (\<lambda>a. f (a(v := g a))) (S - {v} \<union> T)"
  unfolding hb_subst_def
  by (rule to_handle_makes [OF s bdd_subst_gives [OF store_okD(1) [OF s] meansD(1) [OF s p] meansD(1) [OF s q]]])
    (use meansD [OF s p] meansD [OF s q] v in auto)

text \<open>The function at the least and at the greatest solution for \<open>v\<close> of \<open>g = 0\<close>.\<close>

lemma hb_condition_makes:
  assumes s: "store_ok s" and p: "means s p f S" and q: "means s q g T" and v: "v < 2 ^ 32"
  shows "makes s (hb_condition v p q s) (\<lambda>a. f (a(v := g (a(v := False)))) \<or> f (a(v := \<not> g (a(v := True))))) (S \<union> T - {v})"
proof -
  let ?f = "\<lambda>a. f (a(v := g (a(v := False)))) \<or> f (a(v := \<not> g (a(v := True))))"
  let ?U = "(S - {v} \<union> (T - {v})) \<union> (S - {v} \<union> (T - {v}))"
  have "makes s (hb_condition v p q s) ?f ?U"
    unfolding hb_condition_def
  proof (rule makes_bind [OF hb_sub0_makes [OF s q v]], unfold prod.case)
    fix f0 s1 assume 1: "store_ok s1" "extends s s1" "means s1 f0 (\<lambda>a. g (a(v := False))) (T - {v})"
    note p1 = means_up [OF s 1(2) p] and q1 = means_up [OF s 1(2) q]
    show "makes s1 (hb_subst v p f0 s1 \<bind> (\<lambda>(a, s). hb_sub1 v q s \<bind> (\<lambda>(f1, s). hb_not f1 s \<bind> (\<lambda>(g, s).
        hb_subst v p g s \<bind> (\<lambda>(b, s). hb_or a b s))))) ?f ?U"
    proof (rule makes_bind [OF hb_subst_makes [OF 1(1) p1 1(3) v]], unfold prod.case)
      fix a s2 assume 2: "store_ok s2" "extends s1 s2" "means s2 a (\<lambda>a. f (a(v := g (a(v := False))))) (S - {v} \<union> (T - {v}))"
      note p2 = means_up [OF 1(1) 2(2) p1] and q2 = means_up [OF 1(1) 2(2) q1]
      show "makes s2 (hb_sub1 v q s2 \<bind> (\<lambda>(f1, s). hb_not f1 s \<bind> (\<lambda>(g, s). hb_subst v p g s \<bind> (\<lambda>(b, s). hb_or a b s)))) ?f ?U"
      proof (rule makes_bind [OF hb_sub1_makes [OF 2(1) q2 v]], unfold prod.case)
        fix f1 s3 assume 3: "store_ok s3" "extends s2 s3" "means s3 f1 (\<lambda>a. g (a(v := True))) (T - {v})"
        note p3 = means_up [OF 2(1) 3(2) p2] and a3 = means_up [OF 2(1) 3(2) 2(3)]
        show "makes s3 (hb_not f1 s3 \<bind> (\<lambda>(g, s). hb_subst v p g s \<bind> (\<lambda>(b, s). hb_or a b s))) ?f ?U"
        proof (rule makes_bind [OF hb_not_makes [OF 3(1) 3(3)]], unfold prod.case)
          fix n s4 assume 4: "store_ok s4" "extends s3 s4" "means s4 n (\<lambda>a. \<not> g (a(v := True))) (T - {v})"
          note p4 = means_up [OF 3(1) 4(2) p3] and a4 = means_up [OF 3(1) 4(2) a3]
          show "makes s4 (hb_subst v p n s4 \<bind> (\<lambda>(b, s). hb_or a b s)) ?f ?U"
          proof (rule makes_bind [OF hb_subst_makes [OF 4(1) p4 4(3) v]], unfold prod.case)
            fix b s5 assume 5: "store_ok s5" "extends s4 s5" "means s5 b (\<lambda>a. f (a(v := \<not> g (a(v := True))))) (S - {v} \<union> (T - {v}))"
            show "makes s5 (hb_or a b s5) ?f ?U" by (rule hb_or_makes [OF 5(1) means_up [OF 4(1) 5(2) a4] 5(3)])
          qed
        qed
      qed
    qed
  qed
  then show ?thesis by (rule makes_mono) auto
qed

text \<open>The assignment a composition reads the function at.\<close>

definition put_in :: "bdd_store \<Rightarrow> (int \<rightharpoonup> handle) \<Rightarrow> (nat \<Rightarrow> bool) \<Rightarrow> nat \<Rightarrow> bool" where
  "put_in s m a v = (case m (int v) of None \<Rightarrow> a v | Some q \<Rightarrow> hfn s q a)"

lemma hb_compose_makes:
  assumes s: "store_ok s" and p: "live s p" and m: "\<forall>q \<in> ran m. live s q"
  shows "makes s (hb_compose m p s) (\<lambda>a. hfn s p (put_in s m a)) UNIV"
proof -
  let ?m = "map_option (ref_of s) \<circ> m"
  have "\<forall>w \<in> ran ?m. ref_ok (be_V (bs_engine s)) w" using m store_okD(3) [OF s] by (auto simp: ran_def)
  note c = bdd_compose_gives [OF store_okD(1) [OF s] store_okD(3) [OF s p] this]
  have "composed (bs_engine s) ?m a = put_in s m a" for a
    by (auto simp: composed_def put_in_def hfn_def fun_eq_iff split: option.splits)
  then show ?thesis unfolding hb_compose_def by (intro to_handle_makes [OF s c]) (simp_all add: hfn_def)
qed

section \<open>The general solution\<close>

lemma const_means: "store_ok s \<Longrightarrow> means s (handle_of_const z s) (\<lambda>a. z) {}"
  using store_okD(5-10) [of s] by (cases z) (simp_all add: handle_of_const_def means_def hsupp_def hfn_def)

lemma lgrs_entry_makes:
  assumes s: "store_ok s" and p: "means s p f S" and v: "0 < v"
  shows "makes s (lgrs_entry p (int v) z s) (\<lambda>a. (f a \<and> z) \<or> (a v \<and> \<not> f a)) (S \<union> {v})"
proof -
  let ?g = "\<lambda>a. (f a \<and> z) \<or> (a v \<and> \<not> f a)" and ?U = "(S \<union> {}) \<union> ({v} \<union> S)"
  have "makes s (lgrs_entry p (int v) z s) ?g ?U"
    unfolding lgrs_entry_def
  proof (rule makes_bind [OF hb_and_makes [OF s p const_means [OF s]]], unfold prod.case nat_int)
    fix a s1 assume 1: "store_ok s1" "extends s s1" "means s1 a (\<lambda>a. f a \<and> z) (S \<union> {})"
    note p1 = means_up [OF s 1(2) p]
    show "makes s1 (hb_bit True v s1 \<bind> (\<lambda>(x, s). hb_not p s \<bind> (\<lambda>(np, s). hb_and x np s \<bind> (\<lambda>(b, s). hb_or a b s)))) ?g ?U"
    proof (rule makes_bind [OF hb_bit_makes [OF 1(1) v]], unfold prod.case)
      fix x s2 assume 2: "store_ok s2" "extends s1 s2" "means s2 x (\<lambda>a. a v = True) {v}"
      note p2 = means_up [OF 1(1) 2(2) p1] and a2 = means_up [OF 1(1) 2(2) 1(3)]
      show "makes s2 (hb_not p s2 \<bind> (\<lambda>(np, s). hb_and x np s \<bind> (\<lambda>(b, s). hb_or a b s))) ?g ?U"
      proof (rule makes_bind [OF hb_not_makes [OF 2(1) p2]], unfold prod.case)
        fix np s3 assume 3: "store_ok s3" "extends s2 s3" "means s3 np (\<lambda>a. \<not> f a) S"
        note x3 = means_up [OF 2(1) 3(2) 2(3)] and a3 = means_up [OF 2(1) 3(2) a2]
        show "makes s3 (hb_and x np s3 \<bind> (\<lambda>(b, s). hb_or a b s)) ?g ?U"
        proof (rule makes_bind [OF hb_and_makes [OF 3(1) x3 3(3)]], unfold prod.case)
          fix b s4 assume 4: "store_ok s4" "extends s3 s4" "means s4 b (\<lambda>a. a v = True \<and> \<not> f a) ({v} \<union> S)"
          show "makes s4 (hb_or a b s4) ?g ?U"
            by (rule makes_mono [OF hb_or_makes [OF 4(1) means_up [OF 3(1) 4(2) a3] 4(3)]]) auto
        qed
      qed
    qed
  qed
  then show ?thesis by (rule makes_mono) auto
qed

lemma lgrs_loop_runs:
  assumes "store_ok s" "means s p f S" "sorted_wrt (<) (map fst m @ map fst zs)" "\<forall>v \<in> fst ` set zs. 0 < v"
  shows "\<exists>qs s'. lgrs_loop p zs m s = Some (m @ zip (map fst zs) qs, s') \<and> store_ok s' \<and> extends s s' \<and>
    list_all2 (\<lambda>(v, z) q. means s' q (\<lambda>a. (f a \<and> z) \<or> (a (nat v) \<and> \<not> f a)) (S \<union> {nat v})) zs qs"
  using assms
proof (induction zs arbitrary: m s)
  case Nil
  then show ?case using store_refl by (intro exI [of _ "[]"] exI [of _ s]) simp
next
  case (Cons vz zs)
  obtain v z where vz: "vz = (v, z)" by (rule prod.exhaust)
  have v: "0 < v" using Cons.prems(4) by (simp add: vz)
  have "makes s (lgrs_entry p (int (nat v)) z s) (\<lambda>a. (f a \<and> z) \<or> (a (nat v) \<and> \<not> f a)) (S \<union> {nat v})"
    by (rule lgrs_entry_makes [OF Cons.prems(1,2)]) (use v in simp)
  then obtain q s1 where q: "lgrs_entry p v z s = Some (q, s1)" "store_ok s1" "extends s s1"
    "means s1 q (\<lambda>a. (f a \<and> z) \<or> (a (nat v) \<and> \<not> f a)) (S \<union> {nat v})"
    using v by (auto simp: makes_def)
  have put: "put v q m = m @ [(v, q)]"
    by (rule put_greatest) (use Cons.prems(3) in \<open>force simp: vz sorted_wrt_append\<close>)
  obtain qs s2 where r: "lgrs_loop p zs (m @ [(v, q)]) s1 = Some ((m @ [(v, q)]) @ zip (map fst zs) qs, s2)" "store_ok s2" "extends s1 s2"
    "list_all2 (\<lambda>(v, z) q. means s2 q (\<lambda>a. (f a \<and> z) \<or> (a (nat v) \<and> \<not> f a)) (S \<union> {nat v})) zs qs"
    using Cons.IH [OF q(2) means_up [OF Cons.prems(1) q(3) Cons.prems(2)], of "m @ [(v, q)]"] Cons.prems(3,4) by (auto simp: vz)
  show ?case
    using r q(1) means_up [OF q(2) r(3) q(4)] store_trans [OF q(3) r(3)]
    by (intro exI [of _ "q # qs"] exI [of _ s2]) (simp add: vz put)
qed

text \<open>The assignment \<open>\<phi>(a)\<close> of the solution, for the variables it maps.\<close>

lemma general_solution:
  fixes f :: "(nat \<Rightarrow> bool) \<Rightarrow> bool"
  assumes zero: "\<And>a. (\<forall>(k, b) \<in> set zs. a (nat k) = b) \<Longrightarrow> \<not> f a"
    and phi: "\<And>a v. \<phi> a v = (case map_of zs (int v) of None \<Rightarrow> a v | Some z \<Rightarrow> (f a \<and> z) \<or> (a v \<and> \<not> f a))"
    and zs: "distinct (map fst zs)" "\<forall>k \<in> fst ` set zs. 0 < k"
  shows "\<not> f (\<phi> a)" "\<not> f a \<Longrightarrow> \<phi> a = a"
proof -
  show same: "\<phi> a = a" if "\<not> f a" for a using that by (auto simp: phi fun_eq_iff split: option.splits)
  show "\<not> f (\<phi> a)"
  proof (cases "f a")
    case True
    have "\<phi> a (nat k) = b" if "(k, b) \<in> set zs" for k b
    proof -
      have "0 < k" using zs(2) that by force
      then have "map_of zs (int (nat k)) = Some b" using zs(1) that by simp
      then show ?thesis using True by (simp add: phi)
    qed
    then show ?thesis by (intro zero) auto
  next
    case False
    then show ?thesis using same by metis
  qed
qed

lemma map_of_zip_entries:
  assumes "list_all2 P zs qs" "map_of (zip (map fst zs) qs) v = Some q"
  shows "\<exists>z. map_of zs v = Some z \<and> P (v, z) q"
  using assms by (induction rule: list_all2_induct) (auto split: if_splits)

lemma map_of_zip_none:
  "list_all2 P zs qs \<Longrightarrow> map_of (zip (map fst zs) qs) v = None \<Longrightarrow> map_of zs v = None"
  by (induction rule: list_all2_induct) (auto split: if_splits)

lemma hb_lgrs_run:
  assumes s: "store_ok s" and p: "live s p" and ne: "\<not> is_zero s p" "\<not> is_one s p"
  obtains m s' where "hb_lgrs p s = Some (Inr m, s')" "store_ok s'" "extends s s'" "fst ` set m \<subseteq> int ` hsupp s p"
    "\<forall>q \<in> snd ` set m. live s' q"
    "\<not> exhausted s' \<Longrightarrow> (\<forall>a. \<not> hfn s p (put_in s' (map_of m) a)) \<and> (\<forall>a. \<not> hfn s p a \<longrightarrow> put_in s' (map_of m) a = a)"
proof -
  obtain zs where zs: "hb_one_zero s p = Some (Inr zs)" "sorted_wrt (<) (map fst zs)" "fst ` set zs \<subseteq> int ` hsupp s p"
    "\<forall>a. (\<forall>(k, b) \<in> set zs. a (nat k) = b) \<longrightarrow> \<not> hfn s p a"
    using get_one_zero_value [OF store_okD(1) [OF s] store_okD(3) [OF s p]] ne(2)
    by (auto simp: is_one_def hb_one_zero_def hsupp_def hfn_def)
  have supp: "0 < v" if "v \<in> hsupp s p" for v using ref_okD(5) [OF store_okD(3) [OF s p]] that by (force simp: hsupp_def)
  have pos: "\<forall>v \<in> fst ` set zs. 0 < v"
  proof
    fix v assume "v \<in> fst ` set zs"
    then obtain w where "v = int w" "w \<in> hsupp s p" using zs(3) by blast
    then show "0 < v" using supp by simp
  qed
  obtain qs s' where q: "lgrs_loop p zs [] s = Some (zip (map fst zs) qs, s')" "store_ok s'" "extends s s'"
    "list_all2 (\<lambda>(v, z) q. means s' q (\<lambda>a. (hfn s p a \<and> z) \<or> (a (nat v) \<and> \<not> hfn s p a)) (hsupp s p \<union> {nat v})) zs qs"
    using lgrs_loop_runs [OF s means_self [OF p], of "[]" zs] zs(2) pos by auto
  let ?m = "zip (map fst zs) qs"
  have run: "hb_lgrs p s = Some (Inr ?m, s')" using ne(1) zs(1) q(1) by (simp add: hb_lgrs_def is_zero_def)
  have keys: "fst ` set ?m \<subseteq> int ` hsupp s p" using zs(3) set_zip_leftD by fastforce
  have entry: "\<exists>z. map_of zs v = Some z \<and> means s' q (\<lambda>a. (hfn s p a \<and> z) \<or> (a (nat v) \<and> \<not> hfn s p a)) (hsupp s p \<union> {nat v})"
    if "map_of ?m v = Some q" for v q using map_of_zip_entries [OF q(4) that] by simp
  have dist: "distinct (map fst zs)" using zs(2) strict_sorted_iff by blast
  have len: "length qs = length zs" using list_all2_lengthD [OF q(4)] by simp
  then have "distinct (map fst ?m)" using dist by simp
  then have "map_of ?m v = Some r" if "(v, r) \<in> set ?m" for v r using that by simp
  then have live: "\<forall>q \<in> snd ` set ?m. live s' q" using entry by (fastforce simp: means_def)
  have "(\<forall>a. \<not> hfn s p (put_in s' (map_of ?m) a)) \<and> (\<forall>a. \<not> hfn s p a \<longrightarrow> put_in s' (map_of ?m) a = a)" if room: "\<not> exhausted s'"
  proof -
    have phi: "put_in s' (map_of ?m) a v = (case map_of zs (int v) of None \<Rightarrow> a v | Some z \<Rightarrow> (hfn s p a \<and> z) \<or> (a v \<and> \<not> hfn s p a))" for a v
    proof (cases "map_of ?m (int v)")
      case None
      then show ?thesis using map_of_zip_none [OF q(4) None] by (simp add: put_in_def)
    next
      case (Some r)
      then obtain z where "map_of zs (int v) = Some z" "means s' r (\<lambda>a. (hfn s p a \<and> z) \<or> (a v \<and> \<not> hfn s p a)) (hsupp s p \<union> {v})"
        using entry by fastforce
      then show ?thesis using Some room by (simp add: put_in_def means_def)
    qed
    have zero: "\<not> hfn s p a" if "\<forall>(k, b) \<in> set zs. a (nat k) = b" for a using zs(4) that by blast
    show ?thesis using general_solution [of zs "hfn s p" "put_in s' (map_of ?m)", OF zero phi dist pos] by blast
  qed
  then show thesis using that [OF run q(2,3) keys live] by blast
qed

section \<open>The splitter\<close>

lemma split_clause_between:
  assumes e: "engine_ok e" and x: "ref_ok (be_V e) x" "x \<noteq> bdd_F"
  obtains f where "gives e (split_clause x e) f (insert (top_var (tree (be_V e) x) + 1) (supp e x))"
    "\<And>a. f a \<Longrightarrow> fn e x a" "\<exists>a. f a" "\<exists>a. fn e x a \<and> \<not> f a"
proof -
  let ?n = "top_var (tree (be_V e) x) + 1"
  obtain a where a: "fn e x a" using satisfiable [OF tree_reduced [OF engine_okD(1) [OF e] x(1)]] tree_const(2) [OF e x(1)] x(2) by blast
  have "?n \<notin> supp e x" using top_var_bound by fastforce
  then have "fn e x (a(?n := b))" for b using a by (simp add: ev_upd)
  then have "\<exists>a. fn e x a \<and> a ?n" "\<exists>a. fn e x a \<and> \<not> (fn e x a \<and> a ?n)" by (metis fun_upd_same)+
  then show thesis using that [OF split_clause_gives [OF e x(1)]] by blast
qed

lemma or_split_between:
  assumes s: "store_ok s" and p: "live s p" "\<not> is_zero s p" and b: "builds (bs_engine s) res t"
    and t: "\<And>a. ev t a \<Longrightarrow> hfn s p a"
  shows "\<exists>q s'. or_split (ref_of s p) s res = Some (q, s') \<and> store_ok s' \<and> extends s s' \<and> live s' q \<and>
    (\<not> exhausted s' \<longrightarrow> (\<forall>a. hfn s' q a \<longrightarrow> hfn s p a) \<and> (\<exists>a. hfn s' q a) \<and> (\<exists>a. hfn s p a \<and> \<not> hfn s' q a))"
proof -
  let ?x = "ref_of s p"
  note e = store_okD(1) [OF s] and x = store_okD(3) [OF s p(1)]
  have xF: "?x \<noteq> bdd_F" using p(2) by (simp add: is_zero_def)
  obtain r e1 where r: "res = Some (r, e1)" "yields (bs_engine s) e1 r (ev t) (vars t)" using b by (auto simp: builds_def gives_def)
  note R = yieldsD [OF r(2)]
  note up = grows_ref [OF e R(2) x]
  let ?s = "s\<lparr>bs_engine := e1\<rparr>"
  have s1: "store_ok ?s" "extends s ?s" using store_ok_engine [OF s R(1,2)] R(2) by (simp_all add: extends_def)
  show ?thesis
  proof (cases "r \<noteq> bdd_F \<and> r \<noteq> ?x")
    case True
    obtain q s' where q: "handle_of_ref r ?s = (q, s')" by (rule prod.exhaust)
    note h = handle_of_ref_ok [OF s1(1) _ q]
    have h: "store_ok s'" "extends ?s s'" "live s' q" "ref_of s' q = r" "bs_engine s' = e1" using h R(3) by simp_all
    have fn: "hfn s' q a = fn e1 r a" for a by (simp add: hfn_def h)
    have sat: "\<exists>a. fn e1 r a" using True constant_refs(2) [OF engine_okD(1) [OF R(1)] R(3)] by blast
    have "\<exists>a. fn e1 r a \<noteq> fn e1 ?x a" using True canonical [OF engine_okD(1) [OF R(1)] R(3) up(2)] by blast
    then have "(\<forall>a. hfn s' q a \<longrightarrow> hfn s p a) \<and> (\<exists>a. hfn s' q a) \<and> (\<exists>a. hfn s p a \<and> \<not> hfn s' q a)" if "\<not> exhausted s'"
      using R(5) t sat that unfolding fn by (auto simp: hfn_def up(1) exhausted_def h(5))
    then show ?thesis using True q h store_trans [OF s1(2) h(2)] by (simp add: or_split_def r(1))
  next
    case False
    obtain f where f: "gives e1 (split_clause ?x e1) f (insert (top_var (tree (be_V e1) ?x) + 1) (supp e1 ?x))"
      "\<And>a. f a \<Longrightarrow> fn e1 ?x a" "\<exists>a. f a" "\<exists>a. fn e1 ?x a \<and> \<not> f a"
      using split_clause_between [OF R(1) up(2) xF] by blast
    have "makes ?s (to_handle ?s (split_clause ?x e1)) f (insert (top_var (tree (be_V e1) ?x) + 1) (supp e1 ?x))"
      by (rule to_handle_makes [OF s1(1) _ subset_refl]) (use f(1) in simp_all)
    moreover have "to_handle ?s (split_clause ?x e1) = or_split ?x s res"
      using False by (auto simp: or_split_def r(1) to_handle_def)
    ultimately obtain q s' where q: "or_split ?x s res = Some (q, s')" "store_ok s'" "extends ?s s'"
      "means s' q f (insert (top_var (tree (be_V e1) ?x) + 1) (supp e1 ?x))"
      by (auto simp: makes_def)
    have "(\<forall>a. hfn s' q a \<longrightarrow> hfn s p a) \<and> (\<exists>a. hfn s' q a) \<and> (\<exists>a. hfn s p a \<and> \<not> hfn s' q a)" if "\<not> exhausted s'"
    proof -
      have eq: "hfn s' q = f" using that q(4) by (auto simp: means_def)
      have old: "hfn s p a = fn e1 ?x a" for a by (simp add: hfn_def up(1))
      show ?thesis unfolding eq old using f(2-4) by blast
    qed
    moreover have "live s' q" using q(4) by (simp add: means_def)
    ultimately show ?thesis using q(1,2) store_trans [OF s1(2) q(3)] by blast
  qed
qed

section \<open>Properties\<close>

text \<open>A store with the handles of the variables 1 and 2 and of their symmetric difference.\<close>

definition sample_store :: "handle \<times> handle \<times> handle \<times> bdd_store" where
  "sample_store =
     (case hb_bit True 1 (bdd_store_init var_init) of Some (x, s) \<Rightarrow>
        (case hb_bit True 2 s of Some (y, s) \<Rightarrow>
           (case hb_xor x y s of Some (z, s) \<Rightarrow> (x, y, z, s))))"

lemma sample_store_ok:
  "case sample_store of (x, y, z, s) \<Rightarrow> store_ok s \<and> live s x \<and> live s y \<and> live s z"
proof -
  obtain x s1 where x: "hb_bit True 1 (bdd_store_init var_init) = Some (x, s1)" "store_ok s1" "means s1 x (\<lambda>a. a 1 = True) {1}"
    using hb_bit_makes [OF store_init_ok [of var_init], where v = 1 and b = True] by (auto simp: makes_def)
  obtain y s2 where y: "hb_bit True 2 s1 = Some (y, s2)" "store_ok s2" "extends s1 s2" "means s2 y (\<lambda>a. a 2 = True) {2}"
    using hb_bit_makes [OF x(2), where v = 2 and b = True] by (auto simp: makes_def)
  note x2 = means_up [OF x(2) y(3) x(3)]
  obtain z s3 where z: "hb_xor x y s2 = Some (z, s3)" "store_ok s3" "extends s2 s3" "live s3 z"
    using hb_xor_makes [OF y(2) x2 y(4)] by (auto simp: makes_def means_def)
  then show ?thesis
    using x(1) y(1) means_up [OF y(2) z(3) x2] means_up [OF y(2) z(3) y(4)] by (simp add: sample_store_def means_def)
qed

lemma sample_parts:
  obtains x y z s where "sample_store = (x, y, z, s)" "store_ok s" "live s x" "live s y" "live s z"
proof -
  obtain x y z s where s: "sample_store = (x, y, z, s)" by (metis prod.exhaust)
  show thesis by (rule that [OF s]) (use sample_store_ok in \<open>unfold s prod.case, blast+\<close>)
qed

text \<open>
  C31: The engine is canonical: two live handles of a well-formed store are the same object exactly
  when they stand for the same Boolean function, which is what the assertion of the equality
  operator says of the pointers and the references.
\<close>

theorem handles_canonical:
  assumes "store_ok s" "live s p" "live s q"
  shows "(p = q) = (\<forall>a. hfn s p a = hfn s q a) \<and> (p = q) = handle_eq s p q"
proof -
  have "ref_of s p = ref_of s q \<longleftrightarrow> p = q"
    using store_okD(2) [OF assms(1)] assms(2,3) nth_eq_iff_index_eq by (auto simp: ref_of_def live_def)
  then show ?thesis
    using canonical [OF engine_okD(1) [OF store_okD(1) [OF assms(1)]] store_okD(3) [OF assms(1,2)] store_okD(3) [OF assms(1,3)]]
    by (simp add: hfn_def handle_eq_def)
qed

theorem handles_canonical_witness:
  "case sample_store of (x, y, z, s) \<Rightarrow> (x = y) = (\<forall>a. hfn s x a = hfn s y a) \<and> (x = y) = handle_eq s x y"
proof -
  obtain x y z s where s: "sample_store = (x, y, z, s)" "store_ok s" "live s x" "live s y" "live s z" by (rule sample_parts)
  show ?thesis unfolding s(1) prod.case by (rule handles_canonical [OF s(2,3,4)])
qed

text \<open>
  C32: The memoized conjunction ends on every pair of well-formed references, keeps the tables and
  memos well formed, and yields the reference of the conjunction, with no variable its operands have
  not, unless a full table has raised the flag.
\<close>

theorem conjunction_correct:
  assumes "engine_ok e" "ref_ok (be_V e) x" "ref_ok (be_V e) y"
  shows "\<exists>r e'. bdd_and x y e = Some (r, e') \<and> engine_ok e' \<and> ref_ok (be_V e') r \<and>
    supp e' r \<subseteq> supp e x \<union> supp e y \<and> (be_exhausted e' \<or> (\<forall>a. fn e' r a = (fn e x a \<and> fn e y a)))"
  using bdd_and_gives [OF assms] by (auto simp: gives_def yields_def)

theorem conjunction_correct_witness:
  "case sample_store of (x, y, z, s) \<Rightarrow>
     \<exists>r e'. bdd_and (ref_of s x) (ref_of s z) (bs_engine s) = Some (r, e') \<and> engine_ok e'"
proof -
  obtain x y z s where s: "sample_store = (x, y, z, s)" "store_ok s" "live s x" "live s y" "live s z" by (rule sample_parts)
  show ?thesis unfolding s(1) prod.case
    using conjunction_correct [OF store_okD(1) [OF s(2)] store_okD(3) [OF s(2,3)] store_okD(3) [OF s(2,5)]] by blast
qed

text \<open>
  C33: The general solution: for a function that is neither zero nor one, \<open>lgrs\<close> ends with a map of
  variables of the function; unless a table was full, substituting it gives a zero of the function
  at every assignment and leaves every zero of the function as it is.
\<close>

theorem lgrs_reproductive:
  assumes "store_ok s" "live s p" "\<not> is_zero s p" "\<not> is_one s p"
  shows "\<exists>m s'. hb_lgrs p s = Some (Inr m, s') \<and> store_ok s' \<and> fst ` set m \<subseteq> int ` hsupp s p \<and>
    (exhausted s' \<or> (\<forall>a. \<not> hfn s p (put_in s' (map_of m) a)) \<and> (\<forall>a. hfn s p a \<or> put_in s' (map_of m) a = a))"
  using hb_lgrs_run [OF assms] by metis

lemma sample_store_room:
  "case sample_store of (x, y, z, s) \<Rightarrow> \<not> is_zero s z \<and> \<not> is_one s z \<and>
     (case hb_lgrs z s of Some (Inr m, s') \<Rightarrow> \<not> exhausted s' \<and> map fst m = [1, 2])"
  by code_simp

theorem lgrs_reproductive_witness:
  "case sample_store of (x, y, z, s) \<Rightarrow>
     \<exists>m s'. hb_lgrs z s = Some (Inr m, s') \<and> map fst m = [1, 2] \<and> (\<forall>a. \<not> hfn s z (put_in s' (map_of m) a))"
proof -
  obtain x y z s where s: "sample_store = (x, y, z, s)" "store_ok s" "live s x" "live s y" "live s z" by (rule sample_parts)
  have r: "\<not> is_zero s z" "\<not> is_one s z" "case hb_lgrs z s of Some (Inr m, s') \<Rightarrow> \<not> exhausted s' \<and> map fst m = [1, 2]"
    using sample_store_room unfolding s(1) prod.case by blast+
  show ?thesis unfolding s(1) prod.case using lgrs_reproductive [OF s(2,5) r(1,2)] r(3) by (elim exE conjE) simp
qed

text \<open>
  C34: A splitter of a function that is not zero ends, for every kind of splitter; unless a table was
  full it lies strictly between zero and the function.
\<close>

theorem splitter_between:
  assumes "store_ok s" "live s p" "\<not> is_zero s p"
  shows "\<exists>q s'. hb_splitter k p s = Some (q, s') \<and> store_ok s' \<and> extends s s' \<and> live s' q \<and>
    (exhausted s' \<or> (\<forall>a. hfn s' q a \<le> hfn s p a) \<and> (\<exists>a. hfn s' q a) \<and> (\<exists>a. hfn s p a \<and> \<not> hfn s' q a))"
proof -
  note e = store_okD(1) [OF assms(1)] and x = store_okD(3) [OF assms(1,2)]
  note between = or_split_between [OF assms, unfolded hfn_def [of s]]
  have split: "to_handle s (split_clause (ref_of s p) (bs_engine s)) = or_split (ref_of s p) s (Some (bdd_F, bs_engine s))"
    by (simp add: or_split_def to_handle_def)
  have "\<exists>t res. hb_splitter k p s = or_split (ref_of s p) s res \<and> builds (bs_engine s) res t \<and> (\<forall>a. ev t a \<longrightarrow> hfn s p a)"
  proof (cases k)
    case Lower
    then have "hb_splitter k p s = or_split (ref_of s p) s (rm_all_except_one_clause (ref_of s p) (bs_engine s))" by (simp add: hb_splitter_def Let_def)
    then show ?thesis using rm_all_except_one_clause_builds [OF e x] clause_below(2) unfolding hfn_def by blast
  next
    case Middle
    then have "hb_splitter k p s = or_split (ref_of s p) s (rm_half_clauses (ref_of s p) (bs_engine s))" by (simp add: hb_splitter_def Let_def)
    then show ?thesis using rm_half_clauses_builds [OF e x] clause_below(3) unfolding hfn_def by blast
  next
    case Upper
    then have "hb_splitter k p s = or_split (ref_of s p) s (rm_clause (ref_of s p) (bs_engine s))" by (simp add: hb_splitter_def Let_def)
    then show ?thesis using rm_clause_builds [OF e x] clause_below(1) unfolding hfn_def by blast
  next
    case Bad
    then have "hb_splitter k p s = or_split (ref_of s p) s (Some (bdd_F, bs_engine s))" using split by (simp add: hb_splitter_def Let_def)
    moreover have "ev (Leaf False) a \<longrightarrow> hfn s p a" for a by simp
    ultimately show ?thesis using builds_const [OF e] by blast
  qed
  then obtain t res where r: "hb_splitter k p s = or_split (ref_of s p) s res" "builds (bs_engine s) res t" "\<And>a. ev t a \<Longrightarrow> hfn s p a"
    by blast
  show ?thesis using or_split_between [OF assms r(2,3)] unfolding r(1) by (auto simp: le_bool_def)
qed

theorem splitter_between_witness:
  "case sample_store of (x, y, z, s) \<Rightarrow>
     \<exists>q s'. hb_splitter Upper z s = Some (q, s') \<and> (\<exists>a. hfn s' q a) \<and> (\<exists>a. hfn s z a \<and> \<not> hfn s' q a)"
proof -
  obtain x y z s where s: "sample_store = (x, y, z, s)" "store_ok s" "live s x" "live s y" "live s z" by (rule sample_parts)
  have z: "\<not> is_zero s z" using sample_store_room unfolding s(1) prod.case by blast
  have "case sample_store of (x, y, z, s) \<Rightarrow> (case hb_splitter Upper z s of Some (q, s') \<Rightarrow> \<not> exhausted s')" by code_simp
  then have "case hb_splitter Upper z s of Some (q, s') \<Rightarrow> \<not> exhausted s'" unfolding s(1) prod.case .
  then show ?thesis unfolding s(1) prod.case using splitter_between [OF s(2,5) z, of Upper] by (elim exE conjE) auto
qed

end
