(* ===== verification/Bigint_Limbs.thy ===== *)
theory Bigint_Limbs imports Tau_Prelude "HOL-Library.Word" begin

text \<open>
  The magnitudes of \<^verbatim>\<open>src/boolean_algebras/hsb/hsb_rational.h\<close>: little-endian lists of 32-bit
  limbs, and the loops of their arithmetic but the long division. A 32-bit or 64-bit unsigned value
  is a natural number, reduced where the code stores it; the lemmas say that no 64-bit intermediate
  loses a bit.
\<close>

section \<open>Machine integers\<close>

definition base :: nat where
  "base = 2 ^ 32"

definition u32 :: "nat \<Rightarrow> nat" where
  "u32 n = n mod base"

definition u64 :: "nat \<Rightarrow> nat" where
  "u64 n = n mod (base * base)"

text \<open>A signed 64-bit value stored in a limb.\<close>

definition s32 :: "int \<Rightarrow> nat" where
  "s32 t = nat (t mod int base)"

text \<open>Two limbs as one 64-bit value: the high one shifted up, and the low one.\<close>

definition join32 :: "nat \<Rightarrow> nat \<Rightarrow> nat" where
  "join32 h l = or (u64 (push_bit 32 h)) l"

type_synonym limbs = "nat list"

section \<open>The loops\<close>

definition trim_limbs :: "limbs \<Rightarrow> limbs" where
  "trim_limbs a = rev (dropWhile (\<lambda>x. x = 0) (rev a))"

text \<open>From the most significant limb down.\<close>

fun cmp_loop :: "limbs \<Rightarrow> limbs \<Rightarrow> int" where
  "cmp_loop (x # xs) (y # ys) = (if x \<noteq> y then (if x < y then -1 else 1) else cmp_loop xs ys)"
| "cmp_loop xs ys = 0"

definition mag_cmp :: "limbs \<Rightarrow> limbs \<Rightarrow> int" where
  "mag_cmp a b =
     (if length a \<noteq> length b then (if length a < length b then -1 else 1) else cmp_loop (rev a) (rev b))"

definition limb_or_0 :: "limbs \<Rightarrow> nat" where
  "limb_or_0 ys = (case ys of [] \<Rightarrow> 0 | y # _ \<Rightarrow> y)"

fun add_loop :: "limbs \<Rightarrow> limbs \<Rightarrow> nat \<Rightarrow> limbs" where
  "add_loop [] ys carry = [u32 carry]"
| "add_loop (x # xs) ys carry =
     (let s = u64 (x + limb_or_0 ys + carry) in u32 s # add_loop xs (tl ys) (s div base))"

definition mag_add :: "limbs \<Rightarrow> limbs \<Rightarrow> limbs" where
  "mag_add a b =
     (let x = (if length b \<le> length a then a else b); y = (if length b \<le> length a then b else a)
      in trim_limbs (add_loop x y 0))"

fun sub_loop :: "limbs \<Rightarrow> limbs \<Rightarrow> nat \<Rightarrow> limbs" where
  "sub_loop [] ys borrow = []"
| "sub_loop (x # xs) ys borrow =
     (let d = int x - int (limb_or_0 ys) - int borrow
      in s32 d # sub_loop xs (tl ys) (if d < 0 then 1 else 0))"

definition mag_sub :: "limbs \<Rightarrow> limbs \<Rightarrow> limbs" where
  "mag_sub a b = trim_limbs (sub_loop a b 0)"

text \<open>One row of the product, added at its place; the last carry is stored, not added.\<close>

fun mul_row :: "nat \<Rightarrow> limbs \<Rightarrow> limbs \<Rightarrow> nat \<Rightarrow> limbs" where
  "mul_row x [] r carry = u32 carry # tl r"
| "mul_row x (y # ys) r carry =
     (let t = u64 (x * y + limb_or_0 r + carry) in u32 t # mul_row x ys (tl r) (t div base))"

fun mul_loop :: "limbs \<Rightarrow> limbs \<Rightarrow> limbs \<Rightarrow> limbs" where
  "mul_loop [] ys r = r"
| "mul_loop (x # xs) ys r = (let r = mul_row x ys r 0 in hd r # mul_loop xs ys (tl r))"

definition mag_mul :: "limbs \<Rightarrow> limbs \<Rightarrow> limbs" where
  "mag_mul a b =
     (if a = [] \<or> b = [] then [] else trim_limbs (mul_loop a b (replicate (length a + length b) 0)))"

fun small_loop :: "nat \<Rightarrow> limbs \<Rightarrow> nat \<Rightarrow> limbs" where
  "small_loop m [] carry = (if carry \<noteq> 0 then [u32 carry] else [])"
| "small_loop m (l # ls) carry = (let t = u64 (l * m + carry) in u32 t # small_loop m ls (t div base))"

definition mul_small_add :: "limbs \<Rightarrow> nat \<Rightarrow> nat \<Rightarrow> limbs" where
  "mul_small_add a m c = trim_limbs (small_loop m a c)"

text \<open>From the most significant limb down: the quotient limbs and the remainder.\<close>

fun div_loop :: "nat \<Rightarrow> limbs \<Rightarrow> nat \<Rightarrow> limbs \<times> nat" where
  "div_loop d [] r = ([], r)"
| "div_loop d (l # ls) r =
     (let cur = join32 r l in case div_loop d ls (cur mod d) of (q, r) \<Rightarrow> (u32 (cur div d) # q, r))"

definition div_small :: "limbs \<Rightarrow> nat \<Rightarrow> limbs \<times> nat" where
  "div_small a d = (case div_loop d (rev a) 0 of (q, r) \<Rightarrow> (trim_limbs (rev q), u32 r))"

section \<open>The value of a magnitude\<close>

fun val :: "limbs \<Rightarrow> nat" where
  "val [] = 0"
| "val (x # xs) = x + base * val xs"

definition limbs_ok :: "limbs \<Rightarrow> bool" where
  "limbs_ok a \<longleftrightarrow> (\<forall>x \<in> set a. x < base)"

definition mag_ok :: "limbs \<Rightarrow> bool" where
  "mag_ok a \<longleftrightarrow> limbs_ok a \<and> (a = [] \<or> last a \<noteq> 0)"

lemma base_pos: "0 < base" "1 < base" "2 \<le> base"
  by (simp_all add: base_def)

lemma limbs_ok_simps [simp]:
  "limbs_ok []" "limbs_ok (x # xs) \<longleftrightarrow> x < base \<and> limbs_ok xs" "limbs_ok (xs @ ys) \<longleftrightarrow> limbs_ok xs \<and> limbs_ok ys"
  "limbs_ok (rev xs) \<longleftrightarrow> limbs_ok xs"
  by (auto simp: limbs_ok_def)

lemma u32_less [simp]: "u32 n < base"
  by (simp add: u32_def base_pos)

lemma s32_less [simp]: "s32 t < base"
  using base_pos(1) by (simp add: s32_def nat_less_iff)

lemma u32_id: "n < base \<Longrightarrow> u32 n = n"
  by (simp add: u32_def)

lemma u64_id: "n < base * base \<Longrightarrow> u64 n = n"
  by (simp add: u64_def)

lemma split_base: "u32 n + base * (n div base) = n"
  by (simp add: u32_def)

lemma div_base: "n < base * base \<Longrightarrow> n div base < base"
  by (simp add: less_mult_imp_div_less)

lemma or_add: "l < 2 ^ k \<Longrightarrow> or (push_bit k h) l = push_bit k h + (l :: nat)"
proof -
  assume l: "l < 2 ^ k"
  have "\<not> bit l n" if "k \<le> n" for n
  proof -
    have "(2 :: nat) ^ k \<le> 2 ^ n" using that by simp
    then have "l div 2 ^ n = 0" using l by (meson div_less less_le_trans)
    then show ?thesis by (simp add: bit_iff_odd)
  qed
  then have "\<not> bit (push_bit k h) n \<or> \<not> bit l n" for n by (cases "k \<le> n") (simp_all add: bit_push_bit_iff)
  then show ?thesis by (simp add: disjunctive_add)
qed

lemma join32_val: "h < base \<Longrightarrow> l < base \<Longrightarrow> join32 h l = h * base + l"
proof -
  assume a: "h < base" "l < base"
  have "push_bit 32 h = h * base" by (simp add: push_bit_eq_mult base_def)
  moreover have "h * base < base * base" using a(1) base_pos(1) by simp
  ultimately show ?thesis using or_add [of l 32 h] a(2) by (simp add: join32_def u64_id base_def)
qed

lemma limb_or_0_ok: "limbs_ok ys \<Longrightarrow> limb_or_0 ys < base \<and> limbs_ok (tl ys)"
  by (cases ys) (auto simp: limb_or_0_def base_pos)

lemma val_decompose: "val ys = limb_or_0 ys + base * val (tl ys)"
  by (cases ys) (simp_all add: limb_or_0_def)

lemma val_append: "val (xs @ ys) = val xs + base ^ length xs * val ys"
  by (induction xs) (simp_all add: algebra_simps)

lemma val_bound: "limbs_ok a \<Longrightarrow> val a < base ^ length a"
proof (induction a)
  case (Cons x xs)
  then have "x < base" "val xs + 1 \<le> base ^ length xs" by simp_all
  then have "x + base * val xs < base * (val xs + 1)" "base * (val xs + 1) \<le> base * base ^ length xs"
    by (simp, intro mult_le_mono2)
  then show ?case by simp
qed simp

lemma val_replicate: "val (replicate n 0) = 0"
  by (induction n) auto

section \<open>Normal magnitudes\<close>

lemma trim_limbs_snoc: "trim_limbs (xs @ [x]) = (if x = 0 then trim_limbs xs else xs @ [x])"
  by (simp add: trim_limbs_def)

lemma trim_limbs_ok: "limbs_ok a \<Longrightarrow> mag_ok (trim_limbs a) \<and> val (trim_limbs a) = val a"
proof (induction a rule: rev_induct)
  case Nil
  then show ?case by (simp add: trim_limbs_def mag_ok_def)
next
  case (snoc x xs)
  then show ?case by (auto simp: trim_limbs_snoc mag_ok_def val_append)
qed

lemma mag_okD: "mag_ok a \<Longrightarrow> limbs_ok a"
  by (simp add: mag_ok_def)

text \<open>A longer normal magnitude is greater.\<close>

lemma val_lower: "a \<noteq> [] \<Longrightarrow> last a \<noteq> 0 \<Longrightarrow> base ^ (length a - 1) \<le> val a"
proof -
  assume a: "a \<noteq> []" "last a \<noteq> 0"
  then have "a = butlast a @ [last a]" by simp
  then have "val a = val (butlast a) + base ^ (length a - 1) * last a" by (metis val_append length_butlast val.simps mult_0_right add_0_right)
  moreover have "base ^ k \<le> base ^ k * last a" for k using a(2) by simp
  ultimately show ?thesis by (metis trans_le_add2)
qed

lemma val_zero: "mag_ok a \<Longrightarrow> val a = 0 \<longleftrightarrow> a = []"
proof -
  assume a: "mag_ok a"
  have pos: "0 < base ^ k" for k using base_pos(1) by simp
  show ?thesis
  proof (cases "a = []")
    case False
    then have "base ^ (length a - 1) \<le> val a" using a by (intro val_lower) (auto simp: mag_ok_def)
    then have "0 < val a" using pos by (rule less_le_trans [rotated])
    then show ?thesis using False by simp
  qed simp
qed

lemma val_length:
  assumes "mag_ok a" "mag_ok b" "length a < length b"
  shows "val a < val b"
proof -
  have "val a < base ^ length a" using val_bound assms(1) by (simp add: mag_ok_def)
  also have "\<dots> \<le> base ^ (length b - 1)" using assms(3) base_pos by (intro power_increasing) auto
  also have "\<dots> \<le> val b" using assms(2,3) by (intro val_lower) (auto simp: mag_ok_def)
  finally show ?thesis .
qed

lemma cmp_loop_sign:
  "length xs = length ys \<Longrightarrow> limbs_ok xs \<Longrightarrow> limbs_ok ys \<Longrightarrow>
    cmp_loop xs ys = (if val (rev xs) < val (rev ys) then -1 else if val (rev xs) = val (rev ys) then 0 else 1)"
proof (induction xs ys rule: list_induct2)
  case (Cons x xs y ys)
  have b: "val (rev xs) < base ^ length xs" "val (rev ys) < base ^ length xs"
    using val_bound [of "rev xs"] val_bound [of "rev ys"] Cons.hyps Cons.prems by auto
  have step: "val (rev (x # xs)) = val (rev xs) + base ^ length xs * x" "val (rev (y # ys)) = val (rev ys) + base ^ length xs * y"
    using Cons.hyps by (simp_all add: val_append)
  show ?case
  proof (cases "x = y")
    case True
    then show ?thesis using Cons by (simp add: val_append)
  next
    case False
    have gap: "val (rev p) + base ^ length xs * m < base ^ length xs * n" if "m < n" "val (rev p) < base ^ length xs" for p m n
    proof -
      have "base ^ length xs * (m + 1) \<le> base ^ length xs * n" using that(1) by (intro mult_le_mono2) simp
      then show ?thesis using that(2) by simp
    qed
    have "x < y \<Longrightarrow> val (rev (x # xs)) < val (rev (y # ys))" "y < x \<Longrightarrow> val (rev (y # ys)) < val (rev (x # xs))"
      using gap [OF _ b(1), of x y] gap [OF _ b(2), of y x] unfolding step by linarith+
    then show ?thesis using False by (cases "x < y") auto
  qed
qed simp

lemma mag_cmp_sign:
  assumes "mag_ok a" "mag_ok b"
  shows "mag_cmp a b = (if val a < val b then -1 else if val a = val b then 0 else 1)"
proof -
  consider "length a < length b" | "length b < length a" | "length a = length b" by linarith
  then show ?thesis
  proof cases
    case 1
    then show ?thesis using val_length [OF assms] by (simp add: mag_cmp_def)
  next
    case 2
    then show ?thesis using val_length [OF assms(2,1)] by (auto simp: mag_cmp_def)
  next
    case 3
    then show ?thesis using cmp_loop_sign [of "rev a" "rev b"] assms by (simp add: mag_cmp_def mag_ok_def)
  qed
qed

lemma val_inj: "mag_ok a \<Longrightarrow> mag_ok b \<Longrightarrow> val a = val b \<longleftrightarrow> a = b"
proof
  assume ok: "mag_ok a" "mag_ok b" and eq: "val a = val b"
  have len: "length a = length b" using val_length ok eq by (metis nat_neq_iff)
  have "length xs = length ys \<Longrightarrow> limbs_ok xs \<Longrightarrow> limbs_ok ys \<Longrightarrow> val xs = val ys \<Longrightarrow> xs = ys" for xs ys
  proof (induction xs ys rule: list_induct2)
    case (Cons x xs y ys)
    have lt: "x < base" "y < base" "x + base * val xs = y + base * val ys" using Cons.prems by simp_all
    then have "(x + base * val xs) mod base = (y + base * val ys) mod base" by simp
    then have "x = y" using lt(1,2) by simp
    then show ?case using lt Cons base_pos by simp
  qed simp
  then show "a = b" using len ok eq by (simp add: mag_ok_def)
qed simp

section \<open>Sums and products\<close>

text \<open>A step that stores the low limb of a 64-bit value and carries the rest.\<close>

lemma carry_step: "n < base * base \<Longrightarrow> u32 (u64 n) + base * (u64 n div base + m) = n + base * m"
  using split_base [of n] by (simp add: u64_id algebra_simps)

lemma square_base: "x < base \<Longrightarrow> y < base \<Longrightarrow> r < base \<Longrightarrow> c < base \<Longrightarrow> x * y + r + c < base * base"
proof -
  assume a: "x < base" "y < base" "r < base" "c < base"
  obtain k where k: "base = k + 1" using base_pos(1) by (metis Suc_eq_plus1 gr0_conv_Suc)
  have "x * y \<le> k * k" using a k by (intro mult_le_mono) simp_all
  moreover have "base * base = k * k + 2 * k + 1" by (simp add: k algebra_simps)
  ultimately show ?thesis using a k by linarith
qed

lemma add_loop_val:
  "limbs_ok xs \<Longrightarrow> limbs_ok ys \<Longrightarrow> c \<le> 1 \<Longrightarrow> length ys \<le> length xs \<Longrightarrow>
    limbs_ok (add_loop xs ys c) \<and> val (add_loop xs ys c) = val xs + val ys + c"
proof (induction xs arbitrary: ys c)
  case Nil
  then show ?case using base_pos(2) by (simp add: u32_id)
next
  case (Cons x xs)
  let ?s = "x + limb_or_0 ys + c"
  note y = limb_or_0_ok [OF Cons.prems(2)]
  have s: "?s < 2 * base" using Cons.prems(1,3) y by simp
  have "?s < base * base" using s base_pos(3) mult_le_mono1 [of 2 base base] by linarith
  moreover have "?s div base \<le> 1" using s by (simp add: less_mult_imp_div_less flip: less_Suc_eq_le)
  ultimately show ?case
    using Cons.IH [of "tl ys" "?s div base"] Cons.prems y carry_step [of ?s "val xs + val (tl ys)"] val_decompose [of ys]
    by (simp add: Let_def u64_id) (simp add: algebra_simps)
qed

lemma mag_add_val:
  assumes "mag_ok a" "mag_ok b"
  shows "mag_ok (mag_add a b)" "val (mag_add a b) = val a + val b"
proof -
  have "limbs_ok (add_loop x y 0) \<and> val (add_loop x y 0) = val x + val y" if "x = a \<and> y = b \<or> x = b \<and> y = a" "length y \<le> length x" for x y
    using add_loop_val [of x y 0] that assms by (auto simp: mag_ok_def)
  then show "mag_ok (mag_add a b)" "val (mag_add a b) = val a + val b"
    using trim_limbs_ok unfolding mag_add_def Let_def by (cases "length b \<le> length a"; simp)+
qed

text \<open>A borrow: the difference is the value, less a full power when one is left over.\<close>

lemma s32_step: "- int base \<le> d \<Longrightarrow> d < int base \<Longrightarrow> int (s32 d) = d + int base * (if d < 0 then 1 else 0)"
proof -
  assume d: "- int base \<le> d" "d < int base"
  show ?thesis
  proof (cases "d < 0")
    case True
    then have "(d + int base) mod int base = d + int base" using d by (intro mod_pos_pos_trivial) simp_all
    then show ?thesis using True d by (simp add: s32_def)
  next
    case False
    then show ?thesis using d by (simp add: s32_def)
  qed
qed

lemma sub_loop_val:
  "limbs_ok xs \<Longrightarrow> limbs_ok ys \<Longrightarrow> c \<le> 1 \<Longrightarrow> length ys \<le> length xs \<Longrightarrow>
    limbs_ok (sub_loop xs ys c) \<and> length (sub_loop xs ys c) = length xs \<and>
    (\<exists>b. int (val (sub_loop xs ys c)) = int (val xs) - int (val ys) - int c + int (base ^ length xs) * b \<and> (b = 0 \<or> b = 1))"
proof (induction xs arbitrary: ys c)
  case Nil
  then have "int (val []) = int (val []) - int (val ys) - int c + int (base ^ length ([] :: limbs)) * int c" by simp
  moreover have "int c = 0 \<or> int c = 1" using Nil.prems(3) by linarith
  ultimately show ?case by (simp only: sub_loop.simps limbs_ok_simps) blast
next
  case (Cons x xs)
  define d where "d = int x - int (limb_or_0 ys) - int c"
  define c' where "c' = (if d < 0 then 1 else 0 :: nat)"
  note y = limb_or_0_ok [OF Cons.prems(2)]
  have x: "x < base" "limbs_ok xs" using Cons.prems(1) by simp_all
  have d: "- int base \<le> d" "d < int base" using x y Cons.prems(3) by (simp_all add: d_def)
  have s: "int (s32 d) = d + int base * int c'" using s32_step [OF d] by (simp add: c'_def)
  have le: "c' \<le> 1" "length (tl ys) \<le> length xs" using Cons.prems(4) by (simp_all add: c'_def)
  obtain b where b: "int (val (sub_loop xs (tl ys) c')) = int (val xs) - int (val (tl ys)) - int c' + int (base ^ length xs) * b" "b = 0 \<or> b = 1"
    and ok: "limbs_ok (sub_loop xs (tl ys) c')" "length (sub_loop xs (tl ys) c') = length xs"
    using Cons.IH [OF x(2) _ le] y by blast
  have step: "sub_loop (x # xs) ys c = s32 d # sub_loop xs (tl ys) c'" by (simp add: d_def c'_def Let_def)
  have "int (val ys) = int (limb_or_0 ys) + int base * int (val (tl ys))" using val_decompose [of ys] by (metis of_nat_add of_nat_mult)
  then have "int (val (s32 d # sub_loop xs (tl ys) c')) =
      int (val (x # xs)) - int (val ys) - int c + int (base ^ length (x # xs)) * b"
    unfolding val.simps of_nat_add of_nat_mult s b(1) by (simp add: d_def algebra_simps)
  then show ?case unfolding step using ok b(2) by auto
qed

lemma mag_sub_val:
  assumes "mag_ok a" "mag_ok b" "val b \<le> val a"
  shows "mag_ok (mag_sub a b)" "val (mag_sub a b) = val a - val b"
proof -
  have len: "length b \<le> length a" using val_length [OF assms(1,2)] assms(3) by (meson leD not_le)
  have ok: "limbs_ok a" "limbs_ok b" using assms by (simp_all add: mag_ok_def)
  obtain c where s: "limbs_ok (sub_loop a b 0)" "length (sub_loop a b 0) = length a" "c = 0 \<or> c = 1"
    "int (val (sub_loop a b 0)) = int (val a) - int (val b) - int 0 + int (base ^ length a) * c"
    using sub_loop_val [OF ok _ len, of 0] by auto
  have "int (val (sub_loop a b 0)) < int (base ^ length a)" using val_bound [OF s(1)] s(2) by simp
  then have "c = 0" using s(3,4) assms(3) by auto
  then have "val (sub_loop a b 0) = val a - val b" using s(4) assms(3) by simp
  then show "mag_ok (mag_sub a b)" "val (mag_sub a b) = val a - val b"
    using trim_limbs_ok [OF s(1)] by (simp_all add: mag_sub_def)
qed

lemma mul_row_val:
  "x < base \<Longrightarrow> limbs_ok ys \<Longrightarrow> limbs_ok r \<Longrightarrow> c < base \<Longrightarrow> length ys < length r \<Longrightarrow> r ! length ys = 0 \<Longrightarrow>
    limbs_ok (mul_row x ys r c) \<and> length (mul_row x ys r c) = length r \<and>
    val (mul_row x ys r c) = val r + x * val ys + c \<and> drop (Suc (length ys)) (mul_row x ys r c) = drop (Suc (length ys)) r"
proof (induction ys arbitrary: r c)
  case Nil
  then obtain z r' where "r = z # r'" by (cases r) auto
  then show ?case using Nil.prems by (simp add: u32_id)
next
  case (Cons y ys)
  then obtain z r' where r: "r = z # r'" by (cases r) auto
  let ?t = "x * y + z + c"
  have t: "?t < base * base" by (rule square_base) (use Cons.prems r in simp_all)
  have IH: "limbs_ok (mul_row x ys r' (?t div base)) \<and> length (mul_row x ys r' (?t div base)) = length r' \<and>
      val (mul_row x ys r' (?t div base)) = val r' + x * val ys + ?t div base \<and>
      drop (Suc (length ys)) (mul_row x ys r' (?t div base)) = drop (Suc (length ys)) r'"
    by (rule Cons.IH) (use Cons.prems r div_base [OF t] in simp_all)
  have "val (mul_row x (y # ys) r c) = u32 ?t + base * (val r' + x * val ys + ?t div base)"
    using IH by (simp add: r limb_or_0_def Let_def u64_id [OF t])
  also have "\<dots> = ?t + base * (val r' + x * val ys)" using split_base [of ?t] by (simp add: algebra_simps)
  finally have "val (mul_row x (y # ys) r c) = val r + x * val (y # ys) + c" by (simp add: r algebra_simps)
  then show ?case using IH by (simp add: r limb_or_0_def Let_def u64_id [OF t])
qed

lemma mul_loop_val:
  "limbs_ok xs \<Longrightarrow> limbs_ok ys \<Longrightarrow> limbs_ok r \<Longrightarrow> length r = length xs + length ys \<Longrightarrow> \<forall>i. length ys \<le> i \<longrightarrow> i < length r \<longrightarrow> r ! i = 0 \<Longrightarrow>
    ys \<noteq> [] \<Longrightarrow> limbs_ok (mul_loop xs ys r) \<and> val (mul_loop xs ys r) = val r + val xs * val ys"
proof (induction xs arbitrary: r)
  case Nil
  then show ?case by simp
next
  case (Cons x xs)
  let ?r = "mul_row x ys r 0"
  have row: "limbs_ok ?r" "length ?r = length r" "val ?r = val r + x * val ys" "drop (Suc (length ys)) ?r = drop (Suc (length ys)) r"
    using mul_row_val [of x ys r 0] Cons.prems base_pos(1) by simp_all
  obtain z r' where r: "?r = z # r'" using row(2) Cons.prems(4) by (cases ?r) auto
  have zero: "r' ! i = 0" if "length ys \<le> i" "i < length r'" for i
  proof -
    have "r' ! i = ?r ! Suc i" by (simp add: r)
    also have "\<dots> = drop (Suc (length ys)) ?r ! (i - length ys)" using that row(2) r by (simp add: nth_drop)
    also have "\<dots> = r ! Suc i" unfolding row(4) using that row(2) r by (simp add: nth_drop)
    also have "\<dots> = 0" using that Cons.prems(5) row(2) r by simp
    finally show ?thesis .
  qed
  have "limbs_ok (mul_loop xs ys r') \<and> val (mul_loop xs ys r') = val r' + val xs * val ys"
    by (rule Cons.IH) (use Cons.prems row r zero in auto)
  then show ?case using row(1,3) by (simp add: r Let_def algebra_simps)
qed

lemma mag_mul_val:
  assumes "mag_ok a" "mag_ok b"
  shows "mag_ok (mag_mul a b)" "val (mag_mul a b) = val a * val b"
proof -
  have "mag_ok (mag_mul a b) \<and> val (mag_mul a b) = val a * val b"
  proof (cases "a = [] \<or> b = []")
    case True
    then show ?thesis by (auto simp: mag_mul_def mag_ok_def)
  next
    case False
    let ?r = "replicate (length a + length b) 0"
    have "limbs_ok ?r" using base_pos(1) by (auto simp: limbs_ok_def)
    then have "limbs_ok (mul_loop a b ?r) \<and> val (mul_loop a b ?r) = val ?r + val a * val b"
      by (intro mul_loop_val) (use False assms in \<open>simp_all add: mag_ok_def\<close>)
    then show ?thesis using trim_limbs_ok False by (simp add: mag_mul_def val_replicate)
  qed
  then show "mag_ok (mag_mul a b)" "val (mag_mul a b) = val a * val b" by blast+
qed

lemma small_loop_val:
  "limbs_ok a \<Longrightarrow> m < base \<Longrightarrow> c < base \<Longrightarrow> limbs_ok (small_loop m a c) \<and> val (small_loop m a c) = val a * m + c"
proof (induction a arbitrary: c)
  case Nil
  then show ?case by (simp add: u32_id)
next
  case (Cons x xs)
  let ?t = "x * m + c"
  have t: "?t < base * base" using square_base [of x m 0 c] Cons.prems by simp
  show ?case
    using Cons.IH [of "?t div base"] Cons.prems div_base [OF t] carry_step [OF t, of "val xs * m"]
    by (simp add: Let_def u64_id [OF t]) (simp add: algebra_simps)
qed

lemma mul_small_add_val:
  assumes "mag_ok a" "m < base" "c < base"
  shows "mag_ok (mul_small_add a m c)" "val (mul_small_add a m c) = val a * m + c"
  using trim_limbs_ok small_loop_val [of a m c] assms by (simp_all add: mul_small_add_def mag_ok_def)

section \<open>Division by a limb\<close>

lemma div_loop_val:
  "limbs_ok a \<Longrightarrow> 0 < d \<Longrightarrow> d < base \<Longrightarrow> r < d \<Longrightarrow> div_loop d a r = (q, r') \<Longrightarrow>
    limbs_ok q \<and> length q = length a \<and> r' < d \<and> r * base ^ length a + val (rev a) = val (rev q) * d + r'"
proof (induction a arbitrary: r q r')
  case Nil
  then show ?case by simp
next
  case (Cons x xs)
  let ?cur = "r * base + x"
  have "(r + 1) * base \<le> d * base" using Cons.prems(4) by (intro mult_le_mono1) simp
  then have cur: "?cur < d * base" using Cons.prems(1) by simp
  have u: "join32 r x = ?cur" using join32_val [of r x] Cons.prems(1,3,4) by simp
  have qd: "?cur div d < base" using cur by (simp add: less_mult_imp_div_less mult.commute)
  obtain q0 r0 where q0: "div_loop d xs (?cur mod d) = (q0, r0)" by (rule prod.exhaust)
  have q: "q = ?cur div d # q0" "r' = r0" using Cons.prems(5) q0 by (simp_all add: u Let_def u32_id [OF qd])
  have IH: "limbs_ok q0" "length q0 = length xs" "r0 < d"
    "(?cur mod d) * base ^ length xs + val (rev xs) = val (rev q0) * d + r0"
    using Cons.IH [OF _ Cons.prems(2,3) _ q0] Cons.prems(1,2) by simp_all
  have "r * base ^ length (x # xs) + val (rev (x # xs)) = ?cur * base ^ length xs + val (rev xs)"
    by (simp add: val_append algebra_simps)
  also have "?cur * base ^ length xs = (?cur div d) * d * base ^ length xs + (?cur mod d) * base ^ length xs"
    by (metis add_mult_distrib div_mult_mod_eq)
  finally have "r * base ^ length (x # xs) + val (rev (x # xs)) = val (rev (?cur div d # q0)) * d + r0"
    using IH(2,4) by (simp add: val_append algebra_simps)
  then show ?case using IH qd by (simp add: q)
qed

lemma div_small_val:
  assumes "mag_ok a" "0 < d" "d < base" "div_small a d = (q, r)"
  shows "mag_ok q" "val q = val a div d" "r = val a mod d"
proof -
  obtain q0 r0 where q0: "div_loop d (rev a) 0 = (q0, r0)" by (rule prod.exhaust)
  have ok: "limbs_ok (rev a)" using assms(1) by (simp add: mag_ok_def)
  note l = div_loop_val [OF ok assms(2,3,2) q0]
  have r: "r0 < d" "val a = val (rev q0) * d + r0" "limbs_ok (rev q0)" using l by simp_all
  have q: "q = trim_limbs (rev q0)" "r = r0" using assms(3,4) q0 r(1) by (simp_all add: div_small_def u32_id)
  show "mag_ok q" "val q = val a div d" "r = val a mod d"
    using trim_limbs_ok [OF r(3)] r(1,2) by (simp_all add: q)
qed

end
