(* ===== verification/Bigint_Division.thy ===== *)
theory Bigint_Division imports Bigint_Limbs begin

text \<open>
  The long division of magnitudes, Knuth's algorithm D as \<^verbatim>\<open>hsb_bigint::mag_divmod\<close> has it: the
  divisor is shifted until its top bit is set, a quotient limb is guessed from the top limbs and
  corrected, at most once more after the subtraction.
\<close>

section \<open>Shifts\<close>

text \<open>\<^verbatim>\<open>std::countl_zero\<close> of a limb.\<close>

fun lead :: "nat \<Rightarrow> nat \<Rightarrow> nat" where
  "lead 0 x = 0"
| "lead (Suc k) x = (if bit x k then 0 else Suc (lead k x))"

definition countl_zero :: "nat \<Rightarrow> nat" where
  "countl_zero x = lead 32 x"

definition shl :: "nat \<Rightarrow> nat \<Rightarrow> nat \<Rightarrow> nat" where
  "shl s hi lo = (if s = 0 then hi else or (u32 (push_bit s hi)) (drop_bit (32 - s) lo))"

fun shl_loop :: "nat \<Rightarrow> nat \<Rightarrow> limbs \<Rightarrow> limbs" where
  "shl_loop s lo [] = []"
| "shl_loop s lo (x # xs) = shl s x lo # shl_loop s x xs"

fun shr_loop :: "nat \<Rightarrow> limbs \<Rightarrow> limbs" where
  "shr_loop s [] = []"
| "shr_loop s [x] = [drop_bit s x]"
| "shr_loop s (x # y # ys) =
     (if s = 0 then x else or (drop_bit s x) (u32 (push_bit (32 - s) y))) # shr_loop s (y # ys)"

section \<open>One limb of the quotient\<close>

function adjust :: "nat \<Rightarrow> nat \<Rightarrow> nat \<Rightarrow> nat \<Rightarrow> nat \<Rightarrow> nat" where
  "adjust v1 v2 u2 qhat rhat =
     (if base \<le> qhat \<or> join32 rhat u2 < u64 (qhat * v2) then
        (let qhat = qhat - 1; rhat = u64 (rhat + v1) in if base \<le> rhat then qhat else adjust v1 v2 u2 qhat rhat)
      else qhat)"
  by auto
termination adjust
proof (relation "measure (\<lambda>(v1, v2, u2, qhat, rhat). qhat)")
  fix v1 v2 u2 qhat rhat :: nat
  assume a: "base \<le> qhat \<or> join32 rhat u2 < u64 (qhat * v2)"
  have "0 < qhat"
  proof (rule ccontr)
    assume "\<not> 0 < qhat"
    then show False using a base_pos(1) by (simp add: u64_def)
  qed
  then show "((v1, v2, u2, x, y), (v1, v2, u2, qhat, rhat)) \<in> measure (\<lambda>(v1, v2, u2, qhat, rhat). qhat)"
    if "x = qhat - 1" for x y using that by simp
qed simp

declare adjust.simps [simp del]

text \<open>
  The window of the dividend less a multiple of the divisor, one limb longer than the divisor (the
  lists of other lengths do not occur), and whether the difference is negative.
\<close>

fun mulsub :: "nat \<Rightarrow> limbs \<Rightarrow> limbs \<Rightarrow> nat \<Rightarrow> nat \<Rightarrow> limbs \<times> bool" where
  "mulsub q [w] [] borrow carry = (let t = int w - int borrow - int carry in ([s32 t], t < 0))"
| "mulsub q (w # ws) (v # vs) borrow carry =
     (let p = u64 (q * v + carry); t = int w - int borrow - int (u32 p)
      in case mulsub q ws vs (if t < 0 then 1 else 0) (p div base) of (ws, neg) \<Rightarrow> (s32 t # ws, neg))"
| "mulsub q ws vs borrow carry = ([], False)"

fun add_back :: "limbs \<Rightarrow> limbs \<Rightarrow> nat \<Rightarrow> limbs" where
  "add_back [w] [] c = [u32 (u64 (w + c))]"
| "add_back (w # ws) (v # vs) c = (let s = u64 (w + v + c) in u32 s # add_back ws vs (s div base))"
| "add_back ws vs c = []"

definition quotient_limb :: "limbs \<Rightarrow> limbs \<Rightarrow> nat \<times> limbs" where
  "quotient_limb v w =
     (let n = length v; num = join32 (w ! n) (w ! (n - 1));
          qhat = adjust (v ! (n - 1)) (v ! (n - 2)) (w ! (n - 2)) (num div v ! (n - 1)) (num mod v ! (n - 1));
          (w, neg) = mulsub qhat w v 0 0
      in if neg then (u32 (u32 qhat + (base - 1)), add_back w v 0) else (u32 qhat, w))"

text \<open>The limbs of the quotient from the top, and what is left of the dividend.\<close>

fun div_rows :: "limbs \<Rightarrow> nat \<Rightarrow> limbs \<Rightarrow> limbs \<times> limbs" where
  "div_rows v 0 u = ([], u)"
| "div_rows v (Suc j) u =
     (case quotient_limb v (take (length v + 1) (drop j u)) of (q, w) \<Rightarrow>
        case div_rows v j (take j u @ w @ drop (j + length v + 1) u) of (qs, u) \<Rightarrow> (q # qs, u))"

definition long_division :: "limbs \<Rightarrow> limbs \<Rightarrow> limbs \<times> limbs" where
  "long_division u v =
     (let n = length v; m = length u - n; s = countl_zero (last v);
          top = (if s = 0 then 0 else drop_bit (32 - s) (last u));
          (qs, u') = div_rows (shl_loop s 0 v) (m + 1) (shl_loop s 0 u @ [top])
      in (trim_limbs (rev qs), trim_limbs (shr_loop s (take n u'))))"

definition mag_divmod :: "limbs \<Rightarrow> limbs \<Rightarrow> limbs \<times> limbs" where
  "mag_divmod u v =
     (if mag_cmp u v < 0 then ([], u)
      else if length v = 1 then
        (case div_small u (v ! 0) of (q, r) \<Rightarrow> (q, if r \<noteq> 0 then [r] else []))
      else long_division u v)"

section \<open>Shifting keeps the value\<close>

lemma lead_bound: "x < 2 ^ k \<Longrightarrow> 0 < x \<Longrightarrow> lead k x < k \<and> x * 2 ^ lead k x < 2 ^ k"
proof (induction k)
  case (Suc k)
  show ?case
  proof (cases "bit x k")
    case True
    then show ?thesis using Suc.prems by simp
  next
    case False
    have "x < 2 ^ k"
    proof (rule ccontr)
      assume "\<not> x < 2 ^ k"
      then have "x div 2 ^ k = 1" using Suc.prems(1) by (intro div_nat_eqI) simp_all
      then show False using False by (simp add: bit_iff_odd)
    qed
    then show ?thesis using Suc False by simp
  qed
qed simp

lemma countl_zero_bound: "x < base \<Longrightarrow> 0 < x \<Longrightarrow> countl_zero x < 32 \<and> x * 2 ^ countl_zero x < base"
  using lead_bound [of x 32] by (simp add: countl_zero_def base_def)

lemma base_split: "s \<le> 32 \<Longrightarrow> base = 2 ^ s * 2 ^ (32 - s)"
  by (simp add: base_def flip: power_add)

text \<open>A limb shifted up: what stays in the limb and what leaves it, and the same of a limb shifted down.\<close>

lemma shift_up:
  assumes "s \<le> 32"
  shows "x * 2 ^ s mod base = 2 ^ s * (x mod 2 ^ (32 - s))" "x * 2 ^ s div base = x div 2 ^ (32 - s)"
  by (simp_all add: base_split [OF assms] mult.commute [of x] mod_mult_mult1)

lemma shift_small:
  assumes "s \<le> 32" "x < base"
  shows "x div 2 ^ s < 2 ^ (32 - s)" "x div 2 ^ (32 - s) < 2 ^ s"
proof -
  have "x < 2 ^ (32 - s) * 2 ^ s" "x < 2 ^ s * 2 ^ (32 - s)" using base_split [OF assms(1)] assms(2) by (simp_all add: mult.commute)
  then show "x div 2 ^ s < 2 ^ (32 - s)" "x div 2 ^ (32 - s) < 2 ^ s" by (simp_all add: less_mult_imp_div_less)
qed

lemma join_small: "s \<le> 32 \<Longrightarrow> lo < 2 ^ s \<Longrightarrow> hi < 2 ^ (32 - s) \<Longrightarrow> lo + 2 ^ s * hi < base"
proof -
  assume a: "s \<le> 32" "lo < 2 ^ s" "hi < 2 ^ (32 - s)"
  then have "2 ^ s * (hi + 1) \<le> 2 ^ s * (2 ^ (32 - s) :: nat)" by (intro mult_le_mono2) simp
  then show ?thesis using a(2) base_split [OF a(1)] by (simp add: algebra_simps)
qed

lemma shl_val:
  assumes "s < 32" "hi < base" "lo < base"
  shows "shl s hi lo < base" "shl s hi lo + base * (hi div 2 ^ (32 - s)) = hi * 2 ^ s + lo div 2 ^ (32 - s)"
proof -
  have "shl s hi lo < base \<and> shl s hi lo + base * (hi div 2 ^ (32 - s)) = hi * 2 ^ s + lo div 2 ^ (32 - s)"
  proof (cases "s = 0")
    case True
    then show ?thesis using assms by (simp add: shl_def base_def)
  next
    case False
    have s: "s \<le> 32" using assms(1) by simp
    have "u32 (push_bit s hi) = push_bit s (hi mod 2 ^ (32 - s))"
      by (simp add: u32_def push_bit_eq_mult shift_up [OF s] mult.commute)
    then have e: "shl s hi lo = lo div 2 ^ (32 - s) + 2 ^ s * (hi mod 2 ^ (32 - s))"
      using or_add [OF shift_small(2) [OF s assms(3)]] False by (simp add: shl_def push_bit_eq_mult drop_bit_eq_div)
    have "2 ^ s * (hi mod 2 ^ (32 - s)) + base * (hi div 2 ^ (32 - s)) = hi * 2 ^ s"
      using split_base [of "hi * 2 ^ s"] shift_up [OF s, of hi] by (simp add: u32_def)
    then show ?thesis using e join_small [OF s shift_small(2) [OF s assms(3)], of "hi mod 2 ^ (32 - s)"] by simp
  qed
  then show "shl s hi lo < base" "shl s hi lo + base * (hi div 2 ^ (32 - s)) = hi * 2 ^ s + lo div 2 ^ (32 - s)" by auto
qed

lemma shl_loop_val:
  "s < 32 \<Longrightarrow> limbs_ok xs \<Longrightarrow> lo < base \<Longrightarrow>
    limbs_ok (shl_loop s lo xs) \<and> length (shl_loop s lo xs) = length xs \<and>
    val (shl_loop s lo xs) + base ^ length xs * ((if xs = [] then lo else last xs) div 2 ^ (32 - s)) = val xs * 2 ^ s + lo div 2 ^ (32 - s)"
proof (induction xs arbitrary: lo)
  case (Cons x xs)
  have x: "x < base" using Cons.prems by simp
  have IH: "limbs_ok (shl_loop s x xs) \<and> length (shl_loop s x xs) = length xs \<and>
      val (shl_loop s x xs) + base ^ length xs * ((if xs = [] then x else last xs) div 2 ^ (32 - s)) = val xs * 2 ^ s + x div 2 ^ (32 - s)"
    by (rule Cons.IH) (use Cons.prems in simp_all)
  note low = shl_val [OF Cons.prems(1) x Cons.prems(3)]
  have "val (shl_loop s lo (x # xs)) + base ^ length (x # xs) * (last (x # xs) div 2 ^ (32 - s)) =
      shl s x lo + base * (val (shl_loop s x xs) + base ^ length xs * ((if xs = [] then x else last xs) div 2 ^ (32 - s)))"
    by (simp add: algebra_simps)
  also have "\<dots> = (shl s x lo + base * (x div 2 ^ (32 - s))) + base * (val xs * 2 ^ s)" using IH by (simp add: algebra_simps)
  finally show ?case using IH low by (simp add: algebra_simps)
qed simp

lemma shr_loop_val:
  "s < 32 \<Longrightarrow> limbs_ok xs \<Longrightarrow> limbs_ok (shr_loop s xs) \<and> val (shr_loop s xs) = val xs div 2 ^ s"
proof (induction s xs rule: shr_loop.induct)
  case (2 s x)
  have "x div 2 ^ s < base" using 2 by (simp add: le_less_trans [OF div_le_dividend])
  then show ?case by (simp add: drop_bit_eq_div)
next
  case (3 s x y ys)
  let ?Y = "val (y # ys)"
  have s: "s \<le> 32" "32 - s \<le> 32" "32 - (32 - s) = s" using 3(2) by simp_all
  have xb: "x < base" using 3(3) by simp
  have IH: "limbs_ok (shr_loop s (y # ys))" "val (shr_loop s (y # ys)) = ?Y div 2 ^ s" using 3 by simp_all
  define e where "e = (if s = 0 then x else or (drop_bit s x) (u32 (push_bit (32 - s) y)))"
  have e: "e = x div 2 ^ s + 2 ^ (32 - s) * (y mod 2 ^ s) \<and> e < base"
  proof (cases "s = 0")
    case True
    then show ?thesis using xb by (simp add: e_def)
  next
    case False
    have "u32 (push_bit (32 - s) y) = push_bit (32 - s) (y mod 2 ^ s)"
      using shift_up(1) [OF s(2), of y] s(3) by (simp add: u32_def push_bit_eq_mult mult.commute)
    then have "e = x div 2 ^ s + 2 ^ (32 - s) * (y mod 2 ^ s)"
      using or_add [OF shift_small(1) [OF s(1) xb], of "y mod 2 ^ s"] False
      by (simp add: e_def drop_bit_eq_div or.commute push_bit_eq_mult)
    then show ?thesis using join_small [OF s(2) shift_small(1) [OF s(1) xb], of "y mod 2 ^ s"] s(3) by simp
  qed
  note b = base_split [OF s(1)]
  have "2 ^ s dvd base" unfolding b by (rule dvd_triv_left)
  then have "2 ^ s dvd base * val ys" by (rule dvd_mult2)
  then have ymod: "y mod 2 ^ s = ?Y mod 2 ^ s" by (metis mod_add_right_eq add_0_right dvd_imp_mod_0 val.simps(2))
  have "(x + base * Y) div 2 ^ s = x div 2 ^ s + 2 ^ (32 - s) * Y" for Y
    unfolding b mult.assoc by simp
  then have "(x + base * ?Y) div 2 ^ s = x div 2 ^ s + 2 ^ (32 - s) * ?Y" .
  also have "2 ^ (32 - s) * ?Y = 2 ^ (32 - s) * (?Y mod 2 ^ s) + base * (?Y div 2 ^ s)"
  proof -
    have "?Y = ?Y mod 2 ^ s + 2 ^ s * (?Y div 2 ^ s)" by simp
    then have "2 ^ (32 - s) * ?Y = 2 ^ (32 - s) * (?Y mod 2 ^ s) + 2 ^ (32 - s) * (2 ^ s * (?Y div 2 ^ s))"
      by (metis distrib_left)
    then show ?thesis using b by (simp add: ac_simps)
  qed
  finally have "(x + base * ?Y) div 2 ^ s = e + base * (?Y div 2 ^ s)"
    using e ymod by simp
  then have "val (x # y # ys) div 2 ^ s = e + base * val (shr_loop s (y # ys))" using IH(2) by (simp only: val.simps(2))
  moreover have "shr_loop s (x # y # ys) = e # shr_loop s (y # ys)" by (simp add: e_def)
  moreover have "e < base" using e by (rule conjunct2)
  ultimately show ?case using IH(1) by (simp only: val.simps(2) limbs_ok_simps(2) simp_thms)
qed simp

section \<open>The guess of a limb\<close>

lemma double_base: "base * 2 \<le> base * base"
  using base_pos(3) by (intro mult_le_mono2)

text \<open>
  The loop leaves a limb that is at least every candidate and whose product with the top two limbs
  of the divisor does not exceed the top three of the window.
\<close>

lemma adjust_val:
  "num = qhat * v1 + rhat \<Longrightarrow> rhat < base \<Longrightarrow> v1 < base \<Longrightarrow> v2 < base \<Longrightarrow> u2 < base \<Longrightarrow> num < v1 * base + base \<Longrightarrow>
    Q \<le> qhat \<Longrightarrow> Q < base \<Longrightarrow> Q * (v1 * base + v2) \<le> num * base + u2 \<Longrightarrow>
    adjust v1 v2 u2 qhat rhat < base \<and> Q \<le> adjust v1 v2 u2 qhat rhat \<and>
    adjust v1 v2 u2 qhat rhat * (v1 * base + v2) \<le> num * base + u2"
proof (induction v1 v2 u2 qhat rhat rule: adjust.induct)
  case (1 v1 v2 u2 qhat rhat)
  note num = 1(2) and bounds = 1(3-7) and Q = 1(8-10)
  have prod: "x * (v1 * base + v2) = x * v1 * base + x * v2" for x by (simp add: algebra_simps)
  have fits: "x * v2 \<le> base * base" if "x \<le> base" for x using mult_le_mono [of x base v2 base] that bounds by simp
  show ?case
  proof (cases "base \<le> qhat \<or> join32 rhat u2 < u64 (qhat * v2)")
    case stop: False
    have "qhat * v2 < base * base" using stop bounds base_pos(1) by (intro mult_strict_mono') simp_all
    then have "qhat * v2 \<le> rhat * base + u2" using stop bounds by (simp add: u64_id join32_val)
    then have "qhat * (v1 * base + v2) \<le> num * base + u2" unfolding prod num by (simp add: algebra_simps)
    then show ?thesis using stop Q by (subst (1 2 3) adjust.simps) simp
  next
    case go: True
    have "Q \<noteq> qhat"
    proof (cases "base \<le> qhat")
      case False
      then have "qhat * v2 < base * base" using bounds base_pos(1) by (intro mult_strict_mono') simp_all
      then have "rhat * base + u2 < qhat * v2" using go False bounds by (simp add: u64_id join32_val)
      then have "num * base + u2 < qhat * (v1 * base + v2)" unfolding prod num by (simp add: algebra_simps)
      then show ?thesis using Q(3) by auto
    qed (use Q(2) in simp)
    then have q: "Q \<le> qhat - 1" "0 < qhat" using Q(1) by simp_all
    then have num': "num = (qhat - 1) * v1 + (rhat + v1)" using num by (cases qhat) simp_all
    have r: "u64 (rhat + v1) = rhat + v1" by (rule u64_id, rule less_le_trans [OF _ double_base]) (use bounds in simp)
    show ?thesis
    proof (cases "base \<le> rhat + v1")
      case big: True
      have "(qhat - 1) * v1 < base * v1" using num' bounds(5) big by (simp only: mult.commute)
      then have small: "qhat - 1 < base" by simp
      have "(qhat - 1) * v2 \<le> (rhat + v1) * base" using fits [of "qhat - 1"] small mult_le_mono1 [OF big, of base] by linarith
      then have "(qhat - 1) * (v1 * base + v2) \<le> num * base + u2" unfolding prod by (subst num') (simp add: algebra_simps)
      then show ?thesis using go big r q small by (subst (1 2 3) adjust.simps) (simp add: Let_def)
    next
      case False
      have "adjust v1 v2 u2 (qhat - 1) (rhat + v1) < base \<and> Q \<le> adjust v1 v2 u2 (qhat - 1) (rhat + v1) \<and>
          adjust v1 v2 u2 (qhat - 1) (rhat + v1) * (v1 * base + v2) \<le> num * base + u2"
        using 1(1) [OF go refl refl] False r num' bounds q Q by simp
      then show ?thesis using go False r by (subst (1 2 3) adjust.simps) (simp add: Let_def)
    qed
  qed
qed

lemma mulsub_val:
  "limbs_ok w \<Longrightarrow> limbs_ok v \<Longrightarrow> length w = length v + 1 \<Longrightarrow> q < base \<Longrightarrow> b \<le> 1 \<Longrightarrow> c < base \<Longrightarrow> mulsub q w v b c = (w', neg) \<Longrightarrow>
    limbs_ok w' \<and> length w' = length w \<and>
    int (val w') = int (val w) - int q * int (val v) - int b - int c + int (base ^ length w) * (if neg then 1 else 0)"
proof (induction q w v b c arbitrary: w' neg rule: mulsub.induct)
  case (1 q w borrow carry)
  define t where "t = int w - int borrow - int carry"
  have "int (s32 t) = t + int base * (if t < 0 then 1 else 0)" by (rule s32_step) (use 1 in \<open>simp_all add: t_def\<close>)
  moreover have "w' = [s32 t]" "neg = (t < 0)" using 1(7) by (simp_all add: t_def Let_def)
  ultimately show ?case by (simp add: t_def)
next
  case (2 q w ws v vs borrow carry)
  define p where "p = q * v + carry"
  define t where "t = int w - int borrow - int (u32 p)"
  define nb :: nat where "nb = (if t < 0 then 1 else 0)"
  have p: "p < base * base" unfolding p_def using square_base [of q v 0 carry] 2(2-7) base_pos(1) by simp
  have up: "u64 (q * v + carry) = p" using p by (simp add: p_def u64_id)
  obtain ws' neg' where r: "mulsub q ws vs nb (p div base) = (ws', neg')" by (rule prod.exhaust)
  have "(s32 t # ws', neg') = (w', neg)" using 2(8) r by (simp add: Let_def up nb_def t_def)
  then have ws': "mulsub q ws vs nb (p div base) = (ws', neg)" "w' = s32 t # ws'" using r by simp_all
  have IH: "limbs_ok ws' \<and> length ws' = length ws \<and>
      int (val ws') = int (val ws) - int q * int (val vs) - int nb - int (p div base) + int (base ^ length ws) * (if neg then 1 else 0)"
    unfolding nb_def
    by (rule 2(1)) (use 2(2-7) div_base [OF p] ws'(1) in \<open>simp_all add: up nb_def t_def\<close>)
  have s: "int (s32 t) = t + int base * int nb"
    using s32_step [of t] 2(2-7) u32_less [of p] by (auto simp: t_def nb_def)
  have low: "int (u32 p) = int q * int v + int carry - int base * int (p div base)"
    using split_base [of p] unfolding p_def by (metis add_diff_cancel_right' of_nat_add of_nat_mult)
  have "int (val w') = int (s32 t) + int base * int (val ws')" using ws'(2) by simp
  also have "\<dots> = t + int base * int (p div base) * -1 + int base * (int (val ws) - int q * int (val vs) + int (base ^ length ws) * (if neg then 1 else 0))"
    unfolding s IH [THEN conjunct2, THEN conjunct2] by (simp only: algebra_simps)
  also have "t + int base * int (p div base) * -1 = int w - int borrow - int q * int v - int carry"
    unfolding t_def low by simp
  finally have "int (val w') = int w - int borrow - int q * int v - int carry +
      int base * (int (val ws) - int q * int (val vs) + int (base ^ length ws) * (if neg then 1 else 0))" .
  then have "int (val w') = int (val (w # ws)) - int q * int (val (v # vs)) - int borrow - int carry +
      int (base ^ length (w # ws)) * (if neg then 1 else 0)" by (simp add: algebra_simps)
  moreover have "limbs_ok w' \<and> length w' = length (w # ws)" using IH ws'(2) by simp
  ultimately show ?case by blast
qed simp_all

lemma add_back_val:
  "limbs_ok w \<Longrightarrow> limbs_ok v \<Longrightarrow> length w = length v + 1 \<Longrightarrow> c \<le> 1 \<Longrightarrow>
    limbs_ok (add_back w v c) \<and> length (add_back w v c) = length w \<and>
    (\<exists>k. val (add_back w v c) + base ^ length w * k = val w + val v + c)"
proof (induction w v c rule: add_back.induct)
  case (1 w c)
  have "u64 (w + c) = w + c" by (rule u64_id, rule less_le_trans [OF _ double_base]) (use 1 base_pos(3) in simp)
  then show ?case using split_base [of "w + c"] by auto
next
  case (2 w ws v vs c)
  have "w + v + c < base * 2" using 2 by simp
  then have u: "u64 (w + v + c) = w + v + c" by (rule u64_id [OF less_le_trans [OF _ double_base]])
  have "(w + v + c) div base < 2" using \<open>w + v + c < base * 2\<close> by (simp add: less_mult_imp_div_less mult.commute)
  then obtain k where k: "limbs_ok (add_back ws vs ((w + v + c) div base))" "length (add_back ws vs ((w + v + c) div base)) = length ws"
      "val (add_back ws vs ((w + v + c) div base)) + base ^ length ws * k = val ws + val vs + (w + v + c) div base"
    using 2(1) [OF refl] 2 u by auto
  have "base * (val (add_back ws vs ((w + v + c) div base)) + base ^ length ws * k) = base * (val ws + val vs + (w + v + c) div base)"
    using k(3) by simp
  moreover have "add_back (w # ws) (v # vs) c = u32 (w + v + c) # add_back ws vs ((w + v + c) div base)" by (simp add: Let_def u)
  ultimately have "val (add_back (w # ws) (v # vs) c) + base ^ length (w # ws) * k = val (w # ws) + val (v # vs) + c"
    using split_base [of "w + v + c"] by (simp add: algebra_simps)
  then show ?case using k(1,2) by (auto simp: Let_def u)
qed simp_all

section \<open>One limb of the quotient, divided\<close>

lemma val_last: "a \<noteq> [] \<Longrightarrow> val a = val (butlast a) + base ^ (length a - 1) * last a"
  by (metis append_butlast_last_id length_butlast mult_0_right add_0_right val.simps val_append)

lemma val_split: "k \<le> length a \<Longrightarrow> val a = val (take k a) + base ^ k * val (drop k a)"
  using val_append [of "take k a" "drop k a"] by simp

lemma val_high:
  assumes "val a < base ^ k" "k \<le> length a"
  shows "val (drop k a) = 0"
proof (rule ccontr)
  assume "val (drop k a) \<noteq> 0"
  then have "base ^ k * 1 \<le> base ^ k * val (drop k a)" by (intro mult_le_mono2) simp
  then show False using val_split [OF assms(2)] assms(1) by linarith
qed

lemma limbs_ok_take: "limbs_ok a \<Longrightarrow> limbs_ok (take k a) \<and> limbs_ok (drop k a)"
  by (metis append_take_drop_id limbs_ok_simps(3))

lemma limbs_ok_nth: "limbs_ok a \<Longrightarrow> i < length a \<Longrightarrow> a ! i < base"
  by (simp add: limbs_ok_def)

lemma div_mod_unique: "0 < V \<Longrightarrow> W - q * V < V \<Longrightarrow> q * V \<le> W \<Longrightarrow> W div V = q \<and> W mod V = W - q * (V :: nat)"
proof -
  assume a: "0 < V" "W - q * V < V" "q * V \<le> W"
  define r where "r = W - q * V"
  then have "W = r + q * V" "r < V" using a by simp_all
  then show ?thesis using a(1) by simp
qed

text \<open>The top limbs of a window and of the divisor, above the parts the guess does not read.\<close>

lemma low_bound: "limbs_ok a \<Longrightarrow> k \<le> length a \<Longrightarrow> val (take k a) < base ^ k"
  using val_bound [of "take k a"] limbs_ok_take [of a k] by (simp add: min.absorb2)

lemma top_two: "length v = Suc (Suc k) \<Longrightarrow> val v = val (take k v) + base ^ k * (v ! Suc k * base + v ! k)"
  using val_split [of k v] by (simp add: Cons_nth_drop_Suc [symmetric] algebra_simps)

lemma top_three:
  "length w = Suc (Suc (Suc k)) \<Longrightarrow>
    val w = val (take k w) + base ^ k * ((w ! Suc (Suc k) * base + w ! Suc k) * base + w ! k)"
  using val_split [of k w] by (simp add: Cons_nth_drop_Suc [symmetric] algebra_simps)

lemma guess_below:
  fixes V W q :: nat
  assumes "q * V \<le> W" "V = lo + b * V2" "W = lo' + b * W3" "lo' < b"
  shows "q * V2 \<le> W3"
proof -
  have "q * V = q * lo + b * (q * V2)" unfolding assms(2) by (simp add: algebra_simps)
  then have "b * (q * V2) < b * (W3 + 1)" using assms(1,3,4) by simp
  then have "q * V2 < W3 + 1" by (rule mult_less_cancel1 [THEN iffD1, THEN conjunct2])
  then show ?thesis by simp
qed

text \<open>A limb that is at least the quotient and fits the top limbs is at most one too large.\<close>

lemma guess_near:
  fixes V W q :: nat
  assumes "q * V2 \<le> W3" "V = lo + b * V2" "W = lo' + b * W3" "lo < b" "q * b \<le> V" "0 < V"
  shows "q \<le> W div V + 1"
proof (cases "q = 0")
  case False
  have "q * V = q * lo + b * (q * V2)" unfolding assms(2) by (simp add: algebra_simps)
  moreover have "q * lo < q * b" using assms(4) False by simp
  moreover have "b * (q * V2) \<le> W" using assms(3) mult_le_mono2 [OF assms(1), of b] by linarith
  ultimately have "q * V < W + V" using assms(5) by linarith
  moreover have "W < (W div V + 1) * V"
    using dividend_less_div_times [OF assms(6), of W] by simp
  ultimately have "q * V < (W div V + 2) * V" by (simp add: distrib_right)
  then have "q < W div V + 2" by (rule mult_less_cancel2 [THEN iffD1, THEN conjunct2])
  then show ?thesis by simp
qed simp

lemma quotient_limb_val:
  assumes v: "limbs_ok v" "2 \<le> length v" "last v \<noteq> 0" and w: "limbs_ok w" "length w = length v + 1"
    and less: "val w < base * val v" and r: "quotient_limb v w = (q, w')"
  shows "q = val w div val v \<and> limbs_ok w' \<and> length w' = length w \<and> val w' = val w mod val v"
proof -
  obtain k where n: "length v = Suc (Suc k)" using v(2) by (metis Suc_le_D numeral_2_eq_2 Suc_le_mono)
  define v1 v2 u2 b num Q B where d: "v1 = v ! Suc k" "v2 = v ! k" "u2 = w ! k" "b = base ^ k"
    "num = w ! Suc (Suc k) * base + w ! Suc k" "Q = val w div val v" "B = base ^ length w"
  have lim: "v1 < base" "v2 < base" "u2 < base" "w ! Suc k < base" "w ! Suc (Suc k) < base"
    unfolding d using v(1) w n by (simp_all add: limbs_ok_nth)
  have "v \<noteq> []" using n by auto
  then have v1: "0 < v1" using v(3) n by (simp add: d last_conv_nth)
  have V: "val v = val (take k v) + b * (v1 * base + v2)" unfolding d by (rule top_two [OF n])
  have W: "val w = val (take k w) + b * (num * base + u2)" unfolding d by (rule top_three) (simp add: w n)
  have lo: "val (take k v) < b" "val (take k w) < b" unfolding d(4) using low_bound v(1) w n by simp_all
  have "b * base \<le> b * (v1 * base)" using v1 by (intro mult_le_mono2) simp
  then have Vb: "b * base \<le> val v" unfolding V distrib_left by linarith
  have V0: "0 < val v" using Vb lo base_pos(1) by (metis gr0I le_zero_eq mult_eq_0_iff not_less_zero)
  have num: "num < v1 * base + base"
  proof -
    have "b * (v1 * base + v2 + 1) \<le> b * (v1 * base + base)" using lim by (intro mult_le_mono2) simp
    then have "val v < b * (v1 * base + base)" using lo unfolding V by (simp add: algebra_simps)
    then have "base * val v < base * (b * (v1 * base + base))" using base_pos(1) by simp
    moreover have "base * (b * num) \<le> val w" unfolding W by (simp add: algebra_simps)
    ultimately have "base * (b * num) < base * (b * (v1 * base + base))" using less by linarith
    then show ?thesis by simp
  qed
  have QV: "Q * val v \<le> val w" unfolding d by simp
  have Q3: "Q * (v1 * base + v2) \<le> num * base + u2" by (rule guess_below [OF QV V W lo(2)])
  have "Q * v1 \<le> num" by (rule guess_below [OF Q3, of v2 base _ u2]) (use lim in simp_all)
  then have Qn: "Q \<le> num div v1" using v1 by (simp add: less_eq_div_iff_mult_less_eq)
  have Qb: "Q < base" unfolding d using less by (intro less_mult_imp_div_less)
  define qhat where "qhat = adjust v1 v2 u2 (num div v1) (num mod v1)"
  have "num mod v1 < base" using lim(1) v1 by (meson less_trans mod_less_divisor)
  then have adj: "qhat < base" "Q \<le> qhat" "qhat * (v1 * base + v2) \<le> num * base + u2"
    unfolding qhat_def using adjust_val [of num "num div v1" v1 "num mod v1" v2 u2 Q] lim num Qn Qb Q3 by simp_all
  have "qhat * b \<le> base * b" using adj(1) by (intro mult_le_mono1) simp
  then have "qhat * b \<le> val v" using Vb unfolding mult.commute [of base b] by (rule le_trans)
  then have near: "qhat \<le> Q + 1" unfolding d(6) by (intro guess_near [OF adj(3) V W lo(1)] V0)
  obtain w1 neg where ms: "mulsub qhat w v 0 0 = (w1, neg)" by (rule prod.exhaust)
  have m: "limbs_ok w1" "length w1 = length w" "int (val w1) = int (val w) - int qhat * int (val v) + int B * (if neg then 1 else 0)"
    using mulsub_val [OF w(1) v(1) w(2) adj(1) _ _ ms] base_pos(1) by (simp_all add: d(7))
  have small: "val w1 < B" using val_bound [OF m(1)] m(2) by (simp add: d(7))
  have jn: "join32 (w ! length v) (w ! Suc k) = num" using lim n by (simp add: join32_val d(5))
  have idx: "length v - 1 = Suc k" "length v - 2 = k" using n by simp_all
  have qe: "adjust (v ! Suc k) (v ! k) (w ! k) (num div v ! Suc k) (num mod v ! Suc k) = qhat"
    by (simp only: qhat_def d(1-3))
  have res: "(q, w') = (if neg then (u32 (u32 qhat + (base - 1)), add_back w1 v 0) else (u32 qhat, w1))"
    using r unfolding quotient_limb_def Let_def idx jn qe ms prod.case by simp
  have R: "val w = Q * val v + val w mod val v" "val w mod val v < val v" using V0 by (simp_all add: d(6))
  show ?thesis
  proof (cases neg)
    case False
    have "int (qhat * val v) \<le> int (val w)" using m(3) False by simp
    then have "qhat * val v \<le> val w" by (simp only: of_nat_le_iff)
    then have "qhat * val v < (Q + 1) * val v" using R unfolding distrib_right by linarith
    then have "qhat < Q + 1" by (rule mult_less_cancel2 [THEN iffD1, THEN conjunct2])
    then have "qhat = Q" using adj(2) by simp
    then have "int (val w1) = int (val w) - int (Q * val v)" using m(3) False by simp
    then have "val w1 = val w mod val v" using R(1) by linarith
    then show ?thesis using res False m \<open>qhat = Q\<close> adj(1) by (simp add: u32_id d(6))
  next
    case True
    have "int (val w) < int qhat * int (val v)" using m(3) True small by simp
    then have "Q * val v < qhat * val v" using QV by (metis le_less_trans of_nat_less_iff of_nat_mult)
    then have q1: "qhat = Q + 1" using near by simp
    obtain x where x: "limbs_ok (add_back w1 v 0)" "length (add_back w1 v 0) = length w" "val (add_back w1 v 0) + B * x = val w1 + val v"
      using add_back_val [of w1 v 0] m w v(1) by (auto simp: d(7))
    have "int (val w1) = int (val w) - int (Q * val v) - int (val v) + int B" using m(3) True q1 by (simp add: algebra_simps)
    then have sum: "val w1 + val v = val w mod val v + B" using R(1) by linarith
    have "val v < B" using val_bound [OF v(1)] w(2) base_pos(1) by (simp add: d(7) less_le_trans)
    then have "val w mod val v < B" using R(2) by simp
    moreover have "val (add_back w1 v 0) < B" using val_bound [OF x(1)] x(2) by (simp add: d(7))
    ultimately have "val (add_back w1 v 0) = val w mod val v"
      using x(3) sum by (metis mod_add_self2 mod_less mod_mult_self2)
    moreover have "u32 (u32 qhat + (base - 1)) = Q" using q1 adj(1) Qb base_pos(1) by (simp add: u32_id) (simp add: u32_def)
    ultimately show ?thesis using res True x m by (simp add: d(6))
  qed
qed

section \<open>The whole division\<close>

lemma div_rows_val:
  assumes v: "limbs_ok v" "2 \<le> length v" "last v \<noteq> 0"
  shows "limbs_ok u \<Longrightarrow> j + length v \<le> length u \<Longrightarrow> val (drop j u) < val v \<Longrightarrow> div_rows v j u = (qs, u') \<Longrightarrow>
    limbs_ok qs \<and> length qs = j \<and> limbs_ok u' \<and> length u' = length u \<and> val u = val (rev qs) * val v + val u' \<and> val u' < val v"
proof (induction j arbitrary: u qs u')
  case (Suc j)
  define n w where d: "n = length v" "w = take (n + 1) (drop j u)"
  have u: "limbs_ok u" "Suc j + n \<le> length u" using Suc.prems(1,2) d by simp_all
  have w: "limbs_ok w" "length w = n + 1" using u limbs_ok_take d(2) by (simp_all add: min.absorb2)
  have vb: "val v < base ^ n" using val_bound [OF v(1)] by (simp add: d)
  have "val (drop n (drop (Suc j) u)) = 0"
    by (rule val_high) (use u(2) less_trans [OF Suc.prems(3) vb] in simp_all)
  then have z: "val (drop (j + n + 1) u) = 0" by (simp add: add.commute)
  have wu: "val w = val (drop j u)"
    using val_split [of "n + 1" "drop j u"] u(2) z d(2) by (simp add: add.commute)
  have "val (drop j u) = u ! j + base * val (drop (Suc j) u)"
    using u(2) by (simp add: Cons_nth_drop_Suc [symmetric])
  moreover have "base * (val (drop (Suc j) u) + 1) \<le> base * val v" using Suc.prems(3) by (intro mult_le_mono2) simp
  moreover have "u ! j < base" using u by (intro limbs_ok_nth) simp_all
  ultimately have less: "val w < base * val v" by (simp add: wu)
  obtain q w' where q: "quotient_limb v w = (q, w')" by (rule prod.exhaust)
  have Q: "q = val w div val v" "limbs_ok w'" "length w' = n + 1" "val w' = val w mod val v"
    using quotient_limb_val [OF v w(1) _ less q] w(2) by (simp_all add: d)
  define u1 where "u1 = take j u @ w' @ drop (j + n + 1) u"
  have u1: "limbs_ok u1" "length u1 = length u" "drop j u1 = w' @ drop (j + n + 1) u" "take j u1 = take j u"
    using u Q limbs_ok_take by (simp_all add: u1_def)
  have v0: "0 < val v" using Suc.prems(3) by simp
  have low: "val (drop j u1) = val w mod val v" using z Q(4) by (simp add: u1(3) val_append)
  obtain qs' where r: "div_rows v j u1 = (qs', u')" "qs = q # qs'"
    using Suc.prems(4) q unfolding u1_def by (auto simp: d split: prod.splits)
  have IH: "limbs_ok qs' \<and> length qs' = j \<and> limbs_ok u' \<and> length u' = length u1 \<and>
      val u1 = val (rev qs') * val v + val u' \<and> val u' < val v"
    by (rule Suc.IH [OF u1(1) _ _ r(1)]) (use u1(2) u(2) low v0 d in simp_all)
  have "val u = val (take j u) + base ^ j * val w" using val_split [of j u] u(2) wu by simp
  also have "val w = q * val v + val w mod val v" by (simp add: Q(1))
  also have "val (take j u) + base ^ j * (q * val v + val w mod val v) = val u1 + base ^ j * (q * val v)"
    using val_split [of j u1] low u1 u(2) by (simp add: distrib_left)
  finally have "val u = val (rev qs) * val v + val u'"
    using IH by (simp add: r(2) val_append algebra_simps)
  moreover have "val w < base * val v \<Longrightarrow> q < base" unfolding Q(1) by (rule less_mult_imp_div_less)
  ultimately show ?case using IH less u1(2) by (simp add: r(2))
qed simp

lemma shifted_top:
  assumes "limbs_ok a" "a \<noteq> []" "s < 32" "last a * 2 ^ s < base"
  shows "val (shl_loop s 0 a) = val a * 2 ^ s"
proof -
  have "last a div 2 ^ (32 - s) = 0" using shift_up(2) [of s "last a"] assms(3,4) by simp
  then show ?thesis using shl_loop_val [OF assms(3,1), of 0] assms(2) base_pos(1) by simp
qed

lemma long_division_val:
  assumes u: "mag_ok u" and v: "mag_ok v" "2 \<le> length v" and le: "val v \<le> val u" and r: "long_division u v = (q, r)"
  shows "mag_ok q \<and> mag_ok r \<and> val q = val u div val v \<and> val r = val u mod val v"
proof -
  define n m s where d: "n = length v" "m = length u - n" "s = countl_zero (last v)"
  have ne: "v \<noteq> []" using v(2) by auto
  have nu: "n \<le> length u" using val_length [OF u v(1)] le by (force simp: d)
  then have nue: "u \<noteq> []" using v(2) d by auto
  have lv: "last v < base" "0 < last v" using v ne by (auto simp: mag_ok_def limbs_ok_def)
  have s: "s < 32" "last v * 2 ^ s < base" unfolding d(3) using countl_zero_bound [OF lv] by simp_all
  define top where "top = (if s = 0 then 0 else drop_bit (32 - s) (last u))"
  have lu: "last u < base" using u nue by (auto simp: mag_ok_def limbs_ok_def)
  then have top: "top = last u div 2 ^ (32 - s)" by (simp add: top_def drop_bit_eq_div base_def)
  have tops: "top < 2 ^ s" unfolding top using shift_small(2) [OF less_imp_le [OF s(1)] lu] .
  define U V where UV: "U = shl_loop s 0 u @ [top]" "V = shl_loop s 0 v"
  have U: "limbs_ok U" "length U = m + 1 + n" "val U = val u * 2 ^ s"
  proof -
    have "limbs_ok (shl_loop s 0 u)" "length (shl_loop s 0 u) = length u"
      "val (shl_loop s 0 u) + base ^ length u * top = val u * 2 ^ s"
      using shl_loop_val [OF s(1) mag_okD [OF u], of 0] nue base_pos(1) top by simp_all
    moreover have "(2::nat) ^ s \<le> base" unfolding base_split [OF less_imp_le [OF s(1)]] by simp
    ultimately show "limbs_ok U" "length U = m + 1 + n" "val U = val u * 2 ^ s"
      using tops nu by (simp_all add: UV val_append d)
  qed
  have V: "limbs_ok V" "length V = n" "val V = val v * 2 ^ s"
    using shl_loop_val [OF s(1) mag_okD [OF v(1)], of 0] shifted_top [OF mag_okD [OF v(1)] ne s] base_pos(1) by (simp_all add: UV d)
  have vlow: "base ^ (n - 1) \<le> val v" using val_lower [OF ne] v(1) ne by (simp add: mag_ok_def d)
  have v0: "0 < val v" using vlow base_pos(1) by (metis gr0I le_zero_eq power_not_zero)
  have Vl: "last V \<noteq> 0"
  proof
    assume "last V = 0"
    moreover have "V \<noteq> []" using V(2) v(2) d by auto
    ultimately have "val V = val (butlast V)" using val_last [of V] by simp
    also have "\<dots> < base ^ (n - 1)" using val_bound [of "butlast V"] V(1,2) by (simp add: limbs_ok_def in_set_butlastD)
    finally show False using vlow V(3) by (metis leD le_trans mult_le_mono nat_mult_1_right one_le_numeral one_le_power order_refl)
  qed
  have high: "val (drop (m + 1) U) < val V"
  proof -
    define D where "D = drop (m + 1) U"
    have D: "D \<noteq> []" "length D = n" "last D = top" "limbs_ok (butlast D)"
      using U v(2) limbs_ok_take [OF U(1)] by (auto simp: D_def UV d limbs_ok_def dest: in_set_butlastD)
    have "val D < base ^ (n - 1) * (top + 1)"
      using val_last [OF D(1)] val_bound [OF D(4)] D by simp
    also have "\<dots> \<le> val v * 2 ^ s" using vlow tops by (intro mult_le_mono) simp_all
    finally show ?thesis using V(3) by (simp add: D_def)
  qed
  obtain qs u' where rows: "div_rows V (m + 1) U = (qs, u')" by (rule prod.exhaust)
  have R: "limbs_ok qs" "limbs_ok u'" "length u' = length U" "val U = val (rev qs) * val V + val u'" "val u' < val V"
    using div_rows_val [OF V(1) _ Vl U(1) _ high rows] V(2) U(2) v(2) d(1) by simp_all
  have long_div: "long_division u v =
      (case div_rows V (m + 1) U of (qs, u') \<Rightarrow> (trim_limbs (rev qs), trim_limbs (shr_loop s (take n u'))))"
    by (simp only: long_division_def Let_def UV top_def d)
  have qr: "q = trim_limbs (rev qs)" "r = trim_limbs (shr_loop s (take n u'))"
    using r rows by (simp_all only: long_div prod.case prod.inject)
  have "val (drop n u') = 0"
    by (rule val_high) (use R(3,5) U(2) val_bound [OF V(1)] V(2) in simp_all)
  then have tk: "val (take n u') = val u'" "limbs_ok (take n u')" using val_split [of n u'] R(2,3) U(2) limbs_ok_take by simp_all
  have "val u * 2 ^ s = (val (rev qs) * val v) * 2 ^ s + val u'" using R(4) U(3) V(3) by (simp add: mult.assoc)
  then have split: "val u' = (val u - val (rev qs) * val v) * 2 ^ s" by (simp add: diff_mult_distrib)
  have div: "val u' div 2 ^ s = val u - val (rev qs) * val v" by (simp add: split)
  have "val u - val (rev qs) * val v < val v" using R(5) unfolding split V(3) by simp
  moreover have "val (rev qs) * val v \<le> val u"
    using \<open>val u * 2 ^ s = (val (rev qs) * val v) * 2 ^ s + val u'\<close> by (metis le_add1 mult_le_cancel2 zero_less_numeral zero_less_power)
  ultimately have "val u div val v = val (rev qs)" "val u mod val v = val u - val (rev qs) * val v"
    using div_mod_unique [OF v0] by simp_all
  moreover have "val r = val u' div 2 ^ s \<and> mag_ok r"
    using shr_loop_val [OF s(1) tk(2)] tk(1) trim_limbs_ok by (simp add: qr)
  moreover have "mag_ok q \<and> val q = val (rev qs)" using trim_limbs_ok [of "rev qs"] R(1) by (simp add: qr)
  ultimately show ?thesis using div by simp
qed

lemma mag_divmod_val:
  assumes "mag_ok u" "mag_ok v" "v \<noteq> []" "mag_divmod u v = (q, r)"
  shows "mag_ok q \<and> mag_ok r \<and> val q = val u div val v \<and> val r = val u mod val v"
proof -
  have sign: "mag_cmp u v < 0 \<longleftrightarrow> val u < val v" using mag_cmp_sign [OF assms(1,2)] by simp
  consider "val u < val v" | "val v \<le> val u" "length v = 1" | "val v \<le> val u" "2 \<le> length v"
    using assms(3) by (metis One_nat_def Suc_1 Suc_leI le_neq_implies_less length_greater_0_conv not_le)
  then show ?thesis
  proof cases
    case 1
    then show ?thesis using assms sign by (auto simp: mag_divmod_def mag_ok_def)
  next
    case 2
    obtain d where v: "v = [d]" using 2(2) by (metis One_nat_def length_0_conv length_Suc_conv)
    then have d: "0 < d" "d < base" "val v = d" using assms(2) by (auto simp: mag_ok_def)
    obtain q' r' where ds: "div_small u d = (q', r')" by (rule prod.exhaust)
    have "mag_ok q'" "val q' = val u div d" "r' = val u mod d" using div_small_val [OF assms(1) d(1,2) ds] by simp_all
    moreover have "q = q'" "r = (if r' \<noteq> 0 then [r'] else [])" using assms(4) ds 2 sign v by (auto simp: mag_divmod_def)
    moreover have "r' < base" using calculation(3) d by (meson less_trans mod_less_divisor)
    ultimately show ?thesis by (simp add: d(3) mag_ok_def)
  next
    case 3
    then have "long_division u v = (q, r)" using assms(4) sign by (simp add: mag_divmod_def)
    then show ?thesis by (rule long_division_val [OF assms(1,2) 3(2,1)])
  qed
qed

end
