(* ===== verification/Bigint.thy ===== *)
theory Bigint imports Bigint_Division Exact_Rational begin

text \<open>
  \<^verbatim>\<open>hsb_bigint\<close> of \<^verbatim>\<open>src/boolean_algebras/hsb/hsb_rational.h\<close>: integers as a sign and a magnitude. An
  operation that asserts its precondition, or whose loop might not end, returns an option: \<open>None\<close> is a
  failed assertion or no answer. The conversion to a double and the hash are left out.
\<close>

section \<open>Definitions\<close>

record bigint =
  bg_neg :: bool
  bg_mag :: limbs

definition bg_zero :: bigint where
  "bg_zero = \<lparr>bg_neg = False, bg_mag = []\<rparr>"

definition set_mag :: "nat \<Rightarrow> limbs" where
  "set_mag m = (if m \<noteq> 0 then [u32 m] else []) @ (if drop_bit 32 m \<noteq> 0 then [u32 (drop_bit 32 m)] else [])"

text \<open>From a 64-bit integer, signed or not.\<close>

definition bg_int :: "int \<Rightarrow> bigint" where
  "bg_int v =
     (let m = (if v < 0 then u64 (nat (- (v + 1)) + 1) else u64 (nat v)) in \<lparr>bg_neg = v < 0, bg_mag = set_mag m\<rparr>)"

fun read_chunk :: "string \<Rightarrow> nat \<Rightarrow> nat \<Rightarrow> (nat \<times> nat) option" where
  "read_chunk [] chunk scale = Some (chunk, scale)"
| "read_chunk (c # cs) chunk scale =
     (if c < CHR ''0'' \<or> CHR ''9'' < c then None
      else read_chunk cs (u32 (chunk * 10 + digit_val c)) (u32 (scale * 10)))"

function digits_loop :: "string \<Rightarrow> limbs \<Rightarrow> limbs option" where
  "digits_loop s m =
     (if s = [] then Some m
      else case read_chunk (take 9 s) 0 1 of
          None \<Rightarrow> None
        | Some (chunk, scale) \<Rightarrow> digits_loop (drop 9 s) (mul_small_add m scale chunk))"
  by auto
termination by (relation "measure (\<lambda>(s, m). length s)") auto

declare digits_loop.simps [simp del]

definition from_digits :: "string \<Rightarrow> bigint option" where
  "from_digits s =
     (if s = [] then None else map_option (\<lambda>m. \<lparr>bg_neg = False, bg_mag = m\<rparr>) (digits_loop s []))"

fun small_pow10 :: "nat \<Rightarrow> nat \<Rightarrow> nat" where
  "small_pow10 0 s = s"
| "small_pow10 (Suc k) s = small_pow10 k (u32 (s * 10))"

fun pow10_loop :: "nat \<Rightarrow> limbs \<Rightarrow> limbs" where
  "pow10_loop k m =
     (if 9 \<le> k then pow10_loop (k - 9) (mul_small_add m 1000000000 0) else mul_small_add m (small_pow10 k 1) 0)"

declare pow10_loop.simps [simp del]

definition pow10 :: "nat \<Rightarrow> bigint" where
  "pow10 k = (bg_int 1)\<lparr>bg_mag := pow10_loop k (bg_mag (bg_int 1))\<rparr>"

definition bg_is_zero :: "bigint \<Rightarrow> bool" where
  "bg_is_zero a \<longleftrightarrow> bg_mag a = []"

definition bg_sign :: "bigint \<Rightarrow> int" where
  "bg_sign a = (if bg_mag a = [] then 0 else if bg_neg a then - 1 else 1)"

definition bg_is_odd :: "bigint \<Rightarrow> bool" where
  "bg_is_odd a \<longleftrightarrow> bg_mag a \<noteq> [] \<and> and (bg_mag a ! 0) 1 \<noteq> 0"

definition bg_abs :: "bigint \<Rightarrow> bigint" where
  "bg_abs a = a\<lparr>bg_neg := False\<rparr>"

definition bg_minus :: "bigint \<Rightarrow> bigint" where
  "bg_minus a = (if bg_mag a \<noteq> [] then a\<lparr>bg_neg := \<not> bg_neg a\<rparr> else a)"

definition fix_zero :: "bigint \<Rightarrow> bigint" where
  "fix_zero a = (if bg_mag a = [] then a\<lparr>bg_neg := False\<rparr> else a)"

definition bg_add :: "bigint \<Rightarrow> bigint \<Rightarrow> bigint" where
  "bg_add a b =
     fix_zero
       (if bg_neg a = bg_neg b then \<lparr>bg_neg = bg_neg a, bg_mag = mag_add (bg_mag a) (bg_mag b)\<rparr>
        else if 0 \<le> mag_cmp (bg_mag a) (bg_mag b) then \<lparr>bg_neg = bg_neg a, bg_mag = mag_sub (bg_mag a) (bg_mag b)\<rparr>
        else \<lparr>bg_neg = bg_neg b, bg_mag = mag_sub (bg_mag b) (bg_mag a)\<rparr>)"

definition bg_sub :: "bigint \<Rightarrow> bigint \<Rightarrow> bigint" where
  "bg_sub a b = bg_add a (bg_minus b)"

definition bg_mul :: "bigint \<Rightarrow> bigint \<Rightarrow> bigint" where
  "bg_mul a b = fix_zero \<lparr>bg_neg = (bg_neg a \<noteq> bg_neg b), bg_mag = mag_mul (bg_mag a) (bg_mag b)\<rparr>"

definition bg_divmod :: "bigint \<Rightarrow> bigint \<Rightarrow> (bigint \<times> bigint) option" where
  "bg_divmod a b =
     (if bg_is_zero b then None
      else case mag_divmod (bg_mag a) (bg_mag b) of (q, r) \<Rightarrow>
        Some (fix_zero \<lparr>bg_neg = (bg_neg a \<noteq> bg_neg b), bg_mag = q\<rparr>, fix_zero \<lparr>bg_neg = bg_neg a, bg_mag = r\<rparr>))"

partial_function (option) bg_gcd_loop :: "bigint \<Rightarrow> bigint \<Rightarrow> bigint option" where
  "bg_gcd_loop a b =
     (if bg_is_zero b then Some a else Option.bind (bg_divmod a b) (\<lambda>(q, r). bg_gcd_loop b r))"

definition bg_gcd :: "bigint \<Rightarrow> bigint \<Rightarrow> bigint option" where
  "bg_gcd a b = bg_gcd_loop (a\<lparr>bg_neg := False\<rparr>) (b\<lparr>bg_neg := False\<rparr>)"

definition bg_eq :: "bigint \<Rightarrow> bigint \<Rightarrow> bool" where
  "bg_eq a b \<longleftrightarrow> bg_neg a = bg_neg b \<and> bg_mag a = bg_mag b"

text \<open>The order: negative, zero or positive, as \<^verbatim>\<open>std::strong_ordering\<close>.\<close>

definition bg_cmp :: "bigint \<Rightarrow> bigint \<Rightarrow> int" where
  "bg_cmp a b =
     (if bg_neg a \<noteq> bg_neg b then (if bg_neg a then - 1 else 1)
      else let c = mag_cmp (bg_mag a) (bg_mag b) in sgn (if bg_neg a then - c else c))"

text \<open>The decimal text: the remainders by a power of ten, the lowest first, then printed from the top.\<close>

partial_function (option) chunk_loop :: "limbs \<Rightarrow> nat list option" where
  "chunk_loop m =
     (if m = [] then Some []
      else case div_small m 1000000000 of (m, r) \<Rightarrow> Option.bind (chunk_loop m) (\<lambda>cs. Some (r # cs)))"

definition padded :: "nat \<Rightarrow> string" where
  "padded c = (let part = nat_to_string c in replicate (9 - length part) (CHR ''0'') @ part)"

definition bg_to_string :: "bigint \<Rightarrow> string option" where
  "bg_to_string a =
     (if bg_mag a = [] then Some ''0''
      else Option.bind (chunk_loop (bg_mag a)) (\<lambda>cs.
        Some ((if bg_neg a then ''-'' else []) @ nat_to_string (last cs) @ concat (map padded (rev (butlast cs))))))"

section \<open>The integer a representation stands for\<close>

definition bg_val :: "bigint \<Rightarrow> int" where
  "bg_val a = (if bg_neg a then - int (val (bg_mag a)) else int (val (bg_mag a)))"

definition bg_ok :: "bigint \<Rightarrow> bool" where
  "bg_ok a \<longleftrightarrow> mag_ok (bg_mag a) \<and> (bg_mag a = [] \<longrightarrow> \<not> bg_neg a)"

text \<open>A well-formed representation of an integer.\<close>

definition bg_is :: "bigint \<Rightarrow> int \<Rightarrow> bool" where
  "bg_is a v \<longleftrightarrow> bg_ok a \<and> bg_val a = v"

lemma bg_isD: "bg_is a v \<Longrightarrow> bg_ok a" "bg_is a v \<Longrightarrow> bg_val a = v" "bg_is a v \<Longrightarrow> mag_ok (bg_mag a)"
  by (simp_all add: bg_is_def bg_ok_def)

lemma bg_is_self: "bg_ok a \<Longrightarrow> bg_is a (bg_val a)"
  by (simp add: bg_is_def)

lemma mag_pos: "mag_ok m \<Longrightarrow> m \<noteq> [] \<longleftrightarrow> 0 < val m"
  using val_zero [of m] by auto

lemma bg_magnitude: "bg_is a v \<Longrightarrow> val (bg_mag a) = nat \<bar>v\<bar>"
  by (auto simp: bg_is_def bg_val_def)

lemma bg_nonzero: "bg_is a v \<Longrightarrow> bg_mag a = [] \<longleftrightarrow> v = 0"
  using val_zero [of "bg_mag a"] by (auto simp: bg_is_def bg_ok_def bg_val_def split: if_splits)

lemma bg_negative: "bg_is a v \<Longrightarrow> bg_neg a \<longleftrightarrow> v < 0"
  using mag_pos [of "bg_mag a"] by (auto simp: bg_is_def bg_ok_def bg_val_def split: if_splits)

text \<open>What every operation ends with: a normal magnitude with a sign, the sign of zero cleared.\<close>

lemma fix_zero_is:
  assumes "mag_ok m" "v = (if s then - int (val m) else int (val m))"
  shows "bg_is (fix_zero \<lparr>bg_neg = s, bg_mag = m\<rparr>) v"
  using assms by (auto simp: fix_zero_def bg_is_def bg_ok_def bg_val_def)

lemma bg_equal: "bg_is a v \<Longrightarrow> bg_is b w \<Longrightarrow> a = b \<longleftrightarrow> v = w"
proof
  assume a: "bg_is a v" "bg_is b w" and "v = w"
  then have "bg_neg a = bg_neg b" "val (bg_mag a) = val (bg_mag b)" using bg_negative bg_magnitude by auto
  then show "a = b" using val_inj bg_isD(3) [OF a(1)] bg_isD(3) [OF a(2)] by (auto intro: bigint.equality)
qed (auto simp: bg_is_def)

section \<open>Arithmetic\<close>

named_theorems bg_ops \<open>what the operations on representations of integers give\<close>

lemma bg_zero_is [bg_ops]: "bg_is bg_zero 0"
  by (simp add: bg_zero_def bg_is_def bg_ok_def bg_val_def mag_ok_def)

lemma set_mag_is: "m < base * base \<Longrightarrow> mag_ok (set_mag m) \<and> val (set_mag m) = m"
proof -
  assume m: "m < base * base"
  have "drop_bit 32 m = m div base" by (simp add: drop_bit_eq_div base_def)
  then show ?thesis
    using split_base [of m] div_base [OF m] base_pos(1)
    by (cases "m div base = 0") (auto simp: set_mag_def mag_ok_def u32_id u32_def div_eq_0_iff)
qed

lemma bg_int_is [bg_ops]: "- (2 ^ 63) \<le> v \<Longrightarrow> v < 2 ^ 64 \<Longrightarrow> bg_is (bg_int v) v"
proof -
  assume v: "- (2 ^ 63) \<le> v" "v < 2 ^ 64"
  have b: "base * base = 2 ^ 64" by (simp add: base_def)
  define m where "m = (if v < 0 then u64 (nat (- (v + 1)) + 1) else u64 (nat v))"
  have "nat \<bar>v\<bar> < 2 ^ 64" using v by auto
  moreover have "nat (- (v + 1)) + 1 = nat \<bar>v\<bar>" if "v < 0" using that by auto
  ultimately have m: "m = nat \<bar>v\<bar>" "m < base * base" unfolding b m_def by (auto simp: u64_def b)
  have "bg_int v = \<lparr>bg_neg = v < 0, bg_mag = set_mag m\<rparr>" by (simp add: bg_int_def m_def)
  moreover have "set_mag m \<noteq> [] \<or> \<not> v < 0" using set_mag_is [OF m(2)] m(1) by auto
  ultimately show ?thesis using set_mag_is [OF m(2)] m(1) by (auto simp: bg_is_def bg_ok_def bg_val_def)
qed

lemma bg_abs_is [bg_ops]: "bg_is a v \<Longrightarrow> bg_is (bg_abs a) \<bar>v\<bar>"
  by (auto simp: bg_abs_def bg_is_def bg_ok_def bg_val_def)

lemma bg_minus_is [bg_ops]: "bg_is a v \<Longrightarrow> bg_is (bg_minus a) (- v)"
  by (auto simp: bg_minus_def bg_is_def bg_ok_def bg_val_def)

lemma bg_add_is [bg_ops]: "bg_is a v \<Longrightarrow> bg_is b w \<Longrightarrow> bg_is (bg_add a b) (v + w)"
proof -
  assume a: "bg_is a v" "bg_is b w"
  note m = bg_isD(3) [OF a(1)] bg_isD(3) [OF a(2)] and vals = bg_isD(2) [OF a(1)] bg_isD(2) [OF a(2)]
  have c: "0 \<le> mag_cmp (bg_mag a) (bg_mag b) \<longleftrightarrow> val (bg_mag b) \<le> val (bg_mag a)" using mag_cmp_sign [OF m] by auto
  show ?thesis
  proof (cases "bg_neg a = bg_neg b")
    case True
    then show ?thesis unfolding bg_add_def if_P [OF True]
      by (intro fix_zero_is mag_add_val(1) m) (use mag_add_val(2) [OF m] vals in \<open>auto simp: bg_val_def\<close>)
  next
    case sign: False
    show ?thesis
    proof (cases "val (bg_mag b) \<le> val (bg_mag a)")
      case True
      then show ?thesis using sign c unfolding bg_add_def
        by (simp only: if_True if_False) (rule fix_zero_is, use mag_sub_val [OF m] vals in \<open>auto simp: bg_val_def\<close>)
    next
      case False
      then show ?thesis using sign c unfolding bg_add_def
        by (simp only: if_True if_False) (rule fix_zero_is, use mag_sub_val [OF m(2,1)] vals in \<open>auto simp: bg_val_def\<close>)
    qed
  qed
qed

lemma bg_sub_is [bg_ops]: "bg_is a v \<Longrightarrow> bg_is b w \<Longrightarrow> bg_is (bg_sub a b) (v - w)"
  using bg_add_is [OF _ bg_minus_is] by (auto simp: bg_sub_def)

lemma bg_mul_is [bg_ops]: "bg_is a v \<Longrightarrow> bg_is b w \<Longrightarrow> bg_is (bg_mul a b) (v * w)"
proof -
  assume a: "bg_is a v" "bg_is b w"
  note m = mag_mul_val [OF bg_isD(3) [OF a(1)] bg_isD(3) [OF a(2)]]
  show ?thesis unfolding bg_mul_def
    by (rule fix_zero_is [OF m(1)]) (use m(2) bg_isD(2) [OF a(1)] bg_isD(2) [OF a(2)] in \<open>auto simp: bg_val_def\<close>)
qed

lemma bg_is_zero_iff: "bg_is a v \<Longrightarrow> bg_is_zero a \<longleftrightarrow> v = 0"
  by (simp add: bg_is_zero_def bg_nonzero)

lemma bg_sign_eq: "bg_is a v \<Longrightarrow> bg_sign a = sgn v"
  by (auto simp: bg_sign_def bg_nonzero bg_negative sgn_if)

lemma bg_is_odd_iff: "bg_is a v \<Longrightarrow> bg_is_odd a \<longleftrightarrow> odd v"
proof -
  assume a: "bg_is a v"
  have "even v \<longleftrightarrow> even (val (bg_mag a))" using bg_isD(2) [OF a] by (auto simp: bg_val_def split: if_splits)
  moreover have "even base" by (simp add: base_def)
  ultimately show ?thesis
    by (cases "bg_mag a") (auto simp: bg_is_odd_def and_one_eq mod2_eq_if)
qed

lemma bg_eq_iff: "bg_is a v \<Longrightarrow> bg_is b w \<Longrightarrow> bg_eq a b \<longleftrightarrow> v = w"
  using bg_equal [of a v b w] by (auto simp: bg_eq_def intro: bigint.equality)

lemma bg_cmp_eq: "bg_is a v \<Longrightarrow> bg_is b w \<Longrightarrow> bg_cmp a b = sgn (v - w)"
proof -
  assume a: "bg_is a v" "bg_is b w"
  note m = bg_isD(3) [OF a(1)] bg_isD(3) [OF a(2)]
  show ?thesis
    using mag_cmp_sign [OF m] bg_magnitude [OF a(1)] bg_magnitude [OF a(2)]
    by (auto simp: bg_cmp_def Let_def bg_negative [OF a(1)] bg_negative [OF a(2)] sgn_if)
qed

lemma bg_divmod_is:
  assumes "bg_is a v" "bg_is b w" "w \<noteq> 0"
  obtains q r where "bg_divmod a b = Some (q, r)" "bg_is q (v sdiv w)" "bg_is r (v smod w)"
proof -
  note m = bg_isD(3) [OF assms(1)] bg_isD(3) [OF assms(2)]
  obtain q r where qr: "mag_divmod (bg_mag a) (bg_mag b) = (q, r)" by (rule prod.exhaust)
  have ne: "bg_mag b \<noteq> []" using assms bg_nonzero by auto
  have d: "mag_ok q" "mag_ok r" "int (val q) = \<bar>v\<bar> div \<bar>w\<bar>" "int (val r) = \<bar>v\<bar> mod \<bar>w\<bar>"
    using mag_divmod_val [OF m ne qr] bg_magnitude assms by (simp_all add: zdiv_int zmod_int)
  let ?q = "fix_zero \<lparr>bg_neg = (bg_neg a \<noteq> bg_neg b), bg_mag = q\<rparr>" and ?r = "fix_zero \<lparr>bg_neg = bg_neg a, bg_mag = r\<rparr>"
  have "bg_is ?q (v sdiv w)"
    by (rule fix_zero_is [OF d(1)])
       (auto simp: d(3) signed_divide_int_def bg_negative [OF assms(1)] bg_negative [OF assms(2)] sgn_if assms(3) mult_less_0_iff zero_less_mult_iff)
  moreover have "bg_is ?r (v smod w)"
    by (rule fix_zero_is [OF d(2)]) (auto simp: d(4) signed_modulo_int_def bg_negative [OF assms(1)] sgn_if)
  moreover have "bg_divmod a b = Some (?q, ?r)" using ne qr by (simp add: bg_divmod_def bg_is_zero_def)
  ultimately show ?thesis by (rule that [rotated])
qed

lemma bg_gcd_loop_is:
  "bg_is a v \<Longrightarrow> bg_is b w \<Longrightarrow> 0 \<le> v \<Longrightarrow> 0 \<le> w \<Longrightarrow> \<exists>g. bg_gcd_loop a b = Some g \<and> bg_is g (gcd v w)"
proof (induction "nat w" arbitrary: a b v w rule: less_induct)
  case less
  show ?case
  proof (cases "w = 0")
    case True
    then show ?thesis using less.prems by (simp add: bg_gcd_loop.simps [of a b] bg_is_zero_iff)
  next
    case False
    obtain q r where d: "bg_divmod a b = Some (q, r)" "bg_is r (v smod w)" using bg_divmod_is [OF less.prems(1,2) False] by blast
    have s: "v smod w = v mod w" "v mod w < w" using less.prems(3,4) False by (simp_all add: smod_mod_positive)
    have "\<exists>g. bg_gcd_loop b r = Some g \<and> bg_is g (gcd w (v mod w))"
      by (rule less.hyps) (use s d(2) less.prems False in \<open>simp_all add: nat_less_eq_zless\<close>)
    then show ?thesis
      using less.prems d False by (simp add: bg_gcd_loop.simps [of a b] bg_is_zero_iff gcd_red_int [of v w])
  qed
qed

lemma bg_gcd_is:
  assumes "bg_is a v" "bg_is b w"
  obtains g where "bg_gcd a b = Some g" "bg_is g (gcd v w)"
proof -
  have "bg_is (a\<lparr>bg_neg := False\<rparr>) \<bar>v\<bar>" "bg_is (b\<lparr>bg_neg := False\<rparr>) \<bar>w\<bar>" using bg_abs_is assms by (simp_all add: bg_abs_def)
  then have "\<exists>g. bg_gcd a b = Some g \<and> bg_is g (gcd \<bar>v\<bar> \<bar>w\<bar>)" unfolding bg_gcd_def by (rule bg_gcd_loop_is) simp_all
  then show ?thesis using that by auto
qed

section \<open>Decimal texts\<close>

lemma digits_value_shift: "digits_value a s = a * 10 ^ length s + digits_value 0 s"
proof (induction s arbitrary: a)
  case (Cons c s)
  show ?case using Cons [of "10 * a + digit_val c"] Cons [of "digit_val c"] by (simp add: algebra_simps)
qed simp

definition all_digits :: "string \<Rightarrow> bool" where
  "all_digits s \<longleftrightarrow> (\<forall>c \<in> set s. is_digit c)"

lemma all_digits_simps [simp]:
  "all_digits []" "all_digits (c # s) \<longleftrightarrow> is_digit c \<and> all_digits s" "all_digits (s @ t) \<longleftrightarrow> all_digits s \<and> all_digits t"
  "all_digits (nat_to_string n)"
  by (auto simp: all_digits_def dest: nat_to_string_digits)

lemma all_digits_parts: "all_digits s \<Longrightarrow> all_digits (take k s)" "all_digits s \<Longrightarrow> all_digits (drop k s)"
  by (auto simp: all_digits_def dest: in_set_takeD in_set_dropD)

lemma billion: "(1000000000 :: nat) < base" "1000000000 = (10 :: nat) ^ 9" "(10 :: nat) ^ 9 < base"
  by (simp_all add: base_def)

lemma read_chunk_val:
  "all_digits s \<Longrightarrow> (a + 1) * 10 ^ length s \<le> 10 ^ 9 \<Longrightarrow> b * 10 ^ length s \<le> 10 ^ 9 \<Longrightarrow>
    read_chunk s a b = Some (digits_value a s, b * 10 ^ length s)"
proof (induction s arbitrary: a b)
  case (Cons c s)
  have c: "is_digit c" "all_digits s" using Cons.prems(1) by simp_all
  have "(10 * a + digit_val c + 1) * 10 ^ length s \<le> 10 * (a + 1) * 10 ^ length s"
    using digit_val_less [OF c(1)] by (intro mult_le_mono1) simp
  moreover have "10 * (a + 1) * 10 ^ length s = (a + 1) * 10 ^ length (c # s)" by (simp add: algebra_simps)
  ultimately have a: "(10 * a + digit_val c + 1) * 10 ^ length s \<le> 10 ^ 9" using Cons.prems(2) by linarith
  have b: "b * 10 * 10 ^ length s \<le> 10 ^ 9" using Cons.prems(3) by (simp add: algebra_simps)
  have one: "x \<le> x * 10 ^ length s" for x :: nat by simp
  have "10 * a + digit_val c < base" "b * 10 < base"
    using one [of "10 * a + digit_val c + 1"] one [of "b * 10"] a b billion(3) by linarith+
  then have "u32 (a * 10 + digit_val c) = 10 * a + digit_val c" "u32 (b * 10) = b * 10" by (simp_all add: u32_id mult.commute)
  then show ?case using Cons.IH [OF c(2) a b] c(1) by (simp add: is_digit_def not_less mult.assoc)
qed simp

lemma read_chunk_none: "\<not> all_digits s \<Longrightarrow> read_chunk s a b = None"
  by (induction s arbitrary: a b) (auto simp: is_digit_def)

lemma digits_bound: "all_digits s \<Longrightarrow> digits_value 0 s < 10 ^ length s"
proof (induction s)
  case (Cons c s)
  then have "digit_val c * 10 ^ length s \<le> 9 * 10 ^ length s" using digit_val_less [of c] by (intro mult_le_mono1) simp
  moreover have "digits_value 0 (c # s) = digit_val c * 10 ^ length s + digits_value 0 s"
    using digits_value_shift [of "digit_val c" s] by simp
  moreover have "digits_value 0 s < 10 ^ length s" using Cons by simp
  ultimately have "digits_value 0 (c # s) < 10 * 10 ^ length s" by linarith
  then show ?case by simp
qed simp

lemma digits_loop_val:
  "all_digits s \<Longrightarrow> mag_ok m \<Longrightarrow> \<exists>m'. digits_loop s m = Some m' \<and> mag_ok m' \<and> val m' = digits_value (val m) s"
proof (induction s m rule: digits_loop.induct)
  case (1 s m)
  show ?case
  proof (cases "s = []")
    case True
    then show ?thesis using 1 by (simp add: digits_loop.simps)
  next
    case False
    define p where "p = take 9 s"
    have p: "all_digits p" "length p \<le> 9" using 1 all_digits_parts by (simp_all add: p_def)
    have ten: "(10::nat) ^ length p \<le> 10 ^ 9" using p(2) by (intro power_increasing) simp_all
    then have r: "read_chunk p 0 1 = Some (digits_value 0 p, 10 ^ length p)" using read_chunk_val [OF p(1), of 0 1] by simp
    have "10 ^ length p < base" by (rule le_less_trans [OF ten billion(3)])
    moreover from this have "digits_value 0 p < base" by (rule less_trans [OF digits_bound [OF p(1)]])
    ultimately have "digits_value 0 p < base" "10 ^ length p < base" by simp_all
    note m = mul_small_add_val [OF 1(3) this(2,1)]
    have "\<exists>m'. digits_loop (drop 9 s) (mul_small_add m (10 ^ length p) (digits_value 0 p)) = Some m' \<and> mag_ok m' \<and>
        val m' = digits_value (val (mul_small_add m (10 ^ length p) (digits_value 0 p))) (drop 9 s)"
      by (rule 1(1) [OF False]) (use r 1 m all_digits_parts in \<open>simp_all add: p_def\<close>)
    moreover have "digits_value (val m) s = digits_value (digits_value (val m) p) (drop 9 s)"
      unfolding p_def digits_value_append [symmetric] by simp
    moreover have "val (mul_small_add m (10 ^ length p) (digits_value 0 p)) = digits_value (val m) p"
      using m(2) digits_value_shift [of "val m" p] by simp
    moreover have "digits_loop s m = digits_loop (drop 9 s) (mul_small_add m (10 ^ length p) (digits_value 0 p))"
      unfolding digits_loop.simps [of s m] p_def [symmetric] using r False by simp
    ultimately show ?thesis by simp
  qed
qed

lemma digits_loop_none: "\<not> all_digits s \<Longrightarrow> digits_loop s m = None"
proof (induction s m rule: digits_loop.induct)
  case (1 s m)
  then have s: "s \<noteq> []" by auto
  have "all_digits (take 9 s) \<Longrightarrow> \<not> all_digits (drop 9 s)" using 1(2) by (metis append_take_drop_id all_digits_simps(3))
  then consider "read_chunk (take 9 s) 0 1 = None" | a b where "read_chunk (take 9 s) 0 1 = Some (a, b)" "\<not> all_digits (drop 9 s)"
    using read_chunk_none [of "take 9 s" 0 1] by fastforce
  then show ?case
  proof cases
    case 2
    then show ?thesis using 1(1) [OF s 2(1) refl 2(2)] s by (simp add: digits_loop.simps [of s m])
  qed (use s in \<open>simp add: digits_loop.simps [of s m]\<close>)
qed

lemma from_digits_iff:
  "(if s \<noteq> [] \<and> all_digits s then \<exists>a. from_digits s = Some a \<and> bg_is a (int (digits_value 0 s)) else from_digits s = None)"
proof (cases "s \<noteq> [] \<and> all_digits s")
  case True
  then obtain m where "digits_loop s [] = Some m" "mag_ok m" "val m = digits_value 0 s"
    using digits_loop_val [of s "[]"] by (auto simp: mag_ok_def)
  then show ?thesis using True by (simp add: from_digits_def bg_is_def bg_ok_def bg_val_def)
next
  case False
  then show ?thesis unfolding if_not_P [OF False] by (auto simp: from_digits_def digits_loop_none)
qed

lemma small_pow10_val: "s * 10 ^ k < base \<Longrightarrow> small_pow10 k s = s * 10 ^ k"
proof (induction k arbitrary: s)
  case (Suc k)
  have a: "s * 10 * 10 ^ k < base" using Suc.prems by (simp add: mult.assoc)
  moreover have "s * 10 * 1 \<le> s * 10 * 10 ^ k" by (intro mult_le_mono2) simp
  ultimately have "u32 (s * 10) = s * 10" by (intro u32_id) linarith
  then show ?case using Suc.IH [OF a] by (simp add: mult.assoc)
qed simp

lemma pow10_loop_val: "mag_ok m \<Longrightarrow> mag_ok (pow10_loop k m) \<and> val (pow10_loop k m) = val m * 10 ^ k"
proof (induction k m rule: pow10_loop.induct)
  case (1 k m)
  show ?case
  proof (cases "9 \<le> k")
    case True
    note m = mul_small_add_val [OF 1(2) billion(1) base_pos(1)]
    have "(10::nat) ^ k = 1000000000 * 10 ^ (k - 9)" unfolding billion(2) using True by (simp only: power_add [symmetric] le_add_diff_inverse)
    then show ?thesis using 1(1) [OF True m(1)] m(2) True by (simp add: pow10_loop.simps [of k])
  next
    case False
    then have "(10::nat) ^ k \<le> 10 ^ 9" by (intro power_increasing) simp_all
    then have k: "10 ^ k < base" by (rule le_less_trans [OF _ billion(3)])
    then show ?thesis using False mul_small_add_val [OF 1(2) k base_pos(1)] small_pow10_val [of 1 k] by (simp add: pow10_loop.simps [of k])
  qed
qed

lemma pow10_is [bg_ops]: "bg_is (pow10 k) (10 ^ k)"
proof -
  have one: "bg_is (bg_int 1) 1" by (rule bg_int_is) simp_all
  note p = pow10_loop_val [OF bg_isD(3) [OF one], of k]
  have "val (bg_mag (bg_int 1)) = 1" "\<not> bg_neg (bg_int 1)" using bg_magnitude [OF one] bg_negative [OF one] by simp_all
  then show ?thesis using p by (simp add: pow10_def bg_is_def bg_ok_def bg_val_def)
qed

section \<open>Printing\<close>

lemma padded_split:
  "0 < q \<Longrightarrow> 0 < k \<Longrightarrow> r < 10 ^ k \<Longrightarrow>
    nat_to_string (q * 10 ^ k + r) = nat_to_string q @ replicate (k - length (nat_to_string r)) (CHR ''0'') @ nat_to_string r"
proof (induction k arbitrary: r)
  case (Suc k)
  have step: "nat_to_string (q * 10 ^ Suc k + r) = nat_to_string (q * 10 ^ k + r div 10) @ [digit_char (r mod 10)]"
  proof -
    define x where "x = q * 10 ^ k"
    have x: "q * 10 ^ Suc k + r = 10 * x + r" "0 < x" using Suc.prems(1) by (simp_all add: x_def)
    show ?thesis unfolding x(1) x_def [symmetric] using x(2) by (simp add: nat_to_string.simps [of "10 * x + r"])
  qed
  show ?case
  proof (cases "k = 0")
    case True
    then show ?thesis using Suc.prems step by (simp add: nat_to_string.simps [of r])
  next
    case k: False
    have "r div 10 < 10 ^ k" using Suc.prems(3) by (simp add: less_mult_imp_div_less mult.commute)
    note IH = Suc.IH [OF Suc.prems(1) _ this]
    show ?thesis
    proof (cases "r < 10")
      case True
      have "replicate (k - 1) (CHR ''0'') @ [CHR ''0''] = replicate k (CHR ''0'')"
        using k by (metis One_nat_def Suc_diff_1 neq0_conv replicate_Suc replicate_append_same)
      moreover have "digit_char 0 = CHR ''0''" by code_simp
      ultimately show ?thesis using step IH k True by (simp add: nat_to_string.simps [of r] nat_to_string.simps [of 0])
    next
      case False
      then have "nat_to_string r = nat_to_string (r div 10) @ [digit_char (r mod 10)]" by (simp add: nat_to_string.simps [of r])
      then show ?thesis using step IH k by simp
    qed
  qed
qed simp

lemma chunk_loop_val:
  "mag_ok m \<Longrightarrow> m \<noteq> [] \<Longrightarrow> \<exists>cs. chunk_loop m = Some cs \<and> cs \<noteq> [] \<and>
    nat_to_string (last cs) @ concat (map padded (rev (butlast cs))) = nat_to_string (val m)"
proof (induction "val m" arbitrary: m rule: less_induct)
  case less
  obtain m' r where d: "div_small m 1000000000 = (m', r)" by (rule prod.exhaust)
  have v: "mag_ok m'" "val m' = val m div 1000000000" "r = val m mod 1000000000"
    using div_small_val [OF less.prems(1) _ billion(1) d] by simp_all
  have pos: "0 < val m" using less.prems mag_pos by blast
  have c: "chunk_loop m = Option.bind (chunk_loop m') (\<lambda>cs. Some (r # cs))"
    using d less.prems(2) by (simp add: chunk_loop.simps [of m])
  show ?case
  proof (cases "m' = []")
    case True
    then have "val m div 1000000000 = 0" using v(2) by simp
    then have "r = val m" using v(3) by (simp add: div_eq_0_iff)
    then show ?thesis using c True by (simp add: chunk_loop.simps [of "[]"])
  next
    case False
    have q: "0 < val m'" using False v(1) mag_pos by blast
    have "val m' < val m" using v(2) pos by simp
    then obtain cs where cs: "chunk_loop m' = Some cs" "cs \<noteq> []"
        "nat_to_string (last cs) @ concat (map padded (rev (butlast cs))) = nat_to_string (val m')"
      using less.hyps v(1) False by blast
    have "val m = val m' * 10 ^ 9 + r" "r < 10 ^ 9" using v(2,3) by simp_all
    then have "nat_to_string (val m) = nat_to_string (val m') @ padded r"
      using padded_split [OF q, of 9 r] by (simp add: padded_def Let_def)
    then show ?thesis using c cs by simp
  qed
qed

lemma bg_to_string_text: "bg_is a v \<Longrightarrow> bg_to_string a = Some (int_to_string v)"
proof -
  assume a: "bg_is a v"
  show ?thesis
  proof (cases "v = 0")
    case True
    have "nat_to_string 0 = ''0''" by code_simp
    then show ?thesis using True a by (simp add: bg_to_string_def bg_nonzero int_to_string_def)
  next
    case False
    then obtain cs where "chunk_loop (bg_mag a) = Some cs"
        "nat_to_string (last cs) @ concat (map padded (rev (butlast cs))) = nat_to_string (val (bg_mag a))"
      using chunk_loop_val [OF bg_isD(3) [OF a]] bg_nonzero [OF a] by blast
    then show ?thesis
      using False a bg_magnitude [OF a] by (simp add: bg_to_string_def bg_nonzero bg_negative int_to_string_def)
  qed
qed

section \<open>What the component promises\<close>

text \<open>
  C35: dividing by an integer other than zero gives the truncated quotient and the remainder with the sign
  of the dividend, both in their only representation; dividing by zero fails.
\<close>

theorem divmod_truncates:
  assumes "bg_ok a" and "bg_ok b"
  shows "if bg_is_zero b then bg_divmod a b = None
    else \<exists>q r. bg_divmod a b = Some (q, r) \<and> bg_ok q \<and> bg_ok r \<and>
      bg_val q = bg_val a sdiv bg_val b \<and> bg_val r = bg_val a smod bg_val b \<and>
      bg_val a = bg_val b * bg_val q + bg_val r \<and> \<bar>bg_val r\<bar> < \<bar>bg_val b\<bar>"
proof (cases "bg_is_zero b")
  case True
  then show ?thesis by (simp add: bg_divmod_def)
next
  case False
  then have nz: "bg_val b \<noteq> 0" using bg_is_zero_iff [OF bg_is_self [OF assms(2)]] by simp
  obtain q r where d: "bg_divmod a b = Some (q, r)" "bg_is q (bg_val a sdiv bg_val b)" "bg_is r (bg_val a smod bg_val b)"
    using bg_divmod_is [OF bg_is_self [OF assms(1)] bg_is_self [OF assms(2)] nz] by blast
  have "bg_val a = bg_val b * (bg_val a sdiv bg_val b) + bg_val a smod bg_val b"
    by (rule mult_sdiv_smod_eq [symmetric])
  moreover have "\<bar>bg_val a smod bg_val b\<bar> < \<bar>bg_val b\<bar>"
    using nz by (simp add: signed_modulo_int_def abs_mult sgn_if)
  ultimately show ?thesis using False d by (auto simp: bg_is_def)
qed

text \<open>A division in which the guessed limb is one too large and the divisor is added back.\<close>

theorem divmod_truncates_witness:
  "\<exists>q r. bg_divmod \<lparr>bg_neg = True, bg_mag = [0, 0, 0x80000000, 0x7fffffff]\<rparr> \<lparr>bg_neg = False, bg_mag = [1, 0, 0x80000000]\<rparr> = Some (q, r) \<and>
     bg_val q = - 0xfffffffe \<and> bg_val r < 0"
proof -
  let ?a = "\<lparr>bg_neg = True, bg_mag = [0, 0, 0x80000000, 0x7fffffff]\<rparr>" and ?b = "\<lparr>bg_neg = False, bg_mag = [1, 0, 0x80000000]\<rparr>"
  have "bg_ok ?a" "bg_ok ?b" by (simp_all add: bg_ok_def mag_ok_def base_def)
  note d = divmod_truncates [OF this]
  have "bg_val ?a = - (0x80000000 * 2 ^ 64 + 0x7fffffff * 2 ^ 96)" "bg_val ?b = 1 + 0x80000000 * 2 ^ 64" by (simp_all add: bg_val_def base_def)
  then show ?thesis using d by (auto simp: bg_is_zero_def signed_divide_int_def signed_modulo_int_def)
qed

text \<open>
  C36: the operations on representations compute the integer operations and keep the only representation of
  each integer, so that equality, order, parity and sign can be read off it; the loop of the greatest
  common divisor ends.
\<close>

theorem integer_operations:
  assumes "bg_ok a" and "bg_ok b"
  shows "bg_ok (bg_add a b) \<and> bg_val (bg_add a b) = bg_val a + bg_val b \<and>
    bg_ok (bg_sub a b) \<and> bg_val (bg_sub a b) = bg_val a - bg_val b \<and>
    bg_ok (bg_mul a b) \<and> bg_val (bg_mul a b) = bg_val a * bg_val b \<and>
    bg_ok (bg_minus a) \<and> bg_val (bg_minus a) = - bg_val a \<and> bg_ok (bg_abs a) \<and> bg_val (bg_abs a) = \<bar>bg_val a\<bar> \<and>
    (\<exists>g. bg_gcd a b = Some g \<and> bg_ok g \<and> bg_val g = gcd (bg_val a) (bg_val b)) \<and>
    (bg_eq a b \<longleftrightarrow> bg_val a = bg_val b) \<and> (bg_eq a b \<longleftrightarrow> a = b) \<and> bg_cmp a b = sgn (bg_val a - bg_val b) \<and>
    (bg_is_odd a \<longleftrightarrow> odd (bg_val a)) \<and> bg_sign a = sgn (bg_val a) \<and> (bg_is_zero a \<longleftrightarrow> bg_val a = 0)"
proof -
  note a = bg_is_self [OF assms(1)] and b = bg_is_self [OF assms(2)]
  have "\<exists>g. bg_gcd a b = Some g \<and> bg_ok g \<and> bg_val g = gcd (bg_val a) (bg_val b)"
    using bg_gcd_is [OF a b] by (auto simp: bg_is_def)
  then show ?thesis
    using bg_add_is [OF a b] bg_sub_is [OF a b] bg_mul_is [OF a b] bg_minus_is [OF a] bg_abs_is [OF a]
      bg_eq_iff [OF a b] bg_equal [OF a b] bg_cmp_eq [OF a b] bg_is_odd_iff [OF a] bg_sign_eq [OF a] bg_is_zero_iff [OF a]
    unfolding bg_is_def by blast
qed

theorem integer_operations_witness:
  "bg_val (bg_mul \<lparr>bg_neg = True, bg_mag = [0xffffffff, 1]\<rparr> \<lparr>bg_neg = False, bg_mag = [0xffffffff]\<rparr>) = - (0x1ffffffff * 0xffffffff)"
proof -
  have "bg_ok \<lparr>bg_neg = True, bg_mag = [0xffffffff, 1]\<rparr>" "bg_ok \<lparr>bg_neg = False, bg_mag = [0xffffffff]\<rparr>"
    by (simp_all add: bg_ok_def mag_ok_def base_def)
  from integer_operations [OF this] show ?thesis by (simp add: bg_val_def base_def)
qed

text \<open>
  C37: an integer is printed as its decimal numeral; a text is read exactly when it is not empty and made of
  digits, as the number it denotes; so the numeral of a magnitude is read back as that magnitude.
\<close>

theorem integer_texts:
  assumes "bg_ok a"
  shows "bg_to_string a = Some (int_to_string (bg_val a)) \<and>
    from_digits (nat_to_string (nat \<bar>bg_val a\<bar>)) = Some (bg_abs a) \<and>
    (\<forall>s. if s \<noteq> [] \<and> all_digits s then \<exists>b. from_digits s = Some b \<and> bg_ok b \<and> bg_val b = int (digits_value 0 s)
      else from_digits s = None)"
proof (intro conjI allI)
  note a = bg_is_self [OF assms]
  show "bg_to_string a = Some (int_to_string (bg_val a))" by (rule bg_to_string_text [OF a])
  obtain b where "from_digits (nat_to_string (nat \<bar>bg_val a\<bar>)) = Some b" "bg_is b \<bar>bg_val a\<bar>"
    using from_digits_iff [of "nat_to_string (nat \<bar>bg_val a\<bar>)"] by (auto simp: nat_to_string_value)
  then show "from_digits (nat_to_string (nat \<bar>bg_val a\<bar>)) = Some (bg_abs a)" using bg_equal [OF _ bg_abs_is [OF a]] by simp
  show "if s \<noteq> [] \<and> all_digits s then \<exists>b. from_digits s = Some b \<and> bg_ok b \<and> bg_val b = int (digits_value 0 s)
      else from_digits s = None" for s using from_digits_iff [of s] by (auto simp: bg_is_def split: if_splits)
qed

theorem integer_texts_witness:
  "bg_to_string \<lparr>bg_neg = True, bg_mag = [0, 0, 1]\<rparr> = Some (int_to_string (- (2 ^ 64)))"
proof -
  have "bg_ok \<lparr>bg_neg = True, bg_mag = [0, 0, 1]\<rparr>" by (simp add: bg_ok_def mag_ok_def base_def)
  from integer_texts [OF this] show ?thesis by (simp add: bg_val_def base_def)
qed

end
