(* ===== verification/Hsb_Rational.thy ===== *)
theory Hsb_Rational imports Bigint Qint_Text begin

text \<open>
  \<^verbatim>\<open>hsb_rational\<close> of \<^verbatim>\<open>src/boolean_algebras/hsb/hsb_rational.h\<close>: reduced fractions of integers without
  bounds, their texts and the reader of those texts. As in \<^theory_text>\<open>Bigint\<close>, \<open>None\<close> is a failed assertion or no
  answer; a \<^verbatim>\<open>nullopt\<close> of the code is the inner \<open>None\<close>.
\<close>

section \<open>Definitions\<close>

record hsb_rational =
  hr_num :: bigint
  hr_den :: bigint

definition hr_zero :: hsb_rational where
  "hr_zero = \<lparr>hr_num = bg_zero, hr_den = bg_int 1\<rparr>"

definition hr_of :: "bigint \<Rightarrow> hsb_rational" where
  "hr_of v = hr_zero\<lparr>hr_num := v\<rparr>"

definition hr_reduce :: "hsb_rational \<Rightarrow> hsb_rational option" where
  "hr_reduce r =
     (let r = (if bg_sign (hr_den r) < 0 then \<lparr>hr_num = bg_minus (hr_num r), hr_den = bg_minus (hr_den r)\<rparr> else r) in
      if bg_is_zero (hr_num r) then Some (r\<lparr>hr_den := bg_int 1\<rparr>)
      else do {
        g \<leftarrow> bg_gcd (hr_num r) (hr_den r);
        if \<not> bg_eq g (bg_int 1) then do {
          (n, _) \<leftarrow> bg_divmod (hr_num r) g;
          (d, _) \<leftarrow> bg_divmod (hr_den r) g;
          Some \<lparr>hr_num = n, hr_den = d\<rparr>
        } else Some r
      })"

definition hr_fraction :: "bigint \<Rightarrow> bigint \<Rightarrow> hsb_rational option option" where
  "hr_fraction n d =
     (if bg_is_zero d then Some None else map_option Some (hr_reduce \<lparr>hr_num = n, hr_den = d\<rparr>))"

definition hr_make :: "bigint \<Rightarrow> bigint \<Rightarrow> hsb_rational option" where
  "hr_make n d = hr_reduce \<lparr>hr_num = n, hr_den = d\<rparr>"

definition hr_sign :: "hsb_rational \<Rightarrow> int" where
  "hr_sign r = bg_sign (hr_num r)"

definition hr_is_zero :: "hsb_rational \<Rightarrow> bool" where
  "hr_is_zero r \<longleftrightarrow> bg_is_zero (hr_num r)"

definition hr_is_integer :: "hsb_rational \<Rightarrow> bool" where
  "hr_is_integer r \<longleftrightarrow> bg_eq (hr_den r) (bg_int 1)"

definition hr_abs :: "hsb_rational \<Rightarrow> hsb_rational" where
  "hr_abs r = r\<lparr>hr_num := bg_abs (hr_num r)\<rparr>"

definition hr_minus :: "hsb_rational \<Rightarrow> hsb_rational" where
  "hr_minus r = r\<lparr>hr_num := bg_minus (hr_num r)\<rparr>"

definition hr_add :: "hsb_rational \<Rightarrow> hsb_rational \<Rightarrow> hsb_rational option" where
  "hr_add a b = hr_make (bg_add (bg_mul (hr_num a) (hr_den b)) (bg_mul (hr_num b) (hr_den a))) (bg_mul (hr_den a) (hr_den b))"

definition hr_sub :: "hsb_rational \<Rightarrow> hsb_rational \<Rightarrow> hsb_rational option" where
  "hr_sub a b = hr_make (bg_sub (bg_mul (hr_num a) (hr_den b)) (bg_mul (hr_num b) (hr_den a))) (bg_mul (hr_den a) (hr_den b))"

definition hr_mul :: "hsb_rational \<Rightarrow> hsb_rational \<Rightarrow> hsb_rational option" where
  "hr_mul a b = hr_make (bg_mul (hr_num a) (hr_num b)) (bg_mul (hr_den a) (hr_den b))"

definition hr_div :: "hsb_rational \<Rightarrow> hsb_rational \<Rightarrow> hsb_rational option" where
  "hr_div a b =
     (if hr_is_zero b then None else hr_make (bg_mul (hr_num a) (hr_den b)) (bg_mul (hr_den a) (hr_num b)))"

definition hr_eq :: "hsb_rational \<Rightarrow> hsb_rational \<Rightarrow> bool" where
  "hr_eq a b \<longleftrightarrow> bg_eq (hr_num a) (hr_num b) \<and> bg_eq (hr_den a) (hr_den b)"

definition hr_cmp :: "hsb_rational \<Rightarrow> hsb_rational \<Rightarrow> int" where
  "hr_cmp a b =
     (if bg_eq (hr_den a) (hr_den b) then bg_cmp (hr_num a) (hr_num b)
      else bg_cmp (bg_mul (hr_num a) (hr_den b)) (bg_mul (hr_num b) (hr_den a)))"

fun pow2_loop :: "nat \<Rightarrow> bigint \<Rightarrow> bigint" where
  "pow2_loop 0 r = r"
| "pow2_loop (Suc k) r = pow2_loop k (bg_mul r (bg_int 2))"

definition pow2 :: "nat \<Rightarrow> bigint" where
  "pow2 k = pow2_loop k (bg_int 1)"

text \<open>
  From a finite double, given as \<^verbatim>\<open>std::frexp\<close> takes it apart: its mantissa as an integer of 53 bits and
  the exponent, less those 53 bits.
\<close>

definition hr_from_double :: "int \<Rightarrow> int \<Rightarrow> hsb_rational option option" where
  "hr_from_double m e =
     (let n = bg_int m; d = bg_int 1; two_pow = pow2 (nat (if e < 0 then - e else e))
      in if 0 \<le> e then hr_fraction (bg_mul n two_pow) d else hr_fraction n two_pow)"

text \<open>The reader: a fraction, a decimal or an integer without its sign, and the sign before it.\<close>

definition hr_read :: "string \<Rightarrow> hsb_rational option option" where
  "hr_read s =
     (if CHR ''/'' \<in> set s then
        let p = takeWhile (\<lambda>c. c \<noteq> CHR ''/'') s; q = tl (dropWhile (\<lambda>c. c \<noteq> CHR ''/'') s)
        in case (from_digits p, from_digits q) of
          (Some p, Some q) \<Rightarrow> hr_fraction p q
        | _ \<Rightarrow> Some None
      else if CHR ''.'' \<in> set s then
        let ip = takeWhile (\<lambda>c. c \<noteq> CHR ''.'') s; fp = tl (dropWhile (\<lambda>c. c \<noteq> CHR ''.'') s)
        in case (from_digits ip, from_digits fp) of
          (Some i, Some f) \<Rightarrow> (let scale = pow10 (length fp) in hr_fraction (bg_add (bg_mul i scale) f) scale)
        | _ \<Rightarrow> Some None
      else Some (map_option hr_of (from_digits s)))"

definition hr_parse :: "string \<Rightarrow> hsb_rational option option" where
  "hr_parse s =
     (let neg = (s \<noteq> [] \<and> hd s = CHR ''-''); s = (if neg then tl s else s)
      in map_option (\<lambda>r. if neg then map_option hr_minus r else r) (hr_read s))"

partial_function (option) twos_loop :: "bigint \<Rightarrow> nat \<Rightarrow> (bigint \<times> nat) option" where
  "twos_loop d twos =
     (if bg_is_odd d then Some (d, twos)
      else Option.bind (bg_divmod d (bg_int 2)) (\<lambda>(q, r). twos_loop q (Suc twos)))"

partial_function (option) fives_loop :: "bigint \<Rightarrow> nat \<Rightarrow> (bigint \<times> nat) option" where
  "fives_loop d fives =
     Option.bind (bg_divmod d (bg_int 5)) (\<lambda>(q, r). if \<not> bg_is_zero r then Some (d, fives) else fives_loop q (Suc fives))"

definition hr_to_fraction_string :: "hsb_rational \<Rightarrow> string option" where
  "hr_to_fraction_string r =
     (if hr_is_integer r then bg_to_string (hr_num r)
      else do {
        n \<leftarrow> bg_to_string (hr_num r);
        d \<leftarrow> bg_to_string (hr_den r);
        Some (n @ ''/'' @ d)
      })"

definition hr_to_string :: "hsb_rational \<Rightarrow> string option" where
  "hr_to_string r =
     (if hr_is_integer r then bg_to_string (hr_num r)
      else do {
        (d, twos) \<leftarrow> twos_loop (hr_den r) 0;
        (d, fives) \<leftarrow> fives_loop d 0;
        if \<not> bg_eq d (bg_int 1) then do {
          n \<leftarrow> bg_to_string (hr_num r);
          d \<leftarrow> bg_to_string (hr_den r);
          Some (n @ ''/'' @ d)
        } else do {
          let k = max twos fives;
          (q, _) \<leftarrow> bg_divmod (pow10 k) (hr_den r);
          s \<leftarrow> bg_to_string (bg_mul (bg_abs (hr_num r)) q);
          Some (place_decimal_point s k (bg_sign (hr_num r) < 0))
        }
      })"

section \<open>The rational a fraction stands for\<close>

definition hr_val :: "hsb_rational \<Rightarrow> rat" where
  "hr_val r = of_int (bg_val (hr_num r)) / of_int (bg_val (hr_den r))"

definition hr_ok :: "hsb_rational \<Rightarrow> bool" where
  "hr_ok r \<longleftrightarrow> bg_ok (hr_num r) \<and> bg_ok (hr_den r) \<and> 0 < bg_val (hr_den r) \<and> coprime (bg_val (hr_num r)) (bg_val (hr_den r))"

definition hr_is :: "hsb_rational \<Rightarrow> rat \<Rightarrow> bool" where
  "hr_is r x \<longleftrightarrow> bg_is (hr_num r) (fst (quotient_of x)) \<and> bg_is (hr_den r) (snd (quotient_of x))"

lemma quotient_of_reduced: "0 < q \<Longrightarrow> coprime p q \<Longrightarrow> quotient_of (of_int p / of_int q) = (p, q)"
  by (simp add: Fract_of_int_quotient [symmetric] quotient_of_Fract Rat.normalize_stable)

lemma hr_is_iff: "hr_is r x \<longleftrightarrow> hr_ok r \<and> hr_val r = x"
proof
  assume a: "hr_is r x"
  then have n: "bg_val (hr_num r) = fst (quotient_of x)" "bg_val (hr_den r) = snd (quotient_of x)" by (simp_all add: hr_is_def bg_is_def)
  have "x = of_int (fst (quotient_of x)) / of_int (snd (quotient_of x))" by (rule quotient_of_div) simp
  then show "hr_ok r \<and> hr_val r = x"
    using a quotient_of_denom_pos' [of x] quotient_of_coprime [of x "fst (quotient_of x)" "snd (quotient_of x)"]
    by (simp add: hr_ok_def hr_val_def n hr_is_def bg_is_def)
next
  assume a: "hr_ok r \<and> hr_val r = x"
  then have "quotient_of x = (bg_val (hr_num r), bg_val (hr_den r))" using quotient_of_reduced by (auto simp: hr_ok_def hr_val_def)
  then show "hr_is r x" using a by (simp add: hr_is_def bg_is_def hr_ok_def)
qed

lemma hr_isI: "bg_is n p \<Longrightarrow> bg_is d q \<Longrightarrow> 0 < q \<Longrightarrow> coprime p q \<Longrightarrow> x = of_int p / of_int q \<Longrightarrow> hr_is \<lparr>hr_num = n, hr_den = d\<rparr> x"
  by (simp add: hr_is_def quotient_of_reduced)

lemma hr_isE:
  assumes "hr_is r x"
  obtains p q where "bg_is (hr_num r) p" "bg_is (hr_den r) q" "0 < q" "coprime p q" "x = of_int p / of_int q"
  using assms unfolding hr_is_iff by (auto simp: hr_ok_def hr_val_def intro: that [OF bg_is_self bg_is_self])

lemma hr_equal: "hr_is r x \<Longrightarrow> hr_is s y \<Longrightarrow> r = s \<longleftrightarrow> x = y"
  using bg_equal by (auto simp: hr_is_def intro!: hsb_rational.equality) (metis hr_is_def hr_is_iff)

section \<open>Arithmetic\<close>

lemma bg_one: "bg_is (bg_int 1) 1"
  by (rule bg_int_is) simp_all

lemma fraction_cancel: "0 < g \<Longrightarrow> g dvd p \<Longrightarrow> g dvd q \<Longrightarrow> of_int p / of_int q = (of_int (p div g) / of_int (q div g) :: rat)"
  by (elim dvdE) simp

lemma hr_reduce_pos:
  assumes n: "bg_is n p" and d: "bg_is d q" and q: "0 < q"
  shows "\<exists>r. hr_reduce \<lparr>hr_num = n, hr_den = d\<rparr> = Some r \<and> hr_is r (of_int p / of_int q)"
proof -
  have s: "\<not> bg_sign d < 0" using bg_sign_eq [OF d] q by simp
  have red: "hr_reduce \<lparr>hr_num = n, hr_den = d\<rparr> =
      (if p = 0 then Some \<lparr>hr_num = n, hr_den = bg_int 1\<rparr>
       else Option.bind (bg_gcd n d) (\<lambda>g. if \<not> bg_eq g (bg_int 1) then
         Option.bind (bg_divmod n g) (\<lambda>(n, _). Option.bind (bg_divmod d g) (\<lambda>(d, _). Some \<lparr>hr_num = n, hr_den = d\<rparr>))
         else Some \<lparr>hr_num = n, hr_den = d\<rparr>))"
    unfolding hr_reduce_def Let_def hsb_rational.simps if_not_P [OF s] bg_is_zero_iff [OF n] hsb_rational.update_convs ..
  obtain g where g: "bg_gcd n d = Some g" "bg_is g (gcd p q)" using bg_gcd_is [OF n d] .
  have g0: "0 < gcd p q" using q by simp
  then have gne: "gcd p q \<noteq> 0" by simp
  have one: "bg_eq g (bg_int 1) \<longleftrightarrow> gcd p q = 1" by (rule bg_eq_iff [OF g(2) bg_one])
  consider "p = 0" | "p \<noteq> 0" "gcd p q = 1" | "p \<noteq> 0" "gcd p q \<noteq> 1" by blast
  then show ?thesis
  proof cases
    case 1
    have "hr_is \<lparr>hr_num = n, hr_den = bg_int 1\<rparr> (of_int p / of_int q)"
      by (rule hr_isI [OF n bg_one]) (simp_all add: 1)
    then show ?thesis unfolding red using 1 by simp
  next
    case 2
    then have "hr_is \<lparr>hr_num = n, hr_den = d\<rparr> (of_int p / of_int q)" by (intro hr_isI [OF n d q]) (simp_all add: coprime_iff_gcd_eq_1)
    then show ?thesis unfolding red using 2 g one by simp
  next
    case 3
    obtain n' x where n': "bg_divmod n g = Some (n', x)" "bg_is n' (p sdiv gcd p q)" using bg_divmod_is [OF n g(2) gne] by blast
    obtain d' y where d': "bg_divmod d g = Some (d', y)" "bg_is d' (q sdiv gcd p q)" using bg_divmod_is [OF d g(2) gne] by blast
    have parts: "bg_is n' (p div gcd p q)" "bg_is d' (q div gcd p q)" using n'(2) d'(2) by (simp_all add: sdiv_dvd)
    have "0 < q div gcd p q" using q g0 by (simp add: pos_imp_zdiv_pos_iff zdvd_imp_le)
    moreover have "coprime (p div gcd p q) (q div gcd p q)" using q by (intro div_gcd_coprime) auto
    ultimately have "hr_is \<lparr>hr_num = n', hr_den = d'\<rparr> (of_int p / of_int q)"
      by (intro hr_isI [OF parts]) (simp_all add: fraction_cancel [OF g0, symmetric])
    then show ?thesis unfolding red using 3 g one n'(1) d'(1) by simp
  qed
qed

lemma hr_reduce_is:
  assumes n: "bg_is n p" and d: "bg_is d q" and q: "q \<noteq> 0"
  shows "\<exists>r. hr_reduce \<lparr>hr_num = n, hr_den = d\<rparr> = Some r \<and> hr_is r (of_int p / of_int q)"
proof (cases "q < 0")
  case True
  have s: "bg_sign d < 0" "\<not> bg_sign (bg_minus d) < 0"
    using True bg_sign_eq [OF d] bg_sign_eq [OF bg_minus_is [OF d]] by simp_all
  have "hr_reduce \<lparr>hr_num = n, hr_den = d\<rparr> = hr_reduce \<lparr>hr_num = bg_minus n, hr_den = bg_minus d\<rparr>"
    unfolding hr_reduce_def hsb_rational.simps if_P [OF s(1)] if_not_P [OF s(2)] ..
  then show ?thesis using hr_reduce_pos [OF bg_minus_is [OF n] bg_minus_is [OF d]] True by simp
next
  case False
  then show ?thesis using hr_reduce_pos [OF n d] q by simp
qed

lemma hr_fraction_is:
  assumes "bg_is n p" "bg_is d q"
  shows "if q = 0 then hr_fraction n d = Some None else \<exists>r. hr_fraction n d = Some (Some r) \<and> hr_is r (of_int p / of_int q)"
  using hr_reduce_is [OF assms] bg_is_zero_iff [OF assms(2)] by (auto simp: hr_fraction_def)

lemma hr_make_is: "bg_is n p \<Longrightarrow> bg_is d q \<Longrightarrow> q \<noteq> 0 \<Longrightarrow> x = of_int p / of_int q \<Longrightarrow> \<exists>r. hr_make n d = Some r \<and> hr_is r x"
  using hr_reduce_is by (simp add: hr_make_def)

lemma hr_ring:
  assumes "hr_is a x" "hr_is b y"
  shows "\<exists>r. hr_add a b = Some r \<and> hr_is r (x + y)" "\<exists>r. hr_sub a b = Some r \<and> hr_is r (x - y)"
    "\<exists>r. hr_mul a b = Some r \<and> hr_is r (x * y)" "y \<noteq> 0 \<Longrightarrow> \<exists>r. hr_div a b = Some r \<and> hr_is r (x / y)"
    "y = 0 \<Longrightarrow> hr_div a b = None"
proof -
  obtain p q where a: "bg_is (hr_num a) p" "bg_is (hr_den a) q" "0 < q" "x = of_int p / of_int q" using hr_isE [OF assms(1)] by metis
  obtain s t where b: "bg_is (hr_num b) s" "bg_is (hr_den b) t" "0 < t" "y = of_int s / of_int t" using hr_isE [OF assms(2)] by metis
  note den = bg_mul_is [OF a(2) b(2)] and ad = bg_mul_is [OF a(1) b(2)] and bd = bg_mul_is [OF b(1) a(2)]
  have qt: "q * t \<noteq> 0" using a(3) b(3) by simp
  show "\<exists>r. hr_add a b = Some r \<and> hr_is r (x + y)" unfolding hr_add_def a(4) b(4)
    by (rule hr_make_is [OF bg_add_is [OF ad bd] den qt]) (use a(3) b(3) in \<open>simp add: add_frac_eq\<close>)
  show "\<exists>r. hr_sub a b = Some r \<and> hr_is r (x - y)" unfolding hr_sub_def a(4) b(4)
    by (rule hr_make_is [OF bg_sub_is [OF ad bd] den qt]) (use a(3) b(3) in \<open>simp add: diff_frac_eq\<close>)
  show "\<exists>r. hr_mul a b = Some r \<and> hr_is r (x * y)" unfolding hr_mul_def a(4) b(4)
    by (rule hr_make_is [OF bg_mul_is [OF a(1) b(1)] den qt]) simp
  have z: "hr_is_zero b \<longleftrightarrow> y = 0" using b bg_is_zero_iff [OF b(1)] by (simp add: hr_is_zero_def)
  show "\<exists>r. hr_div a b = Some r \<and> hr_is r (x / y)" if "y \<noteq> 0"
  proof -
    have "q * s \<noteq> 0" using that a(3) b(4) by simp
    then show ?thesis using z that unfolding hr_div_def a(4) b(4)
      by (simp only: if_False) (rule hr_make_is [OF ad bg_mul_is [OF a(2) b(1)]], simp_all)
  qed
  show "hr_div a b = None" if "y = 0" using z that by (simp add: hr_div_def)
qed

lemma hr_signs:
  assumes "hr_is a x"
  shows "hr_is (hr_minus a) (- x)" "hr_is (hr_abs a) \<bar>x\<bar>" "hr_sign a = sgn (bg_val (hr_num a))"
    "of_int (hr_sign a) = sgn x" "hr_is_zero a \<longleftrightarrow> x = 0" "hr_is_integer a \<longleftrightarrow> x \<in> \<int>"
proof -
  obtain p q where a: "bg_is (hr_num a) p" "bg_is (hr_den a) q" "0 < q" "coprime p q" "x = of_int p / of_int q" using hr_isE [OF assms] by metis
  have "hr_is \<lparr>hr_num = bg_minus (hr_num a), hr_den = hr_den a\<rparr> (- x)"
    by (rule hr_isI [OF bg_minus_is [OF a(1)] a(2,3)]) (use a(4,5) in simp_all)
  then show "hr_is (hr_minus a) (- x)" by (simp add: hr_minus_def hr_is_def)
  have "hr_is \<lparr>hr_num = bg_abs (hr_num a), hr_den = hr_den a\<rparr> \<bar>x\<bar>"
    by (rule hr_isI [OF bg_abs_is [OF a(1)] a(2,3)]) (use a(3-5) in simp_all)
  then show "hr_is (hr_abs a) \<bar>x\<bar>" by (simp add: hr_abs_def hr_is_def)
  show s: "hr_sign a = sgn (bg_val (hr_num a))" using bg_sign_eq bg_isD(2) a(1) by (metis hr_sign_def)
  show "of_int (hr_sign a) = sgn x"
    using a(3,5) bg_isD(2) [OF a(1)] by (auto simp: s sgn_if divide_less_0_iff zero_less_divide_iff)
  show "hr_is_zero a \<longleftrightarrow> x = 0" using a(3,5) bg_is_zero_iff [OF a(1)] by (simp add: hr_is_zero_def)
  have one: "hr_is_integer a \<longleftrightarrow> q = 1" using bg_eq_iff [OF a(2) bg_one] by (simp add: hr_is_integer_def)
  show "hr_is_integer a \<longleftrightarrow> x \<in> \<int>"
  proof
    assume "x \<in> \<int>"
    then obtain z where "x = of_int z" by (elim Ints_cases)
    then have "quotient_of x = (z, 1)" using quotient_of_reduced [of 1 z] by simp
    then show "hr_is_integer a" using one a quotient_of_reduced [OF a(3,4)] by simp
  qed (use one a(5) in simp)
qed

lemma sgn_of_int: "sgn (of_int z :: rat) = of_int (sgn z)"
  by (simp add: sgn_if)

lemma hr_order:
  assumes "hr_is a x" "hr_is b y"
  shows "hr_eq a b \<longleftrightarrow> x = y" "of_int (hr_cmp a b) = sgn (x - y)"
proof -
  obtain p q where a: "bg_is (hr_num a) p" "bg_is (hr_den a) q" "0 < q" "x = of_int p / of_int q" using hr_isE [OF assms(1)] by metis
  obtain s t where b: "bg_is (hr_num b) s" "bg_is (hr_den b) t" "0 < t" "y = of_int s / of_int t" using hr_isE [OF assms(2)] by metis
  have "hr_eq a b \<longleftrightarrow> a = b" by (auto simp: hr_eq_def bg_eq_def intro: hsb_rational.equality bigint.equality)
  then show "hr_eq a b \<longleftrightarrow> x = y" using hr_equal [OF assms] by simp
  have den: "bg_eq (hr_den a) (hr_den b) \<longleftrightarrow> q = t" by (rule bg_eq_iff [OF a(2) b(2)])
  have lt: "x - y = of_int (p * t - s * q) / of_int (q * t)" unfolding a(4) b(4) using a(3) b(3) by (simp add: field_simps)
  have "0 < (of_int (q * t) :: rat)" using a(3) b(3) by simp
  then have "sgn (x - y) = sgn (of_int (p * t - s * q))" unfolding lt by (simp only: sgn_divide sgn_pos div_by_1)
  then have cross: "sgn (x - y) = of_int (sgn (p * t - s * q))" by (simp only: sgn_of_int)
  show "of_int (hr_cmp a b) = sgn (x - y)"
  proof (cases "q = t")
    case True
    then have "p * t - s * q = (p - s) * q" by (simp add: algebra_simps)
    then have "sgn (p * t - s * q) = sgn (p - s)" using a(3) by (simp add: sgn_mult)
    then show ?thesis using True den bg_cmp_eq [OF a(1) b(1)] cross by (simp add: hr_cmp_def)
  next
    case False
    then show ?thesis using den bg_cmp_eq [OF bg_mul_is [OF a(1) b(2)] bg_mul_is [OF b(1) a(2)]] cross
      by (simp add: hr_cmp_def)
  qed
qed

lemma pow2_is: "bg_is (pow2 k) (2 ^ k)"
proof -
  have two: "bg_is (bg_int 2) 2" by (rule bg_int_is) simp_all
  have "bg_is r v \<Longrightarrow> bg_is (pow2_loop k r) (v * 2 ^ k)" for r v
  proof (induction k arbitrary: r v)
    case (Suc k)
    then show ?case using Suc.IH [OF bg_mul_is [OF Suc.prems two]] by (simp add: mult.assoc)
  qed simp
  from this [OF bg_one] show ?thesis by (simp add: pow2_def)
qed

lemma hr_from_double_is:
  assumes "\<bar>m\<bar> \<le> 2 ^ 53"
  shows "\<exists>r. hr_from_double m e = Some (Some r) \<and> hr_is r (of_int m * (if 0 \<le> e then 2 ^ nat e else 1 / 2 ^ nat (- e)))"
proof -
  have m: "bg_is (bg_int m) m" using assms by (intro bg_int_is) auto
  show ?thesis
    using hr_fraction_is [OF bg_mul_is [OF m pow2_is [of "nat e"]] bg_one] hr_fraction_is [OF m pow2_is [of "nat (- e)"]]
    by (auto simp: hr_from_double_def Let_def)
qed

section \<open>Texts\<close>

text \<open>What the reader accepts, without the sign, and what it denotes.\<close>

inductive numeral :: "string \<Rightarrow> rat \<Rightarrow> bool" where
  numeral_int: "s \<noteq> [] \<Longrightarrow> all_digits s \<Longrightarrow> numeral s (of_nat (digits_value 0 s))"
| numeral_dec: "i \<noteq> [] \<Longrightarrow> all_digits i \<Longrightarrow> f \<noteq> [] \<Longrightarrow> all_digits f \<Longrightarrow>
    numeral (i @ ''.'' @ f) (of_nat (digits_value 0 (i @ f)) / 10 ^ length f)"
| numeral_frac: "p \<noteq> [] \<Longrightarrow> all_digits p \<Longrightarrow> q \<noteq> [] \<Longrightarrow> all_digits q \<Longrightarrow> digits_value 0 q \<noteq> 0 \<Longrightarrow>
    numeral (p @ ''/'' @ q) (of_nat (digits_value 0 p) / of_nat (digits_value 0 q))"

definition signed_numeral :: "string \<Rightarrow> rat \<Rightarrow> bool" where
  "signed_numeral s x \<longleftrightarrow> (if s \<noteq> [] \<and> hd s = CHR ''-'' then numeral (tl s) (- x) else numeral s x)"

lemma from_digits_Some: "s \<noteq> [] \<Longrightarrow> all_digits s \<Longrightarrow> \<exists>a. from_digits s = Some a \<and> bg_is a (int (digits_value 0 s))"
  using from_digits_iff [of s] by simp

lemma from_digits_None: "from_digits s = Some a \<Longrightarrow> s \<noteq> [] \<and> all_digits s"
  using from_digits_iff [of s] by (auto split: if_splits)

lemma digits_plain: "all_digits s \<Longrightarrow> c \<in> set s \<Longrightarrow> c \<noteq> CHR ''/'' \<and> c \<noteq> CHR ''.'' \<and> c \<noteq> CHR ''-''"
  using is_digit_iff by (auto simp: all_digits_def)

lemma cut_at: "all_digits p \<Longrightarrow> d = CHR ''/'' \<or> d = CHR ''.'' \<Longrightarrow>
    takeWhile (\<lambda>c. c \<noteq> d) (p @ d # q) = p \<and> dropWhile (\<lambda>c. c \<noteq> d) (p @ d # q) = d # q"
  using takeWhile_append_stop [of p "\<lambda>c. c \<noteq> d" d q] dropWhile_append_stop [of p "\<lambda>c. c \<noteq> d" d q] digits_plain by auto

lemma cut_join: "d \<in> set s \<Longrightarrow> s = takeWhile (\<lambda>c. c \<noteq> d) s @ d # tl (dropWhile (\<lambda>c. c \<noteq> d) s)"
  by (induction s) auto

lemma hr_of_is: "bg_is a v \<Longrightarrow> hr_is (hr_of a) (of_int v)"
  using hr_isI [OF _ bg_one, of a v] by (simp add: hr_of_def hr_zero_def)

text \<open>The three forms, once the parts are read.\<close>

lemma hr_read_dec:
  assumes "i \<noteq> []" "all_digits i" "f \<noteq> []" "all_digits f"
  shows "\<exists>r. hr_read (i @ ''.'' @ f) = Some (Some r) \<and> hr_is r (of_nat (digits_value 0 (i @ f)) / 10 ^ length f)"
proof -
  obtain a b where ab: "from_digits i = Some a" "bg_is a (int (digits_value 0 i))" "from_digits f = Some b" "bg_is b (int (digits_value 0 f))"
    using from_digits_Some assms by meson
  let ?n = "bg_add (bg_mul a (pow10 (length f))) b"
  have "digits_value 0 (i @ f) = digits_value 0 i * 10 ^ length f + digits_value 0 f"
    unfolding digits_value_append by (rule digits_value_shift)
  then have n: "bg_is ?n (int (digits_value 0 (i @ f)))" using bg_add_is [OF bg_mul_is [OF ab(2) pow10_is] ab(4)] by simp
  have "CHR ''/'' \<notin> set (i @ ''.'' @ f)" using assms digits_plain by auto
  then have "hr_read (i @ ''.'' @ f) = hr_fraction ?n (pow10 (length f))"
    using cut_at [OF assms(2), of "CHR ''.''" f] ab by (simp add: hr_read_def Let_def)
  then show ?thesis using hr_fraction_is [OF n pow10_is [of "length f"]] by simp
qed

lemma hr_read_frac:
  assumes "p \<noteq> []" "all_digits p" "q \<noteq> []" "all_digits q"
  shows "if digits_value 0 q = 0 then hr_read (p @ ''/'' @ q) = Some None
    else \<exists>r. hr_read (p @ ''/'' @ q) = Some (Some r) \<and> hr_is r (of_nat (digits_value 0 p) / of_nat (digits_value 0 q))"
proof -
  obtain a b where ab: "from_digits p = Some a" "bg_is a (int (digits_value 0 p))" "from_digits q = Some b" "bg_is b (int (digits_value 0 q))"
    using from_digits_Some assms by meson
  have "hr_read (p @ ''/'' @ q) = hr_fraction a b"
    using cut_at [OF assms(2), of "CHR ''/''" q] ab by (simp add: hr_read_def Let_def)
  then show ?thesis using hr_fraction_is [OF ab(2,4)] by (cases "digits_value 0 q = 0") simp_all
qed

lemma hr_read_numeral: "numeral s x \<Longrightarrow> \<exists>r. hr_read s = Some (Some r) \<and> hr_is r x"
proof (induction rule: numeral.induct)
  case (numeral_int s)
  then obtain a where a: "from_digits s = Some a" "bg_is a (int (digits_value 0 s))" using from_digits_Some by blast
  have "CHR ''/'' \<notin> set s" "CHR ''.'' \<notin> set s" using numeral_int digits_plain by blast+
  then show ?case using a hr_of_is [OF a(2)] by (simp add: hr_read_def)
next
  case (numeral_dec i f)
  then show ?case by (rule hr_read_dec)
next
  case (numeral_frac p q)
  then show ?case using hr_read_frac [of p q] by simp
qed

lemma hr_read_total: "\<exists>o'. hr_read s = Some o' \<and> (o' \<noteq> None \<longrightarrow> (\<exists>x. numeral s x))"
proof (cases "CHR ''/'' \<in> set s")
  case True
  define p q where d: "p = takeWhile (\<lambda>c. c \<noteq> CHR ''/'') s" "q = tl (dropWhile (\<lambda>c. c \<noteq> CHR ''/'') s)"
  have s: "s = p @ ''/'' @ q" using cut_join [OF True] by (simp add: d)
  show ?thesis
  proof (cases "from_digits p \<noteq> None \<and> from_digits q \<noteq> None")
    case both: True
    then have parts: "p \<noteq> []" "all_digits p" "q \<noteq> []" "all_digits q" using from_digits_None by auto
    show ?thesis
      using hr_read_frac [OF parts] numeral_frac [OF parts] unfolding s by (cases "digits_value 0 q = 0") auto
  next
    case False
    then have "hr_read s = Some None" using True by (auto simp: hr_read_def Let_def d split: option.splits)
    then show ?thesis by simp
  qed
next
  case slash: False
  show ?thesis
  proof (cases "CHR ''.'' \<in> set s")
    case True
    define i f where d: "i = takeWhile (\<lambda>c. c \<noteq> CHR ''.'') s" "f = tl (dropWhile (\<lambda>c. c \<noteq> CHR ''.'') s)"
    have s: "s = i @ ''.'' @ f" using cut_join [OF True] by (simp add: d)
    show ?thesis
    proof (cases "from_digits i \<noteq> None \<and> from_digits f \<noteq> None")
      case both: True
      then have parts: "i \<noteq> []" "all_digits i" "f \<noteq> []" "all_digits f" using from_digits_None by auto
      show ?thesis using hr_read_dec [OF parts] numeral_dec [OF parts] unfolding s by blast
    next
      case False
      then have "hr_read s = Some None" using True slash by (auto simp: hr_read_def Let_def d split: option.splits)
      then show ?thesis by simp
    qed
  next
    case False
    then have r: "hr_read s = Some (map_option hr_of (from_digits s))" using slash by (simp add: hr_read_def)
    show ?thesis
    proof (cases "from_digits s")
      case (Some a)
      then show ?thesis using r numeral_int [of s] from_digits_None [of s a] by auto
    qed (use r in simp)
  qed
qed

lemma hr_parse_text: "signed_numeral s x \<Longrightarrow> \<exists>r. hr_parse s = Some (Some r) \<and> hr_is r x"
proof (cases "s \<noteq> [] \<and> hd s = CHR ''-''")
  case True
  assume "signed_numeral s x"
  then obtain r where "hr_read (tl s) = Some (Some r)" "hr_is r (- x)"
    using hr_read_numeral [of "tl s" "- x"] True by (auto simp: signed_numeral_def)
  then show ?thesis using True hr_signs(1) [of r "- x"] by (simp add: hr_parse_def)
next
  case False
  assume "signed_numeral s x"
  then show ?thesis using hr_read_numeral [of s x] unfolding hr_parse_def signed_numeral_def Let_def if_not_P [OF False] by auto
qed

lemma hr_parse_total: "\<exists>o'. hr_parse s = Some o' \<and> (o' \<noteq> None \<longrightarrow> (\<exists>x. signed_numeral s x))"
proof (cases "s \<noteq> [] \<and> hd s = CHR ''-''")
  case True
  obtain o' where o': "hr_read (tl s) = Some o'" "o' \<noteq> None \<longrightarrow> (\<exists>x. numeral (tl s) x)" using hr_read_total by blast
  have "signed_numeral s (- x)" if "numeral (tl s) x" for x using that True by (simp add: signed_numeral_def)
  then show ?thesis using o' True by (auto simp: hr_parse_def)
next
  case False
  then show ?thesis using hr_read_total [of s] unfolding hr_parse_def signed_numeral_def Let_def if_not_P [OF False] by (simp add: option.map_ident)
qed

section \<open>Printing\<close>

lemma twos_loop_is:
  "bg_is d v \<Longrightarrow> 0 < v \<Longrightarrow> \<exists>d' t v'. twos_loop d n = Some (d', n + t) \<and> bg_is d' v' \<and> 0 < v' \<and> v = v' * 2 ^ t"
proof (induction "nat v" arbitrary: d v n rule: less_induct)
  case less
  show ?case
  proof (cases "odd v")
    case True
    then have "twos_loop d n = Some (d, n + 0)" using bg_is_odd_iff [OF less.prems(1)] by (simp add: twos_loop.simps [of d])
    then show ?thesis using less.prems by (metis mult.right_neutral power_0)
  next
    case False
    have two: "bg_is (bg_int 2) 2" by (rule bg_int_is) simp_all
    obtain q r where q: "bg_divmod d (bg_int 2) = Some (q, r)" "bg_is q (v sdiv 2)" using bg_divmod_is [OF less.prems(1) two] by (metis zero_neq_numeral)
    have v: "v sdiv 2 = v div 2" "v = v div 2 * 2" "0 < v div 2" "nat (v div 2) < nat v" using False less.prems(2) by (simp_all add: sdiv_dvd) presburger
    obtain d' t v' where "twos_loop q (Suc n) = Some (d', Suc n + t)" "bg_is d' v'" "0 < v'" "v div 2 = v' * 2 ^ t"
      using less.hyps [of "v div 2" q "Suc n"] q(2) v by auto
    then have "twos_loop d n = Some (d', n + Suc t) \<and> bg_is d' v' \<and> 0 < v' \<and> v = v' * 2 ^ Suc t"
      using q v(2) False bg_is_odd_iff [OF less.prems(1)] by (simp add: twos_loop.simps [of d])
    then show ?thesis by blast
  qed
qed

lemma fives_loop_is:
  "bg_is d v \<Longrightarrow> 0 < v \<Longrightarrow> \<exists>d' t v'. fives_loop d n = Some (d', n + t) \<and> bg_is d' v' \<and> 0 < v' \<and> v = v' * 5 ^ t"
proof (induction "nat v" arbitrary: d v n rule: less_induct)
  case less
  have five: "bg_is (bg_int 5) 5" by (rule bg_int_is) simp_all
  obtain q r where q: "bg_divmod d (bg_int 5) = Some (q, r)" "bg_is q (v sdiv 5)" "bg_is r (v smod 5)"
    using bg_divmod_is [OF less.prems(1) five] by (metis zero_neq_numeral)
  have r: "bg_is_zero r \<longleftrightarrow> 5 dvd v" using bg_is_zero_iff [OF q(3)] smod_eq_0_iff by simp
  show ?case
  proof (cases "5 dvd v")
    case False
    then have "fives_loop d n = Some (d, n + 0)" using q r by (simp add: fives_loop.simps [of d])
    then show ?thesis using less.prems by (metis mult.right_neutral power_0)
  next
    case True
    have v: "v sdiv 5 = v div 5" "v = v div 5 * 5" "0 < v div 5" "nat (v div 5) < nat v" using True less.prems(2) by (simp_all add: sdiv_dvd) presburger+
    obtain d' t v' where "fives_loop q (Suc n) = Some (d', Suc n + t)" "bg_is d' v'" "0 < v'" "v div 5 = v' * 5 ^ t"
      using less.hyps [of "v div 5" q "Suc n"] q(2) v by auto
    then have "fives_loop d n = Some (d', n + Suc t) \<and> bg_is d' v' \<and> 0 < v' \<and> v = v' * 5 ^ Suc t"
      using q v(2) True r by (simp add: fives_loop.simps [of d])
    then show ?thesis by blast
  qed
qed

lemma signed_digits: "all_digits t \<Longrightarrow> t \<noteq> [] \<Longrightarrow> numeral u y \<Longrightarrow> u = t @ v \<Longrightarrow>
    signed_numeral ((if neg then ''-'' else []) @ u) (if neg then - y else y)"
proof -
  assume t: "all_digits t" "t \<noteq> []" and u: "numeral u y" "u = t @ v"
  have "hd u \<in> set t" using t(2) u(2) by simp
  then have "hd u \<noteq> CHR ''-''" using digits_plain [OF t(1)] by blast
  then show ?thesis using u t(2) by (simp add: signed_numeral_def)
qed

lemma int_text: "signed_numeral (int_to_string p) (of_int p)"
proof -
  have "signed_numeral ((if p < 0 then ''-'' else []) @ nat_to_string (nat \<bar>p\<bar>))
      (if p < 0 then - of_nat (digits_value 0 (nat_to_string (nat \<bar>p\<bar>))) else of_nat (digits_value 0 (nat_to_string (nat \<bar>p\<bar>))))"
    by (rule signed_digits [OF _ _ numeral_int, where v = "[]"]) simp_all
  then show ?thesis by (cases "p < 0") (simp_all add: int_to_string_split nat_to_string_value)
qed

lemma fraction_text:
  assumes "0 < q"
  shows "signed_numeral (int_to_string p @ ''/'' @ int_to_string q) (of_int p / of_int q)"
proof -
  let ?p = "nat_to_string (nat \<bar>p\<bar>)" and ?q = "nat_to_string (nat q)"
  have "signed_numeral ((if p < 0 then ''-'' else []) @ ?p @ ''/'' @ ?q)
      (if p < 0 then - (of_nat (digits_value 0 ?p) / of_nat (digits_value 0 ?q)) else of_nat (digits_value 0 ?p) / of_nat (digits_value 0 ?q))"
    by (rule signed_digits [OF _ _ numeral_frac]) (use assms in \<open>simp_all add: nat_to_string_value\<close>)
  then show ?thesis using assms by (cases "p < 0") (simp_all add: int_to_string_split nat_to_string_value)
qed

lemma decimal_text:
  assumes "0 < k"
  shows "signed_numeral (place_decimal_point (nat_to_string m) k neg) ((if neg then - 1 else 1) * of_nat m / 10 ^ k)"
proof -
  let ?ds = "nat_to_string m"
  define pad where "pad = (if length ?ds \<le> k then replicate (k + 1 - length ?ds) (CHR ''0'') @ ?ds else ?ds)"
  note pl = place_decimal_point_split [where ds = ?ds and D = k, folded pad_def]
  let ?i = "take (length pad - k) pad" and ?f = "drop (length pad - k) pad"
  have "is_digit (CHR ''0'')" by (simp add: is_digit_def)
  then have "all_digits pad" using pl(5) all_digits_simps(4) [of m] unfolding all_digits_def by blast
  then have parts: "?i \<noteq> []" "all_digits ?i" "?f \<noteq> []" "all_digits ?f" "length ?f = k"
    using pl(2) assms all_digits_parts by auto
  have "signed_numeral ((if neg then ''-'' else []) @ ?i @ ''.'' @ ?f)
      (if neg then - (of_nat (digits_value 0 (?i @ ?f)) / 10 ^ length ?f) else of_nat (digits_value 0 (?i @ ?f)) / 10 ^ length ?f)"
    by (rule signed_digits [OF parts(2,1) numeral_dec [OF parts(1-4)]]) simp
  then show ?thesis unfolding pl(1) using parts(5) pl(3) by (cases neg) (simp_all add: nat_to_string_value)
qed

lemma ten_split:
  assumes "q = 2 ^ t * 5 ^ u"
  shows "q dvd (10 :: int) ^ max t u"
proof -
  have "(10 :: int) ^ max t u = 2 ^ max t u * 5 ^ max t u" by (simp flip: power_mult_distrib)
  moreover have "(2 :: int) ^ t dvd 2 ^ max t u" "(5 :: int) ^ u dvd 5 ^ max t u" by (simp_all add: le_imp_power_dvd)
  ultimately show ?thesis unfolding assms by (simp add: mult_dvd_mono)
qed

lemma hr_to_fraction_string_is: "hr_is r x \<Longrightarrow> \<exists>s. hr_to_fraction_string r = Some s \<and> signed_numeral s x"
proof -
  assume "hr_is r x"
  then obtain p q where a: "bg_is (hr_num r) p" "bg_is (hr_den r) q" "0 < q" "coprime p q" "x = of_int p / of_int q" by (rule hr_isE)
  have "hr_is_integer r \<longleftrightarrow> q = 1" using bg_eq_iff [OF a(2) bg_one] by (simp add: hr_is_integer_def)
  then show ?thesis
    using bg_to_string_text [OF a(1)] bg_to_string_text [OF a(2)] int_text [of p] fraction_text [OF a(3), of p] a(5)
    by (cases "q = 1") (simp_all add: hr_to_fraction_string_def)
qed

lemma hr_to_string_is: "hr_is r x \<Longrightarrow> \<exists>s. hr_to_string r = Some s \<and> signed_numeral s x"
proof -
  assume r: "hr_is r x"
  then obtain p q where a: "bg_is (hr_num r) p" "bg_is (hr_den r) q" "0 < q" "coprime p q" "x = of_int p / of_int q" by (rule hr_isE)
  have int: "hr_is_integer r \<longleftrightarrow> q = 1" using bg_eq_iff [OF a(2) bg_one] by (simp add: hr_is_integer_def)
  obtain d t v where two: "twos_loop (hr_den r) 0 = Some (d, t)" "bg_is d v" "0 < v" "q = v * 2 ^ t"
    using twos_loop_is [OF a(2,3), of 0] by auto
  obtain d' u w where five: "fives_loop d 0 = Some (d', u)" "bg_is d' w" "0 < w" "v = w * 5 ^ u"
    using fives_loop_is [OF two(2,3), of 0] by auto
  have one: "bg_eq d' (bg_int 1) \<longleftrightarrow> w = 1" by (rule bg_eq_iff [OF five(2) bg_one])
  consider "q = 1" | "q \<noteq> 1" "w \<noteq> 1" | "q \<noteq> 1" "w = 1" by blast
  then show ?thesis
  proof cases
    case 1
    then show ?thesis using int bg_to_string_text [OF a(1)] int_text [of p] a(5) by (simp add: hr_to_string_def)
  next
    case 2
    then show ?thesis
      using int one two(1) five(1) bg_to_string_text [OF a(1)] bg_to_string_text [OF a(2)] fraction_text [OF a(3), of p] a(5)
      by (simp add: hr_to_string_def)
  next
    case 3
    let ?k = "max t u"
    have q: "q = 2 ^ t * 5 ^ u" using two(4) five(4) 3 by simp
    have k: "0 < ?k" using q 3(1) by (cases "t = 0"; cases "u = 0") auto
    obtain c y where c: "bg_divmod (pow10 ?k) (hr_den r) = Some (c, y)" "bg_is c (10 ^ ?k sdiv q)"
      using bg_divmod_is [OF pow10_is a(2)] a(3) by (metis less_irrefl)
    define m where "m = \<bar>p\<bar> * (10 ^ ?k div q)"
    have m: "bg_is (bg_mul (bg_abs (hr_num r)) c) m" "0 \<le> m"
      using bg_mul_is [OF bg_abs_is [OF a(1)] c(2)] sdiv_dvd [OF ten_split [OF q]] a(3) by (simp_all add: m_def pos_imp_zdiv_nonneg_iff)
    have s: "hr_to_string r = Some (place_decimal_point (nat_to_string (nat m)) ?k (bg_sign (hr_num r) < 0))"
      using int 3 one two(1) five(1) c(1) bg_to_string_text [OF m(1)] m(2) by (simp add: hr_to_string_def Let_def int_to_string_def)
    have "(10 :: int) ^ ?k = q * (10 ^ ?k div q)" using ten_split [OF q] by simp
    then have "(10 :: rat) ^ ?k = of_int q * of_int (10 ^ ?k div q)" by (metis of_int_mult of_int_numeral of_int_power)
    moreover have "of_int (10 ^ ?k div q) \<noteq> (0 :: rat)" using calculation by (metis mult_zero_right power_not_zero zero_neq_numeral)
    ultimately have "of_int m / 10 ^ ?k = (of_int \<bar>p\<bar> / of_int q :: rat)" using a(3) by (simp add: m_def)
    then have "(if bg_sign (hr_num r) < 0 then - 1 else 1) * of_nat (nat m) / 10 ^ ?k = x"
      using bg_sign_eq [OF a(1)] m(2) a(5) by (auto simp: sgn_if abs_if)
    then show ?thesis using s decimal_text [OF k, of "nat m" "bg_sign (hr_num r) < 0"] by auto
  qed
qed

section \<open>What the component promises\<close>

lemma gcds: "gcd 2 3 = (1 :: int)" "gcd 7 40 = (1 :: int)"
  by code_simp+

text \<open>
  C38: the operations of the rationals return, and their results are reduced fractions that stand for the
  exact result; only a division by zero has none. Equality and the order of representations are those of
  the rationals.
\<close>

theorem rational_arithmetic:
  assumes "hr_ok a" and "hr_ok b"
  shows "(\<exists>r. hr_add a b = Some r \<and> hr_ok r \<and> hr_val r = hr_val a + hr_val b) \<and>
    (\<exists>r. hr_sub a b = Some r \<and> hr_ok r \<and> hr_val r = hr_val a - hr_val b) \<and>
    (\<exists>r. hr_mul a b = Some r \<and> hr_ok r \<and> hr_val r = hr_val a * hr_val b) \<and>
    (if hr_is_zero b then hr_div a b = None
     else \<exists>r. hr_div a b = Some r \<and> hr_ok r \<and> hr_val r = hr_val a / hr_val b) \<and>
    hr_ok (hr_minus a) \<and> hr_val (hr_minus a) = - hr_val a \<and> hr_ok (hr_abs a) \<and> hr_val (hr_abs a) = \<bar>hr_val a\<bar> \<and>
    (hr_is_zero b \<longleftrightarrow> hr_val b = 0) \<and> (hr_is_integer a \<longleftrightarrow> hr_val a \<in> \<int>) \<and>
    (hr_eq a b \<longleftrightarrow> hr_val a = hr_val b) \<and> of_int (hr_cmp a b) = sgn (hr_val a - hr_val b)"
proof -
  have is_a: "hr_is a (hr_val a)" and is_b: "hr_is b (hr_val b)" using assms by (simp_all add: hr_is_iff)
  note ring = hr_ring [OF is_a is_b, unfolded hr_is_iff] and sa = hr_signs [OF is_a, unfolded hr_is_iff]
    and sb = hr_signs [OF is_b] and ord = hr_order [OF is_a is_b]
  have "if hr_is_zero b then hr_div a b = None else \<exists>r. hr_div a b = Some r \<and> hr_ok r \<and> hr_val r = hr_val a / hr_val b"
    using ring(4,5) sb(5) by simp
  then show ?thesis using ring(1-3) sa(1,2,6) sb(5) ord by blast
qed

theorem rational_arithmetic_witness:
  "\<exists>r. hr_sub \<lparr>hr_num = bg_int 1, hr_den = bg_int 6\<rparr> \<lparr>hr_num = bg_int 2, hr_den = bg_int 3\<rparr> = Some r \<and> hr_ok r \<and> hr_val r = - 1 / 2"
proof -
  have b: "bg_ok (bg_int v) \<and> bg_val (bg_int v) = v" if "0 \<le> v" "v < 10" for v using bg_int_is [of v] that by (simp add: bg_is_def)
  have "hr_ok \<lparr>hr_num = bg_int 1, hr_den = bg_int 6\<rparr>" "hr_ok \<lparr>hr_num = bg_int 2, hr_den = bg_int 3\<rparr>"
    using b [of 1] b [of 6] b [of 2] b [of 3] gcds by (simp_all add: hr_ok_def coprime_iff_gcd_eq_1)
  from rational_arithmetic [OF this] show ?thesis
    using b [of 1] b [of 6] b [of 2] b [of 3] by (simp add: hr_val_def)
qed

text \<open>
  C39: a reduced fraction is printed, as a decimal where its expansion ends and as a fraction, and both texts
  are read back as the same representation; the reader answers for every text, with the exact value of
  those of its grammar (digits, two runs of digits with a point or a slash between, a sign before) that
  have one and with nothing for all others.
\<close>

theorem rational_texts:
  assumes "hr_ok r"
  shows "(\<exists>s. hr_to_string r = Some s \<and> hr_parse s = Some (Some r)) \<and>
    (\<exists>s. hr_to_fraction_string r = Some s \<and> hr_parse s = Some (Some r)) \<and>
    (\<forall>t. \<exists>o'. hr_parse t = Some o' \<and>
      (case o' of None \<Rightarrow> \<not> (\<exists>x. signed_numeral t x) | Some u \<Rightarrow> hr_ok u \<and> signed_numeral t (hr_val u)))"
proof (intro conjI allI)
  have r: "hr_is r (hr_val r)" using assms by (simp add: hr_is_iff)
  have again: "hr_parse s = Some (Some r)" if "signed_numeral s (hr_val r)" for s
    using hr_parse_text [OF that] hr_equal [OF r] by fastforce
  show "\<exists>s. hr_to_string r = Some s \<and> hr_parse s = Some (Some r)" using hr_to_string_is [OF r] again by blast
  show "\<exists>s. hr_to_fraction_string r = Some s \<and> hr_parse s = Some (Some r)" using hr_to_fraction_string_is [OF r] again by blast
  fix t
  show "\<exists>o'. hr_parse t = Some o' \<and>
      (case o' of None \<Rightarrow> \<not> (\<exists>x. signed_numeral t x) | Some u \<Rightarrow> hr_ok u \<and> signed_numeral t (hr_val u))"
  proof (cases "\<exists>x. signed_numeral t x")
    case True
    then obtain x where x: "signed_numeral t x" by blast
    then obtain u where "hr_parse t = Some (Some u)" "hr_ok u" "hr_val u = x"
      using hr_parse_text [OF x] by (auto simp: hr_is_iff)
    then show ?thesis using x by simp
  next
    case False
    then show ?thesis using hr_parse_total [of t] by auto
  qed
qed

theorem rational_texts_witness:
  "\<exists>s. hr_to_string \<lparr>hr_num = bg_int (- 7), hr_den = bg_int 40\<rparr> = Some s \<and>
     hr_parse s = Some (Some \<lparr>hr_num = bg_int (- 7), hr_den = bg_int 40\<rparr>)"
proof -
  have "hr_ok \<lparr>hr_num = bg_int (- 7), hr_den = bg_int 40\<rparr>"
    using bg_int_is [of "- 7"] bg_int_is [of 40] gcds by (simp add: hr_ok_def bg_is_def coprime_iff_gcd_eq_1)
  from conjunct1 [OF rational_texts [OF this]] show ?thesis .
qed

end
