(* ===== verification/Spec2Isabelle.thy ===== *)
theory Spec2Isabelle
  imports Qint_Text Scoped_Union_Find Union_Find_Order Union_Find_Rings Bounded_Cache String_Dict
    Hoa_Label_Reader Strategy_Text Zielonka Omcat_Realised Game_Reader Product_Correct Bdd_Loewenheim
    Hsb_Rational
begin

text \<open>
  A verification library for the Tau language (\<^verbatim>\<open>src/\<close> of the repository): the data structures,
  Boolean algebras and game solvers its satisfiability and synthesis procedures rest on, translated
  from the C++ sources.

  \<^bold>\<open>The program.\<close> A Tau specification is a formula over Boolean algebras and time. The front end
  parses it to a hash-consed tree, infers types with union-find structures and normalises it. A
  specification without nested temporal operators is solved step by step with the general solution
  and the splitter of its algebra. A temporal one becomes a propositional skeleton: \<^verbatim>\<open>ltlsynt\<close>
  answers a strategy or a game in the HOA format, the program reads, minimises and bounds the strategy
  (\<^verbatim>\<open>ltl_strategy_minimize.h\<close>, \<^verbatim>\<open>ltl_aba_synthesis.tmpl.h\<close>), or takes the product of the game with the
  types of the data and solves it as a parity game (\<^verbatim>\<open>algorithm_d_game.h\<close>, \<^verbatim>\<open>omcat_types.h\<close>). What is
  modelled is the part below the formula tree.

  \<^bold>\<open>Conventions.\<close> A class or struct is a record and an enum a datatype, with the names of the source
  where they do not clash (a prefix such as \<open>qint_\<close>, \<open>bc_\<close>, \<open>hb_\<close> otherwise). Static tables and
  objects changed in place are passed and returned. A \<^verbatim>\<open>result<T>\<close> is a sum, its error on the left, and
  an optional an option. A loop or recursion that might not end is a \<^theory_text>\<open>partial_function\<close> whose
  value \<open>None\<close> stands for not returning; that it returns is then part of the property. A
  vector is a list, a \<^verbatim>\<open>std::map\<close> the list of its entries in iteration order or a HOL map where the order
  is not read, a signed 128-bit integer an integer (that none overflows is proved where it matters), an
  unsigned value a natural number reduced where the code stores it.

  \<^bold>\<open>Theories, in the order of their dependence.\<close>

  \<^item> \<^theory_text>\<open>Tau_Prelude\<close>: errors as sums, characters, decimal numerals, truncating division, and the named
    collections of facts.
  \<^item> \<^theory_text>\<open>Exact_Rational\<close> (\<^verbatim>\<open>boolean_algebras/exact_rational.h\<close>): reduction of a quotient, the reader of
    decimals and fractions, the placement of a decimal point. Properties: lowest terms and the exact
    condition of failure; a text accepted denotes the value returned.
  \<^item> \<^theory_text>\<open>Set_Algebra\<close> (\<^verbatim>\<open>bool_ba.*\<close>, \<^verbatim>\<open>product_ba.h\<close>): the locale \<open>set_algebra\<close>, the contract of a Boolean
    algebra whose elements stand for sets and are canonical; the two-element algebra and the product
    algebra meet it.
  \<^item> \<^theory_text>\<open>Half_Open\<close>, \<^theory_text>\<open>Qint\<close>, \<^theory_text>\<open>Qint_Text\<close> (\<^verbatim>\<open>boolean_algebras/qint\<close>): ordered maps of half-open intervals,
    first over a linear order and then, through the locale \<open>key_embedding\<close>, over the ends of the code;
    the algebra with its literals, order, midpoint and splitter; the texts of ends. A qint denotes a set
    of points, so the algebra is an interpretation of \<open>set_algebra\<close>.
  \<^item> \<^theory_text>\<open>Bigint_Limbs\<close>, \<^theory_text>\<open>Bigint_Division\<close>, \<^theory_text>\<open>Bigint\<close>, \<^theory_text>\<open>Hsb_Rational\<close>
    (\<^verbatim>\<open>boolean_algebras/hsb/hsb_rational.h\<close>): magnitudes in limbs of 32 bits with 64-bit intermediates
    reduced where the code stores them, the long division (Knuth's algorithm D: a limb is guessed from the
    top limbs, corrected, and corrected once more after the subtraction), signed integers and reduced
    fractions over them, and their texts. The magnitude of every operation is the natural number intended,
    so no intermediate loses a bit. The texts of fractions share \<^verbatim>\<open>place_decimal_point\<close> with the ends of qint.
  \<^item> \<^theory_text>\<open>Union_Find\<close>, \<^theory_text>\<open>Union_Find_Order\<close>, \<^theory_text>\<open>Scoped_Union_Find\<close>, \<^theory_text>\<open>Union_Find_Rings\<close>
    (\<^verbatim>\<open>union_find.h\<close>, \<^verbatim>\<open>union_find_with_sets.h\<close>): parent maps with path compression. The invariant is
    acyclicity; the abstract state is an equivalence. The locale \<open>disjoint_sets\<close> has the two merge
    policies as interpretations; scopes restore names; rings list their class.
  \<^item> \<^theory_text>\<open>Bounded_Cache\<close> (\<^verbatim>\<open>bounded_cache.h\<close>) refines a bounded queue; \<^theory_text>\<open>String_Dict\<close> (\<^verbatim>\<open>dict.h\<close>,
    \<^verbatim>\<open>backends/bdds/var_dict.cpp\<close>) interns strings.
  \<^item> \<^theory_text>\<open>Hoa_Label\<close>, \<^theory_text>\<open>Hoa_Label_Reader\<close>, \<^theory_text>\<open>Hoa_Label_Dnf\<close> (\<^verbatim>\<open>hoa_label.h\<close>): the operator-precedence
    reader accepts exactly its grammar; the folds over what it reads share the locale \<open>node_fold\<close>.
  \<^item> \<^theory_text>\<open>Hoa_Scan\<close> (\<^verbatim>\<open>hoa_scan.h\<close>): lines, header and body of an automaton; whatever the text, what is
    accepted is well formed.
  \<^item> \<^theory_text>\<open>Strategy_Minimize\<close>, \<^theory_text>\<open>Strategy_Quotient\<close>, \<^theory_text>\<open>Strategy_Refinement\<close>, \<^theory_text>\<open>Strategy_Bisim\<close>,
    \<^theory_text>\<open>Strategy_Text\<close> (\<^verbatim>\<open>ltl_strategy_minimize.h\<close>, parts of \<^verbatim>\<open>ltl_aba_result.h\<close> and
    \<^verbatim>\<open>ltl_aba_synthesis.tmpl.h\<close>): truth tables of guards, partition refinement, the quotient, its text,
    the memo of the last strategy read and the bound on strategies. The classes are those of the coarsest
    bisimulation that also matches edges no valuation takes; that the bisimulation of the runs can be
    coarser is shown by an example. The text of a strategy reads back when the header it replaces has the
    form \<open>hoa_form\<close>; a proposition named like the body marker is shown to break it. The bound is shown
    of the strategy the memo answers with, whatever the form.
  \<^item> \<^theory_text>\<open>Parity_Game\<close>, \<^theory_text>\<open>Game_Attractor\<close>, \<^theory_text>\<open>Zielonka\<close> (\<^verbatim>\<open>algorithm_d_game.h\<close>): the locale
    \<open>attractor_contract\<close> has both attractor computations of the code as interpretations; the solver ends
    with the winning regions.
  \<^item> \<^theory_text>\<open>Omcat_Types\<close>, \<^theory_text>\<open>Omcat_Realised\<close> (\<^verbatim>\<open>omcat_types.h\<close>): types of tuples of rationals, and which of
    them some rationals have; the element that stands for a type, and when it is refused.
  \<^item> \<^theory_text>\<open>Synth_Game\<close>, \<^theory_text>\<open>Game_Reader\<close>, \<^theory_text>\<open>Product_Game\<close>, \<^theory_text>\<open>Product_Correct\<close> (\<^verbatim>\<open>algorithm_d_game.h\<close>): the reader
    of acceptance conditions and games, the cached call, the product with the memory types, and the
    decision: its answer is whether the system wins, and the priorities stored decide the acceptance
    the text names, for colours below the declared count.
  \<^item> \<^theory_text>\<open>Bdd_Engine\<close>, \<^theory_text>\<open>Bdd_Trees\<close>, \<^theory_text>\<open>Bdd_Correct\<close>, \<^theory_text>\<open>Bdd_Ops\<close>, \<^theory_text>\<open>Bdd_Read\<close>, \<^theory_text>\<open>Bdd_Build\<close>
    (\<^verbatim>\<open>backends/bdds/babdd.h\<close>): the node table with input and output inversion and variable shift, the
    memos, the flag that a table is full, and every operation. A reference stands for a reduced ordered
    decision tree; equal functions have equal references.
  \<^item> \<^theory_text>\<open>Bdd_Handle\<close>, \<^theory_text>\<open>Bdd_Solve\<close>, \<^theory_text>\<open>Bdd_Loewenheim\<close> (\<^verbatim>\<open>backends/bdds/bdd_handle.h\<close>,
    \<^verbatim>\<open>splitter_types.h\<close>): hash-consed handles over the engine, the general solution
    (\<^verbatim>\<open>lgrs\<close>) and the splitters. They import the string dictionary for the names of variables.

  \<^bold>\<open>How the parts meet.\<close> The strategy component reads through the scanner, which reads guards with the
  label reader; the product game reads its game through the scanner, keeps it in the bounded cache, takes
  its memory from the types and is solved by the parity game solver, so \<open>algorithm_d_decides\<close> speaks of
  the whole chain from a game to the answer. The handles are built from the engine.

  \<^bold>\<open>Groups of lemmas.\<close> In each component: the invariant and its preservation (\<open>wf\<close>, \<open>ok\<close> lemmas); what
  an operation denotes in the abstract model (\<open>den\<close>, \<open>val\<close>, \<open>refines\<close> lemmas); that the loops end;
  then the properties, each after a text with its number. A property with hypotheses is followed by a
  witness, a concrete run on which it is applied.

  \<^bold>\<open>Bounds and fuel.\<close> No definition takes fuel: a loop is structural, a total function with a measure
  or a partial one proved to return (in the diagrams because the children of a node precede it). Id and shift widths of the diagrams are the defaults (18 and 12 bits); when they are exhausted the code
  raises a flag, and the properties say what holds unless it is raised. The caps of the readers
  (\<open>max_states\<close>, \<open>int_max\<close>, \<open>long_max\<close>, \<open>truth_table_max_aps\<close>, \<open>ltl_max_game_aps\<close>) are those of the code. Integers of the code that are unbounded here, with the condition
  under which they agree, are named at the head of their theory: counters of texts beyond \<open>2 ^ 31\<close>
  characters, priorities of colours near the largest \<^verbatim>\<open>int\<close>, and \<^verbatim>\<open>1 << K\<close> for more than 30 data atoms.

  \<^bold>\<open>Not modelled.\<close> Everything over formula trees (normal forms, normalizer, antiprenexing,
  satisfiability, solver, interpreter, type inference, the builders of skeletons): the tree library and
  the generated parsers are a submodule that is not in the repository. The bitvector algebra computes with
  terms of an SMT library, the natural language algebra with the answers of a language model, the backends
  call external programs: their answers are arguments. Child processes, clocks, memory budgets, streams,
  the command line, the API and the bindings are I/O. Of the modelled files: printing to streams, hashes
  (they only place an entry in a table), conversions to floating point, and in the decision diagrams the leaves in algebras other than
  the two-element one.
\<close>

end
